(* ===== verification/Kernel_Prelude.thy ===== *)
theory Kernel_Prelude
  imports Main "HOL-Library.Word"
begin

section \<open>Prelude: types, error codes and list lemmas shared by the components\<close>

text \<open>
  Conventions of the whole development.
  \<^item> \<open>fatal_exception(msg)\<close> stops the kernel. An operation that can reach it
    returns \<open>string + 'a\<close>: \<open>Inl msg\<close> is the panic, \<open>Inr\<close> the normal return.
  \<^item> A \<open>kmalloc\<close> made by a component is an argument of the operation: a function from
    the number of cells asked for to \<open>None\<close> (the \<open>NULL\<close> return) or \<open>Some\<close> of the
    uninitialised cells, or a boolean where only success matters.
  \<^item> A pointer argument to a structure is the structure itself, so the guards
    \<open>if (arg == NULL)\<close> on such arguments have no branch. A pointer that a structure
    stores, or that an operation may return as \<open>NULL\<close>, is an \<open>option\<close>.
  \<^item> A critical section between \<open>spin_lock_irqsave\<close> and \<open>spin_unlock_irqrestore\<close> is one
    atomic step of the model.
  \<^item> File system calls return \<open>err_t\<close> (\<^verbatim>\<open>src/kernel/fs/errors.h\<close>) and system calls
    a negative \<open>SYS_E...\<close> number (\<^verbatim>\<open>src/kernel/errno.h\<close>): both are \<open>int\<close> here.
\<close>

type_synonym 'a kres = "string + 'a"
type_synonym 'a cell_alloc = "nat \<Rightarrow> 'a list option"
type_synonym err_t = int
type_synonym byte = "8 word"
type_synonym u16 = "16 word"
type_synonym u32 = "32 word"
type_synonym u64 = "64 word"

text \<open>The panic of a stray access.\<close>

abbreviation data_abort :: string where "data_abort \<equiv> ''data abort''"

named_theorems kabs \<open>abstraction function of an operation's result\<close>
named_theorems kinv \<open>invariants kept by the operations\<close>

subsection \<open>File system error codes (errors.h)\<close>

abbreviation (input) SUCCESS :: err_t where "SUCCESS \<equiv> 0"
abbreviation (input) FILE_WRITE_ERROR :: err_t where "FILE_WRITE_ERROR \<equiv> - 1"
abbreviation (input) FILE_READ_ERROR :: err_t where "FILE_READ_ERROR \<equiv> - 3"
abbreviation (input) NO_FREE_BLOCKS :: err_t where "NO_FREE_BLOCKS \<equiv> - 7"
abbreviation (input) INODE_FULL :: err_t where "INODE_FULL \<equiv> - 8"
abbreviation (input) INVALID_ARGS :: err_t where "INVALID_ARGS \<equiv> - 9"
abbreviation (input) FILE_NOT_FOUND :: err_t where "FILE_NOT_FOUND \<equiv> - 13"
abbreviation (input) ILLEGAL_BLOCK_NO :: err_t where "ILLEGAL_BLOCK_NO \<equiv> - 14"
abbreviation (input) FS_INVALID :: err_t where "FS_INVALID \<equiv> - 21"

subsection \<open>System call error codes (errno.h)\<close>

abbreviation (input) SYS_ESRCH :: int where "SYS_ESRCH \<equiv> - 3"
abbreviation (input) SYS_EINTR :: int where "SYS_EINTR \<equiv> - 4"
abbreviation (input) SYS_EBADF :: int where "SYS_EBADF \<equiv> - 9"
abbreviation (input) SYS_ECHILD :: int where "SYS_ECHILD \<equiv> - 10"
abbreviation (input) SYS_EAGAIN :: int where "SYS_EAGAIN \<equiv> - 11"
abbreviation (input) SYS_ENOMEM :: int where "SYS_ENOMEM \<equiv> - 12"
abbreviation (input) SYS_EFAULT :: int where "SYS_EFAULT \<equiv> - 14"
abbreviation (input) SYS_EINVAL :: int where "SYS_EINVAL \<equiv> - 22"

subsection \<open>Lists updated by index\<close>

lemma list_eq_by_nth:
  assumes "length xs = length ys"
    and "\<And>i. i < length ys \<Longrightarrow> xs ! i = ys ! i"
  shows "xs = ys"
  using assms by (simp add: list_eq_iff_nth_eq)

lemma take_list_update_last [simp]:
  "n < length xs \<Longrightarrow> take (Suc n) (xs[n := x]) = take n xs @ [x]"
  by (simp add: take_Suc_conv_app_nth)

lemma nth_append_singleton:
  "(xs @ [x]) ! i = (if i < length xs then xs ! i else [x] ! (i - length xs))"
  by (simp add: nth_append)

subsection \<open>Words\<close>

lemma unat_ucast_32_64 [simp]: "unat (ucast (w :: u32) :: u64) = unat w"
proof -
  have "unat w < 2 ^ 32" using unsigned_less [of w] by simp
  then have "unat w < 2 ^ 64" by simp
  then show ?thesis by (simp add: unsigned_ucast_eq take_bit_nat_eq_self)
qed

end
