(* ===== verification/Vec.thy ===== *)
theory Vec
  imports Kernel_Prelude
begin

section \<open>Growable arrays: \<^verbatim>\<open>src/kernel/data-structs/vec.c\<close>\<close>

text \<open>
  A \<open>Vec\<close> is a buffer of \<open>capacity\<close> pointer cells of which the first \<open>length\<close> are in
  use. The record keeps the buffer as a list of all its cells (those past \<open>length\<close> hold
  whatever was there), so that the copy and shift loops of the source are the loops of the
  model. \<open>ele_dtor_fn\<close> is known only by whether it is set; the operations that call it
  return, as a list, the elements it was called on, in order.
  Theorems: every operation keeps \<open>vec_inv\<close> and does to \<open>vec_list\<close>, the list of the
  elements in use, what its name says. The kernel's queues and tables are lists of that
  kind in the other theories.
\<close>

subsection \<open>Data and operations\<close>

record 'a vec =
  vdata :: "'a list"
  vlength :: nat
  vcapacity :: nat
  vdtor :: bool

definition vec_new :: "'a cell_alloc \<Rightarrow> nat \<Rightarrow> bool \<Rightarrow> 'a vec kres" where
  "vec_new alloc initial_capacity dtor =
     (case alloc initial_capacity of
        None \<Rightarrow> Inl ''Failed to allocate memory.''
      | Some d \<Rightarrow> Inr \<lparr>vdata = d, vlength = 0, vcapacity = initial_capacity, vdtor = dtor\<rparr>)"

definition vec_is_empty :: "'a vec \<Rightarrow> bool" where
  "vec_is_empty v \<longleftrightarrow> vlength v = 0"

definition vec_get :: "'a vec \<Rightarrow> nat \<Rightarrow> 'a kres" where
  "vec_get v index =
     (if index \<ge> vlength v then Inl ''Get index must be less than length.''
      else Inr (vdata v ! index))"

definition vec_set :: "'a vec \<Rightarrow> nat \<Rightarrow> 'a \<Rightarrow> ('a vec \<times> 'a list) kres" where
  "vec_set v index new_ele =
     (if index \<ge> vlength v then Inl ''Index out of bounds.''
      else Inr (v\<lparr>vdata := (vdata v)[index := new_ele]\<rparr>,
                if vdtor v then [vdata v ! index] else []))"

text \<open>The copy loop of \<open>vec_reserve\<close>: cells \<open>i\<close> to \<open>n - 1\<close>.\<close>

function copy_cells :: "nat \<Rightarrow> nat \<Rightarrow> 'a list \<Rightarrow> 'a list \<Rightarrow> 'a list" where
  "copy_cells i n src dst =
     (if i < n then copy_cells (Suc i) n src (dst[i := src ! i]) else dst)"
  by pat_completeness auto
termination
  by (relation "measure (\<lambda>(i, n, src, dst). n - i)") auto

definition vec_reserve :: "'a cell_alloc \<Rightarrow> 'a vec \<Rightarrow> nat \<Rightarrow> 'a vec kres" where
  "vec_reserve alloc v new_capacity =
     (if new_capacity < vlength v then Inl ''Resize capacity must be at least length.''
      else case alloc new_capacity of
        None \<Rightarrow> Inl ''Failed to allocate memory.''
      | Some d \<Rightarrow> Inr (v\<lparr>vdata := copy_cells 0 (vlength v) (vdata v) d,
                         vcapacity := new_capacity\<rparr>))"

definition grown_capacity :: "'a vec \<Rightarrow> nat" where
  "grown_capacity v = (if vcapacity v = 0 then 1 else vcapacity v * 2)"

definition vec_push_back :: "'a cell_alloc \<Rightarrow> 'a vec \<Rightarrow> 'a \<Rightarrow> 'a vec kres" where
  "vec_push_back alloc v new_ele =
     (case (if vlength v \<ge> vcapacity v then vec_reserve alloc v (grown_capacity v)
            else Inr v) of
        Inl msg \<Rightarrow> Inl msg
      | Inr w \<Rightarrow> Inr (w\<lparr>vdata := (vdata w)[vlength w := new_ele],
                       vlength := vlength w + 1\<rparr>))"

text \<open>The result is the boolean return value, the removed element and the vector.\<close>

definition vec_pop_back :: "'a vec \<Rightarrow> bool \<times> 'a option \<times> 'a vec" where
  "vec_pop_back v =
     (if vec_is_empty v then (False, None, v)
      else (True, Some (vdata v ! (vlength v - 1)), v\<lparr>vlength := vlength v - 1\<rparr>))"

text \<open>The loop of \<open>vec_insert\<close>: \<open>temp\<close> carries the element to be stored next.\<close>

function shift_right :: "nat \<Rightarrow> nat \<Rightarrow> 'a \<Rightarrow> 'a list \<Rightarrow> 'a \<times> 'a list" where
  "shift_right i n temp d =
     (if i < n then shift_right (Suc i) n (d ! i) (d[i := temp]) else (temp, d))"
  by pat_completeness auto
termination
  by (relation "measure (\<lambda>(i, n, temp, d). n - i)") auto

definition vec_insert :: "'a cell_alloc \<Rightarrow> 'a vec \<Rightarrow> nat \<Rightarrow> 'a \<Rightarrow> 'a vec kres" where
  "vec_insert alloc v index new_ele =
     (if index = vlength v then vec_push_back alloc v new_ele
      else if index > vlength v then Inl ''Insertion index out of bounds.''
      else case (if vlength v = vcapacity v then vec_reserve alloc v (grown_capacity v)
                 else Inr v) of
        Inl msg \<Rightarrow> Inl msg
      | Inr w \<Rightarrow>
          (let (temp, d) = shift_right (index + 1) (vlength w) (vdata w ! index)
                             ((vdata w)[index := new_ele])
           in Inr (w\<lparr>vdata := d[vlength w := temp], vlength := vlength w + 1\<rparr>)))"

text \<open>The loop of \<open>vec_erase\<close>, over the indices \<open>i\<close> to \<open>n - 1\<close>.\<close>

function shift_left :: "nat \<Rightarrow> nat \<Rightarrow> 'a list \<Rightarrow> 'a list" where
  "shift_left i n d = (if i < n then shift_left (Suc i) n (d[i := d ! (i + 1)]) else d)"
  by pat_completeness auto
termination
  by (relation "measure (\<lambda>(i, n, d). n - i)") auto

definition vec_erase :: "'a vec \<Rightarrow> nat \<Rightarrow> ('a vec \<times> 'a list) kres" where
  "vec_erase v index =
     (if index \<ge> vlength v then Inl ''Erase index out of bounds.''
      else Inr (v\<lparr>vdata := shift_left index (vlength v - 1) (vdata v),
                  vlength := vlength v - 1\<rparr>,
                if vdtor v then [vdata v ! index] else []))"

definition vec_clear :: "'a vec \<Rightarrow> 'a vec \<times> 'a list" where
  "vec_clear v =
     (v\<lparr>vlength := 0\<rparr>, if vdtor v then map (\<lambda>i. vdata v ! i) [0..<vlength v] else [])"

definition vec_destroy :: "'a vec \<Rightarrow> 'a vec \<times> 'a list" where
  "vec_destroy v =
     (let (w, destroyed) = vec_clear v
      in (w\<lparr>vdata := [], vcapacity := 0, vlength := 0\<rparr>, destroyed))"

declare copy_cells.simps [simp del] shift_right.simps [simp del] shift_left.simps [simp del]

subsection \<open>Invariant and abstraction\<close>

definition vec_inv :: "'a vec \<Rightarrow> bool" where
  "vec_inv v \<longleftrightarrow> vlength v \<le> vcapacity v \<and> length (vdata v) = vcapacity v"

definition vec_list :: "'a vec \<Rightarrow> 'a list" where
  "vec_list v = take (vlength v) (vdata v)"

text \<open>What \<open>kmalloc\<close> promises: a non-\<open>NULL\<close> result has the cells that were asked for.\<close>

definition alloc_ok :: "'a cell_alloc \<Rightarrow> bool" where
  "alloc_ok alloc \<longleftrightarrow> (\<forall>n d. alloc n = Some d \<longrightarrow> length d = n)"

lemma length_vec_list [simp]: "vec_inv v \<Longrightarrow> length (vec_list v) = vlength v"
  by (simp add: vec_inv_def vec_list_def)

lemma vec_list_nth: "vec_inv v \<Longrightarrow> i < vlength v \<Longrightarrow> vec_list v ! i = vdata v ! i"
  by (simp add: vec_inv_def vec_list_def)

subsection \<open>The loops\<close>

lemma copy_cells_length [simp]: "length (copy_cells i n src dst) = length dst"
  by (induction i n src dst rule: copy_cells.induct) (simp add: copy_cells.simps)

lemma copy_cells_nth:
  "n \<le> length dst \<Longrightarrow> j < length dst \<Longrightarrow>
   copy_cells i n src dst ! j = (if i \<le> j \<and> j < n then src ! j else dst ! j)"
proof (induction i n src dst rule: copy_cells.induct)
  case (1 i n src dst)
  then show ?case
    by (subst copy_cells.simps) (auto simp: nth_list_update Suc_le_eq le_less)
qed

lemma shift_left_length [simp]: "length (shift_left i n d) = length d"
  by (induction i n d rule: shift_left.induct) (simp add: shift_left.simps)

lemma shift_left_nth:
  "n < length d \<Longrightarrow> j < length d \<Longrightarrow>
   shift_left i n d ! j = (if i \<le> j \<and> j < n then d ! (j + 1) else d ! j)"
proof (induction i n d rule: shift_left.induct)
  case (1 i n d)
  then show ?case
    by (subst shift_left.simps) (auto simp: nth_list_update Suc_le_eq le_less)
qed

lemma shift_right_length [simp]: "length (snd (shift_right i n temp d)) = length d"
  by (induction i n temp d rule: shift_right.induct) (simp add: shift_right.simps)

lemma shift_right_fst:
  "n \<le> length d \<Longrightarrow> fst (shift_right i n temp d) = (if i < n then d ! (n - 1) else temp)"
proof (induction i n temp d rule: shift_right.induct)
  case (1 i n temp d)
  then show ?case
    by (subst shift_right.simps) (auto simp: nth_list_update not_less le_Suc_eq)
qed

lemma shift_right_nth:
  "n \<le> length d \<Longrightarrow> j < length d \<Longrightarrow>
   snd (shift_right i n temp d) ! j =
     (if i \<le> j \<and> j < n then if j = i then temp else d ! (j - 1) else d ! j)"
proof (induction i n temp d rule: shift_right.induct)
  case (1 i n temp d)
  then show ?case
    by (subst shift_right.simps) (auto simp: nth_list_update)
qed

subsection \<open>Every operation on the list of elements\<close>

lemma vec_new_list [kabs, kinv]:
  assumes "alloc_ok alloc" and "vec_new alloc n dtor = Inr v"
  shows "vec_inv v" and "vec_list v = []"
  using assms by (auto simp: vec_new_def vec_inv_def vec_list_def alloc_ok_def split: option.splits)

lemma vec_get_list: "vec_inv v \<Longrightarrow> i < vlength v \<Longrightarrow> vec_get v i = Inr (vec_list v ! i)"
  by (simp add: vec_get_def vec_list_nth)

lemma vec_set_list:
  assumes "vec_inv v" and "vec_set v i x = Inr (w, ds)"
  shows "vec_inv w" and "vec_list w = (vec_list v)[i := x]" and "i < vlength v"
    and "ds = (if vdtor v then [vec_list v ! i] else [])"
  using assms
  by (auto simp: vec_set_def vec_inv_def vec_list_def take_update_swap split: if_splits)

lemma vec_reserve_list:
  assumes "vec_inv v" and "alloc_ok alloc" and "vec_reserve alloc v n = Inr w"
  shows "vec_inv w" and "vec_list w = vec_list v" and "vlength w = vlength v"
    and "vcapacity w = n" and "vdtor w = vdtor v"
proof -
  from assms(3) obtain d where n: "vlength v \<le> n" and d: "alloc n = Some d"
    and w: "w = v\<lparr>vdata := copy_cells 0 (vlength v) (vdata v) d, vcapacity := n\<rparr>"
    by (auto simp: vec_reserve_def split: if_splits option.splits)
  from d assms(2) have len: "length d = n" by (simp add: alloc_ok_def)
  show "vec_inv w" using n len by (simp add: w vec_inv_def)
  show "vec_list w = vec_list v"
    using n len assms(1)
    by (intro list_eq_by_nth) (simp_all add: w vec_list_def vec_inv_def copy_cells_nth)
qed (use assms in \<open>auto simp: vec_reserve_def split: if_splits option.splits\<close>)

lemma grown_capacity_room: "vec_inv v \<Longrightarrow> vlength v < grown_capacity v"
  by (auto simp: vec_inv_def grown_capacity_def)

text \<open>Both growing operations make room first.\<close>

lemma make_room_list:
  assumes "vec_inv v" and "alloc_ok alloc"
    and "(if full then vec_reserve alloc v (grown_capacity v) else Inr v) = Inr w"
    and "\<not> full \<Longrightarrow> vlength v < vcapacity v"
  shows "vec_inv w" and "vec_list w = vec_list v" and "vlength w = vlength v"
    and "vlength w < vcapacity w" and "vdtor w = vdtor v"
  using assms vec_reserve_list [OF assms(1,2), of "grown_capacity v" w] grown_capacity_room [of v]
  by (auto split: if_splits)

lemma vec_push_back_list:
  assumes "vec_inv v" and "alloc_ok alloc" and "vec_push_back alloc v x = Inr w"
  shows "vec_inv w" and "vec_list w = vec_list v @ [x]" and "vlength w = vlength v + 1"
proof -
  from assms(3) obtain u where
    u: "(if vlength v \<ge> vcapacity v then vec_reserve alloc v (grown_capacity v) else Inr v) = Inr u"
    and w: "w = u\<lparr>vdata := (vdata u)[vlength u := x], vlength := vlength u + 1\<rparr>"
    by (auto simp: vec_push_back_def split: sum.splits)
  note room = make_room_list [OF assms(1,2) u]
  have inv: "vec_inv u" and list: "vec_list u = vec_list v" and len: "vlength u = vlength v"
    and less: "vlength u < vcapacity u"
    using room by auto
  show "vec_inv w" using inv less by (simp add: w vec_inv_def)
  have "vec_list w = take (vlength u) (vdata u) @ [x]"
    using inv less by (simp add: w vec_list_def vec_inv_def)
  then show "vec_list w = vec_list v @ [x]" using list by (simp add: vec_list_def)
  show "vlength w = vlength v + 1" by (simp add: w len)
qed

lemma vec_pop_back_list:
  assumes "vec_inv v" and "vec_pop_back v = (r, e, w)"
  shows "vec_inv w" and "vec_list w = butlast (vec_list v)"
    and "r = (vec_list v \<noteq> [])" and "e = (if vec_list v = [] then None else Some (last (vec_list v)))"
  using assms
  by (auto simp: vec_pop_back_def vec_is_empty_def vec_inv_def vec_list_def butlast_take
      last_conv_nth split: if_splits)

lemma vec_insert_list:
  assumes inv: "vec_inv v" and al: "alloc_ok alloc" and ins: "vec_insert alloc v i x = Inr w"
  shows "vec_inv w \<and> vec_list w = take i (vec_list v) @ x # drop i (vec_list v)"
proof (cases "i = vlength v")
  case True
  with ins have "vec_push_back alloc v x = Inr w" by (simp add: vec_insert_def)
  from vec_push_back_list [OF inv al this] True inv show ?thesis by simp
next
  case False
  with ins have i: "i < vlength v" by (auto simp: vec_insert_def split: if_splits)
  from ins False i obtain u where
    u: "(if vlength v = vcapacity v then vec_reserve alloc v (grown_capacity v) else Inr v) = Inr u"
    and w: "w = u\<lparr>vdata := (snd (shift_right (i + 1) (vlength u) (vdata u ! i) ((vdata u)[i := x])))
                 [vlength u := fst (shift_right (i + 1) (vlength u) (vdata u ! i) ((vdata u)[i := x]))],
               vlength := vlength u + 1\<rparr>"
    by (auto simp: vec_insert_def split: sum.splits prod.splits)
  have uinv: "vec_inv u" and list: "vec_list u = vec_list v" and len: "vlength u = vlength v"
    and less: "vlength u < vcapacity u"
    using make_room_list [OF inv al u] inv by (auto simp: vec_inv_def)
  have cells: "vec_list v = take (vlength u) (vdata u)" using list by (simp add: vec_list_def)
  have "vec_list w = take i (take (vlength u) (vdata u)) @ x # drop i (take (vlength u) (vdata u))"
    using uinv less i len
    by (intro list_eq_by_nth)
      (auto simp: w vec_list_def vec_inv_def nth_list_update shift_right_nth shift_right_fst
        nth_append nth_Cons' less_Suc_eq min_def)
  moreover have "vec_inv w" using uinv less by (simp add: w vec_inv_def)
  ultimately show ?thesis by (simp add: cells)
qed

lemma vec_erase_list:
  assumes inv: "vec_inv v" and er: "vec_erase v i = Inr (w, ds)"
  shows "vec_inv w" and "vec_list w = take i (vec_list v) @ drop (i + 1) (vec_list v)"
    and "i < vlength v" and "ds = (if vdtor v then [vec_list v ! i] else [])"
proof -
  from er have i: "i < vlength v"
    and w: "w = v\<lparr>vdata := shift_left i (vlength v - 1) (vdata v), vlength := vlength v - 1\<rparr>"
    and ds: "ds = (if vdtor v then [vdata v ! i] else [])"
    by (auto simp: vec_erase_def split: if_splits)
  show "vec_inv w" using inv by (auto simp: w vec_inv_def)
  have le: "vlength v \<le> length (vdata v)" using inv by (simp add: vec_inv_def)
  show "vec_list w = take i (vec_list v) @ drop (i + 1) (vec_list v)"
  proof (rule list_eq_by_nth)
    show "length (vec_list w) = length (take i (vec_list v) @ drop (i + 1) (vec_list v))"
      using i le by (simp add: w vec_list_def)
  next
    fix j assume "j < length (take i (vec_list v) @ drop (i + 1) (vec_list v))"
    with i le have "j < vlength v - 1" by (simp add: vec_list_def)
    with i le show "vec_list w ! j = (take i (vec_list v) @ drop (i + 1) (vec_list v)) ! j"
      by (simp add: w vec_list_def shift_left_nth nth_append)
  qed
  show "i < vlength v" by (rule i)
  show "ds = (if vdtor v then [vec_list v ! i] else [])"
    using i by (simp add: ds vec_list_def)
qed

lemma vec_clear_list:
  assumes "vec_inv v"
  shows "vec_inv (fst (vec_clear v))" and "vec_list (fst (vec_clear v)) = []"
    and "snd (vec_clear v) = (if vdtor v then vec_list v else [])"
  using assms
  by (auto simp: vec_clear_def vec_inv_def vec_list_def intro: list_eq_by_nth)

lemma vec_destroy_list:
  assumes "vec_inv v"
  shows "vec_inv (fst (vec_destroy v))" and "vec_list (fst (vec_destroy v)) = []"
    and "snd (vec_destroy v) = (if vdtor v then vec_list v else [])"
  using assms vec_clear_list [OF assms]
  by (auto simp: vec_destroy_def vec_inv_def vec_list_def split: prod.splits)

subsection \<open>The sequence interface\<close>

text \<open>
  What the clients of a vector rely on: insertion at the front, removal at the back, and
  the list both act on. The kernel's ready queues insert at index 0 and pop at the back.
\<close>

locale sequence =
  fixes inv :: "'v \<Rightarrow> bool"
    and elems :: "'v \<Rightarrow> 'a list"
    and put_front :: "'v \<Rightarrow> 'a \<Rightarrow> 'v kres"
    and take_back :: "'v \<Rightarrow> bool \<times> 'a option \<times> 'v"
  assumes put_front_inv: "inv v \<Longrightarrow> put_front v x = Inr w \<Longrightarrow> inv w"
    and put_front_elems: "inv v \<Longrightarrow> put_front v x = Inr w \<Longrightarrow> elems w = x # elems v"
    and take_back_inv: "inv v \<Longrightarrow> take_back v = (r, e, w) \<Longrightarrow> inv w"
    and take_back_elems: "inv v \<Longrightarrow> take_back v = (r, e, w) \<Longrightarrow> elems w = butlast (elems v)"
    and take_back_result: "inv v \<Longrightarrow> take_back v = (r, e, w) \<Longrightarrow>
      e = (if elems v = [] then None else Some (last (elems v)))"
begin

fun put_all :: "'v \<Rightarrow> 'a list \<Rightarrow> 'v kres" where
  "put_all v [] = Inr v"
| "put_all v (x # xs) = (case put_front v x of Inl m \<Rightarrow> Inl m | Inr w \<Rightarrow> put_all w xs)"

fun take_n :: "nat \<Rightarrow> 'v \<Rightarrow> 'a option list" where
  "take_n 0 v = []"
| "take_n (Suc n) v = (case take_back v of (r, e, w) \<Rightarrow> e # take_n n w)"

lemma put_all_elems:
  "inv v \<Longrightarrow> put_all v xs = Inr w \<Longrightarrow> inv w \<and> elems w = rev xs @ elems v"
proof (induction xs arbitrary: v)
  case (Cons x xs)
  then obtain u where u: "put_front v x = Inr u" and rest: "put_all u xs = Inr w"
    by (auto split: sum.splits)
  from put_front_inv [OF Cons.prems(1) u] put_front_elems [OF Cons.prems(1) u]
    Cons.IH [OF _ rest]
  show ?case by simp
qed simp

lemma take_n_elems:
  "inv v \<Longrightarrow> n \<le> length (elems v) \<Longrightarrow> take_n n v = map Some (take n (rev (elems v)))"
proof (induction n arbitrary: v)
  case (Suc n)
  obtain r e w where t: "take_back v = (r, e, w)" by (cases "take_back v") auto
  from Suc.prems have ne: "elems v \<noteq> []" by auto
  then obtain ys y where ys: "elems v = ys @ [y]" by (cases "elems v" rule: rev_cases) auto
  have "take_n n w = map Some (take n (rev (elems w)))"
    using Suc.IH [of w] Suc.prems take_back_inv [OF _ t] take_back_elems [OF _ t] by simp
  then show ?case
    using Suc.prems t ys take_back_elems [OF _ t] take_back_result [OF _ t] by simp
qed simp

lemma first_in_first_out:
  assumes "inv v" and "elems v = []" and "put_all v xs = Inr w"
  shows "take_n (length xs) w = map Some xs"
  using put_all_elems [OF assms(1,3)] take_n_elems [of w "length xs"] assms(2) by simp

end

text \<open>Insertion at index 0, as \<open>add_thread_to_scheduler_locked\<close> does it.\<close>

definition vec_insert_front :: "'a cell_alloc \<Rightarrow> 'a vec \<Rightarrow> 'a \<Rightarrow> 'a vec kres" where
  "vec_insert_front alloc v x = vec_insert alloc v 0 x"

text \<open>An allocator whose results always have the size that was asked for.\<close>

definition kmalloc_cells :: "(nat \<Rightarrow> 'a list option) \<Rightarrow> 'a cell_alloc" where
  "kmalloc_cells raw n = (case raw n of Some d \<Rightarrow> if length d = n then Some d else None | None \<Rightarrow> None)"

lemma alloc_ok_kmalloc_cells [simp, intro]: "alloc_ok (kmalloc_cells raw)"
  by (auto simp: alloc_ok_def kmalloc_cells_def split: option.splits if_splits)

interpretation vseq: sequence vec_inv vec_list "vec_insert_front (kmalloc_cells raw)" vec_pop_back
  for raw :: "nat \<Rightarrow> 'a list option"
proof unfold_locales
  fix v w :: "'a vec" and x :: 'a
  assume v: "vec_inv v" "vec_insert_front (kmalloc_cells raw) v x = Inr w"
  with vec_insert_list [of v "kmalloc_cells raw" 0 x w]
  show "vec_inv w" and "vec_list w = x # vec_list v"
    by (auto simp: vec_insert_front_def)
qed (use vec_pop_back_list in \<open>blast+\<close>)

fun vec_put_all :: "'a cell_alloc \<Rightarrow> 'a vec \<Rightarrow> 'a list \<Rightarrow> 'a vec kres" where
  "vec_put_all alloc v [] = Inr v"
| "vec_put_all alloc v (x # xs) =
     (case vec_insert alloc v 0 x of Inl m \<Rightarrow> Inl m | Inr w \<Rightarrow> vec_put_all alloc w xs)"

fun vec_take_n :: "nat \<Rightarrow> 'a vec \<Rightarrow> 'a option list" where
  "vec_take_n 0 v = []"
| "vec_take_n (Suc n) v = (case vec_pop_back v of (r, e, w) \<Rightarrow> e # vec_take_n n w)"

lemma vec_put_all_vseq: "vec_put_all (kmalloc_cells raw) v xs = vseq.put_all raw v xs"
  by (induction xs arbitrary: v) (simp_all add: vec_insert_front_def split: sum.splits)

lemma vec_take_n_vseq: "vec_take_n n v = vseq.take_n n v"
  by (induction n arbitrary: v) (simp_all split: prod.splits)

subsection \<open>Properties\<close>


definition vec_example :: "nat vec" where
  "vec_example = \<lparr>vdata = [10, 20], vlength = 2, vcapacity = 2, vdtor = True\<rparr>"


text \<open>C33. \<open>vec_erase\<close> removes exactly the element at the index, hands it to the destructor
  when there is one, keeps the order of the others, and stops the kernel exactly when the
  index is out of range.\<close>

theorem vec_erase_correct:
  assumes "vec_inv v"
  shows "(case vec_erase v i of
            Inr (w, destroyed) \<Rightarrow> i < vlength v \<and> vec_inv w
              \<and> vec_list w = take i (vec_list v) @ drop (i + 1) (vec_list v)
              \<and> destroyed = (if vdtor v then [vec_list v ! i] else [])
          | Inl msg \<Rightarrow> vlength v \<le> i)"
proof (cases "vec_erase v i")
  case (Inr p)
  obtain w ds where "p = (w, ds)" by (cases p)
  with Inr vec_erase_list [OF assms, of i w ds] show ?thesis by simp
qed (auto simp: vec_erase_def split: if_splits)

theorem vec_erase_correct_witness:
  "vec_inv vec_example \<and>
   (case vec_erase vec_example 0 of
      Inr (w, destroyed) \<Rightarrow> vec_list w = [20] \<and> destroyed = [10] | Inl _ \<Rightarrow> False)"
proof -
  have inv: "vec_inv vec_example" by (simp add: vec_example_def vec_inv_def)
  show ?thesis
    using vec_erase_correct [OF inv, of 0] inv
    by (simp add: vec_example_def vec_erase_def vec_list_def shift_left.simps)
qed



end
