(* ===== verification/Ring_Buffer.thy ===== *)
theory Ring_Buffer
  imports Kernel_Prelude
begin

section \<open>Ring buffers: \<^verbatim>\<open>src/kernel/data-structs/ring_buffer.c\<close>\<close>

text \<open>
  The byte queue behind pipes, terminals and the UART. \<open>head\<close> and \<open>tail\<close> are pointers into
  \<open>data\<close>; the model keeps their offset, and \<open>None\<close> for \<open>NULL\<close>. \<open>create_ring_buffer\<close>
  does not look at the result of \<open>kmalloc\<close>, so \<open>data\<close> may be \<open>NULL\<close>; an access
  through \<open>NULL\<close> is a data abort, the \<open>Inl\<close> result of an operation.
  Theorems: under \<open>rb_inv\<close> no operation faults, and each acts on \<open>rb_list\<close>, the queued
  bytes in order, as a bounded queue does. The interface of such a queue is the locale
  \<open>bounded_queue\<close>.
\<close>

subsection \<open>Data and operations\<close>

record rbuf =
  rb_head :: "nat option"
  rb_tail :: "nat option"
  rb_data :: "byte list option"
  rb_capacity :: nat
  rb_size :: nat

text \<open>The source allocates \<open>sizeof(char*) * capacity\<close> bytes, eight times the capacity.\<close>

definition create_ring_buffer :: "byte cell_alloc \<Rightarrow> nat \<Rightarrow> rbuf" where
  "create_ring_buffer alloc capacity =
     \<lparr>rb_head = None, rb_tail = None, rb_data = alloc (8 * capacity),
      rb_capacity = capacity, rb_size = 0\<rparr>"


definition consume_ring_buffer :: "rbuf \<Rightarrow> (bool \<times> byte option \<times> rbuf) kres" where
  "consume_ring_buffer buf =
     (if rb_size buf = 0 then Inr (False, None, buf)
      else case (rb_head buf, rb_data buf) of
        (Some head, Some d) \<Rightarrow>
          (if head \<ge> length d then Inl data_abort
           else
             let size = rb_size buf - 1;
                 next_head = (if head = rb_capacity buf - 1 then 0 else head + 1)
             in Inr (True, Some (d ! head),
                  buf\<lparr>rb_size := size,
                      rb_head := (if size = 0 then None else Some next_head),
                      rb_tail := (if size = 0 then None else rb_tail buf)\<rparr>))
      | _ \<Rightarrow> Inl data_abort)"

text \<open>The position \<open>tail\<close> is moved to before the byte is stored.\<close>

definition next_tail :: "rbuf \<Rightarrow> nat option" where
  "next_tail buf =
     (if rb_size buf = 0 then Some 0
      else case rb_tail buf of
        None \<Rightarrow> None
      | Some t \<Rightarrow> Some (if t = rb_capacity buf - 1 then 0 else t + 1))"

definition produce_ring_buffer :: "rbuf \<Rightarrow> byte \<Rightarrow> (bool \<times> rbuf) kres" where
  "produce_ring_buffer buf next =
     (if rb_size buf = rb_capacity buf then Inr (False, buf)
      else case (next_tail buf, rb_data buf) of
        (Some tail, Some d) \<Rightarrow>
          (if tail \<ge> length d then Inl data_abort
           else Inr (True,
             buf\<lparr>rb_head := (if rb_size buf = 0 then Some 0 else rb_head buf),
                 rb_tail := Some tail, rb_data := Some (d[tail := next]),
                 rb_size := rb_size buf + 1\<rparr>))
      | _ \<Rightarrow> Inl data_abort)"

definition remove_back_ring_buffer :: "rbuf \<Rightarrow> bool \<times> rbuf" where
  "remove_back_ring_buffer buf =
     (if rb_size buf = 0 then (False, buf)
      else
        let size = rb_size buf - 1;
            tail = (if rb_tail buf = Some 0 then Some (rb_capacity buf - 1)
                    else map_option (\<lambda>t. t - 1) (rb_tail buf))
        in (True, buf\<lparr>rb_size := size,
                      rb_tail := (if size = 0 then None else tail),
                      rb_head := (if size = 0 then None else rb_head buf)\<rparr>))"

subsection \<open>Invariant and abstraction\<close>

definition rb_inv :: "rbuf \<Rightarrow> bool" where
  "rb_inv b \<longleftrightarrow>
     (case rb_data b of None \<Rightarrow> False | Some d \<Rightarrow> rb_capacity b \<le> length d) \<and>
     rb_size b \<le> rb_capacity b \<and>
     (if rb_size b = 0 then rb_head b = None \<and> rb_tail b = None
      else case (rb_head b, rb_tail b) of
        (Some h, Some t) \<Rightarrow> h < rb_capacity b \<and> t = (h + rb_size b - 1) mod rb_capacity b
      | _ \<Rightarrow> False)"

definition rb_list :: "rbuf \<Rightarrow> byte list" where
  "rb_list b =
     (case (rb_data b, rb_head b) of
        (Some d, Some h) \<Rightarrow> map (\<lambda>i. d ! ((h + i) mod rb_capacity b)) [0..<rb_size b]
      | _ \<Rightarrow> [])"

lemma rb_inv_empty: "rb_inv b \<Longrightarrow> rb_size b = 0 \<Longrightarrow> rb_list b = []"
  by (simp add: rb_inv_def rb_list_def split: option.splits)

lemma rb_inv_nonempty:
  assumes "rb_inv b" and "0 < rb_size b"
  obtains d h where "rb_data b = Some d" "rb_head b = Some h"
    "rb_tail b = Some ((h + rb_size b - 1) mod rb_capacity b)"
    "h < rb_capacity b" "rb_capacity b \<le> length d" "rb_size b \<le> rb_capacity b"
    "rb_list b = map (\<lambda>i. d ! ((h + i) mod rb_capacity b)) [0..<rb_size b]"
  using assms by (auto simp: rb_inv_def rb_list_def split: option.splits)

lemma length_rb_list [simp]: "rb_inv b \<Longrightarrow> length (rb_list b) = rb_size b"
  by (cases "rb_size b = 0") (auto simp: rb_inv_empty elim: rb_inv_nonempty)

text \<open>One step of a pointer around the ring.\<close>

lemma wrap_step:
  "x < (c :: nat) \<Longrightarrow> (if x = c - 1 then 0 else x + 1) = (x + 1) mod c"
  by (auto simp: mod_if)

lemma wrap_back:
  assumes "x < (c :: nat)"
  shows "(x + c - 1) mod c = (if x = 0 then c - 1 else x - 1)"
proof (cases "x = 0")
  case False
  then have "x + c - 1 = (x - 1) + c" using assms by simp
  then have "(x + c - 1) mod c = (x - 1) mod c" by (metis mod_add_self2)
  then show ?thesis using assms False by simp
qed (use assms in simp)

lemma wrap_injective_le:
  assumes "i \<le> j" "j < (c :: nat)" "(h + j) mod c = (h + i) mod c"
  shows "i = j"
proof -
  have "c dvd (h + j) - (h + i)"
    using assms by (simp only: mod_eq_dvd_iff_nat add_le_cancel_left)
  then have "c dvd j - i" by simp
  then have "j - i = 0" using assms(2) by (auto dest: dvd_imp_le)
  then show ?thesis using assms(1) by simp
qed

lemma wrap_injective:
  assumes "i < (c :: nat)" "j < c" "(h + i) mod c = (h + j) mod c"
  shows "i = j"
  using assms wrap_injective_le [of i j c h] wrap_injective_le [of j i c h]
  by (cases "i \<le> j") auto

subsection \<open>Each operation as a queue operation\<close>

lemma create_ring_buffer_inv:
  "alloc (8 * c) = Some d \<Longrightarrow> length d = 8 * c \<Longrightarrow> rb_inv (create_ring_buffer alloc c)"
  by (simp add: create_ring_buffer_def rb_inv_def)

lemma create_ring_buffer_list [simp]: "rb_list (create_ring_buffer alloc c) = []"
  by (simp add: create_ring_buffer_def rb_list_def split: option.splits)

lemma consume_empty:
  "rb_inv b \<Longrightarrow> rb_list b = [] \<Longrightarrow> consume_ring_buffer b = Inr (False, None, b)"
  using length_rb_list [of b] by (simp add: consume_ring_buffer_def)

lemma consume_nonempty:
  assumes inv: "rb_inv b" and ne: "rb_list b = x # xs"
  shows "\<exists>b'. consume_ring_buffer b = Inr (True, Some x, b') \<and> rb_inv b' \<and> rb_list b' = xs
           \<and> rb_capacity b' = rb_capacity b"
proof -
  have size: "0 < rb_size b" using length_rb_list [OF inv] ne by simp
  from rb_inv_nonempty [OF inv size] obtain d h where
    d: "rb_data b = Some d" and h: "rb_head b = Some h"
    and t: "rb_tail b = Some ((h + rb_size b - 1) mod rb_capacity b)"
    and hc: "h < rb_capacity b" and len: "rb_capacity b \<le> length d"
    and sc: "rb_size b \<le> rb_capacity b"
    and l: "rb_list b = map (\<lambda>i. d ! ((h + i) mod rb_capacity b)) [0..<rb_size b]" .
  define h' where "h' = (h + 1) mod rb_capacity b"
  define b' where "b' = b\<lparr>rb_size := rb_size b - 1,
      rb_head := (if rb_size b - 1 = 0 then None else Some h'),
      rb_tail := (if rb_size b - 1 = 0 then None else rb_tail b)\<rparr>"
  have "[0..<rb_size b] = 0 # map Suc [0..<rb_size b - 1]"
    using size by (cases "rb_size b") (simp_all add: map_Suc_upt upt_conv_Cons del: upt_Suc)
  then have x: "x = d ! h" and xs: "xs = map (\<lambda>i. d ! ((h + Suc i) mod rb_capacity b)) [0..<rb_size b - 1]"
    using ne l hc by (auto simp: comp_def)
  have shift: "(h' + i) mod rb_capacity b = (h + Suc i) mod rb_capacity b" for i
    by (simp add: h'_def mod_simps)
  have "consume_ring_buffer b = Inr (True, Some x, b')"
    using size d h hc len wrap_step [OF hc]
    by (simp add: consume_ring_buffer_def b'_def h'_def x Let_def)
  moreover have "rb_inv b'"
    using hc len sc size d h t shift [of "rb_size b - 2"]
    by (auto simp: rb_inv_def b'_def h'_def Suc_diff_Suc numeral_2_eq_2)
  moreover have "rb_list b' = xs"
    using d shift by (auto simp: rb_list_def b'_def xs)
  ultimately show ?thesis by (auto simp: b'_def)
qed

lemma produce_full:
  "rb_inv b \<Longrightarrow> length (rb_list b) = rb_capacity b \<Longrightarrow> produce_ring_buffer b x = Inr (False, b)"
  by (simp add: produce_ring_buffer_def)

lemma produce_room:
  assumes inv: "rb_inv b" and room: "length (rb_list b) < rb_capacity b"
  shows "\<exists>b'. produce_ring_buffer b x = Inr (True, b') \<and> rb_inv b' \<and> rb_list b' = rb_list b @ [x]
           \<and> rb_capacity b' = rb_capacity b"
proof (cases "rb_size b = 0")
  case True
  with inv obtain d where d: "rb_data b = Some d" and len: "rb_capacity b \<le> length d"
    by (auto simp: rb_inv_def split: option.splits)
  with True inv room show ?thesis
    by (auto simp: produce_ring_buffer_def next_tail_def rb_inv_def rb_list_def split: option.splits)
next
  case False
  then have size: "0 < rb_size b" by simp
  from rb_inv_nonempty [OF inv size] obtain d h where
    d: "rb_data b = Some d" and h: "rb_head b = Some h"
    and t: "rb_tail b = Some ((h + rb_size b - 1) mod rb_capacity b)"
    and hc: "h < rb_capacity b" and len: "rb_capacity b \<le> length d"
    and l: "rb_list b = map (\<lambda>i. d ! ((h + i) mod rb_capacity b)) [0..<rb_size b]" .
  have sc: "rb_size b < rb_capacity b" using room inv by simp
  let ?c = "rb_capacity b" and ?t = "(h + rb_size b) mod rb_capacity b"
  have "((h + rb_size b - 1) mod ?c + 1) mod ?c = ?t"
    using size by (simp add: mod_Suc_eq)
  then have step: "next_tail b = Some ?t"
    using False t wrap_step [of "(h + rb_size b - 1) mod ?c" ?c] hc
    by (auto simp: next_tail_def split: if_splits)
  have "?t < ?c" using hc by simp
  then have tc: "?t < length d" using len by simp
  define b' where "b' = b\<lparr>rb_head := rb_head b, rb_tail := Some ?t,
      rb_data := Some (d[?t := x]), rb_size := rb_size b + 1\<rparr>"
  have "produce_ring_buffer b x = Inr (True, b')"
    using False step d tc sc by (simp add: produce_ring_buffer_def b'_def)
  moreover have "rb_inv b'"
    using hc h len sc by (simp add: rb_inv_def b'_def)
  moreover have "rb_list b' = rb_list b @ [x]"
  proof -
    have other: "?t \<noteq> (h + i) mod ?c" if "i < rb_size b" for i
      using wrap_injective [of i ?c "rb_size b" h] that sc by auto
    show ?thesis using d h tc other by (auto simp: rb_list_def b'_def l)
  qed
  ultimately show ?thesis by (auto simp: b'_def)
qed

lemma remove_back_empty:
  "rb_inv b \<Longrightarrow> rb_list b = [] \<Longrightarrow> remove_back_ring_buffer b = (False, b)"
  using length_rb_list [of b] by (simp add: remove_back_ring_buffer_def)

lemma remove_back_nonempty:
  assumes inv: "rb_inv b" and ne: "rb_list b \<noteq> []"
  shows "\<exists>b'. remove_back_ring_buffer b = (True, b') \<and> rb_inv b' \<and> rb_list b' = butlast (rb_list b)
           \<and> rb_capacity b' = rb_capacity b"
proof -
  have size: "0 < rb_size b" using length_rb_list [OF inv] ne by (cases "rb_list b") auto
  from rb_inv_nonempty [OF inv size] obtain d h where
    d: "rb_data b = Some d" and h: "rb_head b = Some h"
    and t: "rb_tail b = Some ((h + rb_size b - 1) mod rb_capacity b)"
    and hc: "h < rb_capacity b" and len: "rb_capacity b \<le> length d"
    and sc: "rb_size b \<le> rb_capacity b"
    and l: "rb_list b = map (\<lambda>i. d ! ((h + i) mod rb_capacity b)) [0..<rb_size b]" .
  let ?c = "rb_capacity b" and ?t = "(h + rb_size b - 1) mod rb_capacity b"
  have tc: "?t < ?c" using hc by simp
  have before: "(if ?t = 0 then ?c - 1 else ?t - 1) = (h + (rb_size b - 1) - 1) mod ?c"
    if "1 < rb_size b"
  proof -
    have "(?t + ?c - 1) mod ?c = (?t + (?c - 1)) mod ?c" using tc by simp
    also have "\<dots> = (h + rb_size b - 1 + (?c - 1)) mod ?c" by (rule mod_add_left_eq)
    also have "h + rb_size b - 1 + (?c - 1) = (h + (rb_size b - 1) - 1) + ?c" using that hc by simp
    finally show ?thesis using wrap_back [OF tc] by simp
  qed
  define b' where "b' = snd (remove_back_ring_buffer b)"
  have r: "remove_back_ring_buffer b = (True, b')"
    using size by (simp add: b'_def remove_back_ring_buffer_def Let_def)
  have inv': "rb_inv b'"
    using size t h d hc len sc before
    by (auto simp: rb_inv_def b'_def remove_back_ring_buffer_def Let_def)
  have "rb_list b' = map (\<lambda>i. d ! ((h + i) mod ?c)) [0..<rb_size b - 1]"
    using size h d by (auto simp: rb_list_def b'_def remove_back_ring_buffer_def Let_def)
  also have "\<dots> = butlast (rb_list b)"
    using size by (simp add: l butlast_conv_take take_map)
  finally show ?thesis using r inv' size
    by (auto simp: b'_def remove_back_ring_buffer_def Let_def)
qed

subsection \<open>The bounded queue interface\<close>

text \<open>
  What a client such as the pipe relies on: \<open>enq\<close> refuses only when the queue is full and
  otherwise appends, \<open>deq\<close> refuses only when it is empty and otherwise returns the oldest
  element. The client's view of a whole run of requests is proved here once.
\<close>

datatype 'a qop = Enq 'a | Deq

locale bounded_queue =
  fixes inv :: "'q \<Rightarrow> bool"
    and elems :: "'q \<Rightarrow> 'a list"
    and cap :: "'q \<Rightarrow> nat"
    and enq :: "'q \<Rightarrow> 'a \<Rightarrow> (bool \<times> 'q) kres"
    and deq :: "'q \<Rightarrow> (bool \<times> 'a option \<times> 'q) kres"
  assumes bound: "inv q \<Longrightarrow> length (elems q) \<le> cap q"
    and enq_full: "inv q \<Longrightarrow> length (elems q) = cap q \<Longrightarrow> enq q x = Inr (False, q)"
    and enq_room: "inv q \<Longrightarrow> length (elems q) < cap q \<Longrightarrow>
      \<exists>q'. enq q x = Inr (True, q') \<and> inv q' \<and> elems q' = elems q @ [x] \<and> cap q' = cap q"
    and deq_empty: "inv q \<Longrightarrow> elems q = [] \<Longrightarrow> deq q = Inr (False, None, q)"
    and deq_some: "inv q \<Longrightarrow> elems q = x # xs \<Longrightarrow>
      \<exists>q'. deq q = Inr (True, Some x, q') \<and> inv q' \<and> elems q' = xs \<and> cap q' = cap q"
begin

text \<open>A run of requests: the elements accepted and the elements returned, in order.\<close>

fun run :: "'q \<Rightarrow> 'a qop list \<Rightarrow> ('a list \<times> 'a list \<times> 'q) kres" where
  "run q [] = Inr ([], [], q)"
| "run q (Enq x # ops) =
     (case enq q x of Inl m \<Rightarrow> Inl m
      | Inr (ok, q') \<Rightarrow> (case run q' ops of Inl m \<Rightarrow> Inl m
          | Inr (ins, outs, q'') \<Rightarrow> Inr (if ok then x # ins else ins, outs, q'')))"
| "run q (Deq # ops) =
     (case deq q of Inl m \<Rightarrow> Inl m
      | Inr (ok, r, q') \<Rightarrow> (case run q' ops of Inl m \<Rightarrow> Inl m
          | Inr (ins, outs, q'') \<Rightarrow> Inr (ins, (case r of None \<Rightarrow> outs | Some y \<Rightarrow> y # outs), q'')))"

lemma run_stream:
  "inv q \<Longrightarrow> \<exists>ins outs q'. run q ops = Inr (ins, outs, q') \<and> inv q' \<and> cap q' = cap q
     \<and> elems q @ ins = outs @ elems q'"
proof (induction ops arbitrary: q)
  case Nil
  then show ?case by simp
next
  case (Cons op ops)
  show ?case
  proof (cases op)
    case (Enq x)
    show ?thesis
    proof (cases "length (elems q) = cap q")
      case True
      with Cons.IH [OF Cons.prems] Cons.prems Enq enq_full show ?thesis by fastforce
    next
      case False
      with bound [OF Cons.prems] have "length (elems q) < cap q" by simp
      from enq_room [OF Cons.prems this, of x] obtain q1 where
        q1: "enq q x = Inr (True, q1)" "inv q1" "elems q1 = elems q @ [x]" "cap q1 = cap q" by blast
      from Cons.IH [OF q1(2)] q1 Enq show ?thesis by fastforce
    qed
  next
    case Deq
    show ?thesis
    proof (cases "elems q")
      case Nil
      with Cons.IH [OF Cons.prems] Cons.prems Deq deq_empty show ?thesis by fastforce
    next
      case (Cons y ys)
      from deq_some [OF Cons.prems this] obtain q1 where
        q1: "deq q = Inr (True, Some y, q1)" "inv q1" "elems q1 = ys" "cap q1 = cap q" by blast
      from Cons.IH [OF q1(2)] q1 Deq Cons show ?thesis by fastforce
    qed
  qed
qed

end

interpretation ring: bounded_queue rb_inv rb_list rb_capacity produce_ring_buffer consume_ring_buffer
proof unfold_locales
  show "length (rb_list b) \<le> rb_capacity b" if "rb_inv b" for b
    using that length_rb_list [OF that] unfolding rb_inv_def by simp
qed (use produce_full produce_room consume_empty consume_nonempty in auto)

subsection \<open>Properties\<close>

fun ring_run :: "rbuf \<Rightarrow> byte qop list \<Rightarrow> (byte list \<times> byte list \<times> rbuf) kres" where
  "ring_run q [] = Inr ([], [], q)"
| "ring_run q (Enq x # ops) =
     (case produce_ring_buffer q x of Inl m \<Rightarrow> Inl m
      | Inr (ok, q') \<Rightarrow> (case ring_run q' ops of Inl m \<Rightarrow> Inl m
          | Inr (ins, outs, q'') \<Rightarrow> Inr (if ok then x # ins else ins, outs, q'')))"
| "ring_run q (Deq # ops) =
     (case consume_ring_buffer q of Inl m \<Rightarrow> Inl m
      | Inr (ok, r, q') \<Rightarrow> (case ring_run q' ops of Inl m \<Rightarrow> Inl m
          | Inr (ins, outs, q'') \<Rightarrow> Inr (ins, (case r of None \<Rightarrow> outs | Some y \<Rightarrow> y # outs), q'')))"

lemma ring_run_eq: "ring_run q ops = ring.run q ops"
  by (induction q ops rule: ring_run.induct) (simp_all split: sum.splits prod.splits option.splits)



text \<open>C37. \<open>remove_back_ring_buffer\<close>, the terminal's backspace, takes back exactly the last
  byte produced, and is refused exactly on an empty buffer.\<close>

theorem remove_back_undoes_produce:
  assumes "rb_inv b" and "rb_size b < rb_capacity b"
  shows "\<exists>b1 b2. produce_ring_buffer b x = Inr (True, b1) \<and> remove_back_ring_buffer b1 = (True, b2)
           \<and> rb_inv b2 \<and> rb_list b2 = rb_list b
           \<and> (rb_size b = 0 \<longrightarrow> remove_back_ring_buffer b = (False, b))"
proof -
  from produce_room [OF assms(1), of x] assms obtain b1 where
    b1: "produce_ring_buffer b x = Inr (True, b1)" "rb_inv b1" "rb_list b1 = rb_list b @ [x]" by auto
  from remove_back_nonempty [OF b1(2)] b1(3) obtain b2 where
    "remove_back_ring_buffer b1 = (True, b2)" "rb_inv b2" "rb_list b2 = rb_list b" by auto
  with b1 show ?thesis by (auto simp: remove_back_ring_buffer_def)
qed

theorem remove_back_undoes_produce_witness:
  "let b = create_ring_buffer (\<lambda>n. Some (replicate n 0)) 2
   in rb_inv b \<and> rb_size b < rb_capacity b \<and>
      (\<exists>b1 b2. produce_ring_buffer b 65 = Inr (True, b1) \<and> remove_back_ring_buffer b1 = (True, b2)
         \<and> rb_list b2 = rb_list b)"
proof -
  define b where "b = create_ring_buffer (\<lambda>n. Some (replicate n 0)) 2"
  have inv: "rb_inv b" unfolding b_def by (rule create_ring_buffer_inv) auto
  have room: "rb_size b < rb_capacity b" by (simp add: b_def create_ring_buffer_def)
  show ?thesis
    using remove_back_undoes_produce [OF inv room, of 65] inv room unfolding b_def by auto
qed

end
