(* ===== verification/Hash_Map.thy ===== *)
theory Hash_Map
  imports Kernel_Prelude
begin

section \<open>Hash maps: \<^verbatim>\<open>src/kernel/data-structs/hashmap.c\<close>\<close>

text \<open>
  The kernel keeps its process groups and its page-table records in chained hash maps. A key
  is a type tag and bytes, hashed with 64-bit wrap-around; a chain is the list of the
  entries that \<open>next\<close> links, in order. The two allocations of \<open>hashmap_put\<close> are boolean
  arguments, and the values handed to \<open>value_dtor\<close> are returned as a list.
  Theorems: under \<open>hm_inv\<close> (chains hold distinct keys, each in the bucket of its hash, and
  \<open>size\<close> counts the entries) the operations are those of a finite map. That contract is
  the locale \<open>kernel_map\<close>.
\<close>

unbundle bit_operations_syntax

subsection \<open>Keys and hashing\<close>

datatype hashmap_key_type =
  HASHMAP_KEY_INT | HASHMAP_KEY_UINT64 | HASHMAP_KEY_CHAR | HASHMAP_KEY_STRING | HASHMAP_KEY_BYTES

record hashmap_key =
  k_type :: hashmap_key_type
  k_data :: "byte list option"
  k_size :: nat

text \<open>The four bytes of the tag as it lies in memory (little endian).\<close>

fun key_type_bytes :: "hashmap_key_type \<Rightarrow> byte list" where
  "key_type_bytes HASHMAP_KEY_INT = [0, 0, 0, 0]"
| "key_type_bytes HASHMAP_KEY_UINT64 = [1, 0, 0, 0]"
| "key_type_bytes HASHMAP_KEY_CHAR = [2, 0, 0, 0]"
| "key_type_bytes HASHMAP_KEY_STRING = [3, 0, 0, 0]"
| "key_type_bytes HASHMAP_KEY_BYTES = [4, 0, 0, 0]"

fun hashmap_strlen :: "byte list \<Rightarrow> nat" where
  "hashmap_strlen [] = 0"
| "hashmap_strlen (b # bs) = (if b = 0 then 0 else Suc (hashmap_strlen bs))"

fun hashmap_memeq :: "byte list \<Rightarrow> byte list \<Rightarrow> nat \<Rightarrow> bool" where
  "hashmap_memeq l r 0 = True"
| "hashmap_memeq l r (Suc n) =
     (if hd l \<noteq> hd r then False else hashmap_memeq (tl l) (tl r) n)"

definition key_bytes :: "hashmap_key \<Rightarrow> byte list" where
  "key_bytes key = (case k_data key of None \<Rightarrow> [] | Some d \<Rightarrow> d)"

definition hashmap_key_size :: "hashmap_key \<Rightarrow> nat" where
  "hashmap_key_size key =
     (if k_type key = HASHMAP_KEY_STRING then hashmap_strlen (key_bytes key) + 1
      else k_size key)"

definition hashmap_hash_bytes :: "byte list \<Rightarrow> nat \<Rightarrow> u64" where
  "hashmap_hash_bytes bytes n =
     fold (\<lambda>b hash. (hash XOR ucast b) * 1099511628211) (take n bytes) 1469598103934665603"

definition hashmap_hash_key :: "hashmap_key \<Rightarrow> u64" where
  "hashmap_hash_key key =
     (let hash = hashmap_hash_bytes (key_type_bytes (k_type key)) 4;
          key_hash = hashmap_hash_bytes (key_bytes key) (hashmap_key_size key)
      in hash XOR (key_hash + 0x9e3779b97f4a7c15 + push_bit 6 hash + drop_bit 2 hash))"

subsection \<open>Entries, maps and operations\<close>

record 'v hashmap_entry =
  e_type :: hashmap_key_type
  e_size :: nat
  e_key :: "byte list"
  e_value :: 'v

record 'v hashmap =
  hm_buckets :: "'v hashmap_entry list list option"
  hm_bucket_count :: nat
  hm_size :: nat
  hm_dtor :: bool

definition hashmap_key_equals :: "'v hashmap_entry \<Rightarrow> hashmap_key \<Rightarrow> bool" where
  "hashmap_key_equals entry key \<longleftrightarrow>
     e_type entry = k_type key \<and> e_size entry = hashmap_key_size key \<and>
     hashmap_memeq (e_key entry) (key_bytes key) (hashmap_key_size key)"

text \<open>The walk along a chain: the position of the first entry with the key. \<open>prev\<close> of the
  source is the entry before that position.\<close>

fun find_in_chain :: "'v hashmap_entry list \<Rightarrow> hashmap_key \<Rightarrow> nat option" where
  "find_in_chain [] key = None"
| "find_in_chain (e # es) key =
     (if hashmap_key_equals e key then Some 0 else map_option Suc (find_in_chain es key))"

definition bucket_of :: "'v hashmap \<Rightarrow> hashmap_key \<Rightarrow> nat" where
  "bucket_of m key = unat (hashmap_hash_key key) mod hm_bucket_count m"

text \<open>The bucket, its chain and the position in it.\<close>

definition hashmap_find_entry ::
  "'v hashmap \<Rightarrow> hashmap_key \<Rightarrow> (nat \<times> 'v hashmap_entry list \<times> nat) option" where
  "hashmap_find_entry m key =
     (if hm_bucket_count m = 0 \<or> k_data key = None then None
      else case hm_buckets m of
        None \<Rightarrow> None
      | Some bs \<Rightarrow>
          (let bucket = bucket_of m key in
           case find_in_chain (bs ! bucket) key of
             None \<Rightarrow> None
           | Some i \<Rightarrow> Some (bucket, bs ! bucket, i)))"

definition hashmap_new :: "bool \<Rightarrow> nat \<Rightarrow> bool \<Rightarrow> 'v hashmap kres" where
  "hashmap_new mem bucket_count dtor =
     (let n = (if bucket_count = 0 then 16 else bucket_count) in
      if \<not> mem then Inl ''Failed to allocate hashmap buckets.''
      else Inr \<lparr>hm_buckets = Some (replicate n []), hm_bucket_count = n, hm_size = 0, hm_dtor = dtor\<rparr>)"

definition hashmap_clear :: "'v hashmap \<Rightarrow> 'v hashmap \<times> 'v list" where
  "hashmap_clear m =
     (case hm_buckets m of
        None \<Rightarrow> (m, [])
      | Some bs \<Rightarrow> (m\<lparr>hm_buckets := Some (map (\<lambda>_. []) bs), hm_size := 0\<rparr>,
                    if hm_dtor m then concat (map (map e_value) bs) else []))"

definition hashmap_destroy :: "'v hashmap \<Rightarrow> 'v hashmap \<times> 'v list" where
  "hashmap_destroy m =
     (let (m', destroyed) = hashmap_clear m
      in (m'\<lparr>hm_buckets := None, hm_bucket_count := 0\<rparr>, destroyed))"

text \<open>\<open>key_mem\<close> and \<open>entry_mem\<close> tell whether the two \<open>kmalloc\<close> calls succeed; \<open>kmalloc(0)\<close>
  never does.\<close>

definition hashmap_put ::
  "bool \<Rightarrow> bool \<Rightarrow> 'v hashmap \<Rightarrow> hashmap_key \<Rightarrow> 'v \<Rightarrow> bool \<times> 'v hashmap \<times> 'v list" where
  "hashmap_put key_mem entry_mem m key value =
     (case hm_buckets m of
        None \<Rightarrow> (False, m, [])
      | Some bs \<Rightarrow>
          if k_data key = None then (False, m, [])
          else (case hashmap_find_entry m key of
            Some (bucket, chain, i) \<Rightarrow>
              (True,
               m\<lparr>hm_buckets := Some (bs[bucket := chain[i := (chain ! i)\<lparr>e_value := value\<rparr>]])\<rparr>,
               if hm_dtor m then [e_value (chain ! i)] else [])
          | None \<Rightarrow>
              (let key_size = hashmap_key_size key in
              if key_size = 0 \<or> \<not> key_mem then (False, m, [])
              else if \<not> entry_mem then (False, m, [])
              else
                (let bucket = bucket_of m key;
                    entry = \<lparr>e_type = k_type key, e_size = key_size,
                             e_key = take key_size (key_bytes key), e_value = value\<rparr>
                in (True,
                    m\<lparr>hm_buckets := Some (bs[bucket := entry # bs ! bucket]),
                      hm_size := hm_size m + 1\<rparr>, [])))))"

definition hashmap_get :: "'v hashmap \<Rightarrow> hashmap_key \<Rightarrow> 'v option" where
  "hashmap_get m key =
     (case hashmap_find_entry m key of
        None \<Rightarrow> None
      | Some (bucket, chain, i) \<Rightarrow> Some (e_value (chain ! i)))"

definition hashmap_contains :: "'v hashmap \<Rightarrow> hashmap_key \<Rightarrow> bool" where
  "hashmap_contains m key \<longleftrightarrow> hashmap_find_entry m key \<noteq> None"

text \<open>\<open>want\<close> tells whether the caller passes a place for the value; without one the value
  goes to the destructor.\<close>

definition hashmap_remove ::
  "'v hashmap \<Rightarrow> hashmap_key \<Rightarrow> bool \<Rightarrow> bool \<times> 'v option \<times> 'v hashmap \<times> 'v list" where
  "hashmap_remove m key want =
     (case (hashmap_find_entry m key, hm_buckets m) of
        (Some (bucket, chain, i), Some bs) \<Rightarrow>
          (let rest = (if i = 0 then tl chain else take i chain @ drop (i + 1) chain) in
           (True, if want then Some (e_value (chain ! i)) else None,
            m\<lparr>hm_buckets := Some (bs[bucket := rest]), hm_size := hm_size m - 1\<rparr>,
            if \<not> want \<and> hm_dtor m then [e_value (chain ! i)] else []))
      | _ \<Rightarrow> (False, None, m, []))"

subsection \<open>Keys as values\<close>

type_synonym akey = "hashmap_key_type \<times> byte list"

definition key_abs :: "hashmap_key \<Rightarrow> akey" where
  "key_abs key = (k_type key, take (hashmap_key_size key) (key_bytes key))"

definition entry_abs :: "'v hashmap_entry \<Rightarrow> akey" where
  "entry_abs e = (e_type e, e_key e)"

text \<open>A key the source may read: its data is there, and has the bytes its size announces.\<close>

definition key_ok :: "hashmap_key \<Rightarrow> bool" where
  "key_ok key \<longleftrightarrow> k_data key \<noteq> None \<and> hashmap_key_size key \<le> length (key_bytes key)
     \<and> 0 < hashmap_key_size key"

definition akey_hash :: "akey \<Rightarrow> u64" where
  "akey_hash a =
     (let hash = hashmap_hash_bytes (key_type_bytes (fst a)) 4;
          key_hash = hashmap_hash_bytes (snd a) (length (snd a))
      in hash XOR (key_hash + 0x9e3779b97f4a7c15 + push_bit 6 hash + drop_bit 2 hash))"

lemma hash_key_abs: "key_ok key \<Longrightarrow> hashmap_hash_key key = akey_hash (key_abs key)"
  by (simp add: hashmap_hash_key_def akey_hash_def key_abs_def hashmap_hash_bytes_def key_ok_def min_def)

lemma memeq_take:
  "n \<le> length l \<Longrightarrow> n \<le> length r \<Longrightarrow> hashmap_memeq l r n = (take n l = take n r)"
proof (induction n arbitrary: l r)
  case (Suc n)
  then show ?case by (cases l; cases r) auto
qed simp

lemma key_equals_abs:
  assumes "key_ok key" and "e_size e = length (e_key e)"
  shows "hashmap_key_equals e key = (entry_abs e = key_abs key)"
proof
  assume "hashmap_key_equals e key"
  then show "entry_abs e = key_abs key"
    using assms by (auto simp: hashmap_key_equals_def entry_abs_def key_abs_def memeq_take key_ok_def)
next
  assume eq: "entry_abs e = key_abs key"
  then have "length (e_key e) = hashmap_key_size key"
    using assms by (simp add: entry_abs_def key_abs_def key_ok_def min_def)
  with eq assms show "hashmap_key_equals e key"
    by (auto simp: hashmap_key_equals_def entry_abs_def key_abs_def memeq_take key_ok_def)
qed

subsection \<open>Chains as finite maps\<close>

definition chain_map :: "'v hashmap_entry list \<Rightarrow> akey \<Rightarrow> 'v option" where
  "chain_map es = map_of (map (\<lambda>e. (entry_abs e, e_value e)) es)"

definition chain_ok :: "'v hashmap_entry list \<Rightarrow> bool" where
  "chain_ok es \<longleftrightarrow> distinct (map entry_abs es) \<and> (\<forall>e \<in> set es. e_size e = length (e_key e))"

lemma chain_map_simps [simp]:
  "chain_map [] = Map.empty"
  "chain_map (e # es) = (chain_map es)(entry_abs e \<mapsto> e_value e)"
  by (simp_all add: chain_map_def)

lemma chain_map_notin: "a \<notin> entry_abs ` set es \<Longrightarrow> chain_map es a = None"
  by (induction es) auto

lemma find_in_chain_None:
  "key_ok key \<Longrightarrow> chain_ok es \<Longrightarrow> find_in_chain es key = None \<longleftrightarrow> key_abs key \<notin> entry_abs ` set es"
  by (induction es) (auto simp: chain_ok_def key_equals_abs)

lemma find_in_chain_Some:
  "key_ok key \<Longrightarrow> chain_ok es \<Longrightarrow> find_in_chain es key = Some i \<Longrightarrow>
     i < length es \<and> entry_abs (es ! i) = key_abs key \<and> chain_map es (key_abs key) = Some (e_value (es ! i))"
proof (induction es arbitrary: i)
  case (Cons e es)
  from Cons.prems(1) have e: "hashmap_key_equals e key = (entry_abs e = key_abs key)"
    using Cons.prems(2) by (simp add: chain_ok_def key_equals_abs)
  show ?case
  proof (cases "entry_abs e = key_abs key")
    case True
    then show ?thesis using Cons.prems(3) e by simp
  next
    case False
    then obtain j where "find_in_chain es key = Some j" "i = Suc j" using Cons.prems(3) e by auto
    then show ?thesis using Cons False by (auto simp: chain_ok_def)
  qed
qed simp

lemma entry_abs_value [simp]: "entry_abs (e\<lparr>e_value := v\<rparr>) = entry_abs e"
  by (simp add: entry_abs_def)

lemma map_entry_abs_update:
  "i < length es \<Longrightarrow> map entry_abs (es[i := (es ! i)\<lparr>e_value := v\<rparr>]) = map entry_abs es"
  by (simp add: map_update list_update_same_conv)

lemma nth_abs_neq:
  "j < length es \<Longrightarrow> entry_abs e \<notin> entry_abs ` set es \<Longrightarrow> entry_abs (es ! j) \<noteq> entry_abs e"
  by (metis image_eqI nth_mem)

lemma chain_map_update:
  "i < length es \<Longrightarrow> distinct (map entry_abs es) \<Longrightarrow>
     chain_map (es[i := (es ! i)\<lparr>e_value := v\<rparr>]) = (chain_map es)(entry_abs (es ! i) \<mapsto> v)"
proof (induction es arbitrary: i)
  case (Cons e es)
  then show ?case
  proof (cases i)
    case (Suc j)
    then have "entry_abs (es ! j) \<noteq> entry_abs e" using Cons.prems by (simp add: nth_abs_neq)
    with Suc Cons show ?thesis by (auto simp: fun_upd_twist)
  qed (simp add: fun_eq_iff)
qed simp

lemma chain_map_remove:
  "i < length es \<Longrightarrow> distinct (map entry_abs es) \<Longrightarrow>
     chain_map (take i es @ drop (Suc i) es) = (chain_map es)(entry_abs (es ! i) := None)"
proof (induction es arbitrary: i)
  case (Cons e es)
  then show ?case
  proof (cases i)
    case 0
    then show ?thesis using Cons.prems chain_map_notin [of "entry_abs e" es] by (auto simp: fun_eq_iff)
  next
    case (Suc j)
    then have "entry_abs (es ! j) \<noteq> entry_abs e" using Cons.prems by (simp add: nth_abs_neq)
    with Suc Cons show ?thesis by (auto simp: fun_upd_twist)
  qed
qed simp

lemma chain_ok_update:
  "i < length es \<Longrightarrow> chain_ok es \<Longrightarrow> chain_ok (es[i := (es ! i)\<lparr>e_value := v\<rparr>])"
  unfolding chain_ok_def by (auto simp: map_entry_abs_update dest!: set_update_subset_insert [THEN subsetD])

lemma set_take_drop: "set (take i es @ drop (Suc i) es) \<subseteq> set es"
  by (auto dest: in_set_takeD in_set_dropD)

lemma chain_ok_remove:
  assumes "chain_ok es" shows "chain_ok (take i es @ drop (Suc i) es)"
proof -
  have "take i (map entry_abs es) @ drop (Suc i) (map entry_abs es)
      = map entry_abs (take i es @ drop (Suc i) es)"
    by (simp add: take_map drop_map)
  moreover have "distinct (take i xs @ drop (Suc i) xs)" if "distinct xs" for xs :: "akey list"
    using that set_take_disj_set_drop_if_distinct [of xs i "Suc i"] by auto
  ultimately show ?thesis
    using assms set_take_drop [of i es] unfolding chain_ok_def by (metis subsetD)
qed

lemma chain_rest:
  "(if i = 0 then tl es else take i es @ drop (i + 1) es) = take i es @ drop (Suc i) es"
  by (simp add: drop_Suc)

subsection \<open>The representation invariant and the abstract map\<close>

definition bucket_idx :: "'v hashmap \<Rightarrow> akey \<Rightarrow> nat" where
  "bucket_idx m a = unat (akey_hash a) mod hm_bucket_count m"

definition hm_chains :: "'v hashmap \<Rightarrow> 'v hashmap_entry list list" where
  "hm_chains m = (case hm_buckets m of None \<Rightarrow> [] | Some bs \<Rightarrow> bs)"

definition hm_inv :: "'v hashmap \<Rightarrow> bool" where
  "hm_inv m \<longleftrightarrow>
     hm_buckets m \<noteq> None \<and> 0 < hm_bucket_count m \<and> length (hm_chains m) = hm_bucket_count m \<and>
     (\<forall>i < hm_bucket_count m. chain_ok (hm_chains m ! i) \<and>
        (\<forall>e \<in> set (hm_chains m ! i). bucket_idx m (entry_abs e) = i)) \<and>
     hm_size m = sum_list (map length (hm_chains m))"

definition hm_lookup :: "'v hashmap \<Rightarrow> akey \<Rightarrow> 'v option" where
  "hm_lookup m a = chain_map (hm_chains m ! bucket_idx m a) a"

lemma hm_inv_simps:
  assumes "hm_inv m"
  shows "hm_buckets m = Some (hm_chains m)" "0 < hm_bucket_count m"
    "length (hm_chains m) = hm_bucket_count m" "bucket_idx m a < hm_bucket_count m"
    "hm_size m = sum_list (map length (hm_chains m))"
    "chain_ok (hm_chains m ! bucket_idx m a)"
  using assms by (auto simp: hm_inv_def hm_chains_def bucket_idx_def)

lemma bucket_of_abs: "key_ok key \<Longrightarrow> bucket_of m key = bucket_idx m (key_abs key)"
  by (simp add: bucket_of_def bucket_idx_def hash_key_abs)

lemma find_entry_inv:
  assumes "hm_inv m" "key_ok key"
  shows "hashmap_find_entry m key =
    (let b = bucket_idx m (key_abs key) in
     map_option (\<lambda>i. (b, hm_chains m ! b, i)) (find_in_chain (hm_chains m ! b) key))"
  using assms by (auto simp: hashmap_find_entry_def hm_inv_simps bucket_of_abs key_ok_def Let_def
      split: option.split)

text \<open>Replacing one chain: the shape shared by update, insertion and removal.\<close>

definition set_chain :: "'v hashmap \<Rightarrow> nat \<Rightarrow> 'v hashmap_entry list \<Rightarrow> nat \<Rightarrow> 'v hashmap" where
  "set_chain m b es n = m\<lparr>hm_buckets := Some ((hm_chains m)[b := es]), hm_size := n\<rparr>"

lemma set_chain_simps [simp]:
  "hm_chains (set_chain m b es n) = (hm_chains m)[b := es]"
  "hm_bucket_count (set_chain m b es n) = hm_bucket_count m"
  "bucket_idx (set_chain m b es n) a = bucket_idx m a"
  by (simp_all add: set_chain_def hm_chains_def bucket_idx_def)

lemma sum_list_length_update:
  "b < length xss \<Longrightarrow>
     sum_list (map length (xss[b := es])) + length (xss ! b) = sum_list (map length xss) + length es"
proof (induction xss arbitrary: b)
  case (Cons x xss)
  then show ?case by (cases b) auto
qed simp

lemma set_chain_inv:
  assumes "hm_inv m" "b < hm_bucket_count m" "chain_ok es"
    and "\<forall>e \<in> set es. bucket_idx m (entry_abs e) = b"
    and "n + length (hm_chains m ! b) = hm_size m + length es"
  shows "hm_inv (set_chain m b es n)"
proof -
  have "n = sum_list (map length ((hm_chains m)[b := es]))"
    using sum_list_length_update [of b "hm_chains m" es] assms(1,2,5) by (simp add: hm_inv_simps)
  then show ?thesis
    using assms(1-4) by (auto simp: hm_inv_def nth_list_update set_chain_def [of m] hm_chains_def bucket_idx_def)
qed

lemma set_chain_lookup:
  assumes "hm_inv m" "b = bucket_idx m k" "chain_map es = (chain_map (hm_chains m ! b))(k := v)"
  shows "hm_lookup (set_chain m b es n) = (hm_lookup m)(k := v)"
proof
  fix a
  have "b < length (hm_chains m)" using assms(1,2) by (simp add: hm_inv_simps)
  then show "hm_lookup (set_chain m b es n) a = ((hm_lookup m)(k := v)) a"
    using assms(2,3) by (cases "bucket_idx m a = b") (auto simp: hm_lookup_def)
qed

subsection \<open>Each operation against the abstract map\<close>

lemma lookup_find:
  assumes "hm_inv m" "key_ok key"
  shows "hashmap_find_entry m key = None \<longleftrightarrow> hm_lookup m (key_abs key) = None"
    and "hashmap_find_entry m key = Some (b, es, i) \<Longrightarrow>
      b = bucket_idx m (key_abs key) \<and> es = hm_chains m ! b \<and> i < length es \<and>
      entry_abs (es ! i) = key_abs key \<and> hm_lookup m (key_abs key) = Some (e_value (es ! i))"
proof -
  let ?es = "hm_chains m ! bucket_idx m (key_abs key)"
  have ok: "chain_ok ?es" using assms(1) by (simp add: hm_inv_simps)
  show "hashmap_find_entry m key = None \<longleftrightarrow> hm_lookup m (key_abs key) = None"
  proof (cases "find_in_chain ?es key")
    case None
    then show ?thesis using assms ok find_in_chain_None [OF assms(2) ok] chain_map_notin [of _ ?es]
      by (simp add: find_entry_inv hm_lookup_def Let_def)
  next
    case (Some j)
    then show ?thesis using assms find_in_chain_Some [OF assms(2) ok Some]
      by (simp add: find_entry_inv hm_lookup_def Let_def)
  qed
  assume "hashmap_find_entry m key = Some (b, es, i)"
  then show "b = bucket_idx m (key_abs key) \<and> es = hm_chains m ! b \<and> i < length es \<and>
      entry_abs (es ! i) = key_abs key \<and> hm_lookup m (key_abs key) = Some (e_value (es ! i))"
    using assms find_in_chain_Some [OF assms(2) ok]
    by (auto simp: find_entry_inv hm_lookup_def Let_def)
qed

lemma hashmap_get_lookup:
  assumes "hm_inv m" "key_ok key"
  shows "hashmap_get m key = hm_lookup m (key_abs key)"
proof (cases "hashmap_find_entry m key")
  case None
  then show ?thesis using lookup_find(1) [OF assms] by (simp add: hashmap_get_def)
next
  case (Some r)
  then obtain b es i where r: "hashmap_find_entry m key = Some (b, es, i)" by (cases r) auto
  then show ?thesis using lookup_find(2) [OF assms r] by (simp add: hashmap_get_def)
qed

lemma hashmap_contains_lookup:
  "hm_inv m \<Longrightarrow> key_ok key \<Longrightarrow> hashmap_contains m key \<longleftrightarrow> hm_lookup m (key_abs key) \<noteq> None"
  by (simp add: hashmap_contains_def lookup_find(1))

lemma hashmap_new_map:
  assumes "hashmap_new True n d = Inr m"
  shows "hm_inv m" "hm_lookup m = Map.empty" "hm_dtor m = d" "hm_size m = 0"
proof -
  have nth: "hm_chains m ! i = []" if "i < hm_bucket_count m" for i
    using assms that by (auto simp: hashmap_new_def hm_chains_def Let_def split: if_splits)
  have "0 < hm_bucket_count m" using assms by (auto simp: hashmap_new_def Let_def split: if_splits)
  then have "hm_lookup m a = None" for a
    by (simp add: hm_lookup_def nth bucket_idx_def)
  then show "hm_lookup m = Map.empty" by auto
  show "hm_inv m" "hm_dtor m = d" "hm_size m = 0" using assms
    by (auto simp: hashmap_new_def hm_inv_def hm_chains_def chain_ok_def Let_def sum_list_replicate
        split: if_splits)
qed

lemma put_existing:
  assumes "hm_inv m" "key_ok key" "hm_lookup m (key_abs key) = Some old"
  obtains m' where "hashmap_put km em m key v = (True, m', if hm_dtor m then [old] else [])"
    "hm_inv m'" "hm_lookup m' = (hm_lookup m)(key_abs key \<mapsto> v)" "hm_dtor m' = hm_dtor m"
    "hm_size m' = hm_size m"
proof -
  obtain b es i where r: "hashmap_find_entry m key = Some (b, es, i)"
    using lookup_find(1) [OF assms(1,2)] assms(3) by (cases "hashmap_find_entry m key") auto
  note f = lookup_find(2) [OF assms(1,2) r]
  have ok: "chain_ok es" "b < hm_bucket_count m" "\<forall>e \<in> set es. bucket_idx m (entry_abs e) = b"
    using assms(1) f by (auto simp: hm_inv_simps) (auto simp: hm_inv_def bucket_idx_def)
  let ?es = "es[i := (es ! i)\<lparr>e_value := v\<rparr>]"
  let ?m = "set_chain m b ?es (hm_size m)"
  have k: "key_abs key = entry_abs (es ! i)" using f by metis
  have "\<forall>e \<in> set ?es. bucket_idx m (entry_abs e) = b"
    using ok(3) f by (auto dest!: set_update_subset_insert [THEN subsetD])
  then have inv: "hm_inv ?m"
    using assms(1) ok f by (intro set_chain_inv) (auto intro: chain_ok_update)
  have look: "hm_lookup ?m = (hm_lookup m)(key_abs key \<mapsto> v)"
    using assms(1) f ok chain_map_update [of i es v] unfolding k
    by (intro set_chain_lookup) (auto simp: chain_ok_def k [symmetric])
  have "hashmap_put km em m key v = (True, ?m, if hm_dtor m then [old] else [])"
    using r f assms by (simp add: hashmap_put_def hm_inv_simps(1) key_ok_def set_chain_def)
  from this inv look show thesis by (rule that) (simp_all add: set_chain_def)
qed

lemma put_new:
  assumes "hm_inv m" "key_ok key" "hm_lookup m (key_abs key) = None"
  obtains m' where "hashmap_put True True m key v = (True, m', [])"
    "hm_inv m'" "hm_lookup m' = (hm_lookup m)(key_abs key \<mapsto> v)" "hm_dtor m' = hm_dtor m"
    "hm_size m' = hm_size m + 1"
proof -
  have r: "hashmap_find_entry m key = None" using lookup_find(1) [OF assms(1,2)] assms(3) by simp
  let ?b = "bucket_idx m (key_abs key)"
  let ?e = "\<lparr>e_type = k_type key, e_size = hashmap_key_size key,
             e_key = take (hashmap_key_size key) (key_bytes key), e_value = v\<rparr>"
  let ?es = "?e # hm_chains m ! ?b"
  let ?m = "set_chain m ?b ?es (hm_size m + 1)"
  have e: "entry_abs ?e = key_abs key" by (simp add: entry_abs_def key_abs_def)
  have ok: "chain_ok (hm_chains m ! ?b)" "?b < hm_bucket_count m"
    "\<forall>e \<in> set (hm_chains m ! ?b). bucket_idx m (entry_abs e) = ?b"
    using assms(1) by (auto simp: hm_inv_simps) (auto simp: hm_inv_def bucket_idx_def)
  have "find_in_chain (hm_chains m ! ?b) key = None"
    using r assms by (simp add: find_entry_inv Let_def)
  then have "key_abs key \<notin> entry_abs ` set (hm_chains m ! ?b)"
    using find_in_chain_None [OF assms(2) ok(1)] by simp
  then have "chain_ok ?es" using ok(1) assms(2) e by (auto simp: chain_ok_def key_ok_def)
  then have inv: "hm_inv ?m" using assms(1) ok e by (intro set_chain_inv) auto
  have look: "hm_lookup ?m = (hm_lookup m)(key_abs key \<mapsto> v)"
    using assms(1) e by (intro set_chain_lookup) auto
  have "hashmap_put True True m key v = (True, ?m, [])"
    using r assms by (simp add: hashmap_put_def hm_inv_simps(1) key_ok_def set_chain_def bucket_of_abs Let_def)
  from this inv look show thesis by (rule that) (simp_all add: set_chain_def)
qed

lemma put_no_memory:
  assumes "hm_inv m" "key_ok key" "hm_lookup m (key_abs key) = None" "\<not> (km \<and> em)"
  shows "hashmap_put km em m key v = (False, m, [])"
  using assms lookup_find(1) [OF assms(1,2)]
  by (auto simp: hashmap_put_def hm_inv_simps(1) key_ok_def Let_def)

lemma remove_absent:
  assumes "hm_inv m" "key_ok key" "hm_lookup m (key_abs key) = None"
  shows "hashmap_remove m key want = (False, None, m, [])"
  using assms lookup_find(1) [OF assms(1,2)] by (simp add: hashmap_remove_def)

lemma remove_present:
  assumes "hm_inv m" "key_ok key" "hm_lookup m (key_abs key) = Some old"
  obtains m' where
    "hashmap_remove m key want =
       (True, if want then Some old else None, m', if \<not> want \<and> hm_dtor m then [old] else [])"
    "hm_inv m'" "hm_lookup m' = (hm_lookup m)(key_abs key := None)" "hm_dtor m' = hm_dtor m"
    "hm_size m = hm_size m' + 1"
proof -
  obtain b es i where r: "hashmap_find_entry m key = Some (b, es, i)"
    using lookup_find(1) [OF assms(1,2)] assms(3) by (cases "hashmap_find_entry m key") auto
  note f = lookup_find(2) [OF assms(1,2) r]
  have ok: "chain_ok es" "b < hm_bucket_count m" "\<forall>e \<in> set es. bucket_idx m (entry_abs e) = b"
    using assms(1) f by (auto simp: hm_inv_simps) (auto simp: hm_inv_def bucket_idx_def)
  let ?es = "take i es @ drop (Suc i) es"
  let ?m = "set_chain m b ?es (hm_size m - 1)"
  have k: "key_abs key = entry_abs (es ! i)" using f by metis
  have "length es \<le> hm_size m"
    using f ok(2) assms(1) member_le_sum_list [of "length es" "map length (hm_chains m)"]
    by (auto simp: hm_inv_simps)
  then have sz: "hm_size m - 1 + length es = hm_size m + length ?es" "0 < hm_size m" using f by auto
  have "\<forall>e \<in> set ?es. bucket_idx m (entry_abs e) = b" using ok(3) set_take_drop [of i es] by blast
  with sz(1) f have inv: "hm_inv ?m"
    by (intro set_chain_inv [OF assms(1) ok(2) chain_ok_remove [OF ok(1)]]) metis+
  have look: "hm_lookup ?m = (hm_lookup m)(key_abs key := None)"
    using assms(1) f ok chain_map_remove [of i es] unfolding k
    by (intro set_chain_lookup) (auto simp: chain_ok_def k [symmetric])
  have "hashmap_remove m key want =
      (True, if want then Some old else None, ?m, if \<not> want \<and> hm_dtor m then [old] else [])"
    using r f assms unfolding hashmap_remove_def chain_rest
    by (simp add: hm_inv_simps(1) set_chain_def)
  from this inv look show thesis by (rule that) (use sz(2) in \<open>simp_all add: set_chain_def\<close>)
qed

subsection \<open>The contract clients use\<close>

datatype ('mem, 'k, 'v) map_op = Put 'mem 'k 'v | Del 'k

text \<open>A map that may run out of memory: \<open>enough\<close> tells whether the allocations of a \<open>put\<close>
  succeed, \<open>valid\<close> which keys may be passed, \<open>key\<close> their value.\<close>

locale kernel_map =
  fixes inv :: "'m \<Rightarrow> bool"
    and look :: "'m \<Rightarrow> 'a \<Rightarrow> 'v option"
    and count :: "'m \<Rightarrow> nat"
    and valid :: "'k \<Rightarrow> bool"
    and key :: "'k \<Rightarrow> 'a"
    and enough :: "'mem \<Rightarrow> bool"
    and put :: "'mem \<Rightarrow> 'm \<Rightarrow> 'k \<Rightarrow> 'v \<Rightarrow> bool \<times> 'm"
    and del :: "'m \<Rightarrow> 'k \<Rightarrow> bool \<times> 'm"
  assumes put_some: "inv m \<Longrightarrow> valid k \<Longrightarrow> look m (key k) \<noteq> None \<Longrightarrow>
      \<exists>m'. put mem m k v = (True, m') \<and> inv m' \<and> look m' = (look m)(key k \<mapsto> v) \<and> count m' = count m"
    and put_none: "inv m \<Longrightarrow> valid k \<Longrightarrow> look m (key k) = None \<Longrightarrow> enough mem \<Longrightarrow>
      \<exists>m'. put mem m k v = (True, m') \<and> inv m' \<and> look m' = (look m)(key k \<mapsto> v) \<and> count m' = count m + 1"
    and put_fail: "inv m \<Longrightarrow> valid k \<Longrightarrow> look m (key k) = None \<Longrightarrow> \<not> enough mem \<Longrightarrow>
      put mem m k v = (False, m)"
    and del_some: "inv m \<Longrightarrow> valid k \<Longrightarrow> look m (key k) \<noteq> None \<Longrightarrow>
      \<exists>m'. del m k = (True, m') \<and> inv m' \<and> look m' = (look m)(key k := None) \<and> count m = count m' + 1"
    and del_none: "inv m \<Longrightarrow> valid k \<Longrightarrow> look m (key k) = None \<Longrightarrow> del m k = (False, m)"
begin

fun step :: "'m \<Rightarrow> ('mem, 'k, 'v) map_op \<Rightarrow> bool \<times> 'm" where
  "step m (Put mem k v) = put mem m k v"
| "step m (Del k) = del m k"

fun spec_step :: "('a \<Rightarrow> 'v option) \<Rightarrow> ('mem, 'k, 'v) map_op \<Rightarrow> bool \<times> ('a \<Rightarrow> 'v option)" where
  "spec_step f (Put mem k v) =
     (if f (key k) \<noteq> None \<or> enough mem then (True, f(key k \<mapsto> v)) else (False, f))"
| "spec_step f (Del k) = (f (key k) \<noteq> None, f(key k := None))"

fun op_valid :: "('mem, 'k, 'v) map_op \<Rightarrow> bool" where
  "op_valid (Put mem k v) = valid k"
| "op_valid (Del k) = valid k"

definition agrees :: "'m \<Rightarrow> ('a \<Rightarrow> 'v option) \<Rightarrow> bool" where
  "agrees m f \<longleftrightarrow> inv m \<and> look m = f \<and> finite (dom f) \<and> count m = card (dom f)"

lemma step_agrees:
  assumes "agrees m f" "op_valid c"
  shows "fst (step m c) = fst (spec_step f c) \<and> agrees (snd (step m c)) (snd (spec_step f c))"
proof (cases c)
  case (Put mem k v)
  then have v: "valid k" using assms(2) by simp
  have a: "inv m" "look m = f" "finite (dom f)" "count m = card (dom f)"
    using assms(1) by (auto simp: agrees_def)
  show ?thesis
  proof (cases "f (key k)")
    case None
    then have "key k \<notin> dom f" by auto
    then show ?thesis using Put a None put_none [OF a(1) v, of mem v] put_fail [OF a(1) v, of mem v]
      by (cases "enough mem") (auto simp: agrees_def)
  next
    case (Some w)
    then have "insert (key k) (dom f) = dom f" by auto
    then show ?thesis using Put a Some put_some [OF a(1) v, of mem v] by (auto simp: agrees_def)
  qed
next
  case (Del k)
  then have v: "valid k" using assms(2) by simp
  have a: "inv m" "look m = f" "finite (dom f)" "count m = card (dom f)"
    using assms(1) by (auto simp: agrees_def)
  show ?thesis
  proof (cases "f (key k)")
    case None
    then have "f(key k := None) = f" by auto
    then show ?thesis using Del a None del_none [OF a(1) v] by (auto simp: agrees_def)
  next
    case (Some w)
    then have "card (dom f) = Suc (card (dom f - {key k}))"
      using a(3) by (metis card_Suc_Diff1 domI)
    then show ?thesis using Del a Some del_some [OF a(1) v] by (auto simp: agrees_def)
  qed
qed

fun run :: "'m \<Rightarrow> ('mem, 'k, 'v) map_op list \<Rightarrow> bool list \<times> 'm" where
  "run m [] = ([], m)"
| "run m (c # cs) = (let (b, m') = step m c; (bs, m'') = run m' cs in (b # bs, m''))"

fun spec_run :: "('a \<Rightarrow> 'v option) \<Rightarrow> ('mem, 'k, 'v) map_op list \<Rightarrow> bool list \<times> ('a \<Rightarrow> 'v option)" where
  "spec_run f [] = ([], f)"
| "spec_run f (c # cs) = (let (b, f') = spec_step f c; (bs, f'') = spec_run f' cs in (b # bs, f''))"

lemma run_agrees:
  "agrees m f \<Longrightarrow> list_all op_valid cs \<Longrightarrow>
     fst (run m cs) = fst (spec_run f cs) \<and> agrees (snd (run m cs)) (snd (spec_run f cs))"
proof (induction cs arbitrary: m f)
  case (Cons c cs)
  then show ?case using step_agrees [of m f c] by (auto simp: split_beta Let_def)
qed simp

end

definition put_result :: "bool \<times> 'v hashmap \<times> 'v list \<Rightarrow> bool \<times> 'v hashmap" where
  "put_result r = (fst r, fst (snd r))"

definition hm_put :: "bool \<times> bool \<Rightarrow> 'v hashmap \<Rightarrow> hashmap_key \<Rightarrow> 'v \<Rightarrow> bool \<times> 'v hashmap" where
  "hm_put mem m key v = put_result (hashmap_put (fst mem) (snd mem) m key v)"

definition hm_del :: "'v hashmap \<Rightarrow> hashmap_key \<Rightarrow> bool \<times> 'v hashmap" where
  "hm_del m key = (case hashmap_remove m key False of (b, _, m', _) \<Rightarrow> (b, m'))"

interpretation hmap: kernel_map hm_inv hm_lookup hm_size key_ok key_abs "\<lambda>mem. fst mem \<and> snd mem" hm_put hm_del
proof unfold_locales
  fix m :: "'a hashmap" and k mem and v :: 'a
  assume inv: "hm_inv m" and k: "key_ok k"
  show "\<exists>m'. hm_put mem m k v = (True, m') \<and> hm_inv m' \<and>
      hm_lookup m' = (hm_lookup m)(key_abs k \<mapsto> v) \<and> hm_size m' = hm_size m"
    if "hm_lookup m (key_abs k) \<noteq> None"
  proof -
    from that obtain old where "hm_lookup m (key_abs k) = Some old" by auto
    then show ?thesis
      by (rule put_existing [OF inv k, of _ "fst mem" "snd mem" v]) (auto simp: hm_put_def put_result_def)
  qed
  show "\<exists>m'. hm_put mem m k v = (True, m') \<and> hm_inv m' \<and>
      hm_lookup m' = (hm_lookup m)(key_abs k \<mapsto> v) \<and> hm_size m' = hm_size m + 1"
    if "hm_lookup m (key_abs k) = None" "fst mem \<and> snd mem"
  proof -
    from that(2) have "fst mem = True" "snd mem = True" by auto
    then show ?thesis
      by - (rule put_new [OF inv k that(1), of v], auto simp: hm_put_def put_result_def)
  qed
  show "hm_put mem m k v = (False, m)" if "hm_lookup m (key_abs k) = None" "\<not> (fst mem \<and> snd mem)"
    using put_no_memory [OF inv k that] by (simp add: hm_put_def put_result_def)
  show "\<exists>m'. hm_del m k = (True, m') \<and> hm_inv m' \<and>
      hm_lookup m' = (hm_lookup m)(key_abs k := None) \<and> hm_size m = hm_size m' + 1"
    if "hm_lookup m (key_abs k) \<noteq> None"
  proof -
    from that obtain old where "hm_lookup m (key_abs k) = Some old" by auto
    then show ?thesis by (rule remove_present [OF inv k, of _ False]) (auto simp: hm_del_def)
  qed
  show "hm_del m k = (False, m)" if "hm_lookup m (key_abs k) = None"
    using remove_absent [OF inv k that] by (simp add: hm_del_def)
qed

definition hm_run :: "'v hashmap \<Rightarrow> (bool \<times> bool, hashmap_key, 'v) map_op list \<Rightarrow> bool list \<times> 'v hashmap" where
  "hm_run = hmap.run"

definition map_run :: "(akey \<Rightarrow> 'v option) \<Rightarrow> (bool \<times> bool, hashmap_key, 'v) map_op list \<Rightarrow>
    bool list \<times> (akey \<Rightarrow> 'v option)" where
  "map_run = hmap.spec_run"

fun map_op_key :: "('mem, 'k, 'v) map_op \<Rightarrow> 'k" where
  "map_op_key (Put mem k v) = k"
| "map_op_key (Del k) = k"

text \<open>C20. A hash map made by \<^verbatim>\<open>hashmap_new\<close> and driven by any sequence of \<^verbatim>\<open>hashmap_put\<close> and
  \<^verbatim>\<open>hashmap_remove\<close>, with allocations failing at any point, behaves as a finite map from keys
  to values: each call returns what the finite map gives, a put that fails for lack of memory
  leaves the map as it was, \<^verbatim>\<open>hashmap_get\<close> afterwards returns the value the finite map holds,
  and \<^verbatim>\<open>size\<close> is the number of keys present.\<close>

theorem hashmap_is_finite_map:
  assumes "hashmap_new True n d = Inr m"
    and "list_all (\<lambda>c. key_ok (map_op_key c)) cs"
    and "hm_run m cs = (bs, m')" and "map_run Map.empty cs = (bs', f)"
    and "key_ok k"
  shows "bs = bs' \<and> hashmap_get m' k = f (key_abs k)
    \<and> hashmap_contains m' k = (f (key_abs k) \<noteq> None) \<and> hm_size m' = card (dom f)"
proof -
  have "hmap.op_valid c = key_ok (map_op_key c)" for c :: "(bool \<times> bool, hashmap_key, 'a) map_op"
    by (cases c) auto
  moreover have "hmap.agrees m Map.empty"
    using hashmap_new_map [OF assms(1)] by (auto simp: hmap.agrees_def)
  ultimately have "fst (hm_run m cs) = fst (map_run Map.empty cs) \<and>
      hmap.agrees (snd (hm_run m cs)) (snd (map_run Map.empty cs))"
    using hmap.run_agrees [of m Map.empty cs] assms(2) by (simp add: hm_run_def map_run_def list_all_iff)
  then have "bs = bs'" "hm_inv m'" "hm_lookup m' = f" "hm_size m' = card (dom f)"
    using assms(3,4) by (auto simp: hmap.agrees_def)
  then show ?thesis using assms(5) by (auto simp: hashmap_get_lookup hashmap_contains_lookup)
qed

definition int_key :: "byte \<Rightarrow> hashmap_key" where
  "int_key b = \<lparr>k_type = HASHMAP_KEY_INT, k_data = Some [b, 0, 0, 0], k_size = 4\<rparr>"

definition fresh_map :: "nat hashmap" where
  "fresh_map = \<lparr>hm_buckets = Some [[]], hm_bucket_count = 1, hm_size = 0, hm_dtor = False\<rparr>"

lemma int_key_simps [simp]:
  "k_type (int_key b) = HASHMAP_KEY_INT" "k_data (int_key b) = Some [b, 0, 0, 0]"
  "key_bytes (int_key b) = [b, 0, 0, 0]" "hashmap_key_size (int_key b) = 4" "key_ok (int_key b)"
  "key_abs (int_key b) = (HASHMAP_KEY_INT, [b, 0, 0, 0])"
  by (simp_all add: int_key_def key_bytes_def hashmap_key_size_def key_ok_def key_abs_def)

theorem hashmap_is_finite_map_witness:
  "hashmap_new True 1 False = Inr fresh_map \<and>
   hashmap_get (snd (hm_run fresh_map
     [Put (True, True) (int_key 7) 10, Put (True, True) (int_key 8) 20, Put (False, True) (int_key 9) 30,
      Put (True, True) (int_key 7) 11, Del (int_key 8)])) (int_key 7) = Some 11"
proof -
  let ?cs = "[Put (True, True) (int_key 7) 10, Put (True, True) (int_key 8) 20,
      Put (False, True) (int_key 9) 30, Put (True, True) (int_key 7) (11::nat), Del (int_key 8)]"
  have new: "hashmap_new True 1 False = Inr fresh_map"
    by (simp add: hashmap_new_def fresh_map_def)
  have "snd (map_run Map.empty ?cs) (key_abs (int_key 7)) = Some 11"
    by (simp add: map_run_def)
  then show ?thesis
    using new hashmap_is_finite_map [OF new, of ?cs "fst (hm_run fresh_map ?cs)" "snd (hm_run fresh_map ?cs)"
        "fst (map_run Map.empty ?cs)" "snd (map_run Map.empty ?cs)" "int_key 7"]
    by simp
qed

end
