(* ===== verification/Dll.thy ===== *)
theory Dll
  imports Kernel_Prelude
begin

section \<open>Doubly linked lists\<close>

text \<open>
  The block cache, the inode cache and \<^verbatim>\<open>data-structs/linked_list.c\<close> each keep a doubly linked
  list of nodes. Their models hold the links as the source has them (a \<open>next\<close> and a \<open>prev\<close>
  pointer per node). This theory has the shared predicate that relates such links to the list
  of node addresses, and how it changes under the pointer updates of the three components.
\<close>

primrec first_of :: "'p list \<Rightarrow> 'p option \<Rightarrow> 'p option" where
  "first_of [] q = q"
| "first_of (x # xs) q = Some x"

definition last_of :: "'p option \<Rightarrow> 'p list \<Rightarrow> 'p option" where
  "last_of p xs = (if xs = [] then p else Some (last xs))"

text \<open>\<open>seg nx pv p xs q\<close>: following \<open>nx\<close> from the head of \<open>xs\<close> visits \<open>xs\<close> and ends at
  \<open>q\<close>; following \<open>pv\<close> goes the other way and ends at \<open>p\<close>.\<close>

primrec seg :: "('p \<Rightarrow> 'p option) \<Rightarrow> ('p \<Rightarrow> 'p option) \<Rightarrow> 'p option \<Rightarrow> 'p list \<Rightarrow> 'p option \<Rightarrow> bool" where
  "seg nx pv p [] q \<longleftrightarrow> True"
| "seg nx pv p (x # xs) q \<longleftrightarrow> pv x = p \<and> nx x = first_of xs q \<and> seg nx pv (Some x) xs q"

definition dll :: "'p option \<Rightarrow> 'p option \<Rightarrow> ('p \<Rightarrow> 'p option) \<Rightarrow> ('p \<Rightarrow> 'p option) \<Rightarrow> 'p list \<Rightarrow> bool" where
  "dll h t nx pv xs \<longleftrightarrow>
     distinct xs \<and> h = first_of xs None \<and> t = last_of None xs \<and> seg nx pv None xs None"

lemma last_of_simps [simp]:
  "last_of p [] = p"
  "last_of p (x # xs) = last_of (Some x) xs"
  "last_of p (xs @ [x]) = Some x"
  by (auto simp: last_of_def)

lemma last_of_not_None [simp]: "last_of (Some a) xs \<noteq> None" "(None = last_of (Some a) xs) = False"
  by (auto simp: last_of_def)

lemma last_of_append: "last_of p (xs @ ys) = last_of (last_of p xs) ys"
  by (auto simp: last_of_def)

lemma first_of_append: "first_of (xs @ ys) q = first_of xs (first_of ys q)"
  by (cases xs) auto

lemma first_of_None: "first_of xs None = None \<longleftrightarrow> xs = []"
  by (cases xs) auto

lemma last_of_None: "last_of None xs = None \<longleftrightarrow> xs = []"
  by (auto simp: last_of_def)

lemma first_of_Some: "first_of xs None = Some x \<longleftrightarrow> (\<exists>ys. xs = x # ys)"
  by (cases xs) auto

lemma last_of_Some: "last_of None xs = Some x \<longleftrightarrow> (\<exists>ys. xs = ys @ [x])"
  by (cases xs rule: rev_cases) (auto simp: last_of_def)

lemma seg_append:
  "seg nx pv p (xs @ ys) q \<longleftrightarrow> seg nx pv p xs (first_of ys q) \<and> seg nx pv (last_of p xs) ys q"
  by (induction xs arbitrary: p) (auto simp: first_of_append)

lemma seg_cong:
  "(\<And>x. x \<in> set xs \<Longrightarrow> nx' x = nx x \<and> pv' x = pv x) \<Longrightarrow> seg nx' pv' p xs q = seg nx pv p xs q"
  by (induction xs arbitrary: p) auto

lemma seg_relink_last:
  assumes "seg nx pv p (xs @ [z]) q" "distinct (xs @ [z])"
    and "\<And>x. x \<in> set xs \<Longrightarrow> nx' x = nx x \<and> pv' x = pv x" "pv' z = pv z" "nx' z = q'"
  shows "seg nx' pv' p (xs @ [z]) q'"
  using assms seg_cong [of xs nx' nx pv' pv p "Some z"] by (auto simp: seg_append)

lemma seg_relink_first:
  assumes "seg nx pv p (z # xs) q" "distinct (z # xs)"
    and "\<And>x. x \<in> set xs \<Longrightarrow> nx' x = nx x \<and> pv' x = pv x" "nx' z = nx z" "pv' z = p'"
  shows "seg nx' pv' p' (z # xs) q"
  using assms seg_cong [of xs nx' nx pv' pv "Some z" q] by auto

subsection \<open>Unlinking a node\<close>

text \<open>Links after a node between \<open>xs\<close> and \<open>ys\<close> was bypassed.\<close>

lemma dll_unlink:
  assumes d: "dll h t nx pv (xs @ n # ys)"
    and nx: "\<And>x. x \<in> set (xs @ ys) \<Longrightarrow> nx' x = (if last_of None xs = Some x then first_of ys None else nx x)"
    and pv: "\<And>x. x \<in> set (xs @ ys) \<Longrightarrow> pv' x = (if first_of ys None = Some x then last_of None xs else pv x)"
    and h': "h' = first_of (xs @ ys) None" and t': "t' = last_of None (xs @ ys)"
  shows "dll h' t' nx' pv' (xs @ ys)"
proof -
  from d have dist: "distinct (xs @ n # ys)" and s1: "seg nx pv None xs (Some n)"
    and s2: "seg nx pv (Some n) ys None"
    by (auto simp: dll_def seg_append)
  have fst: "first_of ys None \<noteq> Some x" if "x \<in> set xs" for x
    using that dist by (auto simp: first_of_Some)
  have lst: "last_of None xs \<noteq> Some x" if "x \<in> set ys" for x
    using that dist by (auto simp: last_of_Some)
  have "seg nx' pv' None xs (first_of ys None)"
  proof (cases xs rule: rev_cases)
    case (snoc us z)
    have "nx' x = nx x \<and> pv' x = pv x" if "x \<in> set us" for x
      using that nx [of x] pv [of x] fst [of x] dist snoc by auto
    moreover have "pv' z = pv z" "nx' z = first_of ys None"
      using nx [of z] pv [of z] fst [of z] snoc by auto
    ultimately show ?thesis using s1 dist snoc by (auto intro: seg_relink_last [of nx pv None us z "Some n"])
  qed simp
  moreover have "seg nx' pv' (last_of None xs) ys None"
  proof (cases ys)
    case (Cons z us)
    have "nx' x = nx x \<and> pv' x = pv x" if "x \<in> set us" for x
      using that nx [of x] pv [of x] lst [of x] dist Cons by auto
    moreover have "nx' z = nx z" "pv' z = last_of None xs"
      using nx [of z] pv [of z] lst [of z] Cons by auto
    ultimately show ?thesis
      using seg_relink_first [of nx pv "Some n" z us None nx' pv' "last_of None xs"] s2 dist Cons by auto
  qed simp
  ultimately show ?thesis using dist h' t' by (auto simp: dll_def seg_append)
qed

lemma dll_ends:
  assumes "dll h t nx pv (xs @ n # ys)"
  shows "pv n = last_of None xs" "nx n = first_of ys None"
    "h = Some n \<longleftrightarrow> xs = []" "t = Some n \<longleftrightarrow> ys = []" "n \<notin> set xs" "n \<notin> set ys"
  using assms
  by (cases xs; cases ys rule: rev_cases; auto simp: dll_def seg_append last_of_def first_of_append)+

lemma dll_unlink_ends:
  assumes "dll h t nx pv (xs @ n # ys)"
  shows "(if h = Some n then nx n else h) = first_of (xs @ ys) None"
    "(if t = Some n then pv n else t) = last_of None (xs @ ys)"
  using assms dll_ends [OF assms]
  by (cases xs; cases ys rule: rev_cases; auto simp: dll_def last_of_append)+

subsection \<open>Linking a node\<close>

lemma dll_push_front:
  assumes d: "dll h t nx pv xs" and n: "n \<notin> set xs"
    and nx: "\<And>x. x \<in> set xs \<Longrightarrow> nx' x = nx x" "nx' n = h"
    and pv: "\<And>x. x \<in> set xs \<Longrightarrow> pv' x = (if h = Some x then Some n else pv x)" "pv' n = None"
    and ends: "h' = Some n" "t' = (if h = None then Some n else t)"
  shows "dll h' t' nx' pv' (n # xs)"
proof (cases xs)
  case Nil
  then show ?thesis using assms by (simp add: dll_def)
next
  case (Cons z us)
  have "seg nx pv None (z # us) None" "h = Some z" "distinct (z # us)"
    using d Cons by (auto simp: dll_def)
  moreover have "nx' x = nx x \<and> pv' x = pv x" if "x \<in> set us" for x
    using that nx(1) [of x] pv(1) [of x] calculation Cons by auto
  moreover have "nx' z = nx z" "pv' z = Some n"
    using nx(1) [of z] pv(1) [of z] calculation Cons by auto
  ultimately have "seg nx' pv' (Some n) (z # us) None"
    using seg_relink_first [of nx pv None z us None nx' pv' "Some n"] by simp
  then show ?thesis using d n nx(2) pv(2) ends Cons by (auto simp: dll_def last_of_def)
qed

lemma dll_push_back:
  assumes d: "dll h t nx pv xs" and n: "n \<notin> set xs"
    and nx: "\<And>x. x \<in> set xs \<Longrightarrow> nx' x = (if t = Some x then Some n else nx x)" "nx' n = None"
    and pv: "\<And>x. x \<in> set xs \<Longrightarrow> pv' x = pv x" "pv' n = t"
    and ends: "h' = (if h = None then Some n else h)" "t' = Some n"
  shows "dll h' t' nx' pv' (xs @ [n])"
proof (cases xs rule: rev_cases)
  case Nil
  then show ?thesis using assms by (simp add: dll_def)
next
  case (snoc us z)
  then have s: "seg nx pv None (us @ [z]) None" "t = Some z" "distinct (us @ [z])"
    using d by (auto simp: dll_def)
  have "nx' x = nx x \<and> pv' x = pv x" if "x \<in> set us" for x
    using that nx(1) [of x] pv(1) [of x] s snoc by auto
  moreover have "pv' z = pv z" "nx' z = Some n"
    using nx(1) [of z] pv(1) [of z] s snoc by auto
  ultimately have "seg nx' pv' None (us @ [z]) (Some n)"
    using seg_relink_last [OF s(1,3), of nx' pv' "Some n"] by simp
  moreover have "h \<noteq> None" using d snoc by (auto simp: dll_def first_of_None)
  moreover have "h = first_of (us @ [z]) (Some n)" using d snoc by (cases us) (auto simp: dll_def)
  ultimately show ?thesis using d n nx(2) pv(2) ends snoc s
    by (auto simp: dll_def seg_append first_of_append last_of_append)
qed

end
