(* ===== verification/Linked_List.thy ===== *)
theory Linked_List
  imports Dll
begin

section \<open>Linked list\<close>

text \<open>
  \<^verbatim>\<open>src/kernel/data-structs/linked_list.c\<close>: a head pointer and nodes with \<open>next\<close>, \<open>prev\<close> and
  \<open>data\<close>. The nodes live in a heap indexed by address; \<open>kmalloc\<close> call number \<open>n\<close> returns the
  address \<open>n\<close> or fails. The loops follow the pointers: on a cyclic chain they run forever, which is
  the value \<open>None\<close>.
\<close>

record 'a lnode =
  ln_next :: "nat option"
  ln_prev :: "nat option"
  ln_data :: 'a

record 'a llist =
  ll_head :: "nat option"
  ll_nodes :: "nat \<Rightarrow> 'a lnode"
  ll_calls :: nat
  ll_ok :: "nat \<Rightarrow> bool"
  ll_freed :: "nat set"

text \<open>\<open>list_create\<close> leaves \<open>count\<close>, which no other function uses, uninitialised. The null check on
  the header is missing: a failed allocation faults.\<close>

definition list_create :: "bool \<Rightarrow> (nat \<Rightarrow> 'a lnode) \<Rightarrow> (nat \<Rightarrow> bool) \<Rightarrow> 'a llist kres" where
  "list_create header heap ok =
     (if header then Inr \<lparr>ll_head = None, ll_nodes = heap, ll_calls = 0, ll_ok = ok, ll_freed = {}\<rparr>
      else Inl data_abort)"

partial_function (option) node_destroy :: "(nat \<Rightarrow> 'a lnode) \<Rightarrow> nat option \<Rightarrow> nat set \<Rightarrow> nat set option" where
  "node_destroy nodes node freed =
     (case node of None \<Rightarrow> Some freed | Some n \<Rightarrow> node_destroy nodes (ln_next (nodes n)) (insert n freed))"

definition list_destroy :: "'a llist \<Rightarrow> 'a llist option" where
  "list_destroy l =
     (case node_destroy (ll_nodes l) (ll_head l) (ll_freed l) of
        None \<Rightarrow> None | Some f \<Rightarrow> Some (l\<lparr>ll_freed := f\<rparr>))"

definition list_begin :: "'a llist \<Rightarrow> nat option" where
  "list_begin l = ll_head l"

definition list_next :: "'a llist \<Rightarrow> nat \<Rightarrow> nat option" where
  "list_next l node = ln_next (ll_nodes l node)"

definition list_data :: "'a llist \<Rightarrow> nat \<Rightarrow> 'a" where
  "list_data l node = ln_data (ll_nodes l node)"

partial_function (option) count_loop :: "(nat \<Rightarrow> 'a lnode) \<Rightarrow> nat \<Rightarrow> nat \<Rightarrow> nat option" where
  "count_loop nodes current count =
     (case ln_next (nodes current) of None \<Rightarrow> Some count | Some n \<Rightarrow> count_loop nodes n (count + 1))"

definition list_count :: "'a llist \<Rightarrow> nat option" where
  "list_count l = (case ll_head l of None \<Rightarrow> Some 0 | Some n \<Rightarrow> count_loop (ll_nodes l) n 1)"

partial_function (option) find_loop :: "(nat \<Rightarrow> 'a lnode) \<Rightarrow> nat \<Rightarrow> 'a \<Rightarrow> nat option option" where
  "find_loop nodes current data =
     (case ln_next (nodes current) of
        None \<Rightarrow> Some None
      | Some n \<Rightarrow> if ln_data (nodes n) = data then Some (Some n) else find_loop nodes n data)"

definition list_find :: "'a llist \<Rightarrow> 'a \<Rightarrow> nat option option" where
  "list_find l data =
     (case ll_head l of
        None \<Rightarrow> Some None
      | Some n \<Rightarrow> if ln_data (ll_nodes l n) = data then Some (Some n) else find_loop (ll_nodes l) n data)"

partial_function (option) last_loop :: "(nat \<Rightarrow> 'a lnode) \<Rightarrow> nat \<Rightarrow> nat option" where
  "last_loop nodes current =
     (case ln_next (nodes current) of None \<Rightarrow> Some current | Some n \<Rightarrow> last_loop nodes n)"

definition list_insert :: "'a llist \<Rightarrow> 'a \<Rightarrow> 'a llist kres option" where
  "list_insert l data =
     (let n = ll_calls l; l' = l\<lparr>ll_calls := n + 1\<rparr> in
      case ll_head l of
        None \<Rightarrow>
          Some (if ll_ok l n then
                  Inr (l'\<lparr>ll_head := Some n,
                          ll_nodes := (ll_nodes l)(n := \<lparr>ln_next = None, ln_prev = None, ln_data = data\<rparr>)\<rparr>)
                else Inl data_abort)
      | Some h \<Rightarrow>
          (case last_loop (ll_nodes l) h of
             None \<Rightarrow> None
           | Some cur \<Rightarrow>
               Some (if ll_ok l n then
                       Inr (l'\<lparr>ll_nodes := (ll_nodes l)
                         (cur := (ll_nodes l cur)\<lparr>ln_next := Some n\<rparr>,
                          n := \<lparr>ln_next = None, ln_prev = Some cur, ln_data = data\<rparr>)\<rparr>)
                     else Inl data_abort)))"

definition list_remove :: "'a llist \<Rightarrow> nat \<Rightarrow> 'a llist" where
  "list_remove l node =
     (let nd = ll_nodes l node;
          l = (case ln_prev nd of
                 Some p \<Rightarrow> l\<lparr>ll_nodes := (ll_nodes l)(p := (ll_nodes l p)\<lparr>ln_next := ln_next nd\<rparr>)\<rparr>
               | None \<Rightarrow> l\<lparr>ll_head := ln_next nd\<rparr>);
          l = (case ln_next nd of
                 Some q \<Rightarrow> l\<lparr>ll_nodes := (ll_nodes l)(q := (ll_nodes l q)\<lparr>ln_prev := ln_prev nd\<rparr>)\<rparr>
               | None \<Rightarrow> l)
      in l\<lparr>ll_freed := insert node (ll_freed l)\<rparr>)"

text \<open>\<open>list_foreach\<close> as a fold of the callback over the data.\<close>

partial_function (option) foreach_loop :: "(nat \<Rightarrow> 'a lnode) \<Rightarrow> nat \<Rightarrow> ('a \<Rightarrow> 's \<Rightarrow> 's) \<Rightarrow> 's \<Rightarrow> 's option" where
  "foreach_loop nodes current func s =
     (case ln_next (nodes current) of
        None \<Rightarrow> Some s
      | Some n \<Rightarrow> foreach_loop nodes n func (func (ln_data (nodes n)) s))"

definition list_foreach :: "'a llist \<Rightarrow> ('a \<Rightarrow> 's \<Rightarrow> 's) \<Rightarrow> 's \<Rightarrow> 's option" where
  "list_foreach l func s =
     (case ll_head l of
        None \<Rightarrow> Some s
      | Some n \<Rightarrow> foreach_loop (ll_nodes l) n func (func (ln_data (ll_nodes l n)) s))"

subsection \<open>The list behind the pointers\<close>

definition ll_is :: "'a llist \<Rightarrow> nat list \<Rightarrow> bool" where
  "ll_is l ps \<longleftrightarrow>
     dll (ll_head l) (last_of None ps) (\<lambda>p. ln_next (ll_nodes l p)) (\<lambda>p. ln_prev (ll_nodes l p)) ps \<and>
     (\<forall>p \<in> set ps. p < ll_calls l \<and> p \<notin> ll_freed l) \<and> (\<forall>p \<in> ll_freed l. p < ll_calls l)"

definition ll_vals :: "'a llist \<Rightarrow> nat list \<Rightarrow> 'a list" where
  "ll_vals l ps = map (list_data l) ps"

abbreviation ll_seg :: "(nat \<Rightarrow> 'a lnode) \<Rightarrow> nat option \<Rightarrow> nat list \<Rightarrow> bool" where
  "ll_seg nodes p ps \<equiv> seg (\<lambda>p. ln_next (nodes p)) (\<lambda>p. ln_prev (nodes p)) p ps None"

lemma count_loop_seg: "ll_seg nodes p (x # xs) \<Longrightarrow> count_loop nodes x c = Some (c + length xs)"
  by (induction xs arbitrary: p x c) (auto simp: count_loop.simps)

lemma last_loop_seg: "ll_seg nodes p (x # xs) \<Longrightarrow> last_loop nodes x = Some (last (x # xs))"
  by (induction xs arbitrary: p x) (auto simp: last_loop.simps)

lemma find_loop_seg:
  "ll_seg nodes p (x # xs) \<Longrightarrow> find_loop nodes x d = Some (List.find (\<lambda>p. ln_data (nodes p) = d) xs)"
  by (induction xs arbitrary: p x) (auto simp: find_loop.simps)

lemma foreach_loop_seg:
  "ll_seg nodes p (x # xs) \<Longrightarrow> foreach_loop nodes x f s = Some (fold f (map (\<lambda>p. ln_data (nodes p)) xs) s)"
  by (induction xs arbitrary: p x s) (auto simp: foreach_loop.simps)

lemma node_destroy_seg: "ll_seg nodes p xs \<Longrightarrow> node_destroy nodes (first_of xs None) f = Some (f \<union> set xs)"
  by (induction xs arbitrary: p f) (auto simp: node_destroy.simps)

lemma ll_is_seg:
  assumes "ll_is l ps"
  shows "ll_seg (ll_nodes l) None ps" "ll_head l = first_of ps None" "distinct ps"
  using assms by (auto simp: ll_is_def dll_def)

lemma list_insert_is:
  assumes "ll_is l ps" "ll_ok l (ll_calls l)"
  obtains l' where "list_insert l d = Some (Inr l')" "ll_is l' (ps @ [ll_calls l])" "ll_vals l' (ps @ [ll_calls l]) = ll_vals l ps @ [d]"
proof -
  note sg = ll_is_seg [OF assms(1)]
  have new: "ll_calls l \<notin> set ps" "ll_calls l \<notin> ll_freed l" using assms(1) by (auto simp: ll_is_def)
  define l' where "l' = l\<lparr>ll_calls := ll_calls l + 1, ll_head := Some (hd (ps @ [ll_calls l])),
    ll_nodes := (case last_of None ps of None \<Rightarrow> ll_nodes l | Some c \<Rightarrow> (ll_nodes l)(c := (ll_nodes l c)\<lparr>ln_next := Some (ll_calls l)\<rparr>))
      (ll_calls l := \<lparr>ln_next = None, ln_prev = last_of None ps, ln_data = d\<rparr>)\<rparr>"
  have run: "list_insert l d = Some (Inr l')"
  proof (cases ps)
    case Nil
    then show ?thesis using sg assms(2) by (simp add: list_insert_def l'_def Let_def)
  next
    case (Cons x xs)
    then have "last_loop (ll_nodes l) x = Some (last (x # xs))" using sg(1) last_loop_seg by blast
    then show ?thesis using sg(2) assms(2) Cons by (simp add: list_insert_def l'_def Let_def last_of_def)
  qed
  have dat: "list_data l' p = list_data l p" if "p \<in> set ps" for p
    using that new by (auto simp: l'_def list_data_def split: option.splits)
  have "dll (ll_head l') (last_of None (ps @ [ll_calls l])) (\<lambda>p. ln_next (ll_nodes l' p)) (\<lambda>p. ln_prev (ll_nodes l' p)) (ps @ [ll_calls l])"
  proof (rule dll_push_back [where h = "ll_head l" and t = "last_of None ps" and nx = "\<lambda>p. ln_next (ll_nodes l p)"
        and pv = "\<lambda>p. ln_prev (ll_nodes l p)"])
    show "dll (ll_head l) (last_of None ps) (\<lambda>p. ln_next (ll_nodes l p)) (\<lambda>p. ln_prev (ll_nodes l p)) ps"
      using assms(1) by (simp add: ll_is_def)
    show "ll_head l' = (if ll_head l = None then Some (ll_calls l) else ll_head l)"
      using sg(2) by (cases ps) (simp_all add: l'_def)
  qed (use new in \<open>auto simp: l'_def split: option.splits\<close>)
  then have "ll_is l' (ps @ [ll_calls l])" using assms(1) new(2) by (auto simp: ll_is_def l'_def)
  moreover have "ll_vals l' (ps @ [ll_calls l]) = ll_vals l ps @ [d]"
    using dat by (simp add: ll_vals_def) (simp add: list_data_def l'_def)
  ultimately show thesis using that run by blast
qed

lemma list_remove_is:
  assumes "ll_is l (xs @ n # ys)"
  shows "ll_is (list_remove l n) (xs @ ys)" "list_data (list_remove l n) p = list_data l p"
proof -
  have d: "dll (ll_head l) (last_of None (xs @ n # ys)) (\<lambda>p. ln_next (ll_nodes l p)) (\<lambda>p. ln_prev (ll_nodes l p)) (xs @ n # ys)"
    using assms by (simp add: ll_is_def)
  note e = dll_ends [OF d]
  have dist: "distinct (xs @ n # ys)" using d by (simp add: dll_def)
  show "list_data (list_remove l n) p = list_data l p"
    by (auto simp: list_remove_def list_data_def Let_def split: option.splits)
  have lf: "last_of None xs = Some a \<Longrightarrow> first_of ys None = Some b \<Longrightarrow> a \<noteq> b" for a b
    using dist by (auto simp: last_of_Some first_of_Some)
  have "dll (ll_head (list_remove l n)) (last_of None (xs @ ys)) (\<lambda>p. ln_next (ll_nodes (list_remove l n) p))
      (\<lambda>p. ln_prev (ll_nodes (list_remove l n) p)) (xs @ ys)"
  proof (rule dll_unlink [OF d])
    show "ll_head (list_remove l n) = first_of (xs @ ys) None"
      using e d by (cases xs) (auto simp: list_remove_def Let_def dll_def split: option.splits)
  qed (use e lf in \<open>auto simp: list_remove_def Let_def split: option.splits\<close>)
  then show "ll_is (list_remove l n) (xs @ ys)"
    using assms dist by (auto simp: ll_is_def list_remove_def Let_def split: option.splits)
qed

text \<open>C30. The linked list is a sequence. Over an acyclic chain of live nodes, \<^verbatim>\<open>list_count\<close>,
  \<^verbatim>\<open>list_find\<close> and \<^verbatim>\<open>list_foreach\<close> terminate with the length, the first node with the data and the fold
  over the elements in order; \<^verbatim>\<open>list_insert\<close> appends (and faults exactly when \<^verbatim>\<open>kmalloc\<close> fails);
  \<^verbatim>\<open>list_remove\<close> takes out exactly the given node and frees it; \<^verbatim>\<open>list_destroy\<close> frees every node.\<close>

theorem linked_list_is_sequence:
  assumes "ll_is l ps"
  shows "list_count l = Some (length ps) \<and>
    list_find l d = Some (List.find (\<lambda>p. list_data l p = d) ps) \<and>
    list_foreach l f s = Some (fold f (ll_vals l ps) s) \<and>
    (if ll_ok l (ll_calls l) then \<exists>l' p. list_insert l d = Some (Inr l') \<and> ll_is l' (ps @ [p]) \<and> ll_vals l' (ps @ [p]) = ll_vals l ps @ [d]
     else list_insert l d = Some (Inl data_abort)) \<and>
    (\<forall>n \<in> set ps. ll_is (list_remove l n) (remove1 n ps) \<and>
       ll_vals (list_remove l n) (remove1 n ps) = ll_vals l (remove1 n ps) \<and> n \<in> ll_freed (list_remove l n)) \<and>
    (\<exists>l'. list_destroy l = Some l' \<and> ll_freed l' = ll_freed l \<union> set ps)"
proof (intro conjI ballI)
  note sg = ll_is_seg [OF assms]
  show "list_count l = Some (length ps)"
    using sg count_loop_seg [of "ll_nodes l" None] by (cases ps) (simp_all add: list_count_def del: seg.simps)
  show "list_find l d = Some (List.find (\<lambda>p. list_data l p = d) ps)"
    using sg find_loop_seg [of "ll_nodes l" None] by (cases ps) (simp_all add: list_find_def list_data_def del: seg.simps)
  show "list_foreach l f s = Some (fold f (ll_vals l ps) s)"
    using sg foreach_loop_seg [of "ll_nodes l" None]
    by (cases ps) (simp_all add: list_foreach_def list_data_def [abs_def] ll_vals_def del: seg.simps)
  show "if ll_ok l (ll_calls l) then \<exists>l' p. list_insert l d = Some (Inr l') \<and> ll_is l' (ps @ [p]) \<and> ll_vals l' (ps @ [p]) = ll_vals l ps @ [d]
     else list_insert l d = Some (Inl data_abort)"
  proof (cases "ll_ok l (ll_calls l)")
    case True
    then show ?thesis using list_insert_is [OF assms True] by metis
  next
    case False
    then show ?thesis
      using sg last_loop_seg [of "ll_nodes l" None] by (cases ps) (simp_all add: list_insert_def Let_def del: seg.simps)
  qed
  show "\<exists>l'. list_destroy l = Some l' \<and> ll_freed l' = ll_freed l \<union> set ps"
    using node_destroy_seg [OF sg(1)] sg(2) by (simp add: list_destroy_def)
  fix n assume "n \<in> set ps"
  then obtain xs ys where ps: "ps = xs @ n # ys" by (auto simp: in_set_conv_decomp)
  then have "remove1 n ps = xs @ ys" using sg(3) by (simp add: remove1_append)
  then show "ll_is (list_remove l n) (remove1 n ps)" "ll_vals (list_remove l n) (remove1 n ps) = ll_vals l (remove1 n ps)"
    using list_remove_is assms ps by (auto simp: ll_vals_def)
  show "n \<in> ll_freed (list_remove l n)" by (simp add: list_remove_def Let_def split: option.splits)
qed

theorem linked_list_is_sequence_witness:
  "\<exists>l. list_create True (\<lambda>_. \<lparr>ln_next = None, ln_prev = None, ln_data = 0\<rparr>) (\<lambda>_. True) = Inr l \<and> ll_is l [] \<and>
     list_count l = Some 0 \<and> (\<exists>l' p. list_insert l (5 :: nat) = Some (Inr l') \<and> ll_vals l' [p] = [5])"
proof -
  let ?l = "\<lparr>ll_head = None, ll_nodes = \<lambda>_. \<lparr>ln_next = None, ln_prev = None, ln_data = 0 :: nat\<rparr>, ll_calls = 0,
    ll_ok = \<lambda>_. True, ll_freed = {}\<rparr>"
  have "ll_is ?l []" by (simp add: ll_is_def dll_def)
  then show ?thesis using linked_list_is_sequence [of ?l "[]" 5 "\<lambda>_ u. u" "()"] by (auto simp: list_create_def ll_vals_def)
qed

end
