(* ===== verification/Kstring.thy ===== *)
theory Kstring
  imports Kernel_Prelude
begin

section \<open>C strings\<close>

text \<open>
  \<^verbatim>\<open>src/kernel/string.c\<close> and the string functions of \<^verbatim>\<open>src/user/lib/string.c\<close>. A pointer to
  characters is the list of bytes from the pointer to the end of its object, so \<open>p++\<close> is the tail
  of the list; an access past the end of the object is \<open>Inl data_abort\<close>. A string that is written
  (\<open>dst\<close> of the copies, the subject of \<open>strtok\<close>) is a list with an index.
\<close>

subsection \<open>Reading\<close>

fun strlen :: "byte list \<Rightarrow> nat kres" where
  "strlen [] = Inl data_abort"
| "strlen (c # str) = (if c \<noteq> 0 then (case strlen str of Inl e \<Rightarrow> Inl e | Inr n \<Rightarrow> Inr (n + 1)) else Inr 0)"

fun strcmp :: "byte list \<Rightarrow> byte list \<Rightarrow> int kres" where
  "strcmp (a # lhs) (b # rhs) = (if a \<noteq> 0 \<and> a = b then strcmp lhs rhs else Inr (uint a - uint b))"
| "strcmp _ _ = Inl data_abort"

fun is_delim :: "byte \<Rightarrow> byte list \<Rightarrow> bool kres" where
  "is_delim ch [] = Inl data_abort"
| "is_delim ch (d # delim) = (if d = 0 then Inr False else if ch = d then Inr True else is_delim ch delim)"

subsection \<open>Copying\<close>

function strcpy_loop :: "byte list \<Rightarrow> byte list \<Rightarrow> nat \<Rightarrow> byte list kres" where
  "strcpy_loop dst src i =
     (if i \<ge> length src \<or> i \<ge> length dst then Inl data_abort
      else if src ! i \<noteq> 0 then strcpy_loop (dst[i := src ! i]) src (i + 1)
      else Inr (dst[i := src ! i]))"
  by auto
termination by (relation "measure (\<lambda>(_, src, i). length src - i)") auto

definition strcpy :: "byte list \<Rightarrow> byte list \<Rightarrow> byte list kres" where
  "strcpy dst src = strcpy_loop dst src 0"

function strncpy_copy :: "byte list \<Rightarrow> byte list \<Rightarrow> nat \<Rightarrow> nat \<Rightarrow> (byte list \<times> nat) kres" where
  "strncpy_copy dst src n i =
     (if i \<ge> n then Inr (dst, i)
      else if i \<ge> length src then Inl data_abort
      else if src ! i = 0 then Inr (dst, i)
      else if i \<ge> length dst then Inl data_abort
      else strncpy_copy (dst[i := src ! i]) src n (i + 1))"
  by auto
termination by (relation "measure (\<lambda>(_, _, n, i). n - i)") auto

function strncpy_pad :: "byte list \<Rightarrow> nat \<Rightarrow> nat \<Rightarrow> byte list kres" where
  "strncpy_pad dst n i =
     (if i \<ge> n then Inr dst
      else if i \<ge> length dst then Inl data_abort
      else strncpy_pad (dst[i := 0]) n (i + 1))"
  by auto
termination by (relation "measure (\<lambda>(_, n, i). n - i)") auto

definition strncpy :: "byte list \<Rightarrow> byte list \<Rightarrow> nat \<Rightarrow> byte list kres" where
  "strncpy dst src n =
     (case strncpy_copy dst src n 0 of Inl e \<Rightarrow> Inl e | Inr (dst, i) \<Rightarrow> strncpy_pad dst n i)"

declare strcpy_loop.simps [simp del] strncpy_copy.simps [simp del] strncpy_pad.simps [simp del]

subsection \<open>Tokens\<close>

text \<open>The static pointer \<open>next\<close> of \<open>strtok\<close>, with the buffer it points into.\<close>

record tok =
  tok_buf :: "byte list"
  tok_next :: "nat option"

text \<open>The two scanning loops: skip while the delimiter test gives \<open>want\<close>.\<close>

function strtok_skip :: "byte list \<Rightarrow> byte list \<Rightarrow> bool \<Rightarrow> nat \<Rightarrow> nat kres" where
  "strtok_skip d delim want i =
     (if i \<ge> length d then Inl data_abort
      else if d ! i = 0 then Inr i
      else case is_delim (d ! i) delim of
        Inl e \<Rightarrow> Inl e
      | Inr b \<Rightarrow> if b = want then strtok_skip d delim want (i + 1) else Inr i)"
  by auto
termination by (relation "measure (\<lambda>(d, _, _, i). length d - i)") auto

declare strtok_skip.simps [simp del]

definition strtok :: "byte list option \<Rightarrow> byte list \<Rightarrow> tok \<Rightarrow> (nat option \<times> tok) kres" where
  "strtok str delim t =
     (let t = (case str of Some s \<Rightarrow> \<lparr>tok_buf = s, tok_next = Some 0\<rparr> | None \<Rightarrow> t) in
      case tok_next t of
        None \<Rightarrow> Inr (None, t)
      | Some next \<Rightarrow>
          (case strtok_skip (tok_buf t) delim True next of
             Inl e \<Rightarrow> Inl e
           | Inr token \<Rightarrow>
               if tok_buf t ! token = 0 then Inr (None, t\<lparr>tok_next := None\<rparr>)
               else (case strtok_skip (tok_buf t) delim False token of
                 Inl e \<Rightarrow> Inl e
               | Inr next \<Rightarrow>
                   if tok_buf t ! next = 0 then Inr (Some token, t\<lparr>tok_next := None\<rparr>)
                   else Inr (Some token, \<lparr>tok_buf = (tok_buf t)[next := 0], tok_next = Some (next + 1)\<rparr>))))"

subsection \<open>Numbers\<close>

abbreviation is_digit :: "byte \<Rightarrow> bool" where
  "is_digit c \<equiv> 48 \<le> c \<and> c \<le> 57"

definition isspace :: "byte \<Rightarrow> bool" where
  "isspace c \<longleftrightarrow> c = 32 \<or> c = 9 \<or> c = 10 \<or> c = 11 \<or> c = 12 \<or> c = 13"

fun skip_spaces :: "byte list \<Rightarrow> byte list kres" where
  "skip_spaces [] = Inl data_abort"
| "skip_spaces (c # str) = (if isspace c then skip_spaces str else Inr (c # str))"

fun atoi_digits :: "byte list \<Rightarrow> u32 \<Rightarrow> (u32 \<times> byte list) kres" where
  "atoi_digits [] v = Inl data_abort"
| "atoi_digits (c # str) v =
     (if is_digit c then atoi_digits str (v * 10 + (ucast c - 48)) else Inr (v, c # str))"

text \<open>The first result is the return value, the second what \<open>*out\<close> is set to. \<open>int\<close> is 32 bits
  wide; the hardware's arithmetic wraps.\<close>

definition atoi :: "byte list option \<Rightarrow> bool \<Rightarrow> (int \<times> u32 option) kres" where
  "atoi str out =
     (if str = None \<or> \<not> out then Inr (- 1, None)
      else case skip_spaces (the str) of
        Inl e \<Rightarrow> Inl e
      | Inr str \<Rightarrow>
          (let (sign, str) = (if hd str = 45 then (- 1, tl str) else if hd str = 43 then (1, tl str) else (1, str)) in
           if str = [] then Inl data_abort
           else if \<not> is_digit (hd str) then Inr (- 1, None)
           else case atoi_digits str 0 of
             Inl e \<Rightarrow> Inl e
           | Inr (v, str) \<Rightarrow> if hd str \<noteq> 0 then Inr (- 1, None) else Inr (0, Some (v * sign))))"

text \<open>The user library's \<open>strtol\<close>: the value and the rest of the string that \<open>*endptr\<close> gets.\<close>

definition digit_of :: "byte \<Rightarrow> int option" where
  "digit_of c =
     (if 48 \<le> c \<and> c \<le> 57 then Some (uint c - 48)
      else if 97 \<le> c \<and> c \<le> 122 then Some (uint c - 97 + 10)
      else if 65 \<le> c \<and> c \<le> 90 then Some (uint c - 65 + 10)
      else None)"

fun strtol_digits :: "byte list \<Rightarrow> int \<Rightarrow> u64 \<Rightarrow> (u64 \<times> byte list) kres" where
  "strtol_digits [] base v = Inl data_abort"
| "strtol_digits (c # s) base v =
     (if c = 0 then Inr (v, c # s)
      else case digit_of c of
        None \<Rightarrow> Inr (v, c # s)
      | Some digit \<Rightarrow>
          if digit \<ge> base then Inr (v, c # s)
          else strtol_digits s base (v * word_of_int base + word_of_int digit))"

definition strtol :: "byte list \<Rightarrow> int \<Rightarrow> (u64 \<times> byte list) kres" where
  "strtol nptr base =
     (case skip_spaces nptr of
        Inl e \<Rightarrow> Inl e
      | Inr s \<Rightarrow>
          (let (sign, s) = (if hd s = 45 then (- 1, tl s) else if hd s = 43 then (1, tl s) else (1, s));
               base = (if base = 0 then 10 else base)
           in case strtol_digits s base 0 of
                Inl e \<Rightarrow> Inl e
              | Inr (v, s') \<Rightarrow> Inr (v * sign, if s' = s then nptr else s')))"

text \<open>\<open>new_str[off + i] = str[i]\<close> for \<open>i\<close> below \<open>n\<close>.\<close>

function copy_loop :: "byte list \<Rightarrow> nat \<Rightarrow> byte list \<Rightarrow> nat \<Rightarrow> nat \<Rightarrow> byte list kres" where
  "copy_loop dst off str n i =
     (if i \<ge> n then Inr dst
      else if i \<ge> length str \<or> off + i \<ge> length dst then Inl data_abort
      else copy_loop (dst[off + i := str ! i]) off str n (i + 1))"
  by auto
termination by (relation "measure (\<lambda>(_, _, _, n, i). n - i)") auto

declare copy_loop.simps [simp del]

definition str_concat :: "byte cell_alloc \<Rightarrow> byte list \<Rightarrow> byte list \<Rightarrow> byte list option kres" where
  "str_concat malloc str1 str2 =
     (case (strlen str1, strlen str2) of
        (Inr len1, Inr len2) \<Rightarrow>
          (case malloc (len1 + len2 + 1) of
             None \<Rightarrow> Inr None
           | Some new_str \<Rightarrow>
               (case copy_loop new_str 0 str1 len1 0 of
                  Inl e \<Rightarrow> Inl e
                | Inr new_str \<Rightarrow>
                    (case copy_loop new_str len1 str2 len2 0 of
                       Inl e \<Rightarrow> Inl e
                     | Inr new_str \<Rightarrow>
                         if len1 + len2 \<ge> length new_str then Inl data_abort
                         else Inr (Some (new_str[len1 + len2 := 0])))))
      | _ \<Rightarrow> Inl data_abort)"

definition str_copy :: "byte cell_alloc \<Rightarrow> byte list \<Rightarrow> byte list option kres" where
  "str_copy malloc str =
     (case strlen str of
        Inl e \<Rightarrow> Inl e
      | Inr len \<Rightarrow>
          (case malloc (len + 1) of
             None \<Rightarrow> Inr None
           | Some new_str \<Rightarrow>
               (case copy_loop new_str 0 str (len + 1) 0 of Inl e \<Rightarrow> Inl e | Inr d \<Rightarrow> Inr (Some d))))"

subsection \<open>Strings as lists\<close>

text \<open>\<open>cstr p xs\<close>: the characters at \<open>p\<close> up to the terminator are \<open>xs\<close>.\<close>

definition cstr :: "byte list \<Rightarrow> byte list \<Rightarrow> bool" where
  "cstr p xs \<longleftrightarrow> 0 \<notin> set xs \<and> (\<exists>r. p = xs @ 0 # r)"

lemma cstrI: "0 \<notin> set xs \<Longrightarrow> cstr (xs @ 0 # r) xs"
  by (auto simp: cstr_def)

lemma drop_Cons_iff: "drop i d = c # p \<longleftrightarrow> i < length d \<and> d ! i = c \<and> drop (Suc i) d = p"
  by (cases "i < length d") (auto simp: Cons_nth_drop_Suc [symmetric])

lemma cstr_simps [simp]:
  "cstr p [] \<longleftrightarrow> (\<exists>r. p = 0 # r)"
  "cstr p (c # xs) \<longleftrightarrow> (\<exists>p'. p = c # p' \<and> c \<noteq> 0 \<and> cstr p' xs)"
  "\<not> cstr [] xs"
  by (auto simp: cstr_def)

lemma strlen_cstr: "cstr p xs \<Longrightarrow> strlen p = Inr (length xs)"
  by (induction xs arbitrary: p) auto

lemma byte_uint_eq: "uint (a :: byte) = uint b \<longleftrightarrow> a = b"
  by (simp add: word_uint_eq_iff)

lemma byte_uint_0 [simp]: "uint (a :: byte) = 0 \<longleftrightarrow> a = 0"
  by (simp add: word_uint_eq_iff)

lemma strcmp_cstr: "cstr p xs \<Longrightarrow> cstr q ys \<Longrightarrow> strcmp p q = Inr 0 \<longleftrightarrow> xs = ys"
proof (induction xs arbitrary: p ys q)
  case Nil
  then show ?case by (cases ys) auto
next
  case (Cons c xs)
  then show ?case by (cases ys) (auto simp: byte_uint_eq split: if_splits)
qed

lemma is_delim_cstr: "cstr delim ds \<Longrightarrow> is_delim ch delim = Inr (ch \<in> set ds)"
  by (induction ds arbitrary: delim) auto

subsection \<open>\<open>strtok\<close> splits into tokens\<close>

text \<open>The reference: the maximal runs of characters outside \<open>P\<close>.\<close>

function tokens :: "('a \<Rightarrow> bool) \<Rightarrow> 'a list \<Rightarrow> 'a list list" where
  "tokens P xs =
     (case dropWhile P xs of
        [] \<Rightarrow> []
      | y # ys \<Rightarrow> (y # takeWhile (\<lambda>c. \<not> P c) ys) # tokens P (dropWhile (\<lambda>c. \<not> P c) ys))"
  by auto
termination
proof (relation "measure (\<lambda>(P, xs). length xs)")
  fix P :: "'a \<Rightarrow> bool" and xs y ys assume "dropWhile P xs = y # ys"
  then have "length (y # ys) \<le> length xs" by (metis length_dropWhile_le)
  then show "((P, dropWhile (\<lambda>c. \<not> P c) ys), (P, xs)) \<in> measure (\<lambda>(P, xs). length xs)"
    using length_dropWhile_le [of "\<lambda>c. \<not> P c" ys] by simp
qed simp

declare tokens.simps [simp del]

lemma tokens_dropWhile: "tokens P (dropWhile P xs) = tokens P xs"
  by (subst (1 2) tokens.simps) simp

lemma tokens_delim: "P c \<Longrightarrow> tokens P (c # xs) = tokens P xs"
  by (subst (1 2) tokens.simps) simp

lemma strtok_skip_cstr:
  assumes "cstr (drop i d) xs" "cstr delim ds"
  shows "strtok_skip d delim want i = Inr (i + length (takeWhile (\<lambda>c. (c \<in> set ds) = want) xs))"
  using assms(1)
proof (induction xs arbitrary: i)
  case Nil
  then obtain r where "drop i d = 0 # r" by auto
  then have "i < length d" "d ! i = 0" by (auto simp: drop_Cons_iff)
  then show ?case by (simp add: strtok_skip.simps)
next
  case (Cons c xs)
  then obtain p where p: "drop i d = c # p" "c \<noteq> 0" "cstr p xs" by auto
  then have "i < length d" "d ! i = c" "drop (Suc i) d = p" by (auto simp: drop_Cons_iff)
  then show ?case
    using p Cons.IH [of "Suc i"] is_delim_cstr [OF assms(2), of c] by (simp add: strtok_skip.simps [of d delim want i])
qed

text \<open>What is left to tokenise.\<close>

definition pending :: "tok \<Rightarrow> byte list \<Rightarrow> bool" where
  "pending t xs \<longleftrightarrow> (case tok_next t of None \<Rightarrow> xs = [] | Some i \<Rightarrow> cstr (drop i (tok_buf t)) xs)"

lemma cstr_drop: "cstr p xs \<Longrightarrow> k \<le> length xs \<Longrightarrow> cstr (drop k p) (drop k xs)"
  by (induction xs arbitrary: p k) (auto split: nat.splits simp: drop_Cons)

lemma cstr_nth: "cstr (drop i d) xs \<Longrightarrow> k \<le> length xs \<Longrightarrow> i + k < length d \<and> d ! (i + k) = (xs @ [0]) ! k"
proof (induction xs arbitrary: i k)
  case (Cons c xs)
  then show ?case using Cons.IH [of "Suc i" "k - 1"] by (cases k) (auto simp: drop_Cons_iff)
qed (auto simp: drop_Cons_iff)

lemma cstr_cut:
  assumes "cstr (drop i d) xs" "k < length xs"
  shows "cstr (drop i (d[i + k := 0])) (take k xs)" "drop (Suc (i + k)) (d[i + k := 0]) = drop (Suc (i + k)) d"
proof -
  obtain r where d: "drop i d = xs @ 0 # r" "0 \<notin> set xs" using assms(1) by (auto simp: cstr_def)
  then have l: "i + k < length d" using assms by (metis cstr_nth less_imp_le_nat)
  have "drop i (d[i + k := 0]) = (drop i d)[k := 0]" using l by (simp add: drop_update_swap)
  also have "\<dots> = xs[k := 0] @ 0 # r" using d assms(2) by (simp add: list_update_append)
  also have "\<dots> = take k xs @ 0 # (drop (Suc k) xs @ 0 # r)" using assms(2) by (simp add: upd_conv_take_nth_drop)
  finally show "cstr (drop i (d[i + k := 0])) (take k xs)" using d(2) by (auto simp: cstr_def dest: in_set_takeD)
qed simp

lemma strtok_step:
  assumes "pending t xs" "cstr delim ds"
  shows "case tokens (\<lambda>c. c \<in> set ds) xs of
      [] \<Rightarrow> \<exists>t'. strtok None delim t = Inr (None, t')
    | w # ws \<Rightarrow> \<exists>p t' ys. strtok None delim t = Inr (Some p, t') \<and> cstr (drop p (tok_buf t')) w \<and>
        pending t' ys \<and> tokens (\<lambda>c. c \<in> set ds) ys = ws"
proof (cases "tok_next t")
  case None
  then have "xs = []" using assms(1) by (simp add: pending_def)
  then show ?thesis using None by (simp add: tokens.simps strtok_def)
next
  case (Some i)
  let ?P = "\<lambda>c. c \<in> set ds" and ?b = "tok_buf t"
  have c: "cstr (drop i ?b) xs" using assms(1) Some by (simp add: pending_def)
  define a where "a = length (takeWhile ?P xs)"
  have a: "a \<le> length xs" "dropWhile ?P xs = drop a xs"
    unfolding a_def by (rule length_takeWhile_le, rule dropWhile_eq_drop)
  have s1: "strtok_skip ?b delim True i = Inr (i + a)" using strtok_skip_cstr [OF c assms(2), of True] by (simp add: a_def)
  have c': "cstr (drop (i + a) ?b) (drop a xs)" using cstr_drop [OF c a(1)] by (simp add: add.commute)
  show ?thesis
  proof (cases "drop a xs")
    case Nil
    then have "?b ! (i + a) = 0" using cstr_nth [OF c', of 0] by simp
    then have "strtok None delim t = Inr (None, t\<lparr>tok_next := None\<rparr>)" using Some s1 by (simp add: strtok_def)
    moreover have "tokens ?P xs = []" unfolding tokens.simps [of _ xs] a(2) Nil by simp
    ultimately show ?thesis by simp
  next
    case (Cons y ys)
    define k where "k = length (takeWhile (\<lambda>c. \<not> ?P c) (y # ys))"
    have y: "\<not> ?P y" using Cons a(2) by (metis hd_dropWhile list.sel(1) list.simps(3))
    then have "0 < k" by (simp add: k_def)
    moreover have "k \<le> length (y # ys)" unfolding k_def by (rule length_takeWhile_le)
    moreover have "takeWhile (\<lambda>c. \<not> ?P c) (y # ys) = take k (y # ys)" unfolding k_def by (rule takeWhile_eq_take)
    moreover have "dropWhile (\<lambda>c. \<not> ?P c) (y # ys) = drop k (y # ys)" unfolding k_def by (rule dropWhile_eq_drop)
    ultimately have k: "0 < k" "k \<le> length (y # ys)" "takeWhile (\<lambda>c. \<not> ?P c) (y # ys) = take k (y # ys)"
        "dropWhile (\<lambda>c. \<not> ?P c) (y # ys) = drop k (y # ys)" .
    have tk: "tokens ?P xs = take k (y # ys) # tokens ?P (drop k (y # ys))"
      using y k(3,4) unfolding tokens.simps [of _ xs] a(2) Cons by simp
    have s2: "strtok_skip ?b delim False (i + a) = Inr (i + a + k)"
      using strtok_skip_cstr [OF c' assms(2), of False] Cons by (simp add: k_def)
    have nz: "?b ! (i + a) \<noteq> 0" using cstr_nth [OF c', of 0] c' Cons by auto
    show ?thesis
    proof (cases "k = length (y # ys)")
      case True
      then have "?b ! (i + a + k) = 0" using cstr_nth [OF c', of k] Cons by (simp add: nth_append)
      then have "strtok None delim t = Inr (Some (i + a), t\<lparr>tok_next := None\<rparr>)"
        using Some s1 s2 nz by (simp add: strtok_def)
      then show ?thesis
        using c' Cons True unfolding tk by (auto simp: pending_def tokens.simps [of _ "[]"])
    next
      case False
      then have lt: "k < length (drop a xs)" using k(2) Cons by simp
      have c2: "cstr (drop (i + a + k) ?b) (drop k (drop a xs))" using cstr_drop [OF c', of k] lt by (simp add: add.commute)
      obtain z zs where z0: "drop k (drop a xs) = z # zs" using lt by (cases "drop k (drop a xs)") auto
      have "?b ! (i + a + k) = z" "z \<noteq> 0" "cstr (drop (Suc (i + a + k)) ?b) zs"
        using c2 unfolding z0 by (auto simp: drop_Cons_iff)
      note z = z0 this
      have zP: "?P z" using z(1) Cons k(4) by (metis hd_dropWhile list.sel(1) list.simps(3))
      have cut: "cstr (drop (i + a) (?b[i + a + k := 0])) (take k (drop a xs))"
          "drop (Suc (i + a + k)) (?b[i + a + k := 0]) = drop (Suc (i + a + k)) ?b"
        using cstr_cut [OF c' lt] by simp_all
      have "strtok None delim t = Inr (Some (i + a), \<lparr>tok_buf = ?b[i + a + k := 0], tok_next = Some (i + a + k + 1)\<rparr>)"
        using Some s1 s2 nz z by (simp add: strtok_def)
      moreover have "tokens ?P zs = tokens ?P (drop k (y # ys))" using z(1) zP Cons tokens_delim [of ?P z zs] by simp
      ultimately show ?thesis using cut z(4) Cons unfolding tk by (auto simp: pending_def)
    qed
  qed
qed

text \<open>A caller that takes all tokens: the first call has the string, the others \<open>NULL\<close>. Fuel \<open>k\<close>
  allows \<open>k\<close> calls.\<close>

fun strtok_all :: "nat \<Rightarrow> byte list option \<Rightarrow> byte list \<Rightarrow> tok \<Rightarrow> byte list list kres option" where
  "strtok_all 0 str delim t = None"
| "strtok_all (Suc k) str delim t =
     (case strtok str delim t of
        Inl e \<Rightarrow> Some (Inl e)
      | Inr (None, t) \<Rightarrow> Some (Inr [])
      | Inr (Some p, t) \<Rightarrow>
          (case strtok_all k None delim t of
             Some (Inr ws) \<Rightarrow> Some (Inr (takeWhile (\<lambda>c. c \<noteq> 0) (drop p (tok_buf t)) # ws))
           | r \<Rightarrow> r))"

lemma cstr_takeWhile: "cstr p xs \<Longrightarrow> takeWhile (\<lambda>c. c \<noteq> 0) p = xs"
  by (induction xs arbitrary: p) auto

lemma strtok_all_pending:
  assumes "cstr delim ds" "pending t xs" "length (tokens (\<lambda>c. c \<in> set ds) xs) < k"
  shows "strtok_all k None delim t = Some (Inr (tokens (\<lambda>c. c \<in> set ds) xs))"
  using assms(2,3)
proof (induction k arbitrary: t xs)
  case (Suc k)
  note step = strtok_step [OF Suc.prems(1) assms(1)]
  show ?case
  proof (cases "tokens (\<lambda>c. c \<in> set ds) xs")
    case Nil
    then show ?thesis using step by auto
  next
    case (Cons w ws)
    then obtain p t' ys where s: "strtok None delim t = Inr (Some p, t')" "cstr (drop p (tok_buf t')) w"
        "pending t' ys" "tokens (\<lambda>c. c \<in> set ds) ys = ws"
      using step by auto
    then have "strtok_all k None delim t' = Some (Inr ws)" using Suc.IH [OF s(3)] Suc.prems(2) Cons by simp
    then show ?thesis using s(1) cstr_takeWhile [OF s(2)] Cons by simp
  qed
qed simp

lemma strtok_first: "strtok (Some str) delim t = strtok None delim \<lparr>tok_buf = str, tok_next = Some 0\<rparr>"
  by (simp add: strtok_def)

text \<open>C29. Calling \<^verbatim>\<open>strtok\<close> with the string and then with \<open>NULL\<close> until it returns \<open>NULL\<close> gives exactly the
  maximal runs of non-delimiter characters of the string, in order, each read as a C string at the
  returned pointer; the caller needs one call more than there are tokens. No access leaves the
  string.\<close>

theorem strtok_splits_into_tokens:
  assumes "0 \<notin> set xs" "0 \<notin> set ds" "length (tokens (\<lambda>c. c \<in> set ds) xs) < k"
  shows "strtok_all k (Some (xs @ 0 # r)) (ds @ 0 # q) t = Some (Inr (tokens (\<lambda>c. c \<in> set ds) xs))"
proof -
  have "pending \<lparr>tok_buf = xs @ 0 # r, tok_next = Some 0\<rparr> xs" using assms(1) by (simp add: pending_def cstrI)
  from strtok_all_pending [OF cstrI [OF assms(2), of q] this assms(3)]
  show ?thesis using assms(3) strtok_first [of "xs @ 0 # r" "ds @ 0 # q" t] by (cases k) auto
qed

theorem strtok_splits_into_tokens_witness:
  "strtok_all 3 (Some [47, 97, 47, 47, 98, 99, 0]) [47, 0] \<lparr>tok_buf = [], tok_next = None\<rparr> = Some (Inr [[97], [98, 99]])"
proof -
  have "tokens (\<lambda>c. c \<in> set [47 :: byte]) [47, 97, 47, 47, 98, 99] = [[97], [98, 99]]"
    by (simp add: tokens.simps)
  then show ?thesis
    using strtok_splits_into_tokens [of "[47, 97, 47, 47, 98, 99]" "[47]" 3 "[]" "[]" "\<lparr>tok_buf = [], tok_next = None\<rparr>"] by simp
qed

subsection \<open>\<open>atoi\<close> reads what is printed\<close>

function dec :: "nat \<Rightarrow> byte list" where
  "dec n = (if n < 10 then [48 + of_nat n] else dec (n div 10) @ [48 + of_nat (n mod 10)])"
  by auto
termination by (relation "measure id") auto

declare dec.simps [simp del]

lemma digit_char:
  assumes "m < 10"
  shows "is_digit (48 + of_nat m)" "ucast (48 + of_nat m :: byte) - 48 = (of_nat m :: u32)"
    "\<not> isspace (48 + of_nat m)" "48 + of_nat m \<noteq> (45 :: byte)" "48 + of_nat m \<noteq> (43 :: byte)"
proof -
  have "m \<in> {0, 1, 2, 3, 4, 5, 6, 7, 8, 9}" using assms by auto
  then show "is_digit (48 + of_nat m)" "ucast (48 + of_nat m :: byte) - 48 = (of_nat m :: u32)"
    "\<not> isspace (48 + of_nat m)" "48 + of_nat m \<noteq> (45 :: byte)" "48 + of_nat m \<noteq> (43 :: byte)"
    by (auto simp: isspace_def)
qed

lemma dec_digits: "c \<in> set (dec n) \<Longrightarrow> \<exists>m < 10. c = 48 + of_nat m"
proof (induction n rule: dec.induct)
  case (1 n)
  then show ?case by (auto simp: dec.simps [of n] split: if_splits intro: exI [of _ n] exI [of _ "n mod 10"])
qed

lemma dec_Cons: obtains m ds where "dec n = (48 + of_nat m) # ds" "m < 10"
proof -
  have "dec n \<noteq> []" by (simp add: dec.simps [of n])
  then obtain c ds where "dec n = c # ds" by (cases "dec n") auto
  then show thesis using that dec_digits [of c n] by auto
qed

lemma atoi_digits_all:
  "\<forall>d \<in> set ds. is_digit d \<Longrightarrow> \<not> is_digit c \<Longrightarrow>
    atoi_digits (ds @ c # r) v = Inr (fold (\<lambda>d v. v * 10 + (ucast d - 48)) ds v, c # r)"
  by (induction ds arbitrary: v) auto

lemma fold_dec: "fold (\<lambda>d v. v * 10 + (ucast (d :: byte) - 48)) (dec n) 0 = (of_nat n :: u32)"
proof (induction n rule: dec.induct)
  case (1 n)
  show ?case
  proof (cases "n < 10")
    case True
    then show ?thesis using digit_char(2) by (simp add: dec.simps [of n])
  next
    case False
    then have "fold (\<lambda>d v. v * 10 + (ucast (d :: byte) - 48)) (dec n) 0 = (of_nat (n div 10) * 10 + of_nat (n mod 10) :: u32)"
      using 1 digit_char(2) [of "n mod 10"] by (simp add: dec.simps [of n])
    also have "\<dots> = of_nat (n div 10 * 10 + n mod 10)" by (simp only: of_nat_add of_nat_mult of_nat_numeral)
    finally show ?thesis by (simp only: div_mult_mod_eq)
  qed
qed

lemma skip_spaces_run: "\<forall>c \<in> set ws. isspace c \<Longrightarrow> \<not> isspace c \<Longrightarrow> skip_spaces (ws @ c # r) = Inr (c # r)"
  by (induction ws) auto

text \<open>C36. \<^verbatim>\<open>atoi\<close> of a printed number. Leading white space, an optional sign and the decimal digits of
  \<open>n\<close> give back the signed number modulo \<open>2 ^ 32\<close>, hence exactly the number whenever it fits an
  \<open>int\<close>; anything but the terminator after the digits is an error and leaves \<open>*out\<close> alone.\<close>

theorem atoi_reads_decimal:
  assumes "\<forall>c \<in> set ws. isspace c" "sign = [] \<or> sign = [43] \<or> sign = [45]" "\<not> is_digit c"
  shows "atoi (Some (ws @ sign @ dec n @ c # r)) True =
    Inr (if c = 0 then (0, Some (word_of_int (if sign = [45] then - int n else int n))) else (- 1, None))"
proof -
  obtain m ds where d: "dec n = (48 + of_nat m) # ds" "m < 10" by (rule dec_Cons)
  note ch = digit_char [OF d(2)]
  have all: "\<forall>d \<in> set (dec n). is_digit d" using dec_digits digit_char(1) by auto
  define X where "X = dec n @ c # r"
  have run: "atoi_digits X 0 = Inr (of_nat n, c # r)"
    using atoi_digits_all [OF all assms(3), of r 0] by (simp only: fold_dec X_def)
  have hd: "hd X \<noteq> 45" "hd X \<noteq> 43" "is_digit (hd X)" "X \<noteq> []" using ch by (simp_all add: d(1) X_def)
  have sp: "skip_spaces (ws @ sign @ X) = Inr (sign @ X)"
    using assms(2) skip_spaces_run [OF assms(1), of _ X] skip_spaces_run [OF assms(1) ch(3), of "ds @ c # r"]
    by (auto simp: d(1) X_def isspace_def)
  have "atoi (Some (ws @ sign @ X)) True =
      Inr (if c = 0 then (0, Some (word_of_int (if sign = [45] then - int n else int n))) else (- 1, None))"
    using assms(2) sp by (elim disjE) (simp_all add: atoi_def run hd)
  then show ?thesis by (simp only: X_def)
qed

theorem atoi_reads_decimal_witness:
  "atoi (Some [32, 45, 49, 50, 0]) True = Inr (0, Some (- 12))"
proof -
  have "dec 12 = [49, 50]" by (simp add: dec.simps)
  then show ?thesis using atoi_reads_decimal [of "[32]" "[45]" 0 12 "[]"] by (simp add: isspace_def)
qed

end
