(* ===== verification/Byte_Memory.thy ===== *)
theory Byte_Memory
  imports Kernel_Prelude
begin

section \<open>Little-endian numbers and byte-addressed memory\<close>

text \<open>
  Numbers stored as bytes, least significant first, in buffers (inodes, pointer blocks, page
  tables) and in a memory that maps byte addresses to bytes (the kernel heap).
\<close>

subsection \<open>Numbers as byte lists\<close>

fun le_bytes :: "nat \<Rightarrow> nat \<Rightarrow> byte list" where
  "le_bytes 0 v = []"
| "le_bytes (Suc n) v = of_nat v # le_bytes n (v div 256)"

fun le_val :: "byte list \<Rightarrow> nat" where
  "le_val [] = 0"
| "le_val (b # bs) = unat b + 256 * le_val bs"

lemma length_le_bytes [simp]: "length (le_bytes n v) = n"
  by (induction n arbitrary: v) auto

lemma le_val_bytes: "v < 256 ^ n \<Longrightarrow> le_val (le_bytes n v) = v"
proof (induction n arbitrary: v)
  case (Suc n)
  then have "v div 256 < 256 ^ n" by (simp add: less_mult_imp_div_less mult.commute)
  then have "le_val (le_bytes n (v div 256)) = v div 256" by (rule Suc.IH)
  moreover have "unat (of_nat v :: byte) = v mod 256" by (simp add: unsigned_of_nat take_bit_eq_mod)
  ultimately show ?case by simp
qed simp

lemma le_val_bound: "le_val bs < 256 ^ length bs"
proof (induction bs)
  case (Cons b bs)
  have "unat b < 256" using unsigned_less [of b] by simp
  then show ?case using Cons by simp
qed simp

subsection \<open>64-bit words in memory\<close>

type_synonym memory = "nat \<Rightarrow> byte"

definition ld64 :: "memory \<Rightarrow> nat \<Rightarrow> nat" where
  "ld64 m a = le_val (map m [a..<a + 8])"

definition st64 :: "nat \<Rightarrow> nat \<Rightarrow> memory \<Rightarrow> memory" where
  "st64 a v m = (\<lambda>x. if a \<le> x \<and> x < a + 8 then le_bytes 8 v ! (x - a) else m x)"

lemma ld64_cong: "(\<And>x. a \<le> x \<Longrightarrow> x < a + 8 \<Longrightarrow> m' x = m x) \<Longrightarrow> ld64 m' a = ld64 m a"
  by (auto simp: ld64_def intro!: arg_cong [where f = le_val])

lemma ld64_bound: "ld64 m a < 2 ^ 64"
  using le_val_bound [of "map m [a..<a + 8]"] by (simp add: ld64_def)

lemma ld64_st64_same: "v < 2 ^ 64 \<Longrightarrow> ld64 (st64 a v m) a = v"
proof -
  assume v: "v < 2 ^ 64"
  have "map (st64 a v m) [a..<a + 8] = le_bytes 8 v"
    by (rule list_eq_by_nth) (auto simp: st64_def simp del: upt_Suc)
  then show ?thesis using v by (simp add: ld64_def le_val_bytes del: le_bytes.simps)
qed

lemma ld64_st64_other: "a + 8 \<le> b \<or> b + 8 \<le> a \<Longrightarrow> ld64 (st64 a v m) b = ld64 m b"
  by (rule ld64_cong) (auto simp: st64_def)

text \<open>Words at addresses with the same remainder modulo 8 overlap only when they are the same.\<close>

lemma ld64_st64:
  assumes "v < 2 ^ 64" "a mod 8 = b mod 8"
  shows "ld64 (st64 a v m) b = (if b = a then v else ld64 m b)"
proof (cases "a = b")
  case False
  have "a + 8 \<le> b \<or> b + 8 \<le> a"
  proof -
    have d: "a = 8 * (a div 8) + a mod 8" "b = 8 * (b div 8) + a mod 8"
      using mult_div_mod_eq [of 8 a] mult_div_mod_eq [of 8 b] assms(2) by simp_all
    then have "a div 8 \<noteq> b div 8" using False by metis
    then have "a div 8 + 1 \<le> b div 8 \<or> b div 8 + 1 \<le> a div 8" by linarith
    then show ?thesis using d by linarith
  qed
  then show ?thesis using False by (simp add: ld64_st64_other)
qed (use assms(1) in \<open>simp add: ld64_st64_same\<close>)

lemma st64_frame: "x < a \<or> a + 8 \<le> x \<Longrightarrow> st64 a v m x = m x"
  by (auto simp: st64_def)

end
