(* ===== verification/Kmalloc.thy ===== *)
theory Kmalloc
  imports Dll Byte_Memory
begin

section \<open>Kernel heap: the allocator's code\<close>

text \<open>
  \<^verbatim>\<open>src/kernel/memory/kmalloc.c\<close>: a boundary-tag allocator with six segregated free lists. The
  model works on a byte-addressed memory: block headers and footers, the \<open>prev\<close> and \<open>next\<close> links of
  free blocks and the six list heads are 64-bit words in that memory, at the offsets the structs
  \<open>free_block\<close> and \<open>Seg_Lists\<close> give them, so that allocator and users share one memory. An address is
  a natural number and 0 is \<open>NULL\<close>. \<open>size_t\<close> sums that a caller controls are taken modulo \<open>2 ^ 64\<close>;
  sums of block sizes and addresses inside the heap stay below the end of the heap and need no
  reduction. A search along a cyclic list does not end, which is the result \<open>None\<close>. Each of
  \<open>kmalloc\<close> and \<open>kfree\<close> is one atomic step, under \<open>kmalloc_lock\<close>.
\<close>

record kheap =
  hmem :: memory
  HeapMemory :: nat
  HeapMemoryBrk :: nat
  HeapMemoryEnd :: nat
  heap_ptr :: nat
  seg_lists_ptr :: nat

abbreviation (input) WS :: nat where "WS \<equiv> 8"
abbreviation (input) DWS :: nat where "DWS \<equiv> 16"
abbreviation (input) HEAP_PAGE :: nat where "HEAP_PAGE \<equiv> 4096"

fun kmalloc_memset :: "nat \<Rightarrow> byte \<Rightarrow> nat \<Rightarrow> memory \<Rightarrow> memory" where
  "kmalloc_memset p v 0 m = m"
| "kmalloc_memset p v (Suc num) m = kmalloc_memset (p + 1) v num (m(p := v))"

fun kmalloc_memcpy :: "nat \<Rightarrow> nat \<Rightarrow> nat \<Rightarrow> memory \<Rightarrow> memory" where
  "kmalloc_memcpy d s 0 m = m"
| "kmalloc_memcpy d s (Suc num) m = kmalloc_memcpy (d + 1) (s + 1) num (m(d := m s))"

definition kmem_sbrk :: "nat \<Rightarrow> kheap \<Rightarrow> nat option \<times> kheap" where
  "kmem_sbrk incr h =
     (if HeapMemoryBrk h = 0 \<or> HeapMemoryEnd h = 0 \<or> incr \<ge> 2 ^ 63 then (None, h)
      else if (HeapMemoryBrk h + incr) mod 2 ^ 64 > HeapMemoryEnd h then (None, h)
      else (Some (HeapMemoryBrk h), h\<lparr>HeapMemoryBrk := (HeapMemoryBrk h + incr) mod 2 ^ 64\<rparr>))"

definition kmem_heap_lo :: "kheap \<Rightarrow> nat" where
  "kmem_heap_lo h = HeapMemory h"

definition kmem_heap_hi :: "kheap \<Rightarrow> nat" where
  "kmem_heap_hi h = HeapMemoryBrk h - 1"

definition align :: "nat \<Rightarrow> nat" where
  "align x = 16 * (((x + 15) mod 2 ^ 64) div 16)"

text \<open>\<open>v & ~0xF\<close>, and \<open>align(size + DWS)\<close>.\<close>

definition hdr_size :: "nat \<Rightarrow> nat" where
  "hdr_size v = v - v mod 16"

definition block_need :: "nat \<Rightarrow> nat" where
  "block_need sz = align ((sz + DWS) mod 2 ^ 64)"

text \<open>The list for a block size: the address of its head in \<open>Seg_Lists\<close>.\<close>

definition seg_class :: "nat \<Rightarrow> nat" where
  "seg_class sz =
     (if sz \<le> 32 then 0 else if sz \<le> 64 then 1 else if sz \<le> 96 then 2
      else if sz \<le> 192 then 3 else if sz \<le> 512 then 4 else 5)"

definition seg_list :: "nat \<Rightarrow> nat \<Rightarrow> nat" where
  "seg_list sl sz = sl + 8 * seg_class sz"

definition insert_free :: "nat \<Rightarrow> nat \<Rightarrow> memory \<Rightarrow> memory" where
  "insert_free sl ptr m =
     (let block = ptr - WS;
          list = seg_list sl (hdr_size (ld64 m block));
          old_head = ld64 m list;
          m = st64 (block + 16) old_head m;
          m = st64 (block + 8) 0 m;
          m = (if old_head \<noteq> 0 then st64 (old_head + 8) block m else m)
      in st64 list block m)"

partial_function (option) fit_loop :: "memory \<Rightarrow> nat \<Rightarrow> nat \<Rightarrow> nat option" where
  "fit_loop m need fp =
     (if fp = 0 then Some 0
      else if hdr_size (ld64 m fp) \<ge> need then Some (fp + WS)
      else fit_loop m need (ld64 m (fp + 16)))"

text \<open>The lists for 48 to 64 and for 80 to 96 bytes only offer their first block.\<close>

function get_free_list :: "nat \<Rightarrow> memory \<Rightarrow> nat \<Rightarrow> nat option" where
  "get_free_list sl m sz =
     (let first = (\<lambda>k. ld64 m (sl + 8 * k)); need = block_need sz in
      if sz \<le> 16 \<and> first 0 \<noteq> 0 then
        (case fit_loop m need (first 0) of
           None \<Rightarrow> None | Some p \<Rightarrow> if p \<noteq> 0 then Some p else get_free_list sl m 17)
      else if sz \<le> 48 \<and> first 1 \<noteq> 0 then
        (if hdr_size (ld64 m (first 1)) \<ge> need then Some (first 1 + WS) else get_free_list sl m 49)
      else if sz \<le> 80 \<and> first 2 \<noteq> 0 then
        (if hdr_size (ld64 m (first 2)) \<ge> need then Some (first 2 + WS) else get_free_list sl m 81)
      else if sz \<le> 176 \<and> first 3 \<noteq> 0 then
        (case fit_loop m need (first 3) of
           None \<Rightarrow> None | Some p \<Rightarrow> if p \<noteq> 0 then Some p else get_free_list sl m 177)
      else if sz \<le> 496 \<and> first 4 \<noteq> 0 then
        (case fit_loop m need (first 4) of
           None \<Rightarrow> None | Some p \<Rightarrow> if p \<noteq> 0 then Some p else get_free_list sl m 497)
      else fit_loop m need (first 5))"
  by auto
termination
  by (relation "measure (\<lambda>(_, _, sz). if sz \<le> 16 then 5 else if sz \<le> 48 then 4
      else if sz \<le> 80 then 3 else if sz \<le> 176 then 2 else if sz \<le> 496 then 1 else 0)") auto

declare get_free_list.simps [simp del]

definition remove_free :: "nat \<Rightarrow> nat \<Rightarrow> nat \<Rightarrow> memory \<Rightarrow> memory" where
  "remove_free sl ptr sz m =
     (let block = ptr - WS;
          pv = ld64 m (block + 8);
          nx = ld64 m (block + 16);
          m = (if pv \<noteq> 0 then st64 (pv + 16) nx m else st64 (seg_list sl sz) nx m)
      in if nx \<noteq> 0 then st64 (nx + 8) pv m else m)"

definition coalesce :: "nat \<Rightarrow> nat \<Rightarrow> memory \<Rightarrow> nat \<times> memory" where
  "coalesce sl ptr m =
     (let sz = hdr_size (ld64 m (ptr - WS));
          (ptr, sz, m) =
            (if ld64 m (ptr - DWS) mod 2 = 0 then
               (let prev_size = hdr_size (ld64 m (ptr - DWS));
                    m = remove_free sl (ptr - prev_size) prev_size m;
                    m = st64 (ptr - prev_size - WS) (prev_size + sz) m;
                    m = st64 (ptr + sz - DWS) (prev_size + sz) m
                in (ptr - prev_size, prev_size + sz, m))
             else (ptr, sz, m));
          m = (if ld64 m (ptr + sz - WS) mod 2 = 0 then
                 (let next_size = hdr_size (ld64 m (ptr + sz - WS));
                      m = remove_free sl (ptr + sz) next_size m;
                      m = st64 (ptr - WS) (sz + next_size) m
                  in st64 (ptr + sz + next_size - DWS) (sz + next_size) m)
               else m)
      in (ptr, m))"

definition initialize_free :: "nat \<Rightarrow> nat \<Rightarrow> nat \<Rightarrow> memory \<Rightarrow> memory" where
  "initialize_free sl ptr sz m =
     (let m = st64 ptr sz m;
          m = st64 (ptr + sz - WS) sz m;
          (ptr, m) = coalesce sl (ptr + WS) m
      in insert_free sl ptr m)"

definition extend_heap :: "nat \<Rightarrow> kheap \<Rightarrow> nat \<times> kheap" where
  "extend_heap sz h =
     (let sz = align sz in
      case kmem_sbrk sz h of
        (None, h) \<Rightarrow> (0, h)
      | (Some old_brk, h) \<Rightarrow>
          (let header_ptr = old_brk - WS;
               m = st64 (header_ptr + sz) 1 (hmem h)
           in (header_ptr + WS, h\<lparr>hmem := initialize_free (seg_lists_ptr h) header_ptr sz m\<rparr>)))"

definition kmm_init :: "kheap \<Rightarrow> bool \<times> kheap" where
  "kmm_init h =
     (case kmem_sbrk 48 h of
        (None, h) \<Rightarrow> (False, h)
      | (Some sl, h) \<Rightarrow>
          (let h = h\<lparr>seg_lists_ptr := sl, hmem := kmalloc_memset sl 0 48 (hmem h)\<rparr> in
           case kmem_sbrk (3 * WS) h of
             (None, h) \<Rightarrow> (False, h)
           | (Some p, h) \<Rightarrow>
               (let m = st64 p (DWS + 1) (hmem h);
                    m = st64 (p + WS) (DWS + 1) m;
                    m = st64 (p + 2 * WS) 1 m;
                    (q, h) = extend_heap HEAP_PAGE (h\<lparr>heap_ptr := p, hmem := m\<rparr>)
                in (q \<noteq> 0, h))))"

text \<open>On failure the kernel prints a message and waits forever.\<close>

definition kmem_init :: "nat \<Rightarrow> nat \<Rightarrow> memory \<Rightarrow> kheap kres" where
  "kmem_init start heap_end m =
     (case kmm_init \<lparr>hmem = m, HeapMemory = start, HeapMemoryBrk = start, HeapMemoryEnd = heap_end,
             heap_ptr = 0, seg_lists_ptr = 0\<rparr> of
        (True, h) \<Rightarrow> Inr h
      | (False, h) \<Rightarrow> Inl ''ERROR: failed to initialize heap'')"

definition get_allocation :: "nat \<Rightarrow> kheap \<Rightarrow> (nat \<times> kheap) option" where
  "get_allocation sz h =
     (let sl = seg_lists_ptr h; m = hmem h in
      case get_free_list sl m sz of
        None \<Rightarrow> None
      | Some ptr \<Rightarrow>
          if ptr = 0 then Some (0, h)
          else
            (let block = ptr - WS;
                 block_size = hdr_size (ld64 m block);
                 m = remove_free sl ptr block_size m;
                 aligned_size = block_need sz;
                 m = (if (block_size + 2 ^ 64 - aligned_size) mod 2 ^ 64 \<ge> 32 then
                        (let m = st64 block (aligned_size + 1) m;
                             m = st64 (block + aligned_size - WS) (aligned_size + 1) m
                         in initialize_free sl (block + aligned_size) (block_size - aligned_size) m)
                      else
                        st64 (block + block_size - WS) (block_size + 1) (st64 block (block_size + 1) m))
             in Some (ptr, h\<lparr>hmem := m\<rparr>)))"

definition kmalloc :: "nat \<Rightarrow> kheap \<Rightarrow> (nat \<times> kheap) option" where
  "kmalloc sz h =
     (if sz = 0 then Some (0, h)
      else case get_allocation sz h of
        None \<Rightarrow> None
      | Some (ptr, h) \<Rightarrow>
          if ptr \<noteq> 0 then Some (ptr, h)
          else
            (let aligned_size = block_need sz;
                 extend_size = (if aligned_size > HEAP_PAGE then aligned_size else HEAP_PAGE);
                 (q, h) = extend_heap extend_size h
             in if q = 0 then Some (0, h) else get_allocation sz h))"

definition kfree :: "nat \<Rightarrow> kheap \<Rightarrow> kheap" where
  "kfree ptr h =
     (if ptr = 0 then h
      else
        (let header_ptr = ptr - WS; sz = hdr_size (ld64 (hmem h) header_ptr)
         in h\<lparr>hmem := initialize_free (seg_lists_ptr h) header_ptr sz (hmem h)\<rparr>))"

definition krealloc :: "nat \<Rightarrow> nat \<Rightarrow> kheap \<Rightarrow> (nat \<times> kheap) option" where
  "krealloc oldptr sz h =
     (if oldptr = 0 then kmalloc sz h
      else if sz = 0 then Some (0, kfree oldptr h)
      else
        (let m = hmem h;
             oldsize = hdr_size (ld64 m (oldptr - WS));
             needed = block_need sz
         in if oldsize \<ge> needed then Some (oldptr, h)
            else
              (let next_hdr = oldptr - WS + oldsize;
                   next_val = ld64 m next_hdr;
                   next_size = hdr_size next_val
               in if next_val mod 2 = 0 \<and> oldsize + next_size \<ge> needed then
                    (let m = remove_free (seg_lists_ptr h) (next_hdr + WS) next_size m;
                         m = st64 (oldptr - WS) (oldsize + next_size + 1) m;
                         m = st64 (oldptr - WS + oldsize + next_size - WS) (oldsize + next_size + 1) m
                     in Some (oldptr, h\<lparr>hmem := m\<rparr>))
                  else (case kmalloc sz h of
                    None \<Rightarrow> None
                  | Some (newptr, h) \<Rightarrow>
                      if newptr = 0 then Some (0, h)
                      else
                        (let copySize = min (oldsize - DWS) sz
                         in Some (newptr, kfree oldptr (h\<lparr>hmem := kmalloc_memcpy newptr oldptr copySize (hmem h)\<rparr>)))))))"

definition kcalloc :: "nat \<Rightarrow> nat \<Rightarrow> kheap \<Rightarrow> (nat \<times> kheap) option" where
  "kcalloc nmemb sz h =
     (let sz = (sz * nmemb) mod 2 ^ 64 in
      case kmalloc sz h of
        None \<Rightarrow> None
      | Some (ptr, h) \<Rightarrow>
          Some (ptr, if ptr \<noteq> 0 then h\<lparr>hmem := kmalloc_memset ptr 0 sz (hmem h)\<rparr> else h))"

end
