(* ===== verification/Kmalloc_Inv.thy ===== *)
theory Kmalloc_Inv
  imports Kmalloc
begin

section \<open>Kernel heap: blocks, free lists and the invariant\<close>

text \<open>
  The invariant of the allocator of theory \<open>Kmalloc\<close>. The heap is a row of blocks with equal size
  and allocation bit in header and footer, between a prologue and an epilogue; no two free blocks
  are neighbours; the six lists, read through the pointers in memory, hold exactly the free blocks
  of their size class. The proofs read memory as a function from word addresses to words.
\<close>

subsection \<open>Memory as words\<close>

definition wm :: "nat \<Rightarrow> memory \<Rightarrow> nat \<Rightarrow> nat" where
  "wm r m x = (if x mod 8 = r then ld64 m x else 0)"

lemma wm_st64: "v < 2 ^ 64 \<Longrightarrow> a mod 8 = r \<Longrightarrow> wm r (st64 a v m) = (wm r m)(a := v)"
  by (auto simp: wm_def ld64_st64 fun_eq_iff)

lemma ld64_wm: "a mod 8 = r \<Longrightarrow> ld64 m a = wm r m a"
  by (simp add: wm_def)

lemma wm_bound: "wm r m x < 2 ^ 64"
  using ld64_bound [of m x] by (simp add: wm_def)

subsection \<open>Free lists\<close>

definition nptr :: "nat \<Rightarrow> nat option" where
  "nptr x = (if x = 0 then None else Some x)"

lemma nptr_simps [simp]: "nptr 0 = None" "x \<noteq> 0 \<Longrightarrow> nptr x = Some x" "nptr x = None \<longleftrightarrow> x = 0" "nptr x = Some y \<longleftrightarrow> x = y \<and> y \<noteq> 0"
  by (auto simp: nptr_def)

definition lst :: "(nat \<Rightarrow> nat) \<Rightarrow> nat \<Rightarrow> nat list \<Rightarrow> bool" where
  "lst w l xs \<longleftrightarrow> dll (nptr (w l)) (last_of None xs) (\<lambda>p. nptr (w (p + 16))) (\<lambda>p. nptr (w (p + 8))) xs"

lemma lst_cong:
  assumes "w' l = w l" "\<And>p. p \<in> set xs \<Longrightarrow> w' (p + 8) = w (p + 8) \<and> w' (p + 16) = w (p + 16)"
  shows "lst w' l xs = lst w l xs"
  using assms seg_cong [of xs "\<lambda>p. nptr (w' (p + 16))" "\<lambda>p. nptr (w (p + 16))" "\<lambda>p. nptr (w' (p + 8))" "\<lambda>p. nptr (w (p + 8))"]
  by (simp add: lst_def dll_def)

text \<open>Block addresses that are apart: then their link words and the list heads are all different.\<close>

definition spaced :: "nat \<Rightarrow> nat set \<Rightarrow> bool" where
  "spaced sl C \<longleftrightarrow>
     (\<forall>c \<in> C. sl + 64 \<le> c \<and> c mod 8 = sl mod 8) \<and> (\<forall>c \<in> C. \<forall>d \<in> C. c \<noteq> d \<longrightarrow> c + 32 \<le> d \<or> d + 32 \<le> c)"

lemma spacedD:
  assumes "spaced sl C" "c \<in> C"
  shows "sl + 64 \<le> c" "c mod 8 = sl mod 8" "(c + 8) mod 8 = sl mod 8" "(c + 16) mod 8 = sl mod 8" "0 < c"
    "d \<in> C \<Longrightarrow> c + 16 \<noteq> d + 8" "d \<in> C \<Longrightarrow> c + 8 \<noteq> d + 16" "k < 6 \<Longrightarrow> c + 8 \<noteq> sl + 8 * k" "k < 6 \<Longrightarrow> c + 16 \<noteq> sl + 8 * k"
proof -
  show c: "sl + 64 \<le> c" "c mod 8 = sl mod 8" using assms by (auto simp: spaced_def)
  then show "(c + 8) mod 8 = sl mod 8" "0 < c" by simp_all
  have "(c + 16) mod 8 = (c + 2 * 8) mod 8" by simp
  also have "\<dots> = sl mod 8" using c by (simp only: mod_mult_self1)
  finally show "(c + 16) mod 8 = sl mod 8" .
  show "d \<in> C \<Longrightarrow> c + 16 \<noteq> d + 8" "d \<in> C \<Longrightarrow> c + 8 \<noteq> d + 16"
    using assms by (force simp: spaced_def)+
  show "k < 6 \<Longrightarrow> c + 8 \<noteq> sl + 8 * k" "k < 6 \<Longrightarrow> c + 16 \<noteq> sl + 8 * k" using c by simp_all
qed

lemma seg_class_less [simp]: "seg_class sz < 6"
  by (simp add: seg_class_def)

definition fls :: "(nat \<Rightarrow> nat) \<Rightarrow> nat \<Rightarrow> (nat \<Rightarrow> nat list) \<Rightarrow> bool" where
  "fls w sl F \<longleftrightarrow> (\<forall>k < 6. lst w (sl + 8 * k) (F k))"

text \<open>The words of the lists: heads and links.\<close>

definition lwords :: "nat \<Rightarrow> nat set \<Rightarrow> nat set" where
  "lwords sl C = {sl + 8 * k | k. k < 6} \<union> (\<Union>c \<in> C. {c + 8, c + 16})"

definition all_free :: "(nat \<Rightarrow> nat list) \<Rightarrow> nat set" where
  "all_free F = (\<Union>k < 6. set (F k))"

lemma all_freeI: "k < 6 \<Longrightarrow> p \<in> set (F k) \<Longrightarrow> p \<in> all_free F"
  by (auto simp: all_free_def)

lemma lwordsI: "k < 6 \<Longrightarrow> sl + 8 * k \<in> lwords sl C" "c \<in> C \<Longrightarrow> c + 8 \<in> lwords sl C" "c \<in> C \<Longrightarrow> c + 16 \<in> lwords sl C"
  by (auto simp: lwords_def)

lemma fls_cong:
  assumes "\<And>x. x \<in> lwords sl (all_free F) \<Longrightarrow> w' x = w x"
  shows "fls w' sl F = fls w sl F"
proof -
  have "lst w' (sl + 8 * k) (F k) = lst w (sl + 8 * k) (F k)" if "k < 6" for k
    by (rule lst_cong) (use that in \<open>auto intro!: assms lwordsI all_freeI\<close>)
  then show ?thesis by (simp add: fls_def)
qed

definition ins_w :: "nat \<Rightarrow> nat \<Rightarrow> (nat \<Rightarrow> nat) \<Rightarrow> nat \<Rightarrow> nat" where
  "ins_w l b w =
     ((if w l \<noteq> 0 then (w(b + 16 := w l, b + 8 := 0))(w l + 8 := b) else w(b + 16 := w l, b + 8 := 0)))(l := b)"

lemma fls_insert:
  assumes f: "fls w sl F" and sp: "spaced sl (insert b (all_free F))" and b: "b \<notin> all_free F" and k: "k < 6"
    and dis: "\<And>i j. i < 6 \<Longrightarrow> j < 6 \<Longrightarrow> i \<noteq> j \<Longrightarrow> set (F i) \<inter> set (F j) = {}"
  shows "fls (ins_w (sl + 8 * k) b w) sl (F(k := b # F k))"
    "x \<notin> lwords sl (insert b (all_free F)) \<Longrightarrow> ins_w (sl + 8 * k) b w x = w x"
proof -
  let ?C = "insert b (all_free F)" and ?l = "sl + 8 * k" and ?w = "ins_w (sl + 8 * k) b w"
  note D = spacedD [OF sp]
  have lk: "lst w ?l (F k)" using f k by (simp add: fls_def)
  have sub: "i < 6 \<Longrightarrow> c \<in> set (F i) \<Longrightarrow> c \<in> ?C" for i c by (auto simp: all_free_def)
  have hd: "w ?l \<noteq> 0 \<Longrightarrow> w ?l \<in> set (F k)" using lk by (cases "F k") (auto simp: lst_def dll_def)
  have hdC: "w ?l \<noteq> 0 \<Longrightarrow> w ?l \<in> ?C" using hd sub [OF k] by blast
  show "x \<notin> lwords sl ?C \<Longrightarrow> ?w x = w x" using hdC k by (auto simp: ins_w_def lwords_def)
  show "fls ?w sl (F(k := b # F k))"
    unfolding fls_def
  proof (intro allI impI)
    fix i assume i: "i < (6 :: nat)"
    show "lst ?w (sl + 8 * i) ((F(k := b # F k)) i)"
    proof (cases "i = k")
      case False
      have "w ?l \<noteq> 0 \<Longrightarrow> w ?l \<notin> set (F i)" using hd dis [OF i k False] by auto
      moreover have "b \<notin> set (F i)" using b i by (auto simp: all_free_def)
      ultimately have "?w (p + 8) = w (p + 8) \<and> ?w (p + 16) = w (p + 16)" if "p \<in> set (F i)" for p
        using that D [OF sub [OF i that]] hd sub [OF k] k by (auto simp: ins_w_def)
      moreover have "?w (sl + 8 * i) = w (sl + 8 * i)"
        using False i D(8,9) [of b i] D(8,9) [of "w ?l" i] hdC by (force simp: ins_w_def)
      ultimately have "lst ?w (sl + 8 * i) (F i) = lst w (sl + 8 * i) (F i)" by (intro lst_cong) auto
      then show ?thesis using f i False by (simp add: fls_def)
    next
      case True
      have nb: "b \<notin> set (F k)" using b k by (auto simp: all_free_def)
      have bpos: "b \<noteq> 0" using D(5) [of b] by simp
      have "lst ?w ?l (b # F k)"
        unfolding lst_def
      proof (rule dll_push_front [where h = "nptr (w ?l)" and t = "last_of None (F k)" and nx = "\<lambda>p. nptr (w (p + 16))"
            and pv = "\<lambda>p. nptr (w (p + 8))"])
        show "dll (nptr (w ?l)) (last_of None (F k)) (\<lambda>p. nptr (w (p + 16))) (\<lambda>p. nptr (w (p + 8))) (F k)"
          using lk by (simp add: lst_def)
        show "b \<notin> set (F k)" by (rule nb)
        fix x assume x: "x \<in> set (F k)"
        note Dx = D [OF sub [OF k x]]
        show "nptr (?w (x + 16)) = nptr (w (x + 16))" using Dx nb x hd sub [OF k] k by (auto simp: ins_w_def)
        show "nptr (?w (x + 8)) = (if nptr (w ?l) = Some x then Some b else nptr (w (x + 8)))"
          using Dx nb x hd sub [OF k] k bpos by (auto simp: ins_w_def)
      next
        show "nptr (?w (b + 16)) = nptr (w ?l)" using D [of b] hd sub [OF k] k by (auto simp: ins_w_def)
        show "nptr (?w (b + 8)) = None" using D [of b] hd nb sub [OF k] k by (auto simp: ins_w_def)
        show "nptr (?w ?l) = Some b" using bpos by (simp add: ins_w_def)
        show "last_of None (b # F k) = (if nptr (w ?l) = None then Some b else last_of None (F k))"
          using lk by (cases "F k") (auto simp: lst_def dll_def)
      qed
      then show ?thesis using True by simp
    qed
  qed
qed

definition rem_w :: "nat \<Rightarrow> nat \<Rightarrow> (nat \<Rightarrow> nat) \<Rightarrow> nat \<Rightarrow> nat" where
  "rem_w l b w =
     (let w' = (if w (b + 8) \<noteq> 0 then w(w (b + 8) + 16 := w (b + 16)) else w(l := w (b + 16)))
      in if w (b + 16) \<noteq> 0 then w'(w (b + 16) + 8 := w (b + 8)) else w')"

lemma fls_remove:
  assumes f: "fls w sl F" and sp: "spaced sl (all_free F)" and k: "k < 6" and b: "F k = xs @ b # ys"
    and dis: "\<And>i j. i < 6 \<Longrightarrow> j < 6 \<Longrightarrow> i \<noteq> j \<Longrightarrow> set (F i) \<inter> set (F j) = {}"
  shows "fls (rem_w (sl + 8 * k) b w) sl (F(k := xs @ ys))"
    "x \<notin> lwords sl (all_free F) \<Longrightarrow> rem_w (sl + 8 * k) b w x = w x"
proof -
  let ?C = "all_free F" and ?l = "sl + 8 * k" and ?w = "rem_w (sl + 8 * k) b w"
  note D = spacedD [OF sp]
  have lk: "dll (nptr (w ?l)) (last_of None (xs @ b # ys)) (\<lambda>p. nptr (w (p + 16))) (\<lambda>p. nptr (w (p + 8))) (xs @ b # ys)"
    using f k b by (auto simp: fls_def lst_def)
  note E = dll_ends [OF lk]
  have sub: "i < 6 \<Longrightarrow> c \<in> set (F i) \<Longrightarrow> c \<in> ?C" for i c by (auto simp: all_free_def)
  have pv: "w (b + 8) \<noteq> 0 \<Longrightarrow> w (b + 8) \<in> set xs" using E(1) by (cases xs rule: rev_cases) auto
  have nx: "w (b + 16) \<noteq> 0 \<Longrightarrow> w (b + 16) \<in> set ys" using E(2) by (cases ys) auto
  have pvC: "w (b + 8) \<noteq> 0 \<Longrightarrow> w (b + 8) \<in> ?C" and nxC: "w (b + 16) \<noteq> 0 \<Longrightarrow> w (b + 16) \<in> ?C"
    using pv nx sub [OF k] b by auto
  have dist: "distinct (xs @ b # ys)" using lk by (simp add: dll_def)
  show "x \<notin> lwords sl ?C \<Longrightarrow> ?w x = w x" using pvC nxC k by (auto simp: rem_w_def Let_def lwords_def)
  have w8: "?w (p + 8) = (if w (b + 16) = p then w (b + 8) else w (p + 8))" if "p \<in> ?C" for p
    using D [OF that] pvC nxC k by (force simp: rem_w_def Let_def)
  have w16: "?w (p + 16) = (if w (b + 8) = p then w (b + 16) else w (p + 16))" if "p \<in> ?C" for p
    using D [OF that] pvC nxC k by (force simp: rem_w_def Let_def)
  have wl: "?w (sl + 8 * i) = (if i = k \<and> w (b + 8) = 0 then w (b + 16) else w (sl + 8 * i))" if "i < 6" for i
    using that D(8,9) [OF pvC, of i] D(8,9) [OF nxC, of i] by (force simp: rem_w_def Let_def)
  show "fls ?w sl (F(k := xs @ ys))"
    unfolding fls_def
  proof (intro allI impI)
    fix i assume i: "i < (6 :: nat)"
    show "lst ?w (sl + 8 * i) ((F(k := xs @ ys)) i)"
    proof (cases "i = k")
      case False
      have "?w (p + 8) = w (p + 8) \<and> ?w (p + 16) = w (p + 16)" if "p \<in> set (F i)" for p
      proof -
        have "p \<notin> set (F k)" using dis [OF i k False] that by auto
        then have "p \<notin> set xs" "p \<notin> set ys" by (auto simp: b)
        then show ?thesis using w8 w16 sub [OF i that] pv nx D(5) [OF sub [OF i that]] by auto
      qed
      then have "lst ?w (sl + 8 * i) (F i) = lst w (sl + 8 * i) (F i)" using wl [OF i] False by (intro lst_cong) auto
      then show ?thesis using f i False by (simp add: fls_def)
    next
      case True
      have C: "p \<in> set (xs @ ys) \<Longrightarrow> p \<in> ?C \<and> p \<noteq> 0" for p using sub [OF k] b D(5) by force
      have "lst ?w ?l (xs @ ys)"
        unfolding lst_def
      proof (rule dll_unlink [OF lk])
        fix p assume p: "p \<in> set (xs @ ys)"
        show "nptr (?w (p + 16)) = (if last_of None xs = Some p then first_of ys None else nptr (w (p + 16)))"
          using w16 [of p] C [OF p] E(1,2) by auto
        show "nptr (?w (p + 8)) = (if first_of ys None = Some p then last_of None xs else nptr (w (p + 8)))"
          using w8 [of p] C [OF p] E(1,2) by auto
      next
        show "nptr (?w ?l) = first_of (xs @ ys) None"
          using wl [OF k] E(1,2) lk by (cases xs rule: rev_cases) (auto simp: dll_def first_of_append)
      qed simp
      then show ?thesis using True by simp
    qed
  qed
qed

subsection \<open>The list operations in memory\<close>

definition lbytes :: "nat \<Rightarrow> nat set \<Rightarrow> nat set" where
  "lbytes sl C = {sl..<sl + 48} \<union> (\<Union>c \<in> C. {c + 8..<c + 24})"

lemma lbytesD:
  assumes "y \<notin> lbytes sl C"
  shows "c \<in> C \<Longrightarrow> y < c + 8 \<or> c + 16 \<le> y" "c \<in> C \<Longrightarrow> y < c + 16 \<or> c + 24 \<le> y" "k < 6 \<Longrightarrow> y < sl + 8 * k \<or> sl + 8 * k + 8 \<le> y"
  using assms by (force simp: lbytes_def)+

lemma lbytes_st64:
  assumes "y \<notin> lbytes sl C"
  shows "c \<in> C \<Longrightarrow> st64 (c + 8) v m y = m y" "c \<in> C \<Longrightarrow> st64 (c + 16) v m y = m y" "k < 6 \<Longrightarrow> st64 (sl + 8 * k) v m y = m y"
  using lbytesD [OF assms, of c] lbytesD(3) [OF assms, of k] by (force simp: st64_def)+

definition lists_disjoint :: "(nat \<Rightarrow> nat list) \<Rightarrow> bool" where
  "lists_disjoint F \<longleftrightarrow> (\<forall>i < 6. \<forall>j < 6. i \<noteq> j \<longrightarrow> set (F i) \<inter> set (F j) = {})"

lemma fls_head:
  assumes "fls w sl F" "k < 6" "w (sl + 8 * k) \<noteq> 0"
  shows "w (sl + 8 * k) \<in> set (F k)"
proof -
  have "lst w (sl + 8 * k) (F k)" using assms by (simp add: fls_def)
  then show ?thesis using assms(3) by (cases "F k") (auto simp: lst_def dll_def)
qed

lemma head_mod: "(sl + 8 * k) mod 8 = sl mod (8 :: nat)"
  by simp

lemma insert_free_effect:
  assumes f: "fls (wm (sl mod 8) m) sl F" and sp: "spaced sl (insert b (all_free F))" and b: "b \<notin> all_free F" "b < 2 ^ 64"
    and dis: "lists_disjoint F" and s: "hdr_size (wm (sl mod 8) m b) = s"
  shows "fls (wm (sl mod 8) (insert_free sl (b + 8) m)) sl (F(seg_class s := b # F (seg_class s)))"
    "x \<notin> lwords sl (insert b (all_free F)) \<Longrightarrow> wm (sl mod 8) (insert_free sl (b + 8) m) x = wm (sl mod 8) m x"
    "y \<notin> lbytes sl (insert b (all_free F)) \<Longrightarrow> insert_free sl (b + 8) m y = m y"
proof -
  let ?r = "sl mod 8" and ?k = "seg_class s"
  let ?w = "wm ?r m" and ?l = "sl + 8 * seg_class s"
  note D = spacedD [OF sp]
  have hd: "?w ?l \<noteq> 0 \<Longrightarrow> ?w ?l \<in> insert b (all_free F)" using fls_head [OF f, of ?k] all_freeI [of ?k _ F] by auto
  have al: "b mod 8 = ?r" "(b + 8) mod 8 = ?r" "(b + 16) mod 8 = ?r" "?w ?l \<noteq> 0 \<Longrightarrow> (?w ?l + 8) mod 8 = ?r"
    using D(2-4) [of b] D(3) [OF hd] by auto
  have ld: "ld64 m b = ?w b" "ld64 m ?l = ?w ?l" using al(1) by (simp_all add: ld64_wm)
  have bound: "?w ?l < 2 ^ 64" by (rule wm_bound)
  have run: "insert_free sl (b + 8) m =
      st64 ?l b (if ?w ?l \<noteq> 0 then st64 (?w ?l + 8) b (st64 (b + 8) 0 (st64 (b + 16) (?w ?l) m))
        else st64 (b + 8) 0 (st64 (b + 16) (?w ?l) m))"
    using s by (simp add: insert_free_def Let_def seg_list_def ld)
  have w: "wm ?r (insert_free sl (b + 8) m) = ins_w ?l b ?w"
    unfolding run ins_w_def using al b(2) bound by (simp add: wm_st64 head_mod)
  have d: "\<And>i j. i < 6 \<Longrightarrow> j < 6 \<Longrightarrow> i \<noteq> j \<Longrightarrow> set (F i) \<inter> set (F j) = {}" using dis by (simp add: lists_disjoint_def)
  show "fls (wm ?r (insert_free sl (b + 8) m)) sl (F(?k := b # F ?k))"
    unfolding w by (rule fls_insert(1) [OF f sp b(1) seg_class_less d])
  show "x \<notin> lwords sl (insert b (all_free F)) \<Longrightarrow> wm ?r (insert_free sl (b + 8) m) x = ?w x"
    unfolding w by (rule fls_insert(2) [OF f sp b(1) seg_class_less d])
  assume y: "y \<notin> lbytes sl (insert b (all_free F))"
  show "insert_free sl (b + 8) m y = m y"
    unfolding run using lbytes_st64 [OF y] hd by simp
qed

lemma remove_free_effect:
  assumes f: "fls (wm (sl mod 8) m) sl F" and sp: "spaced sl (all_free F)" and b: "F (seg_class s) = xs @ b # ys"
    and dis: "lists_disjoint F"
  shows "fls (wm (sl mod 8) (remove_free sl (b + 8) s m)) sl (F(seg_class s := xs @ ys))"
    "x \<notin> lwords sl (all_free F) \<Longrightarrow> wm (sl mod 8) (remove_free sl (b + 8) s m) x = wm (sl mod 8) m x"
    "y \<notin> lbytes sl (all_free F) \<Longrightarrow> remove_free sl (b + 8) s m y = m y"
proof -
  let ?r = "sl mod 8" and ?k = "seg_class s"
  let ?w = "wm ?r m" and ?l = "sl + 8 * seg_class s"
  note D = spacedD [OF sp]
  have bC: "b \<in> all_free F" using b by (auto intro: all_freeI [of ?k])
  have lk: "dll (nptr (?w ?l)) (last_of None (xs @ b # ys)) (\<lambda>p. nptr (?w (p + 16))) (\<lambda>p. nptr (?w (p + 8))) (xs @ b # ys)"
    using f b by (auto simp: fls_def lst_def dest: spec [of _ ?k])
  note E = dll_ends [OF lk]
  have "?w (b + 8) \<noteq> 0 \<Longrightarrow> ?w (b + 8) \<in> set (F ?k)" using E(1) b by (cases xs rule: rev_cases) auto
  moreover have "?w (b + 16) \<noteq> 0 \<Longrightarrow> ?w (b + 16) \<in> set (F ?k)" using E(2) b by (cases ys) auto
  ultimately have C: "?w (b + 8) \<noteq> 0 \<Longrightarrow> ?w (b + 8) \<in> all_free F" "?w (b + 16) \<noteq> 0 \<Longrightarrow> ?w (b + 16) \<in> all_free F"
    by (auto intro: all_freeI [of ?k])
  have al: "(b + 8) mod 8 = ?r" "(b + 16) mod 8 = ?r" "?w (b + 8) \<noteq> 0 \<Longrightarrow> (?w (b + 8) + 16) mod 8 = ?r"
      "?w (b + 16) \<noteq> 0 \<Longrightarrow> (?w (b + 16) + 8) mod 8 = ?r"
    using D(3,4) [OF bC] D(4) [OF C(1)] D(3) [OF C(2)] by auto
  have ld: "ld64 m (b + 8) = ?w (b + 8)" "ld64 m (b + 16) = ?w (b + 16)" using al by (simp_all add: ld64_wm)
  have bound: "?w (b + 8) < 2 ^ 64" "?w (b + 16) < 2 ^ 64" by (rule wm_bound)+
  have run: "remove_free sl (b + 8) s m =
      (let m' = (if ?w (b + 8) \<noteq> 0 then st64 (?w (b + 8) + 16) (?w (b + 16)) m else st64 ?l (?w (b + 16)) m)
       in if ?w (b + 16) \<noteq> 0 then st64 (?w (b + 16) + 8) (?w (b + 8)) m' else m')"
    by (simp add: remove_free_def Let_def seg_list_def ld)
  have w: "wm ?r (remove_free sl (b + 8) s m) = rem_w ?l b ?w"
    unfolding run rem_w_def Let_def using al bound by (simp add: wm_st64 head_mod)
  have d: "\<And>i j. i < 6 \<Longrightarrow> j < 6 \<Longrightarrow> i \<noteq> j \<Longrightarrow> set (F i) \<inter> set (F j) = {}" using dis by (simp add: lists_disjoint_def)
  show "fls (wm ?r (remove_free sl (b + 8) s m)) sl (F(?k := xs @ ys))"
    unfolding w by (rule fls_remove(1) [OF f sp seg_class_less b d])
  show "x \<notin> lwords sl (all_free F) \<Longrightarrow> wm ?r (remove_free sl (b + 8) s m) x = ?w x"
    unfolding w by (rule fls_remove(2) [OF f sp seg_class_less b d])
  assume y: "y \<notin> lbytes sl (all_free F)"
  show "remove_free sl (b + 8) s m y = m y"
    unfolding run Let_def using lbytes_st64 [OF y] C by simp
qed

subsection \<open>Rows of blocks\<close>

type_synonym block = "nat \<times> bool"

definition off :: "block list \<Rightarrow> nat" where
  "off bs = sum_list (map fst bs)"

lemma off_simps [simp]: "off [] = 0" "off (b # bs) = fst b + off bs" "off (xs @ ys) = off xs + off ys"
  by (simp_all add: off_def)

text \<open>The blocks with their addresses.\<close>

fun pos :: "nat \<Rightarrow> block list \<Rightarrow> (nat \<times> nat \<times> bool) list" where
  "pos a [] = []"
| "pos a ((s, f) # bs) = (a, s, f) # pos (a + s) bs"

lemma pos_append [simp]: "pos a (xs @ ys) = pos a xs @ pos (a + off xs) ys"
  by (induction a xs rule: pos.induct) (auto simp: add.assoc)

definition sizes_ok :: "block list \<Rightarrow> bool" where
  "sizes_ok bs \<longleftrightarrow> (\<forall>s \<in> set (map fst bs). 32 \<le> s \<and> 16 dvd s)"

lemma sizes_ok_simps [simp]:
  "sizes_ok []" "sizes_ok (b # bs) \<longleftrightarrow> 32 \<le> fst b \<and> 16 dvd fst b \<and> sizes_ok bs" "sizes_ok (xs @ ys) \<longleftrightarrow> sizes_ok xs \<and> sizes_ok ys"
  by (auto simp: sizes_ok_def)

lemma pos_in:
  "(b, s, f) \<in> set (pos a bs) \<Longrightarrow> sizes_ok bs \<Longrightarrow> a \<le> b \<and> b + s \<le> a + off bs \<and> 32 \<le> s \<and> b mod 8 = a mod 8"
proof (induction a bs rule: pos.induct)
  case (2 a s' f' bs)
  have "(a + s') mod 8 = a mod 8" if d: "16 dvd s'"
  proof -
    obtain k where "s' = 16 * k" using d by (auto elim: dvdE)
    then have "s' = 8 * (2 * k)" by simp
    then show ?thesis by (simp only: mod_mult_self2)
  qed
  then show ?case using 2 by auto
qed simp

lemma pos_apart:
  assumes "sizes_ok bs" "(b, s, f) \<in> set (pos a bs)" "(c, t, g) \<in> set (pos a bs)"
  shows "(b = c \<and> s = t \<and> f = g) \<or> b + s \<le> c \<or> c + t \<le> b"
  using assms
proof (induction a bs rule: pos.induct)
  case (2 a s' f' bs)
  have tl: "(d, u, h) \<in> set (pos (a + s') bs) \<Longrightarrow> a + s' \<le> d" for d u h using pos_in [of d u h "a + s'" bs] 2(2) by simp
  show ?case using 2 tl by auto
qed simp

definition frees :: "nat \<Rightarrow> block list \<Rightarrow> nat set" where
  "frees a bs = {b. \<exists>s. (b, s, False) \<in> set (pos a bs)}"

lemma frees_simps [simp]:
  "frees a [] = {}" "frees a ((s, f) # bs) = (if f then frees (a + s) bs else insert a (frees (a + s) bs))"
  "frees a (xs @ ys) = frees a xs \<union> frees (a + off xs) ys"
  by (auto simp: frees_def)

lemma frees_spaced: "sizes_ok bs \<Longrightarrow> spaced sl (frees (sl + 64) bs)"
  unfolding spaced_def
proof (intro conjI ballI impI)
  assume ok: "sizes_ok bs"
  fix c assume "c \<in> frees (sl + 64) bs"
  then obtain s where c: "(c, s, False) \<in> set (pos (sl + 64) bs)" by (auto simp: frees_def)
  have "(sl + 64) mod 8 = (sl + 8 * 8) mod 8" by simp
  also have "\<dots> = sl mod 8" by (rule mod_mult_self2)
  finally show "sl + 64 \<le> c" "c mod 8 = sl mod 8" using pos_in [OF c ok] by auto
  fix d assume "d \<in> frees (sl + 64) bs" "c \<noteq> d"
  then obtain t where d: "(d, t, False) \<in> set (pos (sl + 64) bs)" "c \<noteq> d" by (auto simp: frees_def)
  then show "c + 32 \<le> d \<or> d + 32 \<le> c" using pos_apart [OF ok c d(1)] pos_in [OF c ok] pos_in [OF d(1) ok] by auto
qed

fun blks :: "(nat \<Rightarrow> nat) \<Rightarrow> nat \<Rightarrow> block list \<Rightarrow> bool" where
  "blks w a [] = True"
| "blks w a ((s, f) # bs) \<longleftrightarrow> w a = s + of_bool f \<and> w (a + s - 8) = s + of_bool f \<and> blks w (a + s) bs"

lemma blks_append [simp]: "blks w a (xs @ ys) \<longleftrightarrow> blks w a xs \<and> blks w (a + off xs) ys"
  by (induction w a xs rule: blks.induct) (auto simp: add.assoc)

lemma blks_pos: "blks w a bs \<longleftrightarrow> (\<forall>(b, s, f) \<in> set (pos a bs). w b = s + of_bool f \<and> w (b + s - 8) = s + of_bool f)"
  by (induction w a bs rule: blks.induct) auto

text \<open>All tags of the heap, prologue and epilogue included.\<close>

definition tags :: "(nat \<Rightarrow> nat) \<Rightarrow> nat \<Rightarrow> block list \<Rightarrow> bool" where
  "tags w sl bs \<longleftrightarrow> w (sl + 56) = 17 \<and> blks w (sl + 64) bs \<and> w (sl + 64 + off bs) = 1"

lemma pos_flags: "map fst xs = map fst ys \<Longrightarrow> (b, s, f) \<in> set (pos a xs) \<Longrightarrow> \<exists>g. (b, s, g) \<in> set (pos a ys)"
proof (induction xs arbitrary: a ys)
  case (Cons x xs)
  obtain t g h zs where [simp]: "x = (t, g)" "ys = (t, h) # zs" and zs: "map fst xs = map fst zs"
    using Cons.prems(1) by (cases x; cases ys) auto
  show ?case using Cons.prems(2) Cons.IH [OF zs, of "a + t"] by auto
qed simp

text \<open>The link words of free blocks are no tags.\<close>

lemma lwords_no_tag:
  assumes ok: "sizes_ok bs" and x: "x \<in> lwords sl (frees (sl + 64) bs)"
  shows "(b, s, f) \<in> set (pos (sl + 64) bs) \<Longrightarrow> x \<noteq> b \<and> x \<noteq> b + s - 8" "x \<noteq> sl + 56" "x \<noteq> sl + 64 + off bs"
proof -
  consider (head) k where "x = sl + 8 * k" "k < 6" | (link) c t where "(c, t, False) \<in> set (pos (sl + 64) bs)" "x = c + 8 \<or> x = c + 16"
    using x by (auto simp: lwords_def frees_def)
  then have "((b, s, f) \<in> set (pos (sl + 64) bs) \<longrightarrow> x \<noteq> b \<and> x \<noteq> b + s - 8) \<and> x \<noteq> sl + 56 \<and> x \<noteq> sl + 64 + off bs"
  proof cases
    case head
    then show ?thesis using pos_in [of b s f "sl + 64" bs] ok by auto
  next
    case link
    have "c + 24 \<le> c + t - 8" "sl + 64 \<le> c" "c + t \<le> sl + 64 + off bs" using pos_in [OF link(1) ok] by auto
    then show ?thesis using pos_apart [OF ok link(1), of b s f] pos_in [of b s f "sl + 64" bs] link(2) ok by auto
  qed
  then show "(b, s, f) \<in> set (pos (sl + 64) bs) \<Longrightarrow> x \<noteq> b \<and> x \<noteq> b + s - 8" "x \<noteq> sl + 56" "x \<noteq> sl + 64 + off bs" by auto
qed

lemma tags_keep:
  assumes "tags w sl bs" "sizes_ok bs" "map fst bs' = map fst bs"
    and "\<And>x. x \<notin> lwords sl (frees (sl + 64) bs') \<Longrightarrow> w' x = w x"
  shows "tags w' sl bs"
proof -
  have ok: "sizes_ok bs'" "off bs' = off bs" using assms(2) unfolding sizes_ok_def off_def assms(3) by auto
  note no = lwords_no_tag [OF ok(1), of _ sl]
  have "w' b = w b \<and> w' (b + s - 8) = w (b + s - 8)" if "(b, s, f) \<in> set (pos (sl + 64) bs)" for b s f
    using pos_flags [OF assms(3) [symmetric] that] no(1) assms(4) by blast
  then have "blks w' (sl + 64) bs" using assms(1) unfolding tags_def blks_pos by fastforce
  moreover have "w' (sl + 56) = w (sl + 56)" "w' (sl + 64 + off bs) = w (sl + 64 + off bs)"
    using no(2,3) ok(2) assms(4) by metis+
  ultimately show ?thesis using assms(1) by (simp add: tags_def)
qed

subsection \<open>Blocks and lists together\<close>

definition matches :: "nat \<Rightarrow> block list \<Rightarrow> (nat \<Rightarrow> nat list) \<Rightarrow> bool" where
  "matches a bs F \<longleftrightarrow> (\<forall>k < 6. set (F k) = {b. \<exists>s. (b, s, False) \<in> set (pos a bs) \<and> seg_class s = k})"

definition links :: "(nat \<Rightarrow> nat) \<Rightarrow> nat \<Rightarrow> block list \<Rightarrow> (nat \<Rightarrow> nat list) \<Rightarrow> bool" where
  "links w sl bs F \<longleftrightarrow> fls w sl F \<and> matches (sl + 64) bs F"

lemma matches_all: "matches a bs F \<Longrightarrow> all_free F = frees a bs"
  unfolding matches_def all_free_def frees_def by (auto intro: seg_class_less)

lemma matches_disjoint:
  assumes "matches a bs F" "sizes_ok bs"
  shows "lists_disjoint F"
  unfolding lists_disjoint_def
proof (intro allI impI)
  fix i j :: nat assume "i < 6" "j < 6" "i \<noteq> j"
  moreover have "s = t" if "(b, s, False) \<in> set (pos a bs)" "(b, t, False) \<in> set (pos a bs)" for b s t
    using pos_apart [OF assms(2) that] pos_in [OF that(1) assms(2)] pos_in [OF that(2) assms(2)] by auto
  ultimately show "set (F i) \<inter> set (F j) = {}" using assms(1) by (auto simp: matches_def)
qed

text \<open>Changing the mark of one block.\<close>

lemma pos_elsewhere:
  assumes "sizes_ok (us @ (s, f) # vs)"
  shows "(a + off us, t, g) \<in> set (pos a us) \<longleftrightarrow> False" "(a + off us, t, g) \<in> set (pos (a + off us + s) vs) \<longleftrightarrow> False"
  using assms pos_in [of "a + off us" t g a us] pos_in [of "a + off us" t g "a + off us + s" vs] by auto

lemma frees_elsewhere:
  assumes "sizes_ok (us @ (s, f) # vs)"
  shows "a + off us \<notin> frees a us" "a + off us \<notin> frees (a + off us + s) vs"
  using pos_elsewhere [OF assms] by (auto simp: frees_def)

lemma links_remove:
  assumes l: "links (wm (sl mod 8) m) sl (us @ (s, False) # vs) F" and ok: "sizes_ok (us @ (s, False) # vs)"
  defines "q \<equiv> sl + 64 + off us" and "C \<equiv> frees (sl + 64) (us @ (s, False) # vs)"
  obtains F' where "links (wm (sl mod 8) (remove_free sl (q + 8) s m)) sl (us @ (s, True) # vs) F'"
    "\<And>x. x \<notin> lwords sl C \<Longrightarrow> wm (sl mod 8) (remove_free sl (q + 8) s m) x = wm (sl mod 8) m x"
    "\<And>y. y \<notin> lbytes sl C \<Longrightarrow> remove_free sl (q + 8) s m y = m y"
proof -
  let ?k = "seg_class s"
  have f: "fls (wm (sl mod 8) m) sl F" and ma: "matches (sl + 64) (us @ (s, False) # vs) F" using l by (auto simp: links_def)
  have C: "all_free F = C" unfolding C_def by (rule matches_all [OF ma])
  have "q \<in> set (F ?k)" using ma by (auto simp: matches_def q_def)
  then obtain xs ys where F: "F ?k = xs @ q # ys" by (auto simp: in_set_conv_decomp)
  have sp: "spaced sl (all_free F)" unfolding C C_def by (rule frees_spaced [OF ok])
  note E = remove_free_effect [OF f sp F matches_disjoint [OF ma ok]]
  have "lst (wm (sl mod 8) m) (sl + 8 * ?k) (xs @ q # ys)" using f F seg_class_less [of s] unfolding fls_def by metis
  then have "q \<notin> set (xs @ ys)" by (auto simp: lst_def dll_def)
  then have "set (xs @ ys) = set (F ?k) - {q}" using F by auto
  then have "matches (sl + 64) (us @ (s, True) # vs) (F(?k := xs @ ys))"
    using ma pos_elsewhere [OF ok, of "sl + 64"] unfolding matches_def q_def by (auto simp: q_def)
  then show thesis using that E unfolding C links_def by blast
qed

lemma links_insert:
  assumes l: "links (wm (sl mod 8) m) sl (us @ (s, True) # vs) F" and ok: "sizes_ok (us @ (s, True) # vs)"
  defines "q \<equiv> sl + 64 + off us" and "C \<equiv> frees (sl + 64) (us @ (s, False) # vs)"
  assumes hd: "wm (sl mod 8) m q = s" and q: "q < 2 ^ 64"
  obtains F' where "links (wm (sl mod 8) (insert_free sl (q + 8) m)) sl (us @ (s, False) # vs) F'"
    "\<And>x. x \<notin> lwords sl C \<Longrightarrow> wm (sl mod 8) (insert_free sl (q + 8) m) x = wm (sl mod 8) m x"
    "\<And>y. y \<notin> lbytes sl C \<Longrightarrow> insert_free sl (q + 8) m y = m y"
proof -
  let ?k = "seg_class s"
  have f: "fls (wm (sl mod 8) m) sl F" and ma: "matches (sl + 64) (us @ (s, True) # vs) F" using l by (auto simp: links_def)
  have all: "all_free F = frees (sl + 64) (us @ (s, True) # vs)" by (rule matches_all [OF ma])
  have C: "insert q (all_free F) = C" unfolding C_def all q_def by auto
  have sp: "spaced sl (insert q (all_free F))" unfolding C C_def by (rule frees_spaced) (use ok in simp)
  have new: "q \<notin> all_free F" unfolding all q_def using frees_elsewhere [OF ok] by auto
  have "hdr_size s = s" using ok by (auto simp: hdr_size_def)
  then have s: "hdr_size (wm (sl mod 8) m q) = s" using hd by simp
  note E = insert_free_effect [OF f sp new q matches_disjoint [OF ma ok] s]
  have "matches (sl + 64) (us @ (s, False) # vs) (F(?k := q # F ?k))"
    using ma unfolding matches_def q_def by auto
  then show thesis using that E unfolding C links_def by blast
qed

text \<open>Stores into a block that is in no list.\<close>

lemma lwords_region:
  assumes ok: "sizes_ok (us @ (s, True) # vs)" and x: "x \<in> lwords sl (frees (sl + 64) (us @ (s, True) # vs))"
  shows "x + 8 \<le> sl + 64 + off us \<or> sl + 64 + off us + s \<le> x" "x < sl + 64 + off (us @ (s, True) # vs)"
proof -
  let ?bs = "us @ (s, True) # vs"
  consider (head) k where "x = sl + 8 * k" "k < 6" | (link) c t where "(c, t, False) \<in> set (pos (sl + 64) ?bs)" "x = c + 8 \<or> x = c + 16"
    using x by (auto simp: lwords_def frees_def)
  then have "(x + 8 \<le> sl + 64 + off us \<or> sl + 64 + off us + s \<le> x) \<and> x < sl + 64 + off ?bs"
  proof cases
    case link
    have "(sl + 64 + off us, s, True) \<in> set (pos (sl + 64) ?bs)" by simp
    then have "c + t \<le> sl + 64 + off us \<or> sl + 64 + off us + s \<le> c" using pos_apart [OF ok link(1)] by blast
    then show ?thesis using pos_in [OF link(1) ok] link(2) by auto
  qed (use ok in auto)
  then show "x + 8 \<le> sl + 64 + off us \<or> sl + 64 + off us + s \<le> x" "x < sl + 64 + off ?bs" by auto
qed

lemma links_store:
  assumes "links w sl (us @ (s, True) # vs) F" "sizes_ok (us @ (s, True) # vs)"
    and "\<And>x. x < sl + 64 + off us \<or> sl + 64 + off us + s \<le> x \<and> x < sl + 64 + off us + s + off vs \<Longrightarrow> w' x = w x"
  shows "links w' sl (us @ (s, True) # vs) F"
proof -
  have ma: "matches (sl + 64) (us @ (s, True) # vs) F" using assms(1) by (simp add: links_def)
  have "fls w' sl F = fls w sl F"
  proof (rule fls_cong)
    fix x assume "x \<in> lwords sl (all_free F)"
    then have "x \<in> lwords sl (frees (sl + 64) (us @ (s, True) # vs))" by (simp only: matches_all [OF ma])
    from lwords_region [OF assms(2) this] show "w' x = w x" by (intro assms(3)) auto
  qed
  then show ?thesis using assms(1) by (simp add: links_def)
qed

subsection \<open>Merging\<close>

text \<open>The bytes the allocator may write: the list heads and the free blocks.\<close>

definition dirty :: "nat \<Rightarrow> block list \<Rightarrow> nat set" where
  "dirty sl bs = {sl..<sl + 48} \<union> {y. \<exists>b s. (b, s, False) \<in> set (pos (sl + 64) bs) \<and> b \<le> y \<and> y < b + s}"

definition allocs :: "nat \<Rightarrow> block list \<Rightarrow> (nat \<times> nat) set" where
  "allocs sl bs = {(b, s). (b, s, True) \<in> set (pos (sl + 64) bs)}"

lemma dirtyI: "(b, s, False) \<in> set (pos (sl + 64) bs) \<Longrightarrow> b \<le> y \<Longrightarrow> y < b + s \<Longrightarrow> y \<in> dirty sl bs"
  by (auto simp: dirty_def)

lemma dirty_region:
  assumes "y \<notin> dirty sl (us @ (s, False) # vs)"
  shows "y < sl + 64 + off us \<or> sl + 64 + off us + s \<le> y"
proof (rule ccontr)
  assume "\<not> ?thesis"
  then have "y \<in> dirty sl (us @ (s, False) # vs)" by (intro dirtyI [of "sl + 64 + off us" s]) auto
  then show False using assms by simp
qed

lemma lbytes_dirty:
  assumes "sizes_ok bs" "y \<notin> dirty sl bs"
  shows "y \<notin> lbytes sl (frees (sl + 64) bs)"
proof
  assume "y \<in> lbytes sl (frees (sl + 64) bs)"
  then consider "sl \<le> y" "y < sl + 48" | c s where "(c, s, False) \<in> set (pos (sl + 64) bs)" "c + 8 \<le> y" "y < c + 24"
    by (auto simp: lbytes_def frees_def)
  then show False
  proof cases
    case 1
    then show False using assms(2) by (simp add: dirty_def)
  next
    case 2
    then show False using assms(2) pos_in [OF 2(1) assms(1)] dirtyI [OF 2(1), of y] by simp
  qed
qed

lemma dirty_mono:
  assumes "\<And>b s. (b, s, False) \<in> set (pos (sl + 64) bs) \<Longrightarrow> (b, s, False) \<in> set (pos (sl + 64) bs')"
  shows "dirty sl bs \<subseteq> dirty sl bs'"
  using assms by (auto simp: dirty_def)

lemma dirty_merge: "dirty sl (us @ (s + t, False) # vs) = dirty sl (us @ (s, False) # (t, False) # vs)"
proof -
  have "(\<exists>b z. (b, z, False) \<in> set (pos (sl + 64) (us @ (s + t, False) # vs)) \<and> b \<le> y \<and> y < b + z) \<longleftrightarrow>
      (\<exists>b z. (b, z, False) \<in> set (pos (sl + 64) (us @ (s, False) # (t, False) # vs)) \<and> b \<le> y \<and> y < b + z)" for y
    by (simp add: add.assoc [symmetric] conj_disj_distribR ex_disj_distrib) auto
  then show ?thesis unfolding dirty_def by blast
qed

lemma allocs_merge: "allocs sl (us @ (s + t, False) # vs) = allocs sl (us @ (s, False) # (t, False) # vs)"
  by (auto simp: allocs_def add.assoc)

lemma matches_merge:
  "matches a (us @ (s, True) # (t, True) # vs) F \<longleftrightarrow> matches a (us @ (s + t, True) # vs) F"
  by (simp add: matches_def add.assoc)

text \<open>Writing a new tag over a region between two rows of blocks.\<close>

definition around :: "(nat \<Rightarrow> nat) \<Rightarrow> nat \<Rightarrow> block list \<Rightarrow> nat \<Rightarrow> block list \<Rightarrow> bool" where
  "around w sl us s vs \<longleftrightarrow>
     w (sl + 56) = 17 \<and> blks w (sl + 64) us \<and> blks w (sl + 64 + off us + s) vs \<and> w (sl + 64 + off us + s + off vs) = 1"

lemma tags_around: "tags w sl (us @ (s, f) # vs) \<Longrightarrow> around w sl us s vs"
  by (simp add: tags_def around_def add.assoc)

lemma tags_around2: "tags w sl (us @ (s, f) # (t, g) # vs) \<Longrightarrow> around w sl us (s + t) vs"
  by (simp add: tags_def around_def add.assoc)

lemma blks_cong:
  assumes "blks w a bs" "sizes_ok bs" "\<And>x. a \<le> x \<Longrightarrow> x < a + off bs \<Longrightarrow> w' x = w x"
  shows "blks w' a bs"
  unfolding blks_pos
proof (clarify)
  fix b s f assume p: "(b, s, f) \<in> set (pos a bs)"
  then show "w' b = s + of_bool f \<and> w' (b + s - 8) = s + of_bool f"
    using assms(1) pos_in [OF p assms(2)] assms(3) [of b] assms(3) [of "b + s - 8"] unfolding blks_pos by fastforce
qed

lemma tags_write:
  assumes "around w sl us s vs" "sizes_ok (us @ (s, f) # vs)"
    "w' (sl + 64 + off us) = s + of_bool f" "w' (sl + 64 + off us + s - 8) = s + of_bool f"
    "\<And>x. x < sl + 64 + off us \<or> sl + 64 + off us + s \<le> x \<Longrightarrow> w' x = w x"
  shows "tags w' sl (us @ (s, f) # vs)"
proof -
  have "blks w' (sl + 64) us" by (rule blks_cong [of w]) (use assms in \<open>auto simp: around_def\<close>)
  moreover have "blks w' (sl + 64 + off us + s) vs" by (rule blks_cong [of w]) (use assms in \<open>auto simp: around_def\<close>)
  ultimately show ?thesis using assms by (auto simp: tags_def around_def add.assoc)
qed

lemma row_mod: "sizes_ok us \<Longrightarrow> (sl + 64 + off us) mod 8 = sl mod 8"
proof (induction us rule: rev_induct)
  case Nil
  have "(sl + 64) mod 8 = (sl + 8 * 8) mod 8" by simp
  then show ?case by (simp only: mod_mult_self2 off_simps add_0_right)
next
  case (snoc b us)
  then obtain k where "fst b = 8 * (2 * k)" by (auto elim!: dvdE)
  then have "sl + 64 + off (us @ [b]) = sl + 64 + off us + 8 * (2 * k)" by simp
  then have "(sl + 64 + off (us @ [b])) mod 8 = (sl + 64 + off us) mod 8" by (simp only: mod_mult_self2)
  then show ?case using snoc by simp
qed

lemma row_mod_end: "sizes_ok us \<Longrightarrow> 32 \<le> s \<Longrightarrow> 16 dvd s \<Longrightarrow> (sl + 64 + off us + s - 8) mod 8 = sl mod 8"
proof -
  assume a: "sizes_ok us" "32 \<le> s" "16 dvd s"
  then have "(sl + 64 + off (us @ [(s, True)])) mod 8 = sl mod 8" by (intro row_mod) simp
  moreover have "sl + 64 + off (us @ [(s, True)]) = (sl + 64 + off us + s - 8) + 8" using a by simp
  ultimately show ?thesis by (metis mod_add_self2)
qed

text \<open>One store of a header and a footer over the region.\<close>

lemma retag:
  assumes "around (wm (sl mod 8) m) sl us s vs" "links (wm (sl mod 8) m) sl (us @ (s, True) # vs) F"
    and ok: "sizes_ok (us @ (s, f) # vs)" and bound: "s + 1 < 2 ^ 64"
  defines "q \<equiv> sl + 64 + off us"
  defines "m' \<equiv> st64 (q + s - 8) (s + of_bool f) (st64 q (s + of_bool f) m)"
  shows "tags (wm (sl mod 8) m') sl (us @ (s, f) # vs)" "links (wm (sl mod 8) m') sl (us @ (s, True) # vs) F"
    "y < q \<or> q + s \<le> y \<Longrightarrow> m' y = m y"
proof -
  have ok': "sizes_ok us" "32 \<le> s" "16 dvd s" "sizes_ok (us @ (s, True) # vs)" using ok by auto
  have w: "wm (sl mod 8) m' = (wm (sl mod 8) m)(q := s + of_bool f, q + s - 8 := s + of_bool f)"
    unfolding m'_def q_def using row_mod [OF ok'(1)] row_mod_end [OF ok'(1-3)] bound by (simp add: wm_st64)
  show "tags (wm (sl mod 8) m') sl (us @ (s, f) # vs)"
    by (rule tags_write [OF assms(1) ok]) (use ok' in \<open>auto simp: w q_def\<close>)
  show "links (wm (sl mod 8) m') sl (us @ (s, True) # vs) F"
    by (rule links_store [OF assms(2) ok'(4)]) (use ok' in \<open>auto simp: w q_def\<close>)
  show "y < q \<or> q + s \<le> y \<Longrightarrow> m' y = m y" using ok'(2) by (auto simp: m'_def st64_def)
qed

text \<open>Taking a free block out of its list and merging it with its free neighbour, which is in no
  list: both orders.\<close>

lemma around_keep:
  assumes "tags w sl bs" "sizes_ok bs" "bs = us @ (s, f) # (t, g) # vs" "map fst bs' = map fst bs"
    and "\<And>x. x \<notin> lwords sl (frees (sl + 64) bs') \<Longrightarrow> w' x = w x"
  shows "around w' sl us (s + t) vs"
  using tags_keep [OF assms(1,2,4,5)] assms(3) tags_around2 by blast

lemma merge_left:
  assumes T: "tags (wm (sl mod 8) m) sl (us @ (s, False) # (t, False) # vs)"
    and L: "links (wm (sl mod 8) m) sl (us @ (s, False) # (t, True) # vs) F"
    and ok: "sizes_ok (us @ (s, False) # (t, False) # vs)" and bound: "s + t + 1 < 2 ^ 64"
  defines "q \<equiv> sl + 64 + off us"
  defines "m' \<equiv> st64 (q + (s + t) - 8) (s + t) (st64 q (s + t) (remove_free sl (q + 8) s m))"
  obtains F' where "tags (wm (sl mod 8) m') sl (us @ (s + t, False) # vs)" "links (wm (sl mod 8) m') sl (us @ (s + t, True) # vs) F'"
    "\<And>y. y \<notin> dirty sl (us @ (s + t, False) # vs) \<Longrightarrow> m' y = m y"
proof -
  let ?r = "sl mod 8" and ?m = "remove_free sl (q + 8) s m"
  let ?bs = "us @ (s, False) # (t, False) # vs" and ?bl = "us @ (s, False) # (t, True) # vs"
  have okl: "sizes_ok ?bl" using ok by simp
  obtain F' where L': "links (wm ?r ?m) sl (us @ (s, True) # (t, True) # vs) F'"
      and w: "\<And>x. x \<notin> lwords sl (frees (sl + 64) ?bl) \<Longrightarrow> wm ?r ?m x = wm ?r m x"
      and y: "\<And>y. y \<notin> lbytes sl (frees (sl + 64) ?bl) \<Longrightarrow> ?m y = m y"
    unfolding q_def using links_remove [OF L okl] by blast
  have ar: "around (wm ?r ?m) sl us (s + t) vs" by (rule around_keep [OF T ok refl, of ?bl]) (simp, erule w)
  have L2: "links (wm ?r ?m) sl (us @ (s + t, True) # vs) F'" using L' by (simp add: links_def matches_merge)
  have ok2: "sizes_ok (us @ (s + t, False) # vs)" using ok by simp
  note R = retag [OF ar L2 ok2 bound]
  have "m' y = m y" if "y \<notin> dirty sl (us @ (s + t, False) # vs)" for y
  proof -
    have "y \<notin> dirty sl ?bl" using that dirty_mono [of sl ?bl ?bs] by (auto simp: dirty_merge)
    then have "?m y = m y" using y lbytes_dirty [OF okl] by blast
    moreover have "y < q \<or> q + (s + t) \<le> y" using dirty_region [OF that] by (simp add: q_def)
    ultimately show ?thesis using R(3) [of y] by (simp add: m'_def q_def)
  qed
  then show thesis using that R(1,2) by (simp add: m'_def q_def)
qed

lemma merge_right:
  assumes T: "tags (wm (sl mod 8) m) sl (us @ (s, False) # (t, False) # vs)"
    and L: "links (wm (sl mod 8) m) sl (us @ (s, True) # (t, False) # vs) F"
    and ok: "sizes_ok (us @ (s, False) # (t, False) # vs)" and bound: "s + t + 1 < 2 ^ 64"
  defines "q \<equiv> sl + 64 + off us"
  defines "m' \<equiv> st64 (q + (s + t) - 8) (s + t) (st64 q (s + t) (remove_free sl (q + s + 8) t m))"
  obtains F' where "tags (wm (sl mod 8) m') sl (us @ (s + t, False) # vs)" "links (wm (sl mod 8) m') sl (us @ (s + t, True) # vs) F'"
    "\<And>y. y \<notin> dirty sl (us @ (s + t, False) # vs) \<Longrightarrow> m' y = m y"
proof -
  let ?r = "sl mod 8" and ?m = "remove_free sl (q + s + 8) t m"
  let ?bs = "us @ (s, False) # (t, False) # vs" and ?bl = "(us @ [(s, True)]) @ (t, False) # vs"
  have okl: "sizes_ok ?bl" using ok by simp
  have L0: "links (wm ?r m) sl ?bl F" using L by simp
  obtain F' where L': "links (wm ?r ?m) sl ((us @ [(s, True)]) @ (t, True) # vs) F'"
      and w: "\<And>x. x \<notin> lwords sl (frees (sl + 64) ?bl) \<Longrightarrow> wm ?r ?m x = wm ?r m x"
      and y: "\<And>y. y \<notin> lbytes sl (frees (sl + 64) ?bl) \<Longrightarrow> ?m y = m y"
    unfolding q_def using links_remove [OF L0 okl] by (auto simp: add.assoc)
  have ar: "around (wm ?r ?m) sl us (s + t) vs" by (rule around_keep [OF T ok refl, of ?bl]) (simp, erule w)
  have L2: "links (wm ?r ?m) sl (us @ (s + t, True) # vs) F'" using L' by (simp add: links_def matches_merge)
  have ok2: "sizes_ok (us @ (s + t, False) # vs)" using ok by simp
  note R = retag [OF ar L2 ok2 bound]
  have "m' y = m y" if "y \<notin> dirty sl (us @ (s + t, False) # vs)" for y
  proof -
    have "y \<notin> dirty sl ?bl" using that dirty_mono [of sl ?bl ?bs] by (auto simp: dirty_merge)
    then have "?m y = m y" using y lbytes_dirty [OF okl] by blast
    moreover have "y < q \<or> q + (s + t) \<le> y" using dirty_region [OF that] by (simp add: q_def)
    ultimately show ?thesis using R(3) [of y] by (simp add: m'_def q_def)
  qed
  then show thesis using that R(1,2) by (simp add: m'_def q_def)
qed

lemma tag_bits:
  assumes "16 dvd s"
  shows "(s + of_bool f) mod 2 = 0 \<longleftrightarrow> \<not> f" "hdr_size (s + of_bool f) = s"
proof -
  obtain k where s: "s = 16 * k" using assms by (auto elim: dvdE)
  show "(s + of_bool f) mod 2 = 0 \<longleftrightarrow> \<not> f" by (cases f) (simp_all add: s mod_mult_left_eq [symmetric], presburger)
  show "hdr_size (s + of_bool f) = s" by (cases f) (simp_all add: s hdr_size_def)
qed

lemma tag_before:
  assumes "tags w sl (us @ vs)" "sizes_ok us"
  shows "us = [] \<Longrightarrow> w (sl + 64 + off us - 8) = 17"
    "us = us' @ [(s, f)] \<Longrightarrow> w (sl + 64 + off us - 8) = s + of_bool f"
proof -
  have "sl + 64 - 8 = sl + 56" by simp
  then show "us = [] \<Longrightarrow> w (sl + 64 + off us - 8) = 17" using assms by (simp only: tags_def off_simps add_0_right)
  show "us = us' @ [(s, f)] \<Longrightarrow> w (sl + 64 + off us - 8) = s + of_bool f" using assms by (auto simp: tags_def add.assoc)
qed

lemma tag_after:
  assumes "tags w sl (us @ vs)"
  shows "vs = [] \<Longrightarrow> w (sl + 64 + off us) = 1" "vs = (s, f) # vs' \<Longrightarrow> w (sl + 64 + off us) = s + of_bool f"
  using assms by (auto simp: tags_def add.assoc)

subsection \<open>Coalescing\<close>

abbreviation merged :: "block list \<Rightarrow> bool" where
  "merged bs \<equiv> successively (\<lambda>x y. snd x \<or> snd y) bs"

text \<open>The two halves of \<open>coalesce\<close>.\<close>

definition co_prev :: "nat \<Rightarrow> nat \<Rightarrow> nat \<Rightarrow> memory \<Rightarrow> nat \<times> nat \<times> memory" where
  "co_prev sl ptr sz m =
     (if ld64 m (ptr - DWS) mod 2 = 0 then
        (let prev_size = hdr_size (ld64 m (ptr - DWS));
             m = remove_free sl (ptr - prev_size) prev_size m;
             m = st64 (ptr - prev_size - WS) (prev_size + sz) m;
             m = st64 (ptr + sz - DWS) (prev_size + sz) m
         in (ptr - prev_size, prev_size + sz, m))
      else (ptr, sz, m))"

definition co_next :: "nat \<Rightarrow> nat \<Rightarrow> nat \<Rightarrow> memory \<Rightarrow> memory" where
  "co_next sl ptr sz m =
     (if ld64 m (ptr + sz - WS) mod 2 = 0 then
        (let next_size = hdr_size (ld64 m (ptr + sz - WS));
             m = remove_free sl (ptr + sz) next_size m;
             m = st64 (ptr - WS) (sz + next_size) m
         in st64 (ptr + sz + next_size - DWS) (sz + next_size) m)
      else m)"

lemma coalesce_halves:
  "coalesce sl ptr m = (case co_prev sl ptr (hdr_size (ld64 m (ptr - WS))) m of (p, sz, m') \<Rightarrow> (p, co_next sl p sz m'))"
  by (simp add: coalesce_def co_prev_def co_next_def Let_def)

text \<open>A free block in no list, between two rows: the situation in the middle of \<open>initialize_free\<close>.\<close>

definition loose :: "memory \<Rightarrow> nat \<Rightarrow> block list \<Rightarrow> nat \<Rightarrow> block list \<Rightarrow> (nat \<Rightarrow> nat list) \<Rightarrow> bool" where
  "loose m sl us s vs F \<longleftrightarrow>
     tags (wm (sl mod 8) m) sl (us @ (s, False) # vs) \<and> links (wm (sl mod 8) m) sl (us @ (s, True) # vs) F \<and>
     sizes_ok (us @ (s, False) # vs) \<and> sl + 72 + off (us @ (s, False) # vs) \<le> 2 ^ 64 \<and> merged us \<and> merged vs"

text \<open>What merging keeps: the extent, the bytes that may change and the allocated blocks.\<close>

definition same_frame :: "nat \<Rightarrow> block list \<Rightarrow> block list \<Rightarrow> bool" where
  "same_frame sl bs bs' \<longleftrightarrow> off bs' = off bs \<and> dirty sl bs' = dirty sl bs \<and> allocs sl bs' = allocs sl bs"

lemma same_frame_trans: "same_frame sl a b \<Longrightarrow> same_frame sl b c \<Longrightarrow> same_frame sl a c"
  by (simp add: same_frame_def)

lemma same_frame_merge: "same_frame sl (us @ (s, False) # (t, False) # vs) (us @ (s + t, False) # vs)"
  by (simp add: same_frame_def dirty_merge allocs_merge)

lemma word_loads:
  assumes "sizes_ok us"
  shows "ld64 m (sl + 64 + off us) = wm (sl mod 8) m (sl + 64 + off us)" "ld64 m (sl + 64 + off us - 8) = wm (sl mod 8) m (sl + 64 + off us - 8)"
proof -
  show "ld64 m (sl + 64 + off us) = wm (sl mod 8) m (sl + 64 + off us)" by (rule ld64_wm [OF row_mod [OF assms]])
  have "sl + 64 + off us = (sl + 64 + off us - 8) + 8" by simp
  then have "(sl + 64 + off us - 8) mod 8 = sl mod 8" using row_mod [OF assms, of sl] by (metis mod_add_self2)
  then show "ld64 m (sl + 64 + off us - 8) = wm (sl mod 8) m (sl + 64 + off us - 8)" by (rule ld64_wm)
qed

lemma last_free: "\<not> (us = [] \<or> snd (last us)) \<Longrightarrow> \<exists>us' t. us = us' @ [(t, False)]"
proof (cases us rule: rev_cases)
  case (snoc ys y)
  moreover assume "\<not> (us = [] \<or> snd (last us))"
  ultimately show ?thesis by (cases y) auto
qed simp

lemma co_prev_ok:
  assumes l: "loose m sl us s vs F"
  obtains us' s' m' F' where "co_prev sl (sl + 64 + off us + 8) s m = (sl + 64 + off us' + 8, s', m')" "loose m' sl us' s' vs F'"
    "us' = [] \<or> snd (last us')" "s \<le> s'" "same_frame sl (us @ (s, False) # vs) (us' @ (s', False) # vs)"
    "\<forall>y. y \<notin> dirty sl (us @ (s, False) # vs) \<longrightarrow> m' y = m y"
proof (cases "us = [] \<or> snd (last us)")
  case True
  let ?q = "sl + 64 + off us"
  have T: "tags (wm (sl mod 8) m) sl (us @ (s, False) # vs)" and ok: "sizes_ok us" using l by (auto simp: loose_def)
  have "wm (sl mod 8) m (?q - 8) mod 2 \<noteq> 0"
  proof (cases us rule: rev_cases)
    case Nil
    then show ?thesis using tag_before(1) [OF T ok] by simp
  next
    case (snoc us' b)
    then obtain t where "us = us' @ [(t, True)]" "16 dvd t" using True ok by (cases b) auto
    then show ?thesis using tag_before(2) [OF T ok, of us' t True] tag_bits(1) [of t True] by simp
  qed
  moreover have "?q + 8 - 16 = ?q - 8" by simp
  ultimately have "co_prev sl (?q + 8) s m = (?q + 8, s, m)" using word_loads(2) [OF ok, of m sl] by (simp add: co_prev_def)
  then show thesis using that l True by (simp add: same_frame_def)
next
  case False
  then obtain us' t where us: "us = us' @ [(t, False)]" using last_free by blast
  let ?q = "sl + 64 + off us'" and ?r = "sl mod 8"
  have ok: "sizes_ok us" "sizes_ok (us' @ (t, False) # (s, False) # vs)" and ma: "merged us"
      and T: "tags (wm ?r m) sl (us' @ (t, False) # (s, False) # vs)" and L: "links (wm ?r m) sl (us' @ (t, False) # (s, True) # vs) F"
      and bd: "sl + 72 + off (us' @ (t, False) # (s, False) # vs) \<le> 2 ^ 64"
    using l us by (auto simp: loose_def)
  have t: "16 dvd t" "32 \<le> t" "32 \<le> s" using ok(2) by auto
  have "tags (wm ?r m) sl (us @ (s, False) # vs)" using T us by simp
  from tag_before(2) [OF this ok(1) us] have "wm ?r m (sl + 64 + off us - 8) = t" by simp
  moreover have a: "sl + 64 + off us + 8 - 16 = sl + 64 + off us - 8" "sl + 64 + off us + 8 - t = ?q + 8"
      "?q + 8 - 8 = ?q" "sl + 64 + off us + 8 + s - 16 = ?q + (t + s) - 8"
    using us t by simp_all
  ultimately have w: "ld64 m (sl + 64 + off us + 8 - 16) = t" using word_loads(2) [OF ok(1), of m sl] by simp
  let ?m = "st64 (?q + (t + s) - 8) (t + s) (st64 ?q (t + s) (remove_free sl (?q + 8) t m))"
  have "t mod 2 = 0" "hdr_size t = t" using tag_bits [OF t(1), of False] by simp_all
  then have run: "co_prev sl (sl + 64 + off us + 8) s m = (?q + 8, t + s, ?m)"
    unfolding co_prev_def w Let_def by (simp only: a(2-4) simp_thms if_True)
  have bd': "t + s + 1 < 2 ^ 64" using bd by simp
  obtain F' where R: "tags (wm ?r ?m) sl (us' @ (t + s, False) # vs)" "links (wm ?r ?m) sl (us' @ (t + s, True) # vs) F'"
      "\<And>y. y \<notin> dirty sl (us' @ (t + s, False) # vs) \<Longrightarrow> ?m y = m y"
    using merge_left [OF T L ok(2) bd'] by metis
  have ma': "merged us'" "us' = [] \<or> snd (last us')" using ma us by (auto simp: successively_append_iff)
  have "loose ?m sl us' (t + s) vs F'" using R(1,2) ok(2) bd ma'(1) l by (auto simp: loose_def)
  moreover have "same_frame sl (us @ (s, False) # vs) (us' @ (t + s, False) # vs)" using us by (simp add: same_frame_merge)
  moreover have "\<forall>y. y \<notin> dirty sl (us @ (s, False) # vs) \<longrightarrow> ?m y = m y" using R(3) us by (simp add: dirty_merge)
  ultimately show thesis using that [OF run] ma'(2) by simp
qed

lemma co_next_ok:
  assumes l: "loose m sl us s vs F"
  obtains vs' s' F' where "loose (co_next sl (sl + 64 + off us + 8) s m) sl us s' vs' F'"
    "vs' = [] \<or> snd (hd vs')" "s \<le> s'" "same_frame sl (us @ (s, False) # vs) (us @ (s', False) # vs')"
    "\<forall>y. y \<notin> dirty sl (us @ (s, False) # vs) \<longrightarrow> co_next sl (sl + 64 + off us + 8) s m y = m y"
proof -
  let ?q = "sl + 64 + off us" and ?r = "sl mod 8"
  have T: "tags (wm ?r m) sl ((us @ [(s, False)]) @ vs)" and ok: "sizes_ok (us @ [(s, False)])" "sizes_ok vs"
    using l by (auto simp: loose_def)
  have a: "?q + 8 + s - 8 = sl + 64 + off (us @ [(s, False)])" by simp
  note W = word_loads(1) [OF ok(1), of m sl]
  show thesis
  proof (cases "vs = [] \<or> snd (hd vs)")
    case True
    have "wm ?r m (sl + 64 + off (us @ [(s, False)])) mod 2 \<noteq> 0"
    proof (cases vs)
      case Nil
      then show ?thesis using tag_after(1) [OF T] by simp
    next
      case (Cons b vs')
      then obtain t where "vs = (t, True) # vs'" "16 dvd t" using True ok(2) by (cases b) auto
      then show ?thesis using tag_after(2) [OF T, of t True vs'] tag_bits(1) [of t True] by simp
    qed
    then have "co_next sl (?q + 8) s m = m" unfolding co_next_def a W by simp
    then show thesis using that l True by (simp add: same_frame_def)
  next
    case False
    then obtain t vs' where vs: "vs = (t, False) # vs'" by (cases vs) auto
    have l': "links (wm ?r m) sl (us @ (s, True) # (t, False) # vs') F" "sizes_ok (us @ (s, False) # (t, False) # vs')"
        "sl + 72 + off (us @ (s, False) # (t, False) # vs') \<le> 2 ^ 64" "merged us" "merged vs"
        "tags (wm ?r m) sl (us @ (s, False) # (t, False) # vs')"
      using l vs by (auto simp: loose_def)
    have t: "16 dvd t" "32 \<le> t" "32 \<le> s" using l'(2) by auto
    have "wm ?r m (sl + 64 + off (us @ [(s, False)])) = t" using tag_after(2) [OF T vs] by simp
    then have w: "ld64 m (?q + 8 + s - 8) = t" unfolding a W .
    have b: "?q + 8 + s = ?q + s + 8" "?q + 8 - 8 = ?q" "?q + s + 8 + t - 16 = ?q + (s + t) - 8" using t by simp_all
    let ?m = "st64 (?q + (s + t) - 8) (s + t) (st64 ?q (s + t) (remove_free sl (?q + s + 8) t m))"
    have "t mod 2 = 0" "hdr_size t = t" using tag_bits [OF t(1), of False] by simp_all
    then have run: "co_next sl (?q + 8) s m = ?m" unfolding co_next_def w Let_def by (simp only: b simp_thms if_True)
    have bd': "s + t + 1 < 2 ^ 64" using l'(3) by simp
    obtain F' where R: "tags (wm ?r ?m) sl (us @ (s + t, False) # vs')" "links (wm ?r ?m) sl (us @ (s + t, True) # vs') F'"
        "\<And>y. y \<notin> dirty sl (us @ (s + t, False) # vs') \<Longrightarrow> ?m y = m y"
      using merge_right [OF l'(6,1,2) bd'] by metis
    have ma': "merged vs'" "vs' = [] \<or> snd (hd vs')" using l'(5) vs by (cases vs'; auto)+
    have "loose ?m sl us (s + t) vs' F'" using R(1,2) l' ma'(1) by (auto simp: loose_def)
    moreover have "same_frame sl (us @ (s, False) # vs) (us @ (s + t, False) # vs')" using vs by (simp add: same_frame_merge)
    moreover have "\<forall>y. y \<notin> dirty sl (us @ (s, False) # vs) \<longrightarrow> ?m y = m y" using R(3) vs by (simp add: dirty_merge)
    ultimately show thesis using that [of "s + t" vs' F'] ma'(2) unfolding run by simp
  qed
qed

subsection \<open>Putting a block on its list\<close>

definition heap_row :: "memory \<Rightarrow> nat \<Rightarrow> block list \<Rightarrow> bool" where
  "heap_row m sl bs \<longleftrightarrow>
     0 < sl \<and> (\<exists>F. tags (wm (sl mod 8) m) sl bs \<and> links (wm (sl mod 8) m) sl bs F) \<and> sizes_ok bs \<and> merged bs \<and>
     sl + 72 + off bs \<le> 2 ^ 64"

lemma loose_insert:
  assumes l: "loose m sl us s vs F" and ends: "us = [] \<or> snd (last us)" "vs = [] \<or> snd (hd vs)" and "0 < sl"
  shows "heap_row (insert_free sl (sl + 64 + off us + 8) m) sl (us @ (s, False) # vs)"
    "y \<notin> dirty sl (us @ (s, False) # vs) \<Longrightarrow> insert_free sl (sl + 64 + off us + 8) m y = m y"
proof -
  let ?r = "sl mod 8" and ?q = "sl + 64 + off us" and ?bs = "us @ (s, False) # vs"
  have T: "tags (wm ?r m) sl ?bs" and L: "links (wm ?r m) sl (us @ (s, True) # vs) F" and ok: "sizes_ok ?bs"
      "sizes_ok (us @ (s, True) # vs)" and bd: "sl + 72 + off ?bs \<le> 2 ^ 64" and ma: "merged us" "merged vs"
    using l by (auto simp: loose_def)
  have q: "?q < 2 ^ 64" using bd by simp
  have hd: "wm ?r m ?q = s" using T by (simp add: tags_def)
  obtain F' where I: "links (wm ?r (insert_free sl (?q + 8) m)) sl ?bs F'"
      "\<And>x. x \<notin> lwords sl (frees (sl + 64) ?bs) \<Longrightarrow> wm ?r (insert_free sl (?q + 8) m) x = wm ?r m x"
      "\<And>y. y \<notin> lbytes sl (frees (sl + 64) ?bs) \<Longrightarrow> insert_free sl (?q + 8) m y = m y"
    using links_insert [OF L ok(2) hd q] by blast
  have "tags (wm ?r (insert_free sl (?q + 8) m)) sl ?bs" by (rule tags_keep [OF T ok(1) refl I(2)])
  moreover have "merged ?bs" using ma ends by (auto simp: successively_append_iff successively_Cons)
  ultimately show "heap_row (insert_free sl (?q + 8) m) sl ?bs" using I(1) ok(1) bd \<open>0 < sl\<close> by (auto simp: heap_row_def)
  show "y \<notin> dirty sl ?bs \<Longrightarrow> insert_free sl (?q + 8) m y = m y" using I(3) lbytes_dirty [OF ok(1)] by blast
qed

lemma initialize_free_ok:
  assumes ar: "around (wm (sl mod 8) m) sl us s vs" and L: "links (wm (sl mod 8) m) sl (us @ (s, True) # vs) F"
    and ok: "sizes_ok (us @ (s, False) # vs)" and bd: "sl + 72 + off (us @ (s, False) # vs) \<le> 2 ^ 64"
    and ma: "merged us" "merged vs" and sl: "0 < sl"
  obtains us' z vs' where "heap_row (initialize_free sl (sl + 64 + off us) s m) sl (us' @ (z, False) # vs')" "s \<le> z"
    "same_frame sl (us @ (s, False) # vs) (us' @ (z, False) # vs')"
    "\<forall>y. y \<notin> dirty sl (us @ (s, False) # vs) \<longrightarrow> initialize_free sl (sl + 64 + off us) s m y = m y"
proof -
  let ?r = "sl mod 8" and ?q = "sl + 64 + off us" and ?bs = "us @ (s, False) # vs"
  let ?m1 = "st64 (?q + s - 8) s (st64 ?q s m)"
  have s: "s + 1 < 2 ^ 64" using bd by simp
  note R = retag [OF ar L ok s]
  have l1: "loose ?m1 sl us s vs F" using R(1,2) ok bd ma by (simp add: loose_def)
  have y1: "?m1 y = m y" if "y \<notin> dirty sl ?bs" for y using R(3) [of y] dirty_region [OF that] by simp
  have "ld64 ?m1 ?q = s" using word_loads(1) [of us ?m1 sl] R(1) ok by (simp add: tags_def)
  moreover have "hdr_size s = s" using tag_bits(2) [of s False] ok by simp
  ultimately have hs: "hdr_size (ld64 ?m1 (?q + 8 - 8)) = s" by (simp only: add_diff_cancel_right')
  obtain us' s' m2 F2 where p: "co_prev sl (?q + 8) s ?m1 = (sl + 64 + off us' + 8, s', m2)" "loose m2 sl us' s' vs F2"
      "us' = [] \<or> snd (last us')" "s \<le> s'" "same_frame sl ?bs (us' @ (s', False) # vs)"
      "\<forall>y. y \<notin> dirty sl ?bs \<longrightarrow> m2 y = ?m1 y"
    by (rule co_prev_ok [OF l1])
  let ?q' = "sl + 64 + off us'" and ?m3 = "co_next sl (sl + 64 + off us' + 8) s' m2"
  obtain vs' z F3 where n: "loose ?m3 sl us' z vs' F3" "vs' = [] \<or> snd (hd vs')" "s' \<le> z"
      "same_frame sl (us' @ (s', False) # vs) (us' @ (z, False) # vs')"
      "\<forall>y. y \<notin> dirty sl (us' @ (s', False) # vs) \<longrightarrow> ?m3 y = m2 y"
    by (rule co_next_ok [OF p(2)])
  have run: "initialize_free sl ?q s m = insert_free sl (?q' + 8) ?m3"
    unfolding initialize_free_def Let_def coalesce_halves hs p(1) by simp
  note I = loose_insert [OF n(1) p(3) n(2) sl]
  have fr: "same_frame sl ?bs (us' @ (z, False) # vs')" by (rule same_frame_trans [OF p(5) n(4)])
  have "initialize_free sl ?q s m y = m y" if "y \<notin> dirty sl ?bs" for y
    using that y1 p(6) n(5) I(2) p(5) fr unfolding run same_frame_def by metis
  then show thesis using that I(1) p(4) n(3) fr unfolding run by (meson order_trans)
qed

subsection \<open>Searching the lists\<close>

lemma pos_split: "(b, s, f) \<in> set (pos a bs) \<Longrightarrow> \<exists>us vs. bs = us @ (s, f) # vs \<and> b = a + off us"
proof (induction a bs rule: pos.induct)
  case (2 a t g bs)
  show ?case
  proof (cases "(b, s, f) = (a, t, g)")
    case True
    then show ?thesis by (intro exI [of _ "[]"] exI [of _ bs]) auto
  next
    case False
    then obtain us vs where "bs = us @ (s, f) # vs" "b = a + t + off us" using 2 by auto
    then show ?thesis by (intro exI [of _ "(t, g) # us"] exI [of _ vs]) auto
  qed
qed simp

lemma fit_loop_seg:
  assumes "seg (\<lambda>p. nptr (wm r m (p + 16))) pv p xs None" "\<And>c. c \<in> set xs \<Longrightarrow> c \<noteq> 0 \<and> (c + 16) mod 8 = r"
  shows "fit_loop m need (case xs of [] \<Rightarrow> 0 | c # _ \<Rightarrow> c) =
    Some (case List.find (\<lambda>c. hdr_size (ld64 m c) \<ge> need) xs of None \<Rightarrow> 0 | Some c \<Rightarrow> c + 8)"
  using assms
proof (induction xs arbitrary: p)
  case Nil
  then show ?case by (simp add: fit_loop.simps)
next
  case (Cons c xs)
  have "nptr (wm r m (c + 16)) = first_of xs None" using Cons.prems(1) by simp
  then have "wm r m (c + 16) = (case xs of [] \<Rightarrow> 0 | d # _ \<Rightarrow> d)" by (cases xs) auto
  then have nx: "ld64 m (c + 16) = (case xs of [] \<Rightarrow> 0 | d # _ \<Rightarrow> d)" using Cons.prems(2) [of c] by (simp add: ld64_wm)
  have "fit_loop m need (case xs of [] \<Rightarrow> 0 | c # _ \<Rightarrow> c) =
      Some (case List.find (\<lambda>c. hdr_size (ld64 m c) \<ge> need) xs of None \<Rightarrow> 0 | Some c \<Rightarrow> c + 8)"
    using Cons.prems by (intro Cons.IH [of "Some c"]) auto
  then show ?case using nx Cons.prems(2) [of c] by (simp add: fit_loop.simps [of m need c])
qed

text \<open>What a list offers.\<close>

definition offers :: "nat \<Rightarrow> block list \<Rightarrow> nat \<Rightarrow> nat \<Rightarrow> bool" where
  "offers sl bs need p \<longleftrightarrow> (\<exists>us s vs. bs = us @ (s, False) # vs \<and> p = sl + 64 + off us + 8 \<and> need \<le> s)"

lemma offers_mono: "offers sl bs need p \<Longrightarrow> need' \<le> need \<Longrightarrow> offers sl bs need' p"
  by (fastforce simp: offers_def)

definition list_words :: "memory \<Rightarrow> nat \<Rightarrow> (nat \<Rightarrow> nat list) \<Rightarrow> bool" where
  "list_words m sl F \<longleftrightarrow> (\<forall>k < 6. ld64 m (sl + 8 * k) = (case F k of [] \<Rightarrow> 0 | c # _ \<Rightarrow> c) \<and>
     (\<forall>need. fit_loop m need (ld64 m (sl + 8 * k)) =
        Some (case List.find (\<lambda>c. hdr_size (ld64 m c) \<ge> need) (F k) of None \<Rightarrow> 0 | Some c \<Rightarrow> c + 8)))"

lemma heap_row_lists:
  assumes "heap_row m sl bs"
  obtains F where "matches (sl + 64) bs F" "list_words m sl F"
    "\<And>k c. k < 6 \<Longrightarrow> c \<in> set (F k) \<Longrightarrow> c \<noteq> 0 \<and> (\<exists>us s vs. bs = us @ (s, False) # vs \<and> c = sl + 64 + off us \<and> seg_class s = k \<and> hdr_size (ld64 m c) = s)"
proof -
  let ?r = "sl mod 8"
  obtain F where T: "tags (wm ?r m) sl bs" and f: "fls (wm ?r m) sl F" and ma: "matches (sl + 64) bs F" and ok: "sizes_ok bs"
    using assms by (auto simp: heap_row_def links_def)
  have sp: "spaced sl (all_free F)" unfolding matches_all [OF ma] by (rule frees_spaced [OF ok])
  note D = spacedD [OF sp]
  have el: "c \<noteq> 0 \<and> (\<exists>us s vs. bs = us @ (s, False) # vs \<and> c = sl + 64 + off us \<and> seg_class s = k \<and> hdr_size (ld64 m c) = s)"
    if kc: "k < 6" "c \<in> set (F k)" for k c
  proof -
    obtain s where s: "(c, s, False) \<in> set (pos (sl + 64) bs)" "seg_class s = k" using ma kc by (auto simp: matches_def)
    then obtain us vs where u: "bs = us @ (s, False) # vs" "c = sl + 64 + off us" using pos_split by blast
    have "c \<in> all_free F" using all_freeI [of k c F] kc by simp
    then have c: "c \<noteq> 0" "c mod 8 = ?r" using D(2,5) by auto
    have "wm ?r m c = s" using T u by (simp add: tags_def)
    then have "hdr_size (ld64 m c) = s" using tag_bits(2) [of s False] u(1) ok c(2) by (simp add: ld64_wm)
    then show ?thesis using c u s(2) by blast
  qed
  have "list_words m sl F"
    unfolding list_words_def
  proof (intro allI impI)
    fix k :: nat assume k: "k < 6"
    have l: "lst (wm ?r m) (sl + 8 * k) (F k)" using f k by (simp add: fls_def)
    then have hd: "ld64 m (sl + 8 * k) = (case F k of [] \<Rightarrow> 0 | c # _ \<Rightarrow> c)"
      by (cases "F k") (auto simp: lst_def dll_def ld64_wm head_mod)
    moreover have "fit_loop m need (case F k of [] \<Rightarrow> 0 | c # _ \<Rightarrow> c) =
        Some (case List.find (\<lambda>c. hdr_size (ld64 m c) \<ge> need) (F k) of None \<Rightarrow> 0 | Some c \<Rightarrow> c + 8)" for need
    proof (rule fit_loop_seg)
      show "seg (\<lambda>p. nptr (wm ?r m (p + 16))) (\<lambda>p. nptr (wm ?r m (p + 8))) None (F k) None" using l by (simp add: lst_def dll_def)
    next
      fix c assume "c \<in> set (F k)"
      then have "c \<in> all_free F" using all_freeI [of k c F] k by simp
      then show "c \<noteq> 0 \<and> (c + 16) mod 8 = ?r" using D(4,5) by auto
    qed
    ultimately show "ld64 m (sl + 8 * k) = (case F k of [] \<Rightarrow> 0 | c # _ \<Rightarrow> c) \<and>
        (\<forall>need. fit_loop m need (ld64 m (sl + 8 * k)) =
          Some (case List.find (\<lambda>c. hdr_size (ld64 m c) \<ge> need) (F k) of None \<Rightarrow> 0 | Some c \<Rightarrow> c + 8))" by simp
  qed
  then show thesis using that ma el by blast
qed

lemma block_need_eq: "sz \<le> 2 ^ 64 - 32 \<Longrightarrow> block_need sz = 16 * ((sz + 31) div 16)"
  by (simp add: block_need_def align_def)

lemma block_need_mono: "sz \<le> sz' \<Longrightarrow> sz' \<le> 2 ^ 64 - 32 \<Longrightarrow> block_need sz \<le> block_need sz'"
  using block_need_eq [of sz] block_need_eq [of sz'] by (simp add: div_le_mono)

lemma block_need_vals: "block_need 17 = 48" "block_need 49 = 80" "block_need 81 = 112" "block_need 177 = 208" "block_need 497 = 528"
  by (simp_all add: block_need_eq)

text \<open>The search ends; it returns a free block that is big enough, and it misses no block of the
  last class.\<close>

definition search_ok :: "nat \<Rightarrow> memory \<Rightarrow> block list \<Rightarrow> nat \<Rightarrow> bool" where
  "search_ok sl m bs sz \<longleftrightarrow> (\<exists>p. get_free_list sl m sz = Some p \<and> (p \<noteq> 0 \<longrightarrow> offers sl bs (block_need sz) p) \<and>
     (p = 0 \<longrightarrow> (\<forall>s. (s, False) \<in> set bs \<longrightarrow> 512 < s \<longrightarrow> s < max (block_need sz) 528)))"

lemma search_ok_smaller:
  assumes "search_ok sl m bs sz'" "get_free_list sl m sz = get_free_list sl m sz'" "sz \<le> sz'" "sz' \<le> 497"
  shows "search_ok sl m bs sz"
proof -
  have "block_need sz \<le> block_need sz'" "block_need sz' \<le> 528"
    using block_need_mono [of sz sz'] block_need_mono [of sz' 497] block_need_vals(5) assms(3,4) by simp_all
  then have m: "max (block_need sz) 528 = max (block_need sz') 528" "block_need sz \<le> block_need sz'" by simp_all
  show ?thesis using assms(1) unfolding search_ok_def assms(2) m(1) using offers_mono [OF _ m(2)] by blast
qed

lemma search_step:
  assumes row: "heap_row m sl bs"
    and rec: "sz \<le> 16 \<Longrightarrow> search_ok sl m bs 17" "sz \<le> 48 \<Longrightarrow> search_ok sl m bs 49" "sz \<le> 80 \<Longrightarrow> search_ok sl m bs 81"
      "sz \<le> 176 \<Longrightarrow> search_ok sl m bs 177" "sz \<le> 496 \<Longrightarrow> search_ok sl m bs 497"
  shows "search_ok sl m bs sz"
proof -
  obtain F where ma: "matches (sl + 64) bs F" and lw: "list_words m sl F"
    and el: "\<And>k c. k < 6 \<Longrightarrow> c \<in> set (F k) \<Longrightarrow> c \<noteq> 0 \<and> (\<exists>us s vs. bs = us @ (s, False) # vs \<and> c = sl + 64 + off us \<and> seg_class s = k \<and> hdr_size (ld64 m c) = s)"
    using heap_row_lists [OF row] by metis
  let ?first = "\<lambda>k. ld64 m (sl + 8 * k)" and ?need = "block_need sz"
  have lw2: "fit_loop m need (?first k) = Some (case List.find (\<lambda>c. hdr_size (ld64 m c) \<ge> need) (F k) of None \<Rightarrow> 0 | Some c \<Rightarrow> c + 8)"
    if "k < 6" for k need using lw that unfolding list_words_def by blast
  have off: "offers sl bs need (c + 8)" if "k < 6" "c \<in> set (F k)" "need \<le> hdr_size (ld64 m c)" for k c need
    using el [OF that(1,2)] that(3) unfolding offers_def by metis
  have hd: "offers sl bs ?need (?first k + 8)" if "k < 6" "?first k \<noteq> 0" "?need \<le> hdr_size (ld64 m (?first k))" for k
  proof -
    have "?first k = (case F k of [] \<Rightarrow> 0 | c # _ \<Rightarrow> c)" using lw that(1) by (simp add: list_words_def)
    then have "?first k \<in> set (F k)" using that(2) by (cases "F k") auto
    then show ?thesis using off that by blast
  qed
  have fit: "\<exists>p. fit_loop m ?need (?first k) = Some p \<and> (p \<noteq> 0 \<longrightarrow> offers sl bs ?need p) \<and>
      (p = 0 \<longrightarrow> (\<forall>c \<in> set (F k). hdr_size (ld64 m c) < ?need))" if k: "k < 6" for k
  proof (cases "List.find (\<lambda>c. hdr_size (ld64 m c) \<ge> ?need) (F k)")
    case None
    then have "fit_loop m ?need (?first k) = Some 0" unfolding lw2 [OF k] by simp
    then show ?thesis using None by (auto simp: find_None_iff not_le)
  next
    case (Some c)
    then have "c \<in> set (F k)" "?need \<le> hdr_size (ld64 m c)" by (auto simp: find_Some_iff)
    moreover have "fit_loop m ?need (?first k) = Some (c + 8)" unfolding lw2 [OF k] Some by simp
    ultimately show ?thesis using off [OF k] by auto
  qed
  have big: "s < ?need" if bg: "(s, False) \<in> set bs" "512 < s" "\<forall>c \<in> set (F 5). hdr_size (ld64 m c) < ?need" for s
  proof -
    obtain us vs where "bs = us @ (s, False) # vs" using bg(1) by (meson in_set_conv_decomp)
    then have "(sl + 64 + off us, s, False) \<in> set (pos (sl + 64) bs)" by simp
    moreover have "seg_class s = 5" using that(2) by (simp add: seg_class_def)
    ultimately have c: "sl + 64 + off us \<in> set (F 5)" using ma by (auto simp: matches_def)
    from el [OF _ c] obtain us' s' vs' where b: "bs = us' @ (s', False) # vs'" "sl + 64 + off us = sl + 64 + off us'" "hdr_size (ld64 m (sl + 64 + off us)) = s'"
      by auto
    have ok: "sizes_ok bs" using row by (simp add: heap_row_def)
    have "(sl + 64 + off us, s', False) \<in> set (pos (sl + 64) bs)" unfolding b(1) b(2) by simp
    then have "s' = s" using pos_apart [OF ok] \<open>(sl + 64 + off us, s, False) \<in> set (pos (sl + 64) bs)\<close> pos_in [OF _ ok] by fastforce
    then show ?thesis using that(3) b(3) c by auto
  qed
  consider (a) "sz \<le> 16 \<and> ?first 0 \<noteq> 0" | (b) "\<not> (sz \<le> 16 \<and> ?first 0 \<noteq> 0)" "sz \<le> 48 \<and> ?first 1 \<noteq> 0"
    | (c) "\<not> (sz \<le> 16 \<and> ?first 0 \<noteq> 0)" "\<not> (sz \<le> 48 \<and> ?first 1 \<noteq> 0)" "sz \<le> 80 \<and> ?first 2 \<noteq> 0"
    | (d) "\<not> (sz \<le> 16 \<and> ?first 0 \<noteq> 0)" "\<not> (sz \<le> 48 \<and> ?first 1 \<noteq> 0)" "\<not> (sz \<le> 80 \<and> ?first 2 \<noteq> 0)" "sz \<le> 176 \<and> ?first 3 \<noteq> 0"
    | (e) "\<not> (sz \<le> 16 \<and> ?first 0 \<noteq> 0)" "\<not> (sz \<le> 48 \<and> ?first 1 \<noteq> 0)" "\<not> (sz \<le> 80 \<and> ?first 2 \<noteq> 0)" "\<not> (sz \<le> 176 \<and> ?first 3 \<noteq> 0)" "sz \<le> 496 \<and> ?first 4 \<noteq> 0"
    | (f) "\<not> (sz \<le> 16 \<and> ?first 0 \<noteq> 0)" "\<not> (sz \<le> 48 \<and> ?first 1 \<noteq> 0)" "\<not> (sz \<le> 80 \<and> ?first 2 \<noteq> 0)" "\<not> (sz \<le> 176 \<and> ?first 3 \<noteq> 0)" "\<not> (sz \<le> 496 \<and> ?first 4 \<noteq> 0)"
    by blast
  then show ?thesis
  proof cases
    case a
    obtain p where p: "fit_loop m ?need (?first 0) = Some p" "p \<noteq> 0 \<longrightarrow> offers sl bs ?need p" using fit [of 0] by auto
    have run: "get_free_list sl m sz = (if p \<noteq> 0 then Some p else get_free_list sl m 17)"
      unfolding get_free_list.simps [of sl m sz] Let_def if_P [OF a] p(1) by simp
    show ?thesis using p(2) run rec(1) search_ok_smaller [of sl m bs 17 sz] a by (cases "p = 0") (auto simp: search_ok_def)
  next
    case b
    have run: "get_free_list sl m sz = (if hdr_size (ld64 m (?first 1)) \<ge> ?need then Some (?first 1 + 8) else get_free_list sl m 49)"
      unfolding get_free_list.simps [of sl m sz] Let_def if_not_P [OF b(1)] if_P [OF b(2)] by simp
    show ?thesis using hd [of 1] run rec(2) search_ok_smaller [of sl m bs 49 sz] b
      by (cases "hdr_size (ld64 m (?first 1)) \<ge> ?need") (auto simp: search_ok_def)
  next
    case c
    have run: "get_free_list sl m sz = (if hdr_size (ld64 m (?first 2)) \<ge> ?need then Some (?first 2 + 8) else get_free_list sl m 81)"
      unfolding get_free_list.simps [of sl m sz] Let_def if_not_P [OF c(1)] if_not_P [OF c(2)] if_P [OF c(3)] by simp
    show ?thesis using hd [of 2] run rec(3) search_ok_smaller [of sl m bs 81 sz] c
      by (cases "hdr_size (ld64 m (?first 2)) \<ge> ?need") (auto simp: search_ok_def)
  next
    case d
    obtain p where p: "fit_loop m ?need (?first 3) = Some p" "p \<noteq> 0 \<longrightarrow> offers sl bs ?need p" using fit [of 3] by auto
    have run: "get_free_list sl m sz = (if p \<noteq> 0 then Some p else get_free_list sl m 177)"
      unfolding get_free_list.simps [of sl m sz] Let_def if_not_P [OF d(1)] if_not_P [OF d(2)] if_not_P [OF d(3)] if_P [OF d(4)] p(1) by simp
    show ?thesis using p(2) run rec(4) search_ok_smaller [of sl m bs 177 sz] d by (cases "p = 0") (auto simp: search_ok_def)
  next
    case e
    obtain p where p: "fit_loop m ?need (?first 4) = Some p" "p \<noteq> 0 \<longrightarrow> offers sl bs ?need p" using fit [of 4] by auto
    have run: "get_free_list sl m sz = (if p \<noteq> 0 then Some p else get_free_list sl m 497)"
      unfolding get_free_list.simps [of sl m sz] Let_def if_not_P [OF e(1)] if_not_P [OF e(2)] if_not_P [OF e(3)] if_not_P [OF e(4)] if_P [OF e(5)] p(1) by simp
    show ?thesis using p(2) run rec(5) search_ok_smaller [of sl m bs 497 sz] e by (cases "p = 0") (auto simp: search_ok_def)
  next
    case f
    obtain p where p: "fit_loop m ?need (?first 5) = Some p" "p \<noteq> 0 \<longrightarrow> offers sl bs ?need p"
        "p = 0 \<longrightarrow> (\<forall>c \<in> set (F 5). hdr_size (ld64 m c) < ?need)" using fit [of 5] by auto
    have "get_free_list sl m sz = Some p"
      unfolding get_free_list.simps [of sl m sz] Let_def if_not_P [OF f(1)] if_not_P [OF f(2)] if_not_P [OF f(3)] if_not_P [OF f(4)] if_not_P [OF f(5)] p(1) by simp
    then show ?thesis using p(2,3) big by (auto simp: search_ok_def less_max_iff_disj)
  qed
qed

lemma search_all: "heap_row m sl bs \<Longrightarrow> search_ok sl m bs sz"
proof -
  assume row: "heap_row m sl bs"
  have 5: "search_ok sl m bs 497" by (rule search_step [OF row]) simp_all
  have 4: "search_ok sl m bs 177" by (rule search_step [OF row]) (simp_all add: 5)
  have 3: "search_ok sl m bs 81" by (rule search_step [OF row]) (simp_all add: 4 5)
  have 2: "search_ok sl m bs 49" by (rule search_step [OF row]) (simp_all add: 3 4 5)
  have 1: "search_ok sl m bs 17" by (rule search_step [OF row]) (simp_all add: 2 3 4 5)
  show ?thesis by (rule search_step [OF row]) (rule 1 2 3 4 5)+
qed

subsection \<open>Allocating\<close>

lemma heap_row_parts:
  assumes "heap_row m sl (us @ (s, f) # vs)"
  obtains F where "tags (wm (sl mod 8) m) sl (us @ (s, f) # vs)" "links (wm (sl mod 8) m) sl (us @ (s, f) # vs) F"
    "sizes_ok (us @ (s, f) # vs)" "merged us" "merged vs" "sl + 72 + off (us @ (s, f) # vs) \<le> 2 ^ 64" "0 < sl" "32 \<le> s" "16 dvd s"
proof -
  obtain F where "tags (wm (sl mod 8) m) sl (us @ (s, f) # vs)" "links (wm (sl mod 8) m) sl (us @ (s, f) # vs) F"
      "sizes_ok (us @ (s, f) # vs)" "merged (us @ (s, f) # vs)" "sl + 72 + off (us @ (s, f) # vs) \<le> 2 ^ 64" "0 < sl"
    using assms unfolding heap_row_def by blast
  moreover from this have "merged us" "merged vs" by (auto simp: successively_append_iff successively_Cons)
  ultimately show thesis using that by simp
qed

lemma carve:
  assumes "around w sl us (n + t) vs" "sizes_ok (us @ (n, True) # (t, False) # vs)"
    and w': "w' = w(sl + 64 + off us := n + 1, sl + 64 + off us + n - 8 := n + 1)"
  shows "around w' sl (us @ [(n, True)]) t vs"
proof -
  have ok: "sizes_ok us" "32 \<le> n" "sizes_ok vs" using assms(2) by auto
  have "blks w' (sl + 64) us" by (rule blks_cong [of w]) (use assms(1) ok in \<open>auto simp: around_def w'\<close>)
  moreover have "blks w' (sl + 64 + off us + n + t) vs"
    by (rule blks_cong [of w]) (use assms(1) ok in \<open>auto simp: around_def w' add.assoc\<close>)
  ultimately show ?thesis using assms(1) ok by (auto simp: around_def w' add.assoc)
qed

lemma allocs_carve: "allocs sl (us @ (n, True) # (t, False) # vs) = insert (sl + 64 + off us, n) (allocs sl (us @ (n + t, False) # vs))"
  by (auto simp: allocs_def add.assoc)

lemma allocs_mark: "allocs sl (us @ (s, True) # vs) = insert (sl + 64 + off us, s) (allocs sl (us @ (s, False) # vs))"
  by (auto simp: allocs_def)

lemma dirty_carve: "y \<notin> dirty sl (us @ (n + t, False) # vs) \<Longrightarrow> y \<notin> dirty sl (us @ (n, True) # (t, False) # vs)"
  unfolding dirty_merge using dirty_mono [of sl "us @ (n, True) # (t, False) # vs" "us @ (n, False) # (t, False) # vs"] by auto

text \<open>Marking the free block at the end of the search as used, whole or in part.\<close>

definition use_block :: "nat \<Rightarrow> nat \<Rightarrow> nat \<Rightarrow> nat \<Rightarrow> memory \<Rightarrow> memory" where
  "use_block sl block s n m =
     (let m = remove_free sl (block + 8) s m in
      if s - n \<ge> 32 then
        initialize_free sl (block + n) (s - n) (st64 (block + n - 8) (n + 1) (st64 block (n + 1) m))
      else st64 (block + s - 8) (s + 1) (st64 block (s + 1) m))"

lemma remove_keeps_tags:
  assumes "tags w sl (us @ (s, False) # vs)" "sizes_ok (us @ (s, False) # vs)"
    and "\<And>x. x \<notin> lwords sl (frees (sl + 64) (us @ (s, False) # vs)) \<Longrightarrow> w' x = w x"
  shows "around w' sl us s vs"
  using tags_keep [OF assms(1,2) refl assms(3)] tags_around by blast

lemma use_block_ok:
  assumes row: "heap_row m sl (us @ (s, False) # vs)" and n: "n \<le> s" "32 \<le> n" "16 dvd n"
  defines "q \<equiv> sl + 64 + off us"
  obtains bs' a where "heap_row (use_block sl q s n m) sl bs'" "n \<le> a" "off bs' = off (us @ (s, False) # vs)"
    "allocs sl bs' = insert (q, a) (allocs sl (us @ (s, False) # vs))"
    "\<forall>y. y \<notin> dirty sl (us @ (s, False) # vs) \<longrightarrow> use_block sl q s n m y = m y"
proof -
  let ?r = "sl mod 8" and ?bs = "us @ (s, False) # vs"
  obtain F where T: "tags (wm ?r m) sl ?bs" and L: "links (wm ?r m) sl ?bs F" and ok: "sizes_ok ?bs" and ma: "merged us" "merged vs"
      and bd: "sl + 72 + off ?bs \<le> 2 ^ 64" and sl: "0 < sl" and s: "32 \<le> s" "16 dvd s"
    by (rule heap_row_parts [OF row])
  let ?m1 = "remove_free sl (q + 8) s m"
  obtain F1 where L1: "links (wm ?r ?m1) sl (us @ (s, True) # vs) F1"
      and w1: "\<And>x. x \<notin> lwords sl (frees (sl + 64) ?bs) \<Longrightarrow> wm ?r ?m1 x = wm ?r m x"
      and y1: "\<And>y. y \<notin> lbytes sl (frees (sl + 64) ?bs) \<Longrightarrow> ?m1 y = m y"
    unfolding q_def using links_remove [OF L ok] by blast
  have y1': "?m1 y = m y" if "y \<notin> dirty sl ?bs" for y using y1 lbytes_dirty [OF ok that] by blast
  have ar: "around (wm ?r ?m1) sl us s vs" by (rule remove_keeps_tags [OF T ok w1])
  show thesis
  proof (cases "s - n \<ge> 32")
    case False
    have s1: "s + 1 < 2 ^ 64" using bd by simp
    have okT: "sizes_ok (us @ (s, True) # vs)" using ok by simp
    note R = retag [OF ar L1 okT s1, folded q_def, unfolded of_bool_eq(2)]
    have u: "use_block sl q s n m = st64 (q + s - 8) (s + 1) (st64 q (s + 1) ?m1)"
      using False by (simp add: use_block_def Let_def)
    have "merged (us @ (s, True) # vs)" using ma by (auto simp: successively_append_iff successively_Cons)
    then have "heap_row (use_block sl q s n m) sl (us @ (s, True) # vs)"
      using R(1,2) okT bd sl unfolding u heap_row_def by auto
    moreover have "use_block sl q s n m y = m y" if "y \<notin> dirty sl ?bs" for y
      using R(3) [of y] dirty_region [OF that, folded q_def] y1' [OF that] unfolding u by simp
    ultimately show thesis using that [of "us @ (s, True) # vs" s] n(1) by (simp add: allocs_mark q_def)
  next
    case True
    define t where "t = s - n"
    have st: "s = n + t" "32 \<le> t" "16 dvd t" using True n s unfolding t_def by (auto intro: dvd_diff_nat)
    let ?us = "us @ [(n, True)]" and ?m2 = "st64 (q + n - 8) (n + 1) (st64 q (n + 1) ?m1)"
    have ok2: "sizes_ok (us @ (n, True) # (t, False) # vs)" using ok n st by simp
    have n1: "n + 1 < 2 ^ 64" using bd st by simp
    have al: "q mod 8 = ?r" "(q + n - 8) mod 8 = ?r" unfolding q_def using row_mod row_mod_end ok n by auto
    have w2: "wm ?r ?m2 = (wm ?r ?m1)(q := n + 1, q + n - 8 := n + 1)" using al n1 by (simp add: wm_st64)
    have ar2: "around (wm ?r ?m2) sl ?us t vs"
      by (rule carve [OF _ ok2]) (use ar st w2 in \<open>simp_all add: q_def\<close>)
    have "links (wm ?r ?m2) sl (us @ (s, True) # vs) F1"
      unfolding w2 by (rule links_store [OF L1]) (use ok n st in \<open>auto simp: q_def\<close>)
    then have L2: "links (wm ?r ?m2) sl (?us @ (t, True) # vs) F1" unfolding links_def st(1) matches_merge [symmetric] by simp
    have bd2: "sl + 72 + off (?us @ (t, False) # vs) \<le> 2 ^ 64" using bd st by (simp add: add.assoc)
    have ma2: "merged ?us" using ma by (auto simp: successively_append_iff)
    have ok3: "sizes_ok (?us @ (t, False) # vs)" using ok2 by simp
    have q2: "sl + 64 + off ?us = q + n" by (simp add: q_def)
    obtain us' z vs' where I: "heap_row (initialize_free sl (q + n) t ?m2) sl (us' @ (z, False) # vs')" "t \<le> z"
        "same_frame sl (?us @ (t, False) # vs) (us' @ (z, False) # vs')"
        "\<forall>y. y \<notin> dirty sl (?us @ (t, False) # vs) \<longrightarrow> initialize_free sl (q + n) t ?m2 y = ?m2 y"
      by (rule initialize_free_ok [OF ar2 L2 ok3 bd2 ma2 ma(2) sl, unfolded q2])
    have u: "use_block sl q s n m = initialize_free sl (q + n) t ?m2" using True by (simp add: use_block_def Let_def t_def)
    have "use_block sl q s n m y = m y" if "y \<notin> dirty sl ?bs" for y
    proof -
      have "?m2 y = ?m1 y" using dirty_region [OF that] st n by (auto simp: st64_def q_def)
      moreover have "y \<notin> dirty sl (?us @ (t, False) # vs)" using that dirty_carve [of y sl us n t vs] st(1) by simp
      ultimately show ?thesis using I(4) y1' [OF that] unfolding u by simp
    qed
    moreover have "off (us' @ (z, False) # vs') = off ?bs" "allocs sl (us' @ (z, False) # vs') = insert (q, n) (allocs sl ?bs)"
      using I(3) allocs_carve [of sl us n t vs] st(1) by (simp_all add: same_frame_def q_def)
    ultimately show thesis using that [of "us' @ (z, False) # vs'" n] I(1) unfolding u by simp
  qed
qed

end
