(* ===== verification/Kmalloc_Ops.thy ===== *)
theory Kmalloc_Ops
  imports Kmalloc_Inv
begin

section \<open>Kernel heap: \<open>kmalloc\<close>, \<open>kfree\<close>, \<open>krealloc\<close>, \<open>kcalloc\<close>\<close>

text \<open>
  The contract of the allocator: an allocated block is big enough, disjoint from all others and
  keeps its bytes until it is freed; a request fails only when the heap cannot grow; freeing gives
  the bytes back; the invariant holds from \<open>kmem_init\<close> on.
\<close>

abbreviation heap_allocs :: "kheap \<Rightarrow> block list \<Rightarrow> (nat \<times> nat) set" where
  "heap_allocs h bs \<equiv> allocs (seg_lists_ptr h) bs"

definition heap_ok :: "kheap \<Rightarrow> block list \<Rightarrow> bool" where
  "heap_ok h bs \<longleftrightarrow>
     heap_row (hmem h) (seg_lists_ptr h) bs \<and> HeapMemoryBrk h = seg_lists_ptr h + 72 + off bs \<and>
     HeapMemoryBrk h \<le> HeapMemoryEnd h \<and> HeapMemoryEnd h + 2 ^ 33 \<le> 2 ^ 64"

text \<open>A request the arithmetic of the allocator can handle.\<close>

abbreviation fair_size :: "nat \<Rightarrow> bool" where
  "fair_size sz \<equiv> 0 < sz \<and> sz \<le> 2 ^ 32"

lemma need_facts:
  assumes "fair_size sz"
  shows "sz + 16 \<le> block_need sz" "32 \<le> block_need sz" "16 dvd block_need sz" "block_need sz \<le> 2 ^ 32 + 32"
proof -
  have e: "block_need sz = 16 * ((sz + 31) div 16)" using assms by (simp add: block_need_eq)
  have "16 * ((sz + 31) div 16) + (sz + 31) mod 16 = sz + 31" by simp
  then show "sz + 16 \<le> block_need sz" "block_need sz \<le> 2 ^ 32 + 32" using assms mod_less_divisor [of 16 "sz + 31"] unfolding e by linarith+
  show "16 dvd block_need sz" unfolding e by simp
  have "2 \<le> (sz + 31) div 16" using assms div_le_mono [of 32 "sz + 31" 16] by simp
  then show "32 \<le> block_need sz" unfolding e by simp
qed

lemma alloc_not_dirty:
  assumes "sizes_ok bs" "(b, s) \<in> allocs sl bs" "b \<le> y" "y < b + s"
  shows "y \<notin> dirty sl bs"
proof
  have p: "(b, s, True) \<in> set (pos (sl + 64) bs)" using assms(2) by (simp add: allocs_def)
  assume "y \<in> dirty sl bs"
  then consider "y < sl + 48" | c t where "(c, t, False) \<in> set (pos (sl + 64) bs)" "c \<le> y" "y < c + t" by (auto simp: dirty_def)
  then show False
  proof cases
    case 1
    then show False using pos_in [OF p assms(1)] assms(3) by simp
  next
    case 2
    then show False using pos_apart [OF assms(1) p 2(1)] assms(3,4) by auto
  qed
qed

lemma allocs_apart:
  assumes "sizes_ok bs" "(b, s) \<in> allocs sl bs" "(c, t) \<in> allocs sl bs" "b \<noteq> c"
  shows "b + s \<le> c \<or> c + t \<le> b"
  using assms pos_apart [of bs b s True "sl + 64" c t True] by (auto simp: allocs_def)

lemma get_allocation_run:
  assumes row: "heap_row (hmem h) (seg_lists_ptr h) bs" and sz: "fair_size sz"
  shows "(get_allocation sz h = Some (0, h) \<and> (\<forall>s. (s, False) \<in> set bs \<longrightarrow> 512 < s \<longrightarrow> s < max (block_need sz) 528)) \<or>
    (\<exists>us s vs. bs = us @ (s, False) # vs \<and> block_need sz \<le> s \<and>
       get_allocation sz h = Some (seg_lists_ptr h + 64 + off us + 8,
         h\<lparr>hmem := use_block (seg_lists_ptr h) (seg_lists_ptr h + 64 + off us) s (block_need sz) (hmem h)\<rparr>))"
proof -
  let ?sl = "seg_lists_ptr h" and ?m = "hmem h" and ?n = "block_need sz"
  obtain p where p: "get_free_list ?sl ?m sz = Some p" "p \<noteq> 0 \<longrightarrow> offers ?sl bs ?n p"
      "p = 0 \<longrightarrow> (\<forall>s. (s, False) \<in> set bs \<longrightarrow> 512 < s \<longrightarrow> s < max ?n 528)"
    using search_all [OF row, of sz] by (auto simp: search_ok_def)
  show ?thesis
  proof (cases "p = 0")
    case True
    then show ?thesis using p by (simp add: get_allocation_def)
  next
    case False
    then obtain us s vs where b: "bs = us @ (s, False) # vs" "p = ?sl + 64 + off us + 8" "?n \<le> s"
      using p(2) by (auto simp: offers_def)
    let ?q = "?sl + 64 + off us"
    obtain F where T: "tags (wm (?sl mod 8) ?m) ?sl (us @ (s, False) # vs)" and ok: "sizes_ok (us @ (s, False) # vs)"
        and bd: "?sl + 72 + off (us @ (s, False) # vs) \<le> 2 ^ 64" and s: "32 \<le> s" "16 dvd s"
      using row unfolding b(1) by (rule heap_row_parts)
    have "ld64 ?m ?q = s" using word_loads(1) [of us ?m ?sl] T ok by (simp add: tags_def)
    then have hs: "hdr_size (ld64 ?m ?q) = s" using tag_bits(2) [of s False] s by simp
    have a: "?q + 8 - 8 = ?q" by simp
    have lt: "s < 2 ^ 64" using bd by simp
    have "(s + 2 ^ 64 - ?n) mod 2 ^ 64 = s - ?n"
    proof -
      have "s + 2 ^ 64 - ?n = (s - ?n) + 2 ^ 64" using b(3) by simp
      then show ?thesis using lt by (simp only: mod_add_self2) simp
    qed
    then have "get_allocation sz h = Some (?q + 8, h\<lparr>hmem := use_block ?sl ?q s ?n ?m\<rparr>)"
      unfolding get_allocation_def p(1) b(2) use_block_def Let_def by (simp only: option.simps a hs) simp
    then show ?thesis using b by blast
  qed
qed

text \<open>What an operation may do to the heap: other allocated blocks stay, with their bytes.\<close>

definition granted :: "kheap \<Rightarrow> block list \<Rightarrow> kheap \<Rightarrow> block list \<Rightarrow> nat \<Rightarrow> nat \<Rightarrow> bool" where
  "granted h bs h' bs' p a \<longleftrightarrow>
     heap_ok h' bs' \<and> seg_lists_ptr h' = seg_lists_ptr h \<and> HeapMemoryEnd h' = HeapMemoryEnd h \<and> 8 < p \<and>
     (p - 8, a) \<notin> heap_allocs h bs \<and> heap_allocs h' bs' = insert (p - 8, a) (heap_allocs h bs) \<and>
     (\<forall>b s y. (b, s) \<in> heap_allocs h bs \<longrightarrow> b \<le> y \<longrightarrow> y < b + s \<longrightarrow> hmem h' y = hmem h y)"

lemma get_allocation_ok:
  assumes ok: "heap_ok h bs" and sz: "fair_size sz"
  shows "(get_allocation sz h = Some (0, h) \<and> (\<forall>s. (s, False) \<in> set bs \<longrightarrow> 512 < s \<longrightarrow> s < max (block_need sz) 528)) \<or>
    (\<exists>p h' bs' a. get_allocation sz h = Some (p, h') \<and> granted h bs h' bs' p a \<and> block_need sz \<le> a)"
proof -
  let ?sl = "seg_lists_ptr h" and ?m = "hmem h" and ?n = "block_need sz"
  have row: "heap_row ?m ?sl bs" using ok by (simp add: heap_ok_def)
  have "\<exists>p h' bs' a. get_allocation sz h = Some (p, h') \<and> granted h bs h' bs' p a \<and> ?n \<le> a"
    if b: "bs = us @ (s, False) # vs" "?n \<le> s"
      and run: "get_allocation sz h = Some (?sl + 64 + off us + 8, h\<lparr>hmem := use_block ?sl (?sl + 64 + off us) s ?n ?m\<rparr>)" for us s vs
  proof -
    let ?q = "?sl + 64 + off us"
    have row': "heap_row ?m ?sl (us @ (s, False) # vs)" using row b(1) by simp
    obtain bs' a where u: "heap_row (use_block ?sl ?q s ?n ?m) ?sl bs'" "?n \<le> a" "off bs' = off (us @ (s, False) # vs)"
        "allocs ?sl bs' = insert (?q, a) (allocs ?sl (us @ (s, False) # vs))"
        "\<forall>y. y \<notin> dirty ?sl (us @ (s, False) # vs) \<longrightarrow> use_block ?sl ?q s ?n ?m y = ?m y"
      by (rule use_block_ok [OF row' b(2) need_facts(2,3) [OF sz]])
    have sok: "sizes_ok bs" using row by (simp add: heap_row_def)
    have "(?q, s, False) \<in> set (pos (?sl + 64) bs)" unfolding b(1) by simp
    then have "(?q, a, True) \<notin> set (pos (?sl + 64) bs)" using pos_apart [OF sok, of ?q s False "?sl + 64" ?q a True] pos_in [OF _ sok] by fastforce
    then have "(?q, a) \<notin> allocs ?sl bs" by (simp add: allocs_def)
    then have "granted h bs (h\<lparr>hmem := use_block ?sl ?q s ?n ?m\<rparr>) bs' (?q + 8) a"
      unfolding granted_def add_diff_cancel_right' using ok u alloc_not_dirty [OF sok] b(1) by (auto simp: heap_ok_def)
    then show ?thesis using run u(2) by blast
  qed
  then show ?thesis using get_allocation_run [OF row sz] by blast
qed

lemma extend_heap_ok:
  assumes ok: "heap_ok h bs" and sz: "32 \<le> sz" "sz \<le> 2 ^ 32 + 4096" "16 dvd sz"
  shows "if HeapMemoryBrk h + sz \<le> HeapMemoryEnd h then
      \<exists>q h' bs' z. extend_heap sz h = (q, h') \<and> q \<noteq> 0 \<and> heap_ok h' bs' \<and> seg_lists_ptr h' = seg_lists_ptr h \<and>
        HeapMemoryEnd h' = HeapMemoryEnd h \<and> HeapMemoryBrk h' = HeapMemoryBrk h + sz \<and>
        heap_allocs h' bs' = heap_allocs h bs \<and> (z, False) \<in> set bs' \<and> sz \<le> z \<and>
        (\<forall>b s y. (b, s) \<in> heap_allocs h bs \<longrightarrow> b \<le> y \<longrightarrow> y < b + s \<longrightarrow> hmem h' y = hmem h y)
    else extend_heap sz h = (0, h)"
proof -
  let ?sl = "seg_lists_ptr h" and ?m = "hmem h"
  let ?q = "?sl + 64 + off bs" and ?r = "?sl mod 8"
  have row: "heap_row ?m ?sl bs" and brk: "HeapMemoryBrk h = ?sl + 72 + off bs" "HeapMemoryBrk h \<le> HeapMemoryEnd h"
      "HeapMemoryEnd h + 2 ^ 33 \<le> 2 ^ 64" using ok by (auto simp: heap_ok_def)
  have al: "align sz = sz" using sz by (auto simp: align_def elim!: dvdE)
  have lt: "(HeapMemoryBrk h + sz) mod 2 ^ 64 = HeapMemoryBrk h + sz" "sz < 2 ^ 63" using brk sz by simp_all
  have nz: "HeapMemoryBrk h \<noteq> 0" "HeapMemoryEnd h \<noteq> 0" using brk by auto
  show ?thesis
  proof (cases "HeapMemoryBrk h + sz \<le> HeapMemoryEnd h")
    case False
    then have "kmem_sbrk sz h = (None, h)" unfolding kmem_sbrk_def lt(1) by simp
    then show ?thesis using False by (simp add: extend_heap_def al Let_def)
  next
    case True
    let ?h = "h\<lparr>HeapMemoryBrk := HeapMemoryBrk h + sz\<rparr>" and ?m1 = "st64 (?q + sz) 1 ?m"
    have sb: "kmem_sbrk sz h = (Some (HeapMemoryBrk h), ?h)" unfolding kmem_sbrk_def lt(1) using True nz lt(2) by simp
    have hp: "HeapMemoryBrk h - 8 = ?q" using brk(1) by simp
    have run: "extend_heap sz h = (?q + 8, ?h\<lparr>hmem := initialize_free ?sl ?q sz ?m1\<rparr>)"
      unfolding extend_heap_def al Let_def sb prod.case option.case hp by simp
    obtain F where T: "tags (wm ?r ?m) ?sl bs" and L: "links (wm ?r ?m) ?sl bs F" and sok: "sizes_ok bs" and ma: "merged bs" and sl: "0 < ?sl"
      using row by (auto simp: heap_row_def)
    have "(?sl + 64 + off (bs @ [(sz, True)])) mod 8 = ?r" by (rule row_mod) (use sok sz in simp)
    then have "(?q + sz) mod 8 = ?r" by (simp add: add.assoc)
    then have w: "wm ?r ?m1 = (wm ?r ?m)(?q + sz := 1)" by (simp add: wm_st64)
    have ar: "around (wm ?r ?m1) ?sl bs sz []"
    proof -
      have "blks (wm ?r ?m1) (?sl + 64) bs" unfolding w by (rule blks_cong [of "wm ?r ?m"]) (use T sok in \<open>auto simp: tags_def\<close>)
      then show ?thesis using T sz unfolding w by (auto simp: tags_def around_def)
    qed
    have L0: "links (wm ?r ?m) ?sl (bs @ (sz, True) # []) F" using L by (simp add: links_def matches_def)
    have okT: "sizes_ok (bs @ (sz, True) # [])" using sok sz by simp
    have L1: "links (wm ?r ?m1) ?sl (bs @ (sz, True) # []) F"
      unfolding w by (rule links_store [OF L0 okT]) auto
    have okF: "sizes_ok (bs @ (sz, False) # [])" using sok sz by simp
    have bd: "?sl + 72 + off (bs @ (sz, False) # []) \<le> 2 ^ 64" using True brk by simp
    have mn: "merged []" by simp
    obtain us' z vs' where I: "heap_row (initialize_free ?sl ?q sz ?m1) ?sl (us' @ (z, False) # vs')" "sz \<le> z"
        "same_frame ?sl (bs @ (sz, False) # []) (us' @ (z, False) # vs')"
        "\<forall>y. y \<notin> dirty ?sl (bs @ (sz, False) # []) \<longrightarrow> initialize_free ?sl ?q sz ?m1 y = ?m1 y"
      by (rule initialize_free_ok [OF ar L1 okF bd ma mn sl])
    have ac: "allocs ?sl (bs @ (sz, False) # []) = allocs ?sl bs" by (simp add: allocs_def)
    have keep: "initialize_free ?sl ?q sz ?m1 y = ?m y" if "(b, s) \<in> allocs ?sl bs" "b \<le> y" "y < b + s" for b s y
    proof -
      have "(b, s, True) \<in> set (pos (?sl + 64) bs)" using that(1) by (simp add: allocs_def)
      then have "y < ?q" using pos_in [OF _ sok] that(3) by fastforce
      then have "?m1 y = ?m y" by (simp add: st64_def)
      moreover have "y \<notin> dirty ?sl (bs @ (sz, False) # [])" using alloc_not_dirty [OF okF] that ac by blast
      ultimately show ?thesis using I(4) by simp
    qed
    have "heap_ok (?h\<lparr>hmem := initialize_free ?sl ?q sz ?m1\<rparr>) (us' @ (z, False) # vs')"
      using I(1,3) brk True unfolding heap_ok_def same_frame_def by simp
    then have "extend_heap sz h = (?q + 8, ?h\<lparr>hmem := initialize_free ?sl ?q sz ?m1\<rparr>) \<and> ?q + 8 \<noteq> 0 \<and>
        heap_ok (?h\<lparr>hmem := initialize_free ?sl ?q sz ?m1\<rparr>) (us' @ (z, False) # vs') \<and>
        seg_lists_ptr (?h\<lparr>hmem := initialize_free ?sl ?q sz ?m1\<rparr>) = ?sl \<and>
        HeapMemoryEnd (?h\<lparr>hmem := initialize_free ?sl ?q sz ?m1\<rparr>) = HeapMemoryEnd h \<and>
        HeapMemoryBrk (?h\<lparr>hmem := initialize_free ?sl ?q sz ?m1\<rparr>) = HeapMemoryBrk h + sz \<and>
        heap_allocs (?h\<lparr>hmem := initialize_free ?sl ?q sz ?m1\<rparr>) (us' @ (z, False) # vs') = allocs ?sl bs \<and>
        (z, False) \<in> set (us' @ (z, False) # vs') \<and> sz \<le> z \<and>
        (\<forall>b s y. (b, s) \<in> allocs ?sl bs \<longrightarrow> b \<le> y \<longrightarrow> y < b + s \<longrightarrow> hmem (?h\<lparr>hmem := initialize_free ?sl ?q sz ?m1\<rparr>) y = ?m y)"
      using run I(2,3) ac keep unfolding same_frame_def by simp
    then show ?thesis using True by (simp only: if_True) blast
  qed
qed

subsection \<open>\<open>kmalloc\<close> and \<open>kfree\<close>\<close>

lemma granted_apart:
  assumes "granted h bs h' bs' p a" "(b, s) \<in> heap_allocs h bs"
  shows "b + s \<le> p - 8 \<or> p - 8 + a \<le> b"
proof -
  have ok: "sizes_ok bs'" and al: "heap_allocs h' bs' = insert (p - 8, a) (heap_allocs h bs)" "(p - 8, a) \<notin> heap_allocs h bs"
    using assms(1) by (auto simp: granted_def heap_ok_def heap_row_def)
  have "(b, s, True) \<in> set (pos (seg_lists_ptr h' + 64) bs')" "(p - 8, a, True) \<in> set (pos (seg_lists_ptr h' + 64) bs')"
    using al(1) assms(2) by (auto simp: allocs_def set_eq_iff)
  then show ?thesis using pos_apart [OF ok] al(2) assms(2) by blast
qed

lemma kmalloc_outcome:
  assumes ok: "heap_ok h bs" and sz: "fair_size sz"
  shows "(kmalloc sz h = Some (0, h) \<and> HeapMemoryEnd h < HeapMemoryBrk h + max (block_need sz) 4096) \<or>
    (\<exists>p h' bs' a. kmalloc sz h = Some (p, h') \<and> granted h bs h' bs' p a \<and> block_need sz \<le> a)"
proof -
  note n = need_facts [OF sz]
  consider (found) p h' bs' a where "get_allocation sz h = Some (p, h')" "granted h bs h' bs' p a" "block_need sz \<le> a"
    | (none) "get_allocation sz h = Some (0, h)"
    using get_allocation_ok [OF ok sz] by blast
  then show ?thesis
  proof cases
    case found
    then have "p \<noteq> 0" by (auto simp: granted_def)
    then show ?thesis using found sz by (auto simp: kmalloc_def)
  next
    case none
    let ?e = "if block_need sz > 4096 then block_need sz else 4096"
    have e: "?e = max (block_need sz) 4096" by simp
    have es: "32 \<le> ?e" "?e \<le> 2 ^ 32 + 4096" "16 dvd ?e" using n by auto
    have run: "kmalloc sz h = (case extend_heap ?e h of (q, h) \<Rightarrow> if q = 0 then Some (0, h) else get_allocation sz h)"
      using none sz by (simp add: kmalloc_def Let_def)
    show ?thesis
    proof (cases "HeapMemoryBrk h + ?e \<le> HeapMemoryEnd h")
      case False
      then have "extend_heap ?e h = (0, h)" using extend_heap_ok [OF ok es] by (simp only: if_False)
      then show ?thesis using run False unfolding e by simp
    next
      case True
      obtain q h1 bs1 z where x: "extend_heap ?e h = (q, h1)" "q \<noteq> 0" "heap_ok h1 bs1" "seg_lists_ptr h1 = seg_lists_ptr h"
          "HeapMemoryEnd h1 = HeapMemoryEnd h" "heap_allocs h1 bs1 = heap_allocs h bs" "(z, False) \<in> set bs1" "?e \<le> z"
          "\<forall>b s y. (b, s) \<in> heap_allocs h bs \<longrightarrow> b \<le> y \<longrightarrow> y < b + s \<longrightarrow> hmem h1 y = hmem h y"
        using extend_heap_ok [OF ok es] unfolding if_P [OF True] by blast
      have "\<not> z < max (block_need sz) 528" "512 < z" using x(8) unfolding e by auto
      then obtain p h' bs' a where g: "get_allocation sz h1 = Some (p, h')" "granted h1 bs1 h' bs' p a" "block_need sz \<le> a"
        using get_allocation_ok [OF x(3) sz] x(7) by blast
      have "granted h bs h' bs' p a" using g(2) x(4,5,6,9) unfolding granted_def by auto
      then show ?thesis using run x(1,2) g(1,3) by auto
    qed
  qed
qed

text \<open>C6. \<^verbatim>\<open>kmalloc\<close>. In a well-formed heap a request of up to 4 GiB always returns. It fails only when
  the heap cannot grow by a page or by the block it needs, and then nothing changes. Otherwise the
  new block has room for the request, overlaps no allocated block, all allocated blocks are still
  allocated with the same bytes, and the heap is well-formed again.\<close>

theorem kmalloc_correct:
  assumes "heap_ok h bs" "0 < sz" "sz \<le> 2 ^ 32"
  shows "\<exists>p h'. kmalloc sz h = Some (p, h') \<and>
    (if p = 0 then h' = h \<and> HeapMemoryEnd h < HeapMemoryBrk h + max (block_need sz) 4096
     else \<exists>bs' a. heap_ok h' bs' \<and> sz + 16 \<le> a \<and> heap_allocs h' bs' = insert (p - 8, a) (heap_allocs h bs) \<and>
       (\<forall>(b, s) \<in> heap_allocs h bs. b + s \<le> p - 8 \<or> p - 8 + a \<le> b) \<and>
       (\<forall>(b, s) \<in> heap_allocs h bs. \<forall>y. b \<le> y \<and> y < b + s \<longrightarrow> hmem h' y = hmem h y))"
proof -
  have sz: "fair_size sz" using assms by simp
  from kmalloc_outcome [OF assms(1) sz] show ?thesis
  proof
    assume "kmalloc sz h = Some (0, h) \<and> HeapMemoryEnd h < HeapMemoryBrk h + max (block_need sz) 4096"
    then show ?thesis by simp
  next
    assume "\<exists>p h' bs' a. kmalloc sz h = Some (p, h') \<and> granted h bs h' bs' p a \<and> block_need sz \<le> a"
    then obtain p h' bs' a where k: "kmalloc sz h = Some (p, h')" "granted h bs h' bs' p a" "block_need sz \<le> a" by blast
    have "sz + 16 \<le> a" using k(3) need_facts(1) [OF sz] by simp
    moreover have "p \<noteq> 0" "heap_ok h' bs'" "heap_allocs h' bs' = insert (p - 8, a) (heap_allocs h bs)"
        "\<forall>(b, s) \<in> heap_allocs h bs. \<forall>y. b \<le> y \<and> y < b + s \<longrightarrow> hmem h' y = hmem h y"
      using k(2) unfolding granted_def by auto
    moreover have "\<forall>(b, s) \<in> heap_allocs h bs. b + s \<le> p - 8 \<or> p - 8 + a \<le> b" using granted_apart [OF k(2)] by blast
    ultimately show ?thesis using k(1) by auto
  qed
qed

definition released :: "kheap \<Rightarrow> block list \<Rightarrow> kheap \<Rightarrow> block list \<Rightarrow> nat \<Rightarrow> nat \<Rightarrow> bool" where
  "released h bs h' bs' p a \<longleftrightarrow>
     heap_ok h' bs' \<and> seg_lists_ptr h' = seg_lists_ptr h \<and> HeapMemoryEnd h' = HeapMemoryEnd h \<and>
     heap_allocs h' bs' = heap_allocs h bs - {(p - 8, a)} \<and>
     (\<forall>b s y. (b, s) \<in> heap_allocs h' bs' \<longrightarrow> b \<le> y \<longrightarrow> y < b + s \<longrightarrow> hmem h' y = hmem h y)"

lemma kfree_outcome:
  assumes ok: "heap_ok h bs" and p: "(p - 8, a) \<in> heap_allocs h bs" "8 < p"
  obtains bs' where "released h bs (kfree p h) bs' p a"
proof -
  let ?sl = "seg_lists_ptr h" and ?m = "hmem h"
  let ?r = "?sl mod 8"
  have "(p - 8, a, True) \<in> set (pos (?sl + 64) bs)" using p by (simp add: allocs_def)
  then obtain us vs where b: "bs = us @ (a, True) # vs" and q: "p - 8 = ?sl + 64 + off us" using pos_split by blast
  have row: "heap_row ?m ?sl (us @ (a, True) # vs)" using ok b by (simp add: heap_ok_def)
  obtain F where T: "tags (wm ?r ?m) ?sl (us @ (a, True) # vs)" and L: "links (wm ?r ?m) ?sl (us @ (a, True) # vs) F"
      and sok: "sizes_ok (us @ (a, True) # vs)" and ma: "merged us" "merged vs" and bd: "?sl + 72 + off (us @ (a, True) # vs) \<le> 2 ^ 64"
      and sl: "0 < ?sl" and a: "32 \<le> a" "16 dvd a"
    by (rule heap_row_parts [OF row])
  have okF: "sizes_ok (us @ (a, False) # vs)" using sok by simp
  have bdF: "?sl + 72 + off (us @ (a, False) # vs) \<le> 2 ^ 64" using bd by simp
  obtain us' z vs' where I: "heap_row (initialize_free ?sl (?sl + 64 + off us) a ?m) ?sl (us' @ (z, False) # vs')" "a \<le> z"
      "same_frame ?sl (us @ (a, False) # vs) (us' @ (z, False) # vs')"
      "\<forall>y. y \<notin> dirty ?sl (us @ (a, False) # vs) \<longrightarrow> initialize_free ?sl (?sl + 64 + off us) a ?m y = ?m y"
    by (rule initialize_free_ok [OF tags_around [OF T] L okF bdF ma sl])
  have "ld64 ?m (?sl + 64 + off us) = a + 1" using word_loads(1) [of us ?m ?sl] T sok by (simp add: tags_def)
  then have hs: "hdr_size (ld64 ?m (p - 8)) = a" using tag_bits(2) [of a True] a(2) q by simp
  have run: "kfree p h = h\<lparr>hmem := initialize_free ?sl (?sl + 64 + off us) a ?m\<rparr>"
    unfolding kfree_def Let_def hs using p(2) q by simp
  have "(?sl + 64 + off us, a) \<notin> allocs ?sl (us @ (a, False) # vs)"
    using pos_elsewhere [OF okF, of "?sl + 64"] by (auto simp: allocs_def)
  then have al: "allocs ?sl (us' @ (z, False) # vs') = allocs ?sl bs - {(p - 8, a)}"
    using I(3) unfolding b q same_frame_def allocs_mark by auto
  have fr: "initialize_free ?sl (?sl + 64 + off us) a ?m y = ?m y"
    if "(c, s) \<in> allocs ?sl (us' @ (z, False) # vs')" "c \<le> y" "y < c + s" for c s y
    using I(3,4) alloc_not_dirty [OF okF, of c s ?sl y] that unfolding same_frame_def by simp
  have "released h bs (kfree p h) (us' @ (z, False) # vs') p a"
    using I(1,3) ok al fr b unfolding run released_def heap_ok_def same_frame_def by simp
  then show thesis by (rule that)
qed

text \<open>C14. \<^verbatim>\<open>kfree\<close> of an allocated block keeps the heap well-formed, releases exactly that block and leaves
  the bytes of all other allocated blocks alone.\<close>

theorem kfree_correct:
  assumes "heap_ok h bs" "(p - 8, a) \<in> heap_allocs h bs" "8 < p"
  shows "\<exists>bs'. heap_ok (kfree p h) bs' \<and> heap_allocs (kfree p h) bs' = heap_allocs h bs - {(p - 8, a)} \<and>
    (\<forall>(b, s) \<in> heap_allocs h bs - {(p - 8, a)}. \<forall>y. b \<le> y \<and> y < b + s \<longrightarrow> hmem (kfree p h) y = hmem h y)"
proof -
  obtain bs' where r: "released h bs (kfree p h) bs' p a" by (rule kfree_outcome [OF assms])
  show ?thesis by (rule exI [of _ bs']) (use r in \<open>auto simp: released_def\<close>)
qed

subsection \<open>Writing to allocated memory\<close>

text \<open>The owner of a block may write its payload: the allocator's data is elsewhere.\<close>

lemma payload_write:
  assumes row: "heap_row m sl bs" and b: "(b, a) \<in> allocs sl bs"
    and agree: "\<And>y. y < b + 8 \<or> b + a - 8 \<le> y \<Longrightarrow> m' y = m y"
  shows "heap_row m' sl bs"
proof -
  let ?r = "sl mod 8"
  have p: "(b, a, True) \<in> set (pos (sl + 64) bs)" using b by (simp add: allocs_def)
  then obtain us vs where bs: "bs = us @ (a, True) # vs" "b = sl + 64 + off us" using pos_split by blast
  obtain F where T: "tags (wm ?r m) sl bs" and L: "links (wm ?r m) sl bs F" and ok: "sizes_ok bs"
    using row by (auto simp: heap_row_def)
  note pin = pos_in [OF p ok]
  have w: "wm ?r m' x = wm ?r m x" if "x + 8 \<le> b + 8 \<or> b + a - 8 \<le> x" for x
    using that by (auto simp: wm_def intro!: ld64_cong agree)
  have "wm ?r m' c = wm ?r m c \<and> wm ?r m' (c + s - 8) = wm ?r m (c + s - 8)" if c: "(c, s, f) \<in> set (pos (sl + 64) bs)" for c s f
  proof -
    have "c + s \<le> b \<or> b + a \<le> c \<or> (c = b \<and> s = a)" using pos_apart [OF ok c p] by auto
    moreover have "32 \<le> s" using pos_in [OF c ok] by simp
    ultimately show ?thesis using pin by (intro conjI w) auto
  qed
  then have "blks (wm ?r m') (sl + 64) bs" using T unfolding tags_def blks_pos by fastforce
  moreover have "wm ?r m' (sl + 56) = wm ?r m (sl + 56)" "wm ?r m' (sl + 64 + off bs) = wm ?r m (sl + 64 + off bs)"
    using pin by (auto intro!: w)
  ultimately have T': "tags (wm ?r m') sl bs" using T by (simp add: tags_def)
  have ok': "sizes_ok (us @ (a, True) # vs)" using ok bs by simp
  have "fls (wm ?r m') sl F = fls (wm ?r m) sl F"
  proof (rule fls_cong)
    fix x assume "x \<in> lwords sl (all_free F)"
    then have "x \<in> lwords sl (frees (sl + 64) (us @ (a, True) # vs))" using L bs(1) matches_all unfolding links_def by metis
    from lwords_region(1) [OF ok' this] show "wm ?r m' x = wm ?r m x" using bs(2) by (intro w) auto
  qed
  then show ?thesis using row T' L unfolding heap_row_def links_def by blast
qed

lemma kmalloc_memset_eq: "kmalloc_memset p v n m x = (if p \<le> x \<and> x < p + n then v else m x)"
  by (induction n arbitrary: p m) auto

lemma kmalloc_memcpy_eq:
  "d + n \<le> s \<or> s + n \<le> d \<Longrightarrow> kmalloc_memcpy d s n m x = (if d \<le> x \<and> x < d + n then m (s + (x - d)) else m x)"
proof (induction n arbitrary: d s m)
  case (Suc n)
  have "kmalloc_memcpy (d + 1) (s + 1) n (m(d := m s)) x =
      (if d + 1 \<le> x \<and> x < d + 1 + n then (m(d := m s)) (s + 1 + (x - (d + 1))) else (m(d := m s)) x)"
    using Suc.prems by (intro Suc.IH) auto
  moreover have "d + 1 \<le> x \<Longrightarrow> x < d + 1 + n \<Longrightarrow> s + 1 + (x - (d + 1)) \<noteq> d \<and> s + 1 + (x - (d + 1)) = s + (x - d)"
    using Suc.prems by auto
  ultimately show ?case by auto
qed auto

lemma heap_ok_payload:
  assumes "heap_ok h bs" "(p - 8, a) \<in> heap_allocs h bs" "8 < p" "\<And>y. y < p \<or> p + a - 16 \<le> y \<Longrightarrow> m' y = hmem h y"
  shows "heap_ok (h\<lparr>hmem := m'\<rparr>) bs"
proof -
  have "heap_row m' (seg_lists_ptr h) bs"
    by (rule payload_write [of "hmem h" _ _ "p - 8" a]) (use assms in \<open>auto simp: heap_ok_def\<close>)
  then show ?thesis using assms(1) by (simp add: heap_ok_def)
qed

subsection \<open>Starting the heap\<close>

lemma heap_row_empty:
  assumes "0 < sl" "sl + 72 \<le> 2 ^ 64" "wm (sl mod 8) m (sl + 56) = 17" "wm (sl mod 8) m (sl + 64) = 1"
    "\<And>k. k < 6 \<Longrightarrow> wm (sl mod 8) m (sl + 8 * k) = 0"
  shows "heap_row m sl []"
proof -
  have "links (wm (sl mod 8) m) sl [] (\<lambda>_. [])"
    using assms(5) by (auto simp: links_def fls_def lst_def dll_def matches_def)
  then show ?thesis using assms by (auto simp: heap_row_def tags_def)
qed

lemma ld64_zeros: "(\<And>x. a \<le> x \<Longrightarrow> x < a + 8 \<Longrightarrow> m x = 0) \<Longrightarrow> ld64 m a = 0"
proof -
  assume z: "\<And>x. a \<le> x \<Longrightarrow> x < a + 8 \<Longrightarrow> m x = 0"
  have "le_val bs = 0" if "\<forall>x \<in> set bs. x = 0" for bs using that by (induction bs) auto
  then show ?thesis using z by (simp add: ld64_def)
qed

lemma heap_start:
  assumes "0 < start" "start + 72 \<le> 2 ^ 64"
  shows "heap_row (st64 (start + 48 + 2 * 8) 1 (st64 (start + 48 + 8) 17 (st64 (start + 48) 17 (kmalloc_memset start 0 48 m)))) start []"
    (is "heap_row ?m start []")
proof (rule heap_row_empty)
  let ?r = "start mod 8" and ?z = "kmalloc_memset start 0 48 m"
  have al: "(start + 48) mod 8 = ?r" "(start + 48 + 8) mod 8 = ?r" "(start + 48 + 2 * 8) mod 8 = ?r"
    using mod_mult_self2 [of start 8 6] mod_mult_self2 [of start 8 7] mod_mult_self2 [of start 8 8]
    by (simp_all add: add.commute)
  have b: "(17 :: nat) < 2 ^ 64" "(1 :: nat) < 2 ^ 64" by simp_all
  have w: "wm ?r ?m = (wm ?r ?z)(start + 48 := 17, start + 48 + 8 := 17, start + 48 + 2 * 8 := 1)"
    by (simp only: wm_st64 [OF b(1) al(1)] wm_st64 [OF b(1) al(2)] wm_st64 [OF b(2) al(3)])
  have "start + 56 = start + 48 + 8" "start + 64 = start + 48 + 2 * 8" by simp_all
  then show "wm ?r ?m (start + 56) = 17" "wm ?r ?m (start + 64) = 1" unfolding w by simp_all
  show "wm ?r ?m (start + 8 * k) = 0" if "k < 6" for k
  proof -
    have "ld64 ?z (start + 8 * k) = 0" by (rule ld64_zeros) (use that in \<open>auto simp: kmalloc_memset_eq\<close>)
    then show ?thesis unfolding w using that by (simp add: wm_def)
  qed
qed (use assms in auto)

lemma kmem_init_outcome:
  assumes "0 < start" "start + 72 + 4096 \<le> fin" "fin + 2 ^ 33 \<le> 2 ^ 64"
  obtains h bs where "kmem_init start fin m = Inr h" "heap_ok h bs" "heap_allocs h bs = {}" "HeapMemoryEnd h = fin"
    "HeapMemoryBrk h = start + 72 + 4096" "\<exists>z. (z, False) \<in> set bs \<and> 4096 \<le> z"
proof -
  define h0 where "h0 = \<lparr>hmem = m, HeapMemory = start, HeapMemoryBrk = start, HeapMemoryEnd = fin, heap_ptr = 0, seg_lists_ptr = 0\<rparr>"
  have e: "(start + 48) mod 2 ^ 64 = start + 48" "(start + 48 + 24) mod 2 ^ 64 = start + 72" using assms by simp_all
  have s1: "kmem_sbrk 48 h0 = (Some start, h0\<lparr>HeapMemoryBrk := start + 48\<rparr>)"
    using assms by (simp add: kmem_sbrk_def h0_def)
  define m1 where "m1 = kmalloc_memset start 0 48 m"
  define h1 where "h1 = h0\<lparr>HeapMemoryBrk := start + 48, seg_lists_ptr := start, hmem := m1\<rparr>"
  have s2: "kmem_sbrk (3 * 8) h1 = (Some (start + 48), h1\<lparr>HeapMemoryBrk := start + 72\<rparr>)"
    using assms by (simp add: kmem_sbrk_def h1_def h0_def)
  define m2 where "m2 = st64 (start + 48 + 2 * 8) 1 (st64 (start + 48 + 8) 17 (st64 (start + 48) 17 m1))"
  define h2 where "h2 = h1\<lparr>HeapMemoryBrk := start + 72, heap_ptr := start + 48, hmem := m2\<rparr>"
  have sl: "seg_lists_ptr h2 = start" "HeapMemoryBrk h2 = start + 72" "HeapMemoryEnd h2 = fin" "hmem h2 = m2"
    by (simp_all add: h2_def h1_def h0_def)
  have "heap_row m2 start []" unfolding m2_def m1_def by (rule heap_start) (use assms in auto)
  then have ok: "heap_ok h2 []" using assms by (simp add: heap_ok_def sl)
  have sz: "32 \<le> (4096 :: nat)" "(4096 :: nat) \<le> 2 ^ 32 + 4096" "16 dvd (4096 :: nat)" by simp_all
  have cond: "HeapMemoryBrk h2 + 4096 \<le> HeapMemoryEnd h2" using assms by (simp add: sl)
  obtain q h' bs' z where x: "extend_heap 4096 h2 = (q, h')" "q \<noteq> 0" "heap_ok h' bs'" "seg_lists_ptr h' = seg_lists_ptr h2"
      "HeapMemoryEnd h' = HeapMemoryEnd h2" "heap_allocs h' bs' = heap_allocs h2 []" "HeapMemoryBrk h' = HeapMemoryBrk h2 + 4096"
      "(z, False) \<in> set bs'" "4096 \<le> z"
    using extend_heap_ok [OF ok sz] unfolding if_P [OF cond] by blast
  have u1: "h0\<lparr>HeapMemoryBrk := start + 48\<rparr>\<lparr>seg_lists_ptr := start, hmem := kmalloc_memset start 0 48 (hmem (h0\<lparr>HeapMemoryBrk := start + 48\<rparr>))\<rparr> = h1"
    by (simp add: h1_def m1_def h0_def)
  have u2: "h1\<lparr>HeapMemoryBrk := start + 72\<rparr>\<lparr>heap_ptr := start + 48,
      hmem := st64 (start + 48 + 2 * 8) 1 (st64 (start + 48 + 8) (16 + 1) (st64 (start + 48) (16 + 1) (hmem (h1\<lparr>HeapMemoryBrk := start + 72\<rparr>))))\<rparr> = h2"
    by (simp add: h2_def m2_def h1_def)
  have "kmm_init h0 = (True, h')"
    unfolding kmm_init_def s1 prod.case option.case Let_def u1 s2 u2 x(1) using x(2) by simp
  then have "kmem_init start fin m = Inr h'" by (simp add: kmem_init_def h0_def)
  moreover have "heap_allocs h' bs' = {}" using x(6) by (simp add: allocs_def)
  ultimately show thesis using that x(3,5,7,8,9) sl(2,3) by auto
qed

text \<open>C22. \<^verbatim>\<open>kmem_init\<close> makes a well-formed, empty heap out of any region of at least 4168 bytes, whatever the
  memory held before.\<close>

theorem kmem_init_makes_heap:
  assumes "0 < start" "start + 72 + 4096 \<le> fin" "fin + 2 ^ 33 \<le> 2 ^ 64"
  shows "\<exists>h bs. kmem_init start fin m = Inr h \<and> heap_ok h bs \<and> heap_allocs h bs = {}"
  using kmem_init_outcome [OF assms] by metis

theorem kmem_init_makes_heap_witness:
  "\<exists>h bs. kmem_init 0xffff800000000000 0xffff800000100000 (\<lambda>_. 0xAA) = Inr h \<and> heap_ok h bs \<and> heap_allocs h bs = {}"
  using kmem_init_makes_heap [of "0xffff800000000000" "0xffff800000100000" "\<lambda>_. 0xAA"] by simp

lemma boot_heap:
  "\<exists>h bs. kmem_init 0xffff800000000000 0xffff800000100000 (\<lambda>_. 0xAA) = Inr h \<and> heap_ok h bs \<and> heap_allocs h bs = {} \<and>
    HeapMemoryBrk h + 8192 \<le> HeapMemoryEnd h \<and> (\<exists>z. (z, False) \<in> set bs \<and> 4096 \<le> z)"
  by (rule kmem_init_outcome [of "0xffff800000000000" "0xffff800000100000" "\<lambda>_. 0xAA"]) auto

lemma block_need_100: "block_need 100 = 128"
  by (simp add: block_need_def align_def)

theorem kmalloc_correct_witness:
  "\<exists>h p h' bs' a. kmem_init 0xffff800000000000 0xffff800000100000 (\<lambda>_. 0xAA) = Inr h \<and> kmalloc 100 h = Some (p, h') \<and>
    p \<noteq> 0 \<and> heap_ok h' bs' \<and> 116 \<le> a \<and> heap_allocs h' bs' = {(p - 8, a)}"
proof -
  obtain h bs where h: "kmem_init 0xffff800000000000 0xffff800000100000 (\<lambda>_. 0xAA) = Inr h" "heap_ok h bs" "heap_allocs h bs = {}"
      "HeapMemoryBrk h + 8192 \<le> HeapMemoryEnd h"
    using boot_heap by blast
  then show ?thesis using kmalloc_correct [OF h(2), of 100] by (fastforce simp: block_need_100 split: if_splits)
qed

theorem kfree_correct_witness:
  "\<exists>h p h' bs'. kmem_init 0xffff800000000000 0xffff800000100000 (\<lambda>_. 0xAA) = Inr h \<and> kmalloc 100 h = Some (p, h') \<and>
    p \<noteq> 0 \<and> heap_ok (kfree p h') bs' \<and> heap_allocs (kfree p h') bs' = {}"
proof -
  obtain h bs where h: "kmem_init 0xffff800000000000 0xffff800000100000 (\<lambda>_. 0xAA) = Inr h" "heap_ok h bs" "heap_allocs h bs = {}"
      "HeapMemoryBrk h + 8192 \<le> HeapMemoryEnd h"
    using boot_heap by blast
  have "fair_size 100" by simp
  then obtain p h' bs' a where k: "kmalloc 100 h = Some (p, h')" "granted h bs h' bs' p a"
    using kmalloc_outcome [OF h(2), of 100] h(4) by (auto simp: block_need_100)
  then have g: "heap_ok h' bs'" "heap_allocs h' bs' = {(p - 8, a)}" "8 < p" using h(3) by (auto simp: granted_def)
  then show ?thesis using kfree_correct [of h' bs' p a] h(1) k(1) by (auto intro!: exI)
qed

end
