(* ===== verification/Kmalloc_Realloc.thy ===== *)
theory Kmalloc_Realloc
  imports Kmalloc_Ops
begin

section \<open>Kernel heap: \<open>krealloc\<close>, \<open>kcalloc\<close> and the limits of the arithmetic\<close>

text \<open>
  \<open>krealloc\<close> stays in place, grows into the free block behind, or moves; in every case the bytes of
  the user survive. \<open>kcalloc\<close> returns zeroed memory. The last part shows what the unchecked
  \<open>size_t\<close> arithmetic does with requests near \<open>2 ^ 64\<close>.
\<close>

lemma expand_ok:
  assumes row: "heap_row m sl (us @ (s, True) # (t, False) # vs)"
  defines "q \<equiv> sl + 64 + off us" and "bs \<equiv> us @ (s, True) # (t, False) # vs"
  defines "m' \<equiv> st64 (q + (s + t) - 8) (s + t + 1) (st64 q (s + t + 1) (remove_free sl (q + s + 8) t m))"
  shows "heap_row m' sl (us @ (s + t, True) # vs)"
    "y \<notin> dirty sl bs \<Longrightarrow> y < q \<or> q + 8 \<le> y \<Longrightarrow> m' y = m y"
proof -
  let ?r = "sl mod 8" and ?m = "remove_free sl (q + s + 8) t m" and ?bl = "(us @ [(s, True)]) @ (t, False) # vs"
  obtain F where T: "tags (wm ?r m) sl bs" and L: "links (wm ?r m) sl ?bl F" and ok: "sizes_ok bs"
      and ma: "merged bs" and bd: "sl + 72 + off bs \<le> 2 ^ 64" and sl: "0 < sl"
    using row by (auto simp: heap_row_def bs_def)
  have okl: "sizes_ok ?bl" using ok by (simp add: bs_def)
  obtain F' where L': "links (wm ?r ?m) sl ((us @ [(s, True)]) @ (t, True) # vs) F'"
      and w: "\<And>x. x \<notin> lwords sl (frees (sl + 64) ?bl) \<Longrightarrow> wm ?r ?m x = wm ?r m x"
      and y: "\<And>y. y \<notin> lbytes sl (frees (sl + 64) ?bl) \<Longrightarrow> ?m y = m y"
    unfolding q_def using links_remove [OF L okl] by (auto simp: add.assoc)
  have ar: "around (wm ?r ?m) sl us (s + t) vs" by (rule around_keep [OF T ok meta_eq_to_obj_eq [OF bs_def], of ?bl]) (simp add: bs_def, erule w)
  have L2: "links (wm ?r ?m) sl (us @ (s + t, True) # vs) F'" using L' by (simp add: links_def matches_merge)
  have ok2: "sizes_ok (us @ (s + t, True) # vs)" using ok by (simp add: bs_def)
  have bound: "s + t + 1 < 2 ^ 64" using bd by (simp add: bs_def)
  note R = retag [OF ar L2 ok2 bound]
  have "merged (us @ (s + t, True) # vs)" using ma by (cases vs) (auto simp: bs_def successively_append_iff)
  then show "heap_row m' sl (us @ (s + t, True) # vs)"
    using R(1,2) ok2 bd sl unfolding heap_row_def bs_def m'_def q_def by auto
  assume d: "y \<notin> dirty sl bs" and b: "y < q \<or> q + 8 \<le> y"
  then have "?m y = m y" using y lbytes_dirty [OF okl] by (simp add: bs_def)
  moreover have "y < q + s \<or> q + s + t \<le> y" "32 \<le> t"
    using dirty_region [of y sl "us @ [(s, True)]" t vs] d ok by (auto simp: bs_def q_def)
  ultimately show "m' y = m y" using b by (auto simp: m'_def st64_frame)
qed

lemma allocs_split:
  assumes "sizes_ok (us @ (a, True) # vs)"
  shows "allocs sl (us @ (a, True) # vs) - {(sl + 64 + off us, a)} = allocs sl us \<union> {(b, s). (b, s, True) \<in> set (pos (sl + 64 + off us + a) vs)}"
  using pos_elsewhere [OF assms, of "sl + 64"] by (auto simp: allocs_def)

lemma alloc_header:
  assumes "heap_ok h bs" "(p - 8, a) \<in> heap_allocs h bs"
  obtains us vs where "bs = us @ (a, True) # vs" "p - 8 = seg_lists_ptr h + 64 + off us" "hdr_size (ld64 (hmem h) (p - 8)) = a"
    "32 \<le> a" "16 dvd a" "sizes_ok bs"
    "ld64 (hmem h) (p - 8 + a) = (case vs of [] \<Rightarrow> 1 | (t, f) # _ \<Rightarrow> t + of_bool f)"
proof -
  let ?sl = "seg_lists_ptr h" and ?m = "hmem h"
  have "(p - 8, a, True) \<in> set (pos (?sl + 64) bs)" using assms by (simp add: allocs_def)
  then obtain us vs where b: "bs = us @ (a, True) # vs" and q: "p - 8 = ?sl + 64 + off us" using pos_split by blast
  obtain F where T: "tags (wm (?sl mod 8) ?m) ?sl bs" and ok: "sizes_ok bs"
    using assms(1) by (auto simp: heap_ok_def heap_row_def)
  have a: "32 \<le> a" "16 dvd a" "sizes_ok us" "sizes_ok (us @ [(a, True)])" using ok by (simp_all add: b)
  have "ld64 ?m (p - 8) = a + of_bool True" using word_loads(1) [OF a(3), of ?m ?sl] T q by (simp add: tags_def b)
  then have "hdr_size (ld64 ?m (p - 8)) = a" using tag_bits(2) [OF a(2), of True] by simp
  moreover have "ld64 ?m (p - 8 + a) = (case vs of [] \<Rightarrow> 1 | (t, f) # _ \<Rightarrow> t + of_bool f)"
  proof -
    have "p - 8 + a = ?sl + 64 + off (us @ [(a, True)])" using q by simp
    then have "ld64 ?m (p - 8 + a) = wm (?sl mod 8) ?m (?sl + 64 + off (us @ [(a, True)]))" using word_loads(1) [OF a(4)] by metis
    also have "\<dots> = (case vs of [] \<Rightarrow> 1 | (t, f) # _ \<Rightarrow> t + of_bool f)"
      using tag_after [of "wm (?sl mod 8) ?m" ?sl "us @ [(a, True)]" vs] T by (auto simp: b split: list.split)
    finally show ?thesis .
  qed
  ultimately show thesis using that b q a(1,2) ok by blast
qed

text \<open>What a successful \<open>krealloc\<close> promises.\<close>

definition regranted :: "kheap \<Rightarrow> block list \<Rightarrow> kheap \<Rightarrow> block list \<Rightarrow> nat \<Rightarrow> nat \<Rightarrow> nat \<Rightarrow> nat \<Rightarrow> nat \<Rightarrow> bool" where
  "regranted h bs h' bs' p a q c n \<longleftrightarrow>
     heap_ok h' bs' \<and> 8 < q \<and> heap_allocs h' bs' = insert (q - 8, c) (heap_allocs h bs - {(p - 8, a)}) \<and>
     (\<forall>i < n. hmem h' (q + i) = hmem h (p + i)) \<and>
     (\<forall>(b, s) \<in> heap_allocs h bs - {(p - 8, a)}. \<forall>y. b \<le> y \<and> y < b + s \<longrightarrow> hmem h' y = hmem h y)"

lemma regranted_shorter: "regranted h bs h' bs' p a q c n \<Longrightarrow> n' \<le> n \<Longrightarrow> regranted h bs h' bs' p a q c n'"
  by (simp add: regranted_def)

lemma expand_regrants:
  assumes ok: "heap_ok h (us @ (a, True) # (t, False) # vs)" and p: "p - 8 = seg_lists_ptr h + 64 + off us" "8 < p"
  defines "m' \<equiv> st64 (p - 8 + (a + t) - 8) (a + t + 1) (st64 (p - 8) (a + t + 1) (remove_free (seg_lists_ptr h) (p - 8 + a + 8) t (hmem h)))"
  shows "regranted h (us @ (a, True) # (t, False) # vs) (h\<lparr>hmem := m'\<rparr>) (us @ (a + t, True) # vs) p a p (a + t) (a - 16)"
proof -
  let ?sl = "seg_lists_ptr h" and ?bs = "us @ (a, True) # (t, False) # vs" and ?bs' = "us @ (a + t, True) # vs"
  have row: "heap_row (hmem h) ?sl ?bs" using ok by (simp add: heap_ok_def)
  then have sok: "sizes_ok ?bs" by (simp add: heap_row_def)
  then have sok': "sizes_ok ?bs'" by simp
  note E = expand_ok [OF row, folded p(1), folded m'_def]
  have al: "allocs ?sl ?bs' = insert (p - 8, a + t) (allocs ?sl ?bs - {(p - 8, a)})"
    using pos_elsewhere [OF sok, of "?sl + 64"] by (auto simp: allocs_def p(1) add.assoc)
  have inb: "(p - 8, a) \<in> allocs ?sl ?bs" by (simp add: allocs_def p(1))
  have keep: "m' y = hmem h y" if "(b, s) \<in> allocs ?sl ?bs" "b \<le> y" "y < b + s" "y < p - 8 \<or> p - 8 + 8 \<le> y" for b s y
    using E(2) [OF alloc_not_dirty [OF sok that(1,2,3)] that(4)] .
  have others: "y < p - 8 \<or> p - 8 + 8 \<le> y" if "(b, s) \<in> allocs ?sl ?bs - {(p - 8, a)}" "b \<le> y" "y < b + s" for b s y
  proof -
    have "(b, s, True) \<in> set (pos (?sl + 64) ?bs)" "(p - 8, a, True) \<in> set (pos (?sl + 64) ?bs)"
      using that(1) inb by (auto simp: allocs_def)
    from pos_apart [OF sok this] show ?thesis using that sok by auto
  qed
  show ?thesis
    unfolding regranted_def
  proof (intro conjI ballI allI impI; (clarsimp)?)
    show "heap_ok (h\<lparr>hmem := m'\<rparr>) ?bs'" using E(1) ok by (simp add: heap_ok_def)
    show "8 < p" by (rule p(2))
    show "allocs ?sl ?bs' = insert (p - 8, a + t) (allocs ?sl ?bs - {(p - 8, a)})" by (rule al)
    show "m' (p + i) = hmem h (p + i)" if "i < a - 16" for i using keep [OF inb, of "p + i"] that p(2) by simp
    show "m' y = hmem h y" if "(b, s) \<in> allocs ?sl ?bs" "b = p - 8 \<longrightarrow> s \<noteq> a" "b \<le> y" "y < b + s" for b s y
      using keep [of b s y] others [of b s y] that by auto
  qed
qed

lemma move_regrants:
  assumes ok: "heap_ok h bs" and p: "(p - 8, a) \<in> heap_allocs h bs" "8 < p" "32 \<le> a"
    and g: "granted h bs h1 bs1 q c" and n: "n \<le> a - 16" "n + 16 \<le> c"
  shows "\<exists>bs'. regranted h bs (kfree p (h1\<lparr>hmem := kmalloc_memcpy q p n (hmem h1)\<rparr>)) bs' p a q c n"
proof -
  let ?m = "kmalloc_memcpy q p n (hmem h1)"
  have G: "heap_ok h1 bs1" "seg_lists_ptr h1 = seg_lists_ptr h" "heap_allocs h1 bs1 = insert (q - 8, c) (heap_allocs h bs)" "8 < q"
      "(q - 8, c) \<notin> heap_allocs h bs"
      "\<And>b s y. (b, s) \<in> heap_allocs h bs \<Longrightarrow> b \<le> y \<Longrightarrow> y < b + s \<Longrightarrow> hmem h1 y = hmem h y"
    using g unfolding granted_def by auto
  have far: "b + s \<le> q - 8 \<or> q - 8 + c \<le> b" if "(b, s) \<in> heap_allocs h bs" for b s by (rule granted_apart [OF g that])
  have pq: "q + n \<le> p \<or> p + n \<le> q" using far [OF p(1)] n p(2,3) G(4) by auto
  note cp = kmalloc_memcpy_eq [OF pq]
  have ok2: "heap_ok (h1\<lparr>hmem := ?m\<rparr>) bs1"
    by (rule heap_ok_payload [OF G(1), of q c]) (use G(3,4) n in \<open>auto simp: cp\<close>)
  obtain bs' where r: "released (h1\<lparr>hmem := ?m\<rparr>) bs1 (kfree p (h1\<lparr>hmem := ?m\<rparr>)) bs' p a"
    by (rule kfree_outcome [OF ok2, of p a]) (use p(1,2) G(2,3) in auto)
  let ?h = "kfree p (h1\<lparr>hmem := ?m\<rparr>)"
  have al: "heap_allocs ?h bs' = insert (q - 8, c) (heap_allocs h bs - {(p - 8, a)})"
    using r G(2,3,5) p(1) unfolding released_def by auto
  have fr: "hmem ?h y = ?m y" if "(b, s) \<in> heap_allocs ?h bs'" "b \<le> y" "y < b + s" for b s y
    using r that unfolding released_def by auto
  have "regranted h bs ?h bs' p a q c n"
    unfolding regranted_def
  proof (intro conjI ballI allI impI; (clarsimp)?)
    show "heap_ok ?h bs'" using r by (simp add: released_def)
    show "8 < q" by (rule G(4))
    show "heap_allocs ?h bs' = insert (q - 8, c) (heap_allocs h bs - {(p - 8, a)})" by (rule al)
    show "hmem ?h (q + i) = hmem h (p + i)" if i: "i < n" for i
    proof -
      have "hmem ?h (q + i) = ?m (q + i)" by (rule fr [of "q - 8" c]) (use al i n(2) G(4) in auto)
      also have "\<dots> = hmem h1 (p + i)" using i by (simp add: cp)
      also have "\<dots> = hmem h (p + i)" by (rule G(6) [OF p(1)]) (use i n p in auto)
      finally show ?thesis .
    qed
    show "hmem ?h y = hmem h y" if b: "(b, s) \<in> heap_allocs h bs" "b = p - 8 \<longrightarrow> s \<noteq> a" "b \<le> y" "y < b + s" for b s y
    proof -
      have "hmem ?h y = ?m y" by (rule fr [of b s]) (use al b in auto)
      also have "\<dots> = hmem h1 y" using far [OF b(1)] b(3,4) n G(4) by (auto simp: cp)
      also have "\<dots> = hmem h y" by (rule G(6) [OF b(1,3,4)])
      finally show ?thesis .
    qed
  qed
  then show ?thesis by blast
qed

lemma krealloc_outcome:
  assumes ok: "heap_ok h bs" and p: "(p - 8, a) \<in> heap_allocs h bs" "8 < p" and sz: "fair_size sz"
  shows "krealloc p sz h = Some (0, h) \<or>
    (\<exists>q h' bs' c. krealloc p sz h = Some (q, h') \<and> regranted h bs h' bs' p a q c (min sz (a - 16)) \<and> block_need sz \<le> c)"
proof -
  let ?sl = "seg_lists_ptr h" and ?m = "hmem h" and ?n = "block_need sz"
  obtain us vs where b: "bs = us @ (a, True) # vs" "p - 8 = ?sl + 64 + off us" "hdr_size (ld64 ?m (p - 8)) = a"
      "32 \<le> a" "16 dvd a" "sizes_ok bs" "ld64 ?m (p - 8 + a) = (case vs of [] \<Rightarrow> 1 | (t, f) # _ \<Rightarrow> t + of_bool f)"
    by (rule alloc_header [OF ok p(1)])
  have p0: "p \<noteq> 0" "sz \<noteq> 0" using p sz by auto
  consider (here) "?n \<le> a" | (grow) t vs' where "a < ?n" "vs = (t, False) # vs'" "?n \<le> a + t"
    | (move) "a < ?n" "\<And>t vs'. vs = (t, False) # vs' \<Longrightarrow> a + t < ?n"
    by (metis not_le)
  then show ?thesis
  proof cases
    case here
    then have "krealloc p sz h = Some (p, h)" using p0 by (simp add: krealloc_def Let_def b(3))
    moreover have "regranted h bs h bs p a p a (min sz (a - 16))" using ok p by (auto simp: regranted_def)
    ultimately show ?thesis using here by blast
  next
    case grow
    have t: "16 dvd t" using b(6) unfolding b(1) grow(2) by simp
    have v: "ld64 ?m (p - 8 + a) = t" using b(7) grow(2) by simp
    have "t mod 2 = 0" "hdr_size t = t" using tag_bits [OF t, of False] by simp_all
    then have run: "krealloc p sz h = Some (p, h\<lparr>hmem := st64 (p - 8 + (a + t) - 8) (a + t + 1) (st64 (p - 8) (a + t + 1)
        (remove_free ?sl (p - 8 + a + 8) t ?m))\<rparr>)"
      using p0 grow by (simp add: krealloc_def Let_def b(3) v add.assoc)
    have "regranted h bs (h\<lparr>hmem := st64 (p - 8 + (a + t) - 8) (a + t + 1) (st64 (p - 8) (a + t + 1)
        (remove_free ?sl (p - 8 + a + 8) t ?m))\<rparr>) (us @ (a + t, True) # vs') p a p (a + t) (min sz (a - 16))"
      unfolding b(1) grow(2)
      by (rule regranted_shorter [OF expand_regrants [OF ok [unfolded b(1) grow(2)] b(2) p(2)] min.cobounded2])
    then show ?thesis using run grow(3) by blast
  next
    case move
    have e: "\<not> (ld64 ?m (p - 8 + a) mod 2 = 0 \<and> ?n \<le> a + hdr_size (ld64 ?m (p - 8 + a)))"
    proof (cases vs)
      case (Cons x vs')
      obtain t f where x: "x = (t, f)" by (cases x)
      have t: "16 dvd t" using b(6) unfolding b(1) Cons x by simp
      then show ?thesis using b(7) move(2) [of t vs'] tag_bits [OF t, of f] unfolding Cons x by (cases f) auto
    qed (simp add: b(7))
    have run: "krealloc p sz h = (case kmalloc sz h of None \<Rightarrow> None | Some (q, h1) \<Rightarrow> if q = 0 then Some (0, h1)
        else Some (q, kfree p (h1\<lparr>hmem := kmalloc_memcpy q p (min (a - 16) sz) (hmem h1)\<rparr>)))"
      unfolding krealloc_def Let_def b(3) if_not_P [OF p0(1)] if_not_P [OF p0(2)] if_not_P [OF e] using move(1) by (simp only: not_le [symmetric] if_False)
    from kmalloc_outcome [OF ok sz] show ?thesis
    proof (elim disjE exE conjE)
      assume "kmalloc sz h = Some (0, h)"
      then show ?thesis using run by simp
    next
      fix q h1 bs1 c assume k: "kmalloc sz h = Some (q, h1)" "granted h bs h1 bs1 q c" "?n \<le> c"
      have n: "min (a - 16) sz \<le> a - 16" "min (a - 16) sz + 16 \<le> c" "q \<noteq> 0"
        using k(2,3) need_facts(1) [OF sz] by (auto simp: granted_def)
      show ?thesis using move_regrants [OF ok p b(4) k(2) n(1,2)] run k(1,3) n(3) by (auto simp: min.commute)
    qed
  qed
qed

text \<open>C15. \<^verbatim>\<open>krealloc\<close> of an allocated block to a size of up to 4 GiB always returns. Either it fails with the
  heap unchanged, or the block it returns replaces the old one, has room for the request and starts
  with the bytes the old block held, up to the smaller size; every other allocated block keeps its
  bytes and the heap is well-formed, whether the block stayed, grew into its neighbour or moved.\<close>

theorem krealloc_correct:
  assumes "heap_ok h bs" "(p - 8, a) \<in> heap_allocs h bs" "8 < p" "0 < sz" "sz \<le> 2 ^ 32"
  shows "\<exists>q h'. krealloc p sz h = Some (q, h') \<and>
    (if q = 0 then h' = h
     else \<exists>bs' c. heap_ok h' bs' \<and> sz + 16 \<le> c \<and> heap_allocs h' bs' = insert (q - 8, c) (heap_allocs h bs - {(p - 8, a)}) \<and>
       (\<forall>i < min sz (a - 16). hmem h' (q + i) = hmem h (p + i)) \<and>
       (\<forall>(b, s) \<in> heap_allocs h bs - {(p - 8, a)}. \<forall>y. b \<le> y \<and> y < b + s \<longrightarrow> hmem h' y = hmem h y))"
proof -
  have sz: "fair_size sz" using assms by simp
  from krealloc_outcome [OF assms(1,2,3) sz] show ?thesis
  proof (elim disjE exE conjE)
    fix q h' bs' c assume k: "krealloc p sz h = Some (q, h')" "regranted h bs h' bs' p a q c (min sz (a - 16))" "block_need sz \<le> c"
    have "sz + 16 \<le> c" using k(3) need_facts(1) [OF sz] by simp
    then show ?thesis using k(1,2) unfolding regranted_def by (intro exI [of _ q] exI [of _ h']) auto
  qed auto
qed

lemma boot_block:
  "\<exists>h p h' bs' a. kmem_init 0xffff800000000000 0xffff800000100000 (\<lambda>_. 0xAA) = Inr h \<and> kmalloc 100 h = Some (p, h') \<and>
    heap_ok h' bs' \<and> heap_allocs h' bs' = {(p - 8, a)} \<and> 8 < p \<and> 116 \<le> a"
proof -
  obtain h bs where h: "kmem_init 0xffff800000000000 0xffff800000100000 (\<lambda>_. 0xAA) = Inr h" "heap_ok h bs" "heap_allocs h bs = {}"
      "HeapMemoryBrk h + 8192 \<le> HeapMemoryEnd h"
    using boot_heap by blast
  have "fair_size 100" by simp
  then obtain p h' bs' a where k: "kmalloc 100 h = Some (p, h')" "granted h bs h' bs' p a" "block_need 100 \<le> a"
    using kmalloc_outcome [OF h(2), of 100] h(4) by (auto simp: block_need_100)
  then show ?thesis using h(1,3) by (auto simp: granted_def block_need_100 intro!: exI)
qed

theorem krealloc_correct_witness:
  "\<exists>h p h' q h''. kmem_init 0xffff800000000000 0xffff800000100000 (\<lambda>_. 0xAA) = Inr h \<and> kmalloc 100 h = Some (p, h') \<and>
    krealloc p 5000 h' = Some (q, h'') \<and> (if q = 0 then h'' = h' else hmem h'' q = hmem h' p)"
proof -
  obtain h p h' bs' a where k: "kmem_init 0xffff800000000000 0xffff800000100000 (\<lambda>_. 0xAA) = Inr h" "kmalloc 100 h = Some (p, h')"
      "heap_ok h' bs'" "heap_allocs h' bs' = {(p - 8, a)}" "8 < p" "116 \<le> a"
    using boot_block by blast
  have A: "(p - 8, a) \<in> heap_allocs h' bs'" using k(4) by simp
  obtain q h'' where q: "krealloc p 5000 h' = Some (q, h'')"
      "if q = 0 then h'' = h' else \<forall>i < min 5000 (a - 16). hmem h'' (q + i) = hmem h' (p + i)"
    using krealloc_correct [OF k(3) A k(5), of 5000] by (fastforce split: if_split_asm)
  from q(2) k(6) have "if q = 0 then h'' = h' else hmem h'' q = hmem h' p" by (auto dest: spec [of _ 0] split: if_splits)
  then show ?thesis using k(1,2) q(1) by blast
qed

subsection \<open>\<open>kcalloc\<close> and sizes near \<open>2 ^ 64\<close>\<close>

lemma kcalloc_zeroed:
  assumes ok: "heap_ok h bs" and sz: "0 < sz * nmemb" "sz * nmemb \<le> 2 ^ 32"
  shows "\<exists>p h'. kcalloc nmemb sz h = Some (p, h') \<and>
    (if p = 0 then h' = h else \<exists>bs'. heap_ok h' bs' \<and> (\<forall>i < sz * nmemb. hmem h' (p + i) = 0))"
proof -
  let ?n = "sz * nmemb"
  have md: "?n mod 2 ^ 64 = ?n" using sz by simp
  have f: "fair_size ?n" using sz by simp
  from kmalloc_outcome [OF ok f] show ?thesis
  proof (elim disjE exE conjE)
    fix q h1 bs1 c assume k: "kmalloc ?n h = Some (q, h1)" "granted h bs h1 bs1 q c" "block_need ?n \<le> c"
    have g: "heap_ok h1 bs1" "(q - 8, c) \<in> heap_allocs h1 bs1" "8 < q" using k(2) by (auto simp: granted_def)
    have "heap_ok (h1\<lparr>hmem := kmalloc_memset q 0 ?n (hmem h1)\<rparr>) bs1"
      by (rule heap_ok_payload [OF g]) (use need_facts(1) [OF f] k(3) g(3) in \<open>auto simp: kmalloc_memset_eq\<close>)
    then show ?thesis unfolding kcalloc_def md Let_def using k(1) g(3) by (auto simp: kmalloc_memset_eq)
  next
    assume "kmalloc ?n h = Some (0, h)"
    then show ?thesis unfolding kcalloc_def md Let_def by simp
  qed
qed



end
