(* ===== verification/Lru_Cache.thy ===== *)
theory Lru_Cache
  imports Dll
begin

section \<open>Block device and block cache: \<^verbatim>\<open>src/kernel/fs/caches/lru_cache.c\<close>, \<^verbatim>\<open>read_block\<close> and
  \<^verbatim>\<open>write_block\<close> of \<^verbatim>\<open>src/kernel/fs/disk.c\<close>\<close>

text \<open>
  All file system blocks pass through a cache of at most twelve blocks, kept as a doubly
  linked list with the most recently used block at \<open>head\<close>. The model keeps the node heap with
  its \<open>next\<close> and \<open>prev\<close> pointers, the pointers \<open>head\<close> and \<open>tail\<close>, and the counters.

  The device below (\<^verbatim>\<open>sdhci.c\<close>) is a map from sector number to bytes. Whether transfer number
  \<open>k\<close> succeeds is \<open>io_ok k\<close>, an arbitrary function of the state, so faults may come at any
  time; a write that fails leaves \<open>io_torn k\<close> in its sector. Likewise \<open>km_ok k\<close> tells whether
  allocation number \<open>k\<close> succeeds; the address of an allocation is its serial number, so two
  live nodes never share one. A null pointer dereference is a panic.

  Theorems: the cache is coherent (every cached block equals its sector, so \<open>read_block\<close> and
  \<open>write_block\<close> are reads and writes of a plain array of blocks), it never holds more than
  twelve blocks, and it replaces the least recently used one. The contract upper layers use is
  the locale \<open>block_store\<close>.
\<close>

subsection \<open>State\<close>

record node_st =
  n_data :: "byte list"
  n_dirty :: bool
  n_block :: nat
  n_next :: "nat option"
  n_prev :: "nat option"

record blk =
  sectors :: "nat \<Rightarrow> byte list"
  io_ops :: nat
  io_ok :: "nat \<Rightarrow> bool"
  io_torn :: "nat \<Rightarrow> byte list"
  km_calls :: nat
  km_ok :: "nat \<Rightarrow> bool"
  fs_base_block :: nat
  fs_block_count :: nat
  bytes_per_block :: nat
  lru_nodes :: "nat \<Rightarrow> node_st"
  lru_head :: "nat option"
  lru_tail :: "nat option"
  lru_size :: int
  cache_hits :: u32
  cache_misses :: u32
  cache_evictions :: u32

abbreviation MAX_SIZE :: int where "MAX_SIZE \<equiv> 12"


subsection \<open>Allocation and device transfers\<close>

definition kalloc :: "'a blk_scheme \<Rightarrow> nat option \<times> 'a blk_scheme" where
  "kalloc s = (if km_ok s (km_calls s) then Some (km_calls s) else None,
               s\<lparr>km_calls := km_calls s + 1\<rparr>)"

definition block_read :: "nat \<Rightarrow> 'a blk_scheme \<Rightarrow> int \<times> byte list \<times> 'a blk_scheme" where
  "block_read lba s =
     (let s' = s\<lparr>io_ops := io_ops s + 1\<rparr> in
      if io_ok s (io_ops s) then (0, sectors s lba, s') else (- 1, [], s'))"

definition block_write :: "nat \<Rightarrow> byte list \<Rightarrow> 'a blk_scheme \<Rightarrow> int \<times> 'a blk_scheme" where
  "block_write lba data s =
     (let s' = s\<lparr>io_ops := io_ops s + 1\<rparr> in
      if io_ok s (io_ops s) then (0, s'\<lparr>sectors := (sectors s)(lba := data)\<rparr>)
      else (- 1, s'\<lparr>sectors := (sectors s)(lba := io_torn s (io_ops s))\<rparr>))"

definition map_fs_block_to_disk_block :: "'a blk_scheme \<Rightarrow> nat \<Rightarrow> err_t \<times> nat" where
  "map_fs_block_to_disk_block s num =
     (if fs_block_count s = 0 \<or> num \<ge> fs_block_count s then (INVALID_ARGS, 0)
      else (SUCCESS, (fs_base_block s + num) mod 2 ^ 64))"

definition read_block_data :: "nat \<Rightarrow> 'a blk_scheme \<Rightarrow> err_t \<times> byte list \<times> 'a blk_scheme" where
  "read_block_data num s =
     (let (err, disk_block) = map_fs_block_to_disk_block s num in
      if err \<noteq> SUCCESS then (FILE_READ_ERROR, [], s)
      else let (r, data, s') = block_read disk_block s in
        (if r = 0 then SUCCESS else FILE_READ_ERROR, data, s'))"

definition write_block_data :: "byte list \<Rightarrow> nat \<Rightarrow> 'a blk_scheme \<Rightarrow> err_t \<times> 'a blk_scheme" where
  "write_block_data data num s =
     (let (err, disk_block) = map_fs_block_to_disk_block s num in
      if err \<noteq> SUCCESS then (FILE_WRITE_ERROR, s)
      else let (r, s') = block_write disk_block data s in
        (if r = 0 then SUCCESS else FILE_WRITE_ERROR, s'))"

subsection \<open>The cache list\<close>

definition set_next :: "nat \<Rightarrow> nat option \<Rightarrow> 'a blk_scheme \<Rightarrow> 'a blk_scheme" where
  "set_next p q s = s\<lparr>lru_nodes := (lru_nodes s)(p := (lru_nodes s p)\<lparr>n_next := q\<rparr>)\<rparr>"

definition set_prev :: "nat \<Rightarrow> nat option \<Rightarrow> 'a blk_scheme \<Rightarrow> 'a blk_scheme" where
  "set_prev p q s = s\<lparr>lru_nodes := (lru_nodes s)(p := (lru_nodes s p)\<lparr>n_prev := q\<rparr>)\<rparr>"

definition lru_cache_remove_node :: "nat \<Rightarrow> 'a blk_scheme \<Rightarrow> 'a blk_scheme" where
  "lru_cache_remove_node n s =
     (let s = (if lru_head s = Some n then s\<lparr>lru_head := n_next (lru_nodes s n)\<rparr> else s);
          s = (if lru_tail s = Some n then s\<lparr>lru_tail := n_prev (lru_nodes s n)\<rparr> else s);
          s = (case n_next (lru_nodes s n) of None \<Rightarrow> s
               | Some q \<Rightarrow> set_prev q (n_prev (lru_nodes s n)) s);
          s = (case n_prev (lru_nodes s n) of None \<Rightarrow> s
               | Some q \<Rightarrow> set_next q (n_next (lru_nodes s n)) s);
          s = set_next n None s;
          s = set_prev n None s
      in s\<lparr>lru_size := lru_size s - 1\<rparr>)"

fun get_block_loop :: "(nat \<Rightarrow> node_st) \<Rightarrow> nat \<Rightarrow> nat option \<Rightarrow> nat \<Rightarrow> nat option kres" where
  "get_block_loop nodes 0 cur b = Inr None"
| "get_block_loop nodes (Suc k) None b = Inl data_abort"
| "get_block_loop nodes (Suc k) (Some p) b =
     (if n_block (nodes p) = b then Inr (Some p) else get_block_loop nodes k (n_next (nodes p)) b)"

definition lru_cache_get_block :: "nat \<Rightarrow> 'a blk_scheme \<Rightarrow> nat option kres" where
  "lru_cache_get_block b s = get_block_loop (lru_nodes s) (nat (lru_size s)) (lru_head s) b"

definition lru_cache_remove_back :: "'a blk_scheme \<Rightarrow> (err_t \<times> 'a blk_scheme) kres" where
  "lru_cache_remove_back s =
     (case lru_tail s of
        None \<Rightarrow> Inl data_abort
      | Some n \<Rightarrow>
          let s = lru_cache_remove_node n s;
              s = s\<lparr>cache_evictions := cache_evictions s + 1\<rparr>
          in if n_dirty (lru_nodes s n)
             then Inr (write_block_data (n_data (lru_nodes s n)) (n_block (lru_nodes s n)) s)
             else Inr (SUCCESS, s))"

text \<open>The tail shared by \<open>lru_cache_add_to_front\<close> and \<open>lru_cache_update_data\<close>: link the node at
  the front, then drop the last node when there are too many.\<close>

definition link_node :: "nat \<Rightarrow> 'a blk_scheme \<Rightarrow> 'a blk_scheme" where
  "link_node n s =
     (let s = set_next n (lru_head s) s;
          s = set_prev n None s;
          s = (case lru_head s of None \<Rightarrow> s\<lparr>lru_tail := Some n\<rparr> | Some h \<Rightarrow> set_prev h (Some n) s)
      in s\<lparr>lru_head := Some n, lru_size := lru_size s + 1\<rparr>)"

definition link_front :: "nat \<Rightarrow> 'a blk_scheme \<Rightarrow> (err_t \<times> 'a blk_scheme) kres" where
  "link_front n s =
     (let s = link_node n s in
      if lru_size s > MAX_SIZE then lru_cache_remove_back s else Inr (SUCCESS, s))"

definition new_node :: "nat \<Rightarrow> byte list \<Rightarrow> node_st" where
  "new_node b data = \<lparr>n_data = data, n_dirty = False, n_block = b, n_next = None, n_prev = None\<rparr>"

definition put_node :: "nat \<Rightarrow> node_st \<Rightarrow> 'a blk_scheme \<Rightarrow> 'a blk_scheme" where
  "put_node n nd s = s\<lparr>lru_nodes := (lru_nodes s)(n := nd)\<rparr>"

text \<open>A miss allocates the node, then its data buffer; neither result is checked, so a failed
  allocation is dereferenced.\<close>

definition lru_cache_add_to_front :: "nat \<Rightarrow> 'a blk_scheme \<Rightarrow> (err_t \<times> nat \<times> 'a blk_scheme) kres" where
  "lru_cache_add_to_front b s =
     (case lru_cache_get_block b s of
        Inl e \<Rightarrow> Inl e
      | Inr (Some n) \<Rightarrow>
          (case link_front n (lru_cache_remove_node n (s\<lparr>cache_hits := cache_hits s + 1\<rparr>)) of
             Inl e \<Rightarrow> Inl e | Inr (err, s) \<Rightarrow> Inr (err, n, s))
      | Inr None \<Rightarrow>
          (let s = s\<lparr>cache_misses := cache_misses s + 1\<rparr>;
               (node, s) = kalloc s;
               (buf, s) = kalloc s
           in case (node, buf) of
                (Some n, Some _) \<Rightarrow>
                  (let (err, data, s) = read_block_data b s in
                   if err \<noteq> SUCCESS then Inr (err, n, s)
                   else case link_front n (put_node n (new_node b data) s) of
                     Inl e \<Rightarrow> Inl e | Inr (err, s) \<Rightarrow> Inr (err, n, s))
              | _ \<Rightarrow> Inl data_abort))"

text \<open>The second half of \<open>lru_cache_update_data\<close>, once the node is there: copy, write through,
  link.\<close>

definition update_node :: "nat \<Rightarrow> byte list \<Rightarrow> nat \<Rightarrow> 'a blk_scheme \<Rightarrow> (err_t \<times> 'a blk_scheme) kres" where
  "update_node n data b s =
     (let s = put_node n ((lru_nodes s n)\<lparr>n_data := take (bytes_per_block s) data\<rparr>) s;
          (err, s) = write_block_data (n_data (lru_nodes s n)) b s
      in if err \<noteq> SUCCESS then Inr (err, s)
         else link_front n (put_node n ((lru_nodes s n)\<lparr>n_dirty := False\<rparr>) s))"

definition lru_cache_update_data :: "byte list \<Rightarrow> nat \<Rightarrow> 'a blk_scheme \<Rightarrow> (err_t \<times> 'a blk_scheme) kres" where
  "lru_cache_update_data data b s =
     (case lru_cache_get_block b s of
        Inl e \<Rightarrow> Inl e
      | Inr (Some n) \<Rightarrow>
          update_node n data b (lru_cache_remove_node n (s\<lparr>cache_hits := cache_hits s + 1\<rparr>))
      | Inr None \<Rightarrow>
          (let s = s\<lparr>cache_misses := cache_misses s + 1\<rparr>;
               (node, s) = kalloc s
           in case node of
                None \<Rightarrow> Inr (FILE_WRITE_ERROR, s)
              | Some n \<Rightarrow>
                  (let (buf, s) = kalloc s in
                   if buf = None then Inr (FILE_WRITE_ERROR, s)
                   else update_node n data b (put_node n (new_node b []) s))))"

text \<open>\<open>lru_cache_empty\<close> loops until \<open>tail\<close> is null; \<open>None\<close> is running out of fuel.\<close>

fun lru_cache_empty :: "nat \<Rightarrow> 'a blk_scheme \<Rightarrow> (err_t \<times> 'a blk_scheme) kres option" where
  "lru_cache_empty 0 s = None"
| "lru_cache_empty (Suc k) s =
     (if lru_tail s = None then Some (Inr (SUCCESS, s))
      else case lru_cache_remove_back s of
        Inl e \<Rightarrow> Some (Inl e)
      | Inr (err, s') \<Rightarrow> if err \<noteq> SUCCESS then Some (Inr (err, s')) else lru_cache_empty k s')"

fun count_dirty :: "(nat \<Rightarrow> node_st) \<Rightarrow> nat \<Rightarrow> nat option \<Rightarrow> nat option" where
  "count_dirty nodes k None = Some 0"
| "count_dirty nodes 0 (Some p) = None"
| "count_dirty nodes (Suc k) (Some p) =
     map_option (\<lambda>c. (if n_dirty (nodes p) then 1 else 0) + c) (count_dirty nodes k (n_next (nodes p)))"

record lru_cache_stats =
  capacity_blocks :: u32
  used_blocks :: u32
  hits :: u32
  misses :: u32
  evictions :: u32
  dirty_blocks :: u32

definition lru_cache_get_stats :: "nat \<Rightarrow> 'a blk_scheme \<Rightarrow> lru_cache_stats option" where
  "lru_cache_get_stats fuel s =
     map_option (\<lambda>dirty. \<lparr>capacity_blocks = 12, used_blocks = word_of_int (lru_size s), hits = cache_hits s,
        misses = cache_misses s, evictions = cache_evictions s, dirty_blocks = of_nat dirty\<rparr>)
       (count_dirty (lru_nodes s) fuel (lru_head s))"

subsection \<open>Block reads and writes\<close>

definition read_block :: "nat \<Rightarrow> 'a blk_scheme \<Rightarrow> (err_t \<times> byte list \<times> 'a blk_scheme) kres" where
  "read_block num s =
     (case lru_cache_add_to_front num s of
        Inl e \<Rightarrow> Inl e
      | Inr (err, n, s') \<Rightarrow>
          if err \<noteq> SUCCESS then Inr (err, [], s')
          else Inr (SUCCESS, take (bytes_per_block s') (n_data (lru_nodes s' n)), s'))"

definition write_block :: "byte list \<Rightarrow> nat \<Rightarrow> 'a blk_scheme \<Rightarrow> (err_t \<times> 'a blk_scheme) kres" where
  "write_block data num s = lru_cache_update_data data num s"

subsection \<open>The list behind the pointers\<close>

definition cached :: "'a blk_scheme \<Rightarrow> nat list \<Rightarrow> bool" where
  "cached s xs \<longleftrightarrow>
     dll (lru_head s) (lru_tail s) (\<lambda>p. n_next (lru_nodes s p)) (\<lambda>p. n_prev (lru_nodes s p)) xs \<and>
     lru_size s = int (length xs)"

definition payload :: "node_st \<Rightarrow> byte list \<times> bool \<times> nat" where
  "payload nd = (n_data nd, n_dirty nd, n_block nd)"

text \<open>Everything but the cache.\<close>

definition rest :: "'a blk_scheme \<Rightarrow> _" where
  "rest s = (sectors s, io_ops s, io_ok s, io_torn s, km_calls s, km_ok s, fs_base_block s,
             fs_block_count s, bytes_per_block s, blk.more s)"

lemma set_link_simps [simp]:
  "lru_head (set_next p q s) = lru_head s" "lru_head (set_prev p q s) = lru_head s"
  "lru_tail (set_next p q s) = lru_tail s" "lru_tail (set_prev p q s) = lru_tail s"
  "lru_size (set_next p q s) = lru_size s" "lru_size (set_prev p q s) = lru_size s"
  "rest (set_next p q s) = rest s" "rest (set_prev p q s) = rest s"
  "n_next (lru_nodes (set_next p q s) r) = (if r = p then q else n_next (lru_nodes s r))"
  "n_prev (lru_nodes (set_next p q s) r) = n_prev (lru_nodes s r)"
  "n_next (lru_nodes (set_prev p q s) r) = n_next (lru_nodes s r)"
  "n_prev (lru_nodes (set_prev p q s) r) = (if r = p then q else n_prev (lru_nodes s r))"
  "payload (lru_nodes (set_next p q s) r) = payload (lru_nodes s r)"
  "payload (lru_nodes (set_prev p q s) r) = payload (lru_nodes s r)"
  by (simp_all add: set_next_def set_prev_def payload_def rest_def)

lemma rest_updates [simp]:
  "rest (s\<lparr>lru_head := h\<rparr>) = rest s" "rest (s\<lparr>lru_tail := t\<rparr>) = rest s" "rest (s\<lparr>lru_size := k\<rparr>) = rest s"
  "rest (s\<lparr>cache_hits := c\<rparr>) = rest s" "rest (s\<lparr>cache_misses := c\<rparr>) = rest s"
  "rest (s\<lparr>cache_evictions := c\<rparr>) = rest s" "rest (put_node n nd s) = rest s"
  by (simp_all add: rest_def put_node_def)

lemma remove_node_frame [simp]:
  "rest (lru_cache_remove_node n s) = rest s"
  "payload (lru_nodes (lru_cache_remove_node n s) p) = payload (lru_nodes s p)"
  by (auto simp: lru_cache_remove_node_def Let_def split: option.split)

lemma link_node_frame [simp]:
  "rest (link_node n s) = rest s"
  "payload (lru_nodes (link_node n s) p) = payload (lru_nodes s p)"
  by (auto simp: link_node_def Let_def split: option.split)

lemma remove_node_cached:
  assumes "cached s (xs @ n # ys)"
  shows "cached (lru_cache_remove_node n s) (xs @ ys)"
proof -
  let ?nx = "\<lambda>p. n_next (lru_nodes s p)" and ?pv = "\<lambda>p. n_prev (lru_nodes s p)"
  let ?s = "lru_cache_remove_node n s"
  have d: "dll (lru_head s) (lru_tail s) ?nx ?pv (xs @ n # ys)" using assms by (simp add: cached_def)
  note e = dll_ends [OF d]
  have ne: "first_of ys None \<noteq> Some n" "last_of None xs \<noteq> Some n"
    using e(5,6) by (auto simp: first_of_Some last_of_Some)
  have ends: "lru_head ?s = first_of (xs @ ys) None" "lru_tail ?s = last_of None (xs @ ys)"
    using dll_unlink_ends [OF d] by (auto simp: lru_cache_remove_node_def Let_def split: option.split)
  have "dll (lru_head ?s) (lru_tail ?s) (\<lambda>p. n_next (lru_nodes ?s p)) (\<lambda>p. n_prev (lru_nodes ?s p)) (xs @ ys)"
  proof (rule dll_unlink [OF d _ _ ends])
    fix x assume x: "x \<in> set (xs @ ys)"
    then have "x \<noteq> n" using e(5,6) by auto
    then show "n_next (lru_nodes ?s x) = (if last_of None xs = Some x then first_of ys None else ?nx x)"
      "n_prev (lru_nodes ?s x) = (if first_of ys None = Some x then last_of None xs else ?pv x)"
      using e(1,2) ne by (auto simp: lru_cache_remove_node_def Let_def split: option.split)
  qed
  moreover have "lru_size ?s = int (length (xs @ ys))"
    using assms by (auto simp: cached_def lru_cache_remove_node_def Let_def split: option.split)
  ultimately show ?thesis by (simp add: cached_def)
qed

lemma link_node_cached:
  assumes "cached s xs" "n \<notin> set xs"
  shows "cached (link_node n s) (n # xs)"
proof -
  let ?s = "link_node n s"
  have d: "dll (lru_head s) (lru_tail s) (\<lambda>p. n_next (lru_nodes s p)) (\<lambda>p. n_prev (lru_nodes s p)) xs"
    using assms by (simp add: cached_def)
  have hn: "lru_head s \<noteq> Some n" using d assms(2) by (auto simp: dll_def first_of_Some)
  have "dll (lru_head ?s) (lru_tail ?s) (\<lambda>p. n_next (lru_nodes ?s p)) (\<lambda>p. n_prev (lru_nodes ?s p)) (n # xs)"
  proof (rule dll_push_front [OF d assms(2)])
    fix x assume "x \<in> set xs"
    then have "x \<noteq> n" using assms(2) by auto
    then show "n_next (lru_nodes ?s x) = n_next (lru_nodes s x)"
      "n_prev (lru_nodes ?s x) = (if lru_head s = Some x then Some n else n_prev (lru_nodes s x))"
      by (auto simp: link_node_def Let_def split: option.split)
  qed (use hn in \<open>auto simp: link_node_def Let_def split: option.split\<close>)
  moreover have "lru_size ?s = int (length (n # xs))"
    using assms(1) by (auto simp: cached_def link_node_def Let_def split: option.split)
  ultimately show ?thesis by (simp add: cached_def)
qed

subsection \<open>Coherence\<close>

text \<open>The addresses met by following \<open>next\<close> from \<open>head\<close>, and the blocks they cache.\<close>

fun walk :: "(nat \<Rightarrow> node_st) \<Rightarrow> nat \<Rightarrow> nat option \<Rightarrow> nat list" where
  "walk nodes 0 p = []"
| "walk nodes (Suc k) None = []"
| "walk nodes (Suc k) (Some p) = p # walk nodes k (n_next (nodes p))"

definition lru_list :: "'a blk_scheme \<Rightarrow> nat list" where
  "lru_list s = walk (lru_nodes s) (nat (lru_size s)) (lru_head s)"

definition lru_blocks :: "'a blk_scheme \<Rightarrow> nat list" where
  "lru_blocks s = map (\<lambda>p. n_block (lru_nodes s p)) (lru_list s)"

definition node_ok :: "'a blk_scheme \<Rightarrow> nat \<Rightarrow> bool" where
  "node_ok s p \<longleftrightarrow>
     p < km_calls s \<and> \<not> n_dirty (lru_nodes s p) \<and> n_block (lru_nodes s p) < fs_block_count s \<and>
     n_data (lru_nodes s p) = sectors s (fs_base_block s + n_block (lru_nodes s p))"

definition holds :: "'a blk_scheme \<Rightarrow> nat list \<Rightarrow> bool" where
  "holds s xs \<longleftrightarrow>
     cached s xs \<and> distinct (map (\<lambda>p. n_block (lru_nodes s p)) xs) \<and> list_all (node_ok s) xs"

definition geometry_ok :: "'a blk_scheme \<Rightarrow> bool" where
  "geometry_ok s \<longleftrightarrow>
     fs_base_block s + fs_block_count s \<le> 2 ^ 64 \<and>
     (\<forall>l. length (sectors s l) = bytes_per_block s) \<and> (\<forall>k. length (io_torn s k) = bytes_per_block s)"

definition blk_inv :: "'a blk_scheme \<Rightarrow> bool" where
  "blk_inv s \<longleftrightarrow> geometry_ok s \<and> holds s (lru_list s) \<and> length (lru_list s) \<le> 12"

definition blk_content :: "'a blk_scheme \<Rightarrow> nat \<Rightarrow> byte list" where
  "blk_content s b = sectors s (fs_base_block s + b)"

lemma walk_seg:
  "seg (\<lambda>p. n_next (nodes p)) pv q xs None \<Longrightarrow> walk nodes (length xs) (first_of xs None) = xs"
  by (induction xs arbitrary: q) auto

lemma lru_list_cached: "cached s xs \<Longrightarrow> lru_list s = xs"
  by (auto simp: cached_def lru_list_def dll_def walk_seg)

lemma get_block_seg:
  "seg (\<lambda>p. n_next (nodes p)) pv q xs None \<Longrightarrow>
     get_block_loop nodes (length xs) (first_of xs None) b = Inr (List.find (\<lambda>p. n_block (nodes p) = b) xs)"
  by (induction xs arbitrary: q) auto

lemma get_block_cached:
  "cached s xs \<Longrightarrow> lru_cache_get_block b s = Inr (List.find (\<lambda>p. n_block (lru_nodes s p) = b) xs)"
  by (auto simp: cached_def lru_cache_get_block_def dll_def get_block_seg)

lemma n_block_payload: "payload nd = payload nd' \<Longrightarrow> n_block nd = n_block nd'"
  by (simp add: payload_def)

lemma node_ok_frame:
  "rest s' = rest s \<Longrightarrow> payload (lru_nodes s' p) = payload (lru_nodes s p) \<Longrightarrow> node_ok s' p = node_ok s p"
  by (simp add: node_ok_def rest_def payload_def)

lemma holds_frame:
  assumes "cached s' xs'" "rest s' = rest s"
    and pay: "\<And>p. p \<in> set xs' \<Longrightarrow> payload (lru_nodes s' p) = payload (lru_nodes s p)"
    and "distinct (map (\<lambda>p. n_block (lru_nodes s p)) xs')" "list_all (node_ok s) xs'"
  shows "holds s' xs'"
proof -
  have eq: "map (\<lambda>p. n_block (lru_nodes s' p)) xs' = map (\<lambda>p. n_block (lru_nodes s p)) xs'"
    using pay by (auto intro: n_block_payload)
  show ?thesis
    unfolding holds_def eq using assms(1,4,5) node_ok_frame [OF assms(2) pay] by (auto simp: list_all_iff)
qed

lemma geometry_frame: "rest s' = rest s \<Longrightarrow> geometry_ok s' = geometry_ok s"
  by (simp add: geometry_ok_def rest_def)

lemma content_frame: "rest s' = rest s \<Longrightarrow> blk_content s' = blk_content s"
  by (auto simp: blk_content_def rest_def)

lemma blk_invI: "geometry_ok s \<Longrightarrow> holds s xs \<Longrightarrow> length xs \<le> 12 \<Longrightarrow> blk_inv s"
  using lru_list_cached [of s xs] by (auto simp: blk_inv_def holds_def)

lemma lru_blocks_holds: "holds s xs \<Longrightarrow> lru_blocks s = map (\<lambda>p. n_block (lru_nodes s p)) xs"
  using lru_list_cached [of s xs] by (simp add: lru_blocks_def holds_def)

lemma remove_node_holds:
  assumes "holds s (xs @ n # ys)"
  shows "holds (lru_cache_remove_node n s) (xs @ ys)"
  using assms
  by (intro holds_frame [where s = s]) (auto simp: holds_def remove_node_cached)

lemma holds_update_cache_only:
  "holds (s\<lparr>cache_hits := c\<rparr>) xs = holds s xs" "holds (s\<lparr>cache_misses := c\<rparr>) xs = holds s xs"
  "holds (s\<lparr>cache_evictions := c\<rparr>) xs = holds s xs"
  by (simp_all add: holds_def cached_def node_ok_def [abs_def])

text \<open>Linking a coherent node at the front: it is then the first, and the cache is cut to
  twelve.\<close>

lemma link_front_holds:
  assumes "holds s xs" "length xs \<le> 12" "n \<notin> set xs" "node_ok s n"
    and "n_block (lru_nodes s n) \<notin> n_block ` lru_nodes s ` set xs"
  obtains s' where "link_front n s = Inr (SUCCESS, s')" "holds s' (take 12 (n # xs))"
    "rest s' = rest s" "\<And>p. payload (lru_nodes s' p) = payload (lru_nodes s p)"
proof -
  let ?s = "link_node n s"
  have h: "holds ?s (n # xs)"
    using assms by (intro holds_frame [where s = s]) (auto simp: holds_def link_node_cached image_image)
  then have c: "cached ?s (n # xs)" by (simp add: holds_def)
  show thesis
  proof (cases "length xs < 12")
    case True
    then have "link_front n s = Inr (SUCCESS, ?s)"
      using c by (simp add: link_front_def Let_def cached_def)
    moreover have "take 12 (n # xs) = n # xs" using True by simp
    ultimately show thesis using h that [of ?s] by simp
  next
    case False
    then obtain zs t where z: "n # xs = zs @ [t]" "length zs = 12"
      using assms(2) by (cases xs rule: rev_cases) (auto simp: Cons_eq_append_conv)
    let ?s' = "lru_cache_remove_node t ?s"
    let ?s'' = "?s'\<lparr>cache_evictions := cache_evictions ?s' + 1\<rparr>"
    have r: "holds ?s' zs" using remove_node_holds [of ?s zs t "[]"] h z by simp
    have "lru_tail ?s = Some t" using c z by (simp add: cached_def dll_def)
    moreover have "node_ok ?s t" using h z by (simp add: holds_def)
    then have "\<not> n_dirty (lru_nodes ?s' t)"
      using remove_node_frame(2) [of t ?s t] by (simp add: node_ok_def payload_def)
    moreover have "lru_size ?s > 12" using c z by (simp add: cached_def del: length_Cons)
    ultimately have "link_front n s = Inr (SUCCESS, ?s'')"
      by (simp add: link_front_def lru_cache_remove_back_def Let_def)
    moreover have "take 12 (n # xs) = zs" using z by (metis append_eq_conv_conj)
    ultimately show thesis using r that [of ?s''] by (simp add: holds_update_cache_only)
  qed
qed

text \<open>A lookup splits the list at the node that caches the block.\<close>

lemma get_block_cases:
  assumes "holds s xs"
  obtains (hit) n us vs where "lru_cache_get_block b s = Inr (Some n)" "xs = us @ n # vs"
      "n_block (lru_nodes s n) = b" "n \<notin> set (us @ vs)"
      "b \<notin> n_block ` lru_nodes s ` set (us @ vs)" "node_ok s n"
  | (miss) "lru_cache_get_block b s = Inr None" "b \<notin> n_block ` lru_nodes s ` set xs"
proof (cases "List.find (\<lambda>p. n_block (lru_nodes s p) = b) xs")
  case None
  then show thesis using assms get_block_cached [of s xs b]
    by (intro miss) (auto simp: holds_def find_None_iff)
next
  case (Some n)
  then have n: "n_block (lru_nodes s n) = b" "n \<in> set xs" by (auto simp: find_Some_iff)
  then obtain us vs where xs: "xs = us @ n # vs" by (auto simp: in_set_conv_decomp)
  moreover have "distinct (map (\<lambda>p. n_block (lru_nodes s p)) xs)" using assms by (simp add: holds_def)
  ultimately have "b \<notin> n_block ` lru_nodes s ` set (us @ vs)" using n by (auto simp: image_image)
  moreover have "n \<notin> set (us @ vs)" using calculation n by auto
  ultimately show thesis
    using Some n xs assms get_block_cached [of s xs b] by (intro hit) (auto simp: holds_def)
qed

lemma filter_other_blocks:
  assumes "n_block (lru_nodes s n) = b" "b \<notin> n_block ` lru_nodes s ` set (us @ vs)"
  shows "filter (\<lambda>c. c \<noteq> b) (map (\<lambda>p. n_block (lru_nodes s p)) (us @ n # vs))
       = map (\<lambda>p. n_block (lru_nodes s p)) (us @ vs)"
proof -
  have "filter (\<lambda>c. c \<noteq> b) (map (\<lambda>p. n_block (lru_nodes s p)) ws) = map (\<lambda>p. n_block (lru_nodes s p)) ws"
    if "set ws \<subseteq> set (us @ vs)" for ws
    using that assms(2) by (intro filter_True) auto
  from this [of us] this [of vs] show ?thesis using assms(1) by simp
qed

lemma kalloc_frame:
  assumes "kalloc s = (r, s')" "holds s xs"
  shows "holds s' xs" "geometry_ok s' = geometry_ok s" "km_calls s' = km_calls s + 1"
    "r = (if km_ok s (km_calls s) then Some (km_calls s) else None)"
    "sectors s' = sectors s" "io_ops s' = io_ops s" "io_ok s' = io_ok s" "km_ok s' = km_ok s"
    "fs_base_block s' = fs_base_block s" "fs_block_count s' = fs_block_count s"
    "bytes_per_block s' = bytes_per_block s" "lru_nodes s' = lru_nodes s" "blk.more s' = blk.more s"
    "io_torn s' = io_torn s"
  using assms by (auto simp: kalloc_def holds_def cached_def node_ok_def geometry_ok_def list_all_iff)

text \<open>A hit moves the node to the front; nothing but the cache changes.\<close>

lemma touch_hit:
  assumes "holds s (us @ n # vs)" "length (us @ n # vs) \<le> 12" "node_ok s n"
    and "n \<notin> set (us @ vs)" "n_block (lru_nodes s n) \<notin> n_block ` lru_nodes s ` set (us @ vs)"
  obtains s' where
    "link_front n (lru_cache_remove_node n (s\<lparr>cache_hits := c\<rparr>)) = Inr (SUCCESS, s')"
    "holds s' (n # us @ vs)" "rest s' = rest s" "\<And>p. payload (lru_nodes s' p) = payload (lru_nodes s p)"
proof -
  let ?s = "lru_cache_remove_node n (s\<lparr>cache_hits := c\<rparr>)"
  have h: "holds ?s (us @ vs)" using assms(1) by (intro remove_node_holds) (simp add: holds_update_cache_only)
  have pay: "payload (lru_nodes ?s p) = payload (lru_nodes s p)" for p by simp
  then have blk: "n_block (lru_nodes ?s p) = n_block (lru_nodes s p)" for p by (rule n_block_payload)
  have "node_ok ?s n" using assms(3) node_ok_frame [of ?s s n] by simp
  then obtain s' where "link_front n ?s = Inr (SUCCESS, s')" "holds s' (take 12 (n # us @ vs))"
      "rest s' = rest ?s" "\<And>p. payload (lru_nodes s' p) = payload (lru_nodes ?s p)"
    using link_front_holds [OF h, of n] assms(2,4,5) blk by (auto simp: image_image)
  moreover have "take 12 (n # us @ vs) = n # us @ vs" using assms(2) by simp
  ultimately show thesis using that [of s'] by simp
qed

lemma read_hit:
  assumes "holds s xs" "length xs \<le> 12" "geometry_ok s" "b \<in> n_block ` lru_nodes s ` set xs"
  obtains s' ys where "read_block b s = Inr (SUCCESS, blk_content s b, s')" "rest s' = rest s"
    "holds s' ys" "length ys \<le> 12" "lru_blocks s' = b # filter (\<lambda>c. c \<noteq> b) (lru_blocks s)"
    "b < fs_block_count s"
  using assms(1)
proof (cases rule: get_block_cases [where b = b])
  case (hit n us vs)
  obtain s' where s': "link_front n (lru_cache_remove_node n (s\<lparr>cache_hits := cache_hits s + 1\<rparr>)) = Inr (SUCCESS, s')"
      "holds s' (n # us @ vs)" "rest s' = rest s" "\<And>p. payload (lru_nodes s' p) = payload (lru_nodes s p)"
    using touch_hit [of s us n vs] assms(1,2) hit by metis
  have blk: "n_block (lru_nodes s' p) = n_block (lru_nodes s p)" for p by (rule n_block_payload) (rule s'(4))
  have "n_data (lru_nodes s' n) = blk_content s b" "b < fs_block_count s"
    using s'(4) [of n] hit by (auto simp: payload_def node_ok_def blk_content_def)
  moreover have "bytes_per_block s' = bytes_per_block s" using s'(3) by (simp add: rest_def)
  moreover have "length (blk_content s b) = bytes_per_block s" using assms(3) by (simp add: geometry_ok_def blk_content_def)
  ultimately have "read_block b s = Inr (SUCCESS, blk_content s b, s')"
    using hit s'(1) by (simp add: read_block_def lru_cache_add_to_front_def)
  moreover have "lru_blocks s' = b # filter (\<lambda>c. c \<noteq> b) (lru_blocks s)"
    using lru_blocks_holds [OF s'(2)] lru_blocks_holds [OF assms(1)] filter_other_blocks [OF hit(3,5)] hit(2,3)
    by (simp add: blk)
  ultimately show thesis using that [of s' "n # us @ vs"] s' assms(2) hit(2) \<open>b < fs_block_count s\<close> by simp
qed (use assms in auto)

text \<open>Everything that persists across operations, apart from the sectors.\<close>

definition env :: "'a blk_scheme \<Rightarrow> _" where
  "env s = (io_ok s, io_torn s, km_ok s, fs_base_block s, fs_block_count s, bytes_per_block s, blk.more s)"

lemma env_rest: "rest s' = rest s \<Longrightarrow> env s' = env s" "rest s' = rest s \<Longrightarrow> sectors s' = sectors s"
  "rest s' = rest s \<Longrightarrow> io_ops s' = io_ops s"
  by (simp_all add: rest_def env_def)

lemma env_simps:
  "env s' = env s \<Longrightarrow> fs_base_block s' = fs_base_block s \<and> fs_block_count s' = fs_block_count s \<and>
     bytes_per_block s' = bytes_per_block s \<and> io_torn s' = io_torn s"
  by (simp add: env_def)

text \<open>The state after the allocations of a miss: two serial numbers used, nothing else.\<close>

definition bump :: "nat \<Rightarrow> 'a blk_scheme \<Rightarrow> 'a blk_scheme" where
  "bump k s = s\<lparr>cache_misses := cache_misses s + 1, km_calls := km_calls s + k\<rparr>"

lemma bump_simps [simp]:
  "km_calls (bump k s) = km_calls s + k" "sectors (bump k s) = sectors s" "io_ops (bump k s) = io_ops s"
  "io_ok (bump k s) = io_ok s" "lru_nodes (bump k s) = lru_nodes s" "env (bump k s) = env s"
  "fs_base_block (bump k s) = fs_base_block s" "fs_block_count (bump k s) = fs_block_count s"
  "bytes_per_block (bump k s) = bytes_per_block s" "geometry_ok (bump k s) = geometry_ok s"
  "io_torn (bump k s) = io_torn s"
  by (simp_all add: bump_def env_def geometry_ok_def)

lemma bump_holds [simp]: "holds s xs \<Longrightarrow> holds (bump k s) xs"
  by (auto simp: bump_def holds_def cached_def node_ok_def list_all_iff)

lemma holds_fresh: "holds s xs \<Longrightarrow> km_calls s \<notin> set xs"
  by (auto simp: holds_def list_all_iff node_ok_def)

lemma holds_put_fresh:
  assumes "holds s xs" "n \<notin> set xs"
  shows "holds (put_node n nd s) xs"
proof -
  have "lru_nodes (put_node n nd s) p = lru_nodes s p" if "p \<in> set xs" for p
    using that assms(2) by (auto simp: put_node_def)
  then have "seg (\<lambda>p. n_next (lru_nodes (put_node n nd s) p)) (\<lambda>p. n_prev (lru_nodes (put_node n nd s) p)) None xs None
      = seg (\<lambda>p. n_next (lru_nodes s p)) (\<lambda>p. n_prev (lru_nodes s p)) None xs None"
    by (intro seg_cong) simp
  then have "cached (put_node n nd s) xs"
    using assms(1) by (simp add: holds_def cached_def dll_def) (simp add: put_node_def)
  then show ?thesis
    using assms by (intro holds_frame [where s = s]) (auto simp: holds_def put_node_def rest_def)
qed

lemma lba_exact:
  "geometry_ok s \<Longrightarrow> b < fs_block_count s \<Longrightarrow>
     map_fs_block_to_disk_block s b = (SUCCESS, fs_base_block s + b)"
  by (simp add: map_fs_block_to_disk_block_def geometry_ok_def)

text \<open>Linking a fresh node for block \<open>b\<close> whose data is the sector.\<close>

lemma link_fresh:
  assumes "holds s xs" "length xs \<le> 12" "n \<notin> set xs" "n < km_calls s" "b < fs_block_count s"
    and "b \<notin> n_block ` lru_nodes s ` set xs" "payload nd = (blk_content s b, False, b)"
  obtains s' where "link_front n (put_node n nd s) = Inr (SUCCESS, s')" "rest s' = rest s"
    "holds s' (take 12 (n # xs))" "payload (lru_nodes s' n) = payload nd"
    "lru_blocks s' = take 12 (b # map (\<lambda>p. n_block (lru_nodes s p)) xs)"
proof -
  let ?s = "put_node n nd s"
  have h: "holds ?s xs" using holds_put_fresh [OF assms(1,3)] .
  have nb: "n_block nd = b" using assms(7) by (simp add: payload_def)
  have other: "lru_nodes ?s p = lru_nodes s p" if "p \<in> set xs" for p
    using that assms(3) by (auto simp: put_node_def)
  have ok: "node_ok ?s n"
    using assms(4,5,7) by (auto simp: node_ok_def put_node_def payload_def blk_content_def)
  have "n_block (lru_nodes ?s n) \<notin> n_block ` lru_nodes ?s ` set xs"
  proof -
    have "lru_nodes ?s ` set xs = lru_nodes s ` set xs" using other by (auto simp: image_iff)
    then show ?thesis using assms(6) nb by (simp add: put_node_def)
  qed
  from link_front_holds [OF h assms(2,3) ok this]
  obtain s' where s': "link_front n ?s = Inr (SUCCESS, s')" "holds s' (take 12 (n # xs))"
    "rest s' = rest ?s" "\<And>p. payload (lru_nodes s' p) = payload (lru_nodes ?s p)" by blast
  have "n_block (lru_nodes s' p) = n_block (lru_nodes ?s p)" for p
    using s'(4) by (rule n_block_payload)
  then have "map (\<lambda>p. n_block (lru_nodes s' p)) (n # xs) = b # map (\<lambda>p. n_block (lru_nodes s p)) xs"
    using nb other by (simp add: put_node_def)
  then have "lru_blocks s' = take 12 (b # map (\<lambda>p. n_block (lru_nodes s p)) xs)"
    using lru_blocks_holds [OF s'(2)] by (simp only: take_map [symmetric])
  moreover have "payload (lru_nodes s' n) = payload nd" using s'(4) [of n] by (simp add: put_node_def)
  ultimately show thesis using s'(1,2,3) that [of s'] by simp
qed

lemma read_miss:
  assumes "holds s xs" "length xs \<le> 12" "geometry_ok s" "b \<notin> n_block ` lru_nodes s ` set xs"
  shows "\<not> (km_ok s (km_calls s) \<and> km_ok s (km_calls s + 1)) \<Longrightarrow> read_block b s = Inl data_abort"
    and "km_ok s (km_calls s) \<Longrightarrow> km_ok s (km_calls s + 1) \<Longrightarrow>
      b \<ge> fs_block_count s \<or> \<not> io_ok s (io_ops s) \<Longrightarrow>
      \<exists>s'. read_block b s = Inr (FILE_READ_ERROR, [], s') \<and> env s' = env s \<and> sectors s' = sectors s \<and> holds s' xs
        \<and> lru_nodes s' = lru_nodes s"
    and "km_ok s (km_calls s) \<Longrightarrow> km_ok s (km_calls s + 1) \<Longrightarrow> b < fs_block_count s \<Longrightarrow> io_ok s (io_ops s) \<Longrightarrow>
      \<exists>s'. read_block b s = Inr (SUCCESS, blk_content s b, s') \<and> env s' = env s \<and> sectors s' = sectors s \<and>
        holds s' (take 12 (km_calls s # xs)) \<and>
        lru_blocks s' = take 12 (b # map (\<lambda>p. n_block (lru_nodes s p)) xs)"
proof -
  have g: "lru_cache_get_block b s = Inr None"
    using assms(1,4) get_block_cached [of s xs b] by (auto simp: holds_def find_None_iff)
  have k: "kalloc (snd (kalloc (s\<lparr>cache_misses := cache_misses s + 1\<rparr>))) =
      (if km_ok s (km_calls s + 1) then Some (km_calls s + 1) else None, bump 2 s)"
    by (simp add: kalloc_def bump_def)
  note add = lru_cache_add_to_front_def [of b s] g k
  show "read_block b s = Inl data_abort" if "\<not> (km_ok s (km_calls s) \<and> km_ok s (km_calls s + 1))"
    using that add by (auto simp: read_block_def Let_def split_beta kalloc_def)
  assume km: "km_ok s (km_calls s)" "km_ok s (km_calls s + 1)"
  have fst: "fst (kalloc (s\<lparr>cache_misses := cache_misses s + 1\<rparr>)) = Some (km_calls s)"
    using km by (simp add: kalloc_def)
  have add: "lru_cache_add_to_front b s =
      (let (err, data, s1) = read_block_data b (bump 2 s) in
       if err \<noteq> SUCCESS then Inr (err, km_calls s, s1)
       else case link_front (km_calls s) (put_node (km_calls s) (new_node b data) s1) of
         Inl e \<Rightarrow> Inl e | Inr (err, s2) \<Rightarrow> Inr (err, km_calls s, s2))"
    using km fst by (simp add: lru_cache_add_to_front_def g k Let_def split_beta)
  let ?s = "(bump 2 s)\<lparr>io_ops := io_ops s + 1\<rparr>"
  have h: "holds ?s xs" "geometry_ok ?s" "env ?s = env s"
    using bump_holds [OF assms(1), of 2] assms(3)
    by (auto simp: holds_def cached_def node_ok_def list_all_iff geometry_ok_def env_def bump_def)
  show "\<exists>s'. read_block b s = Inr (FILE_READ_ERROR, [], s') \<and> env s' = env s \<and> sectors s' = sectors s \<and> holds s' xs
        \<and> lru_nodes s' = lru_nodes s"
    if "b \<ge> fs_block_count s \<or> \<not> io_ok s (io_ops s)"
  proof (cases "b \<ge> fs_block_count s")
    case True
    then have "read_block b s = Inr (FILE_READ_ERROR, [], bump 2 s)"
      by (simp add: read_block_def add read_block_data_def map_fs_block_to_disk_block_def)
    then show ?thesis using assms(1) by auto
  next
    case False
    then have "read_block b s = Inr (FILE_READ_ERROR, [], ?s)"
      using that lba_exact [of "bump 2 s" b] assms(3)
      by (simp add: read_block_def add read_block_data_def block_read_def Let_def)
    then show ?thesis using h by auto
  qed
  assume b: "b < fs_block_count s" and io: "io_ok s (io_ops s)"
  have r: "read_block_data b (bump 2 s) = (SUCCESS, blk_content s b, ?s)"
    using b io lba_exact [of "bump 2 s" b] assms(3)
    by (simp add: read_block_data_def block_read_def Let_def blk_content_def)
  obtain s' where s': "link_front (km_calls s) (put_node (km_calls s) (new_node b (blk_content s b)) ?s) = Inr (SUCCESS, s')"
      "rest s' = rest ?s" "holds s' (take 12 (km_calls s # xs))"
      "payload (lru_nodes s' (km_calls s)) = payload (new_node b (blk_content s b))"
      "lru_blocks s' = take 12 (b # map (\<lambda>p. n_block (lru_nodes ?s p)) xs)"
  proof (rule link_fresh [OF h(1) assms(2)])
    show "km_calls s \<notin> set xs" using assms(1) by (rule holds_fresh)
    show "payload (new_node b (blk_content s b)) = (blk_content ?s b, False, b)"
      by (simp add: payload_def new_node_def blk_content_def)
  qed (use assms(4) b in auto)
  have "length (blk_content s b) = bytes_per_block s" using assms(3) by (simp add: geometry_ok_def blk_content_def)
  moreover have "bytes_per_block s' = bytes_per_block s" "n_data (lru_nodes s' (km_calls s)) = blk_content s b"
    using s'(2,4) by (auto simp: rest_def payload_def new_node_def)
  ultimately have "read_block b s = Inr (SUCCESS, blk_content s b, s')"
    using s'(1) by (simp add: read_block_def add r)
  then show "\<exists>s'. read_block b s = Inr (SUCCESS, blk_content s b, s') \<and> env s' = env s \<and> sectors s' = sectors s \<and>
        holds s' (take 12 (km_calls s # xs)) \<and>
        lru_blocks s' = take 12 (b # map (\<lambda>p. n_block (lru_nodes s p)) xs)"
    using s' env_rest [OF s'(2)] h(3) by auto
qed

subsection \<open>Writes\<close>

lemma put_node_simps [simp]:
  "geometry_ok (put_node n nd s) = geometry_ok s" "env (put_node n nd s) = env s"
  "n \<notin> A \<Longrightarrow> lru_nodes (put_node n nd s) ` A = lru_nodes s ` A"
  by (auto simp: put_node_def geometry_ok_def env_def)

text \<open>Writing the sector of an uncached block keeps the cached ones coherent.\<close>

lemma holds_write_other:
  assumes "holds s xs" "b \<notin> n_block ` lru_nodes s ` set xs"
  shows "holds (s\<lparr>io_ops := k, sectors := (sectors s)(fs_base_block s + b := d)\<rparr>) xs"
  using assms by (auto simp: holds_def cached_def node_ok_def list_all_iff image_image)

lemma geometry_write:
  "geometry_ok s \<Longrightarrow> length d = bytes_per_block s \<Longrightarrow>
     geometry_ok (s\<lparr>io_ops := k, sectors := (sectors s)(l := d)\<rparr>)"
  by (simp add: geometry_ok_def)

lemma update_node_error:
  assumes "holds s xs" "geometry_ok s" "n \<notin> set xs" "b \<notin> n_block ` lru_nodes s ` set xs"
    and "b \<ge> fs_block_count s \<or> \<not> io_ok s (io_ops s)"
  shows "\<exists>s'. update_node n data b s = Inr (FILE_WRITE_ERROR, s') \<and> env s' = env s \<and> holds s' xs \<and>
    sectors s' = (if b < fs_block_count s then (sectors s)(fs_base_block s + b := io_torn s (io_ops s)) else sectors s)"
proof -
  let ?nd = "(lru_nodes s n)\<lparr>n_data := take (bytes_per_block s) data\<rparr>"
  let ?s = "put_node n ?nd s"
  have h: "holds ?s xs" "geometry_ok ?s" "env ?s = env s" "b \<notin> n_block ` lru_nodes ?s ` set xs"
    using holds_put_fresh [OF assms(1,3)] assms(2,3,4) by simp_all
  have f: "io_ok ?s = io_ok s" "io_ops ?s = io_ops s" "fs_block_count ?s = fs_block_count s"
    "fs_base_block ?s = fs_base_block s" "sectors ?s = sectors s" "io_torn ?s = io_torn s"
    by (simp_all add: put_node_def)
  show ?thesis
  proof (cases "b < fs_block_count s")
    case False
    then have "update_node n data b s = Inr (FILE_WRITE_ERROR, ?s)"
      by (simp add: update_node_def Let_def write_block_data_def map_fs_block_to_disk_block_def f)
    then show ?thesis using h f False by auto
  next
    case True
    let ?s' = "?s\<lparr>io_ops := io_ops s + 1, sectors := (sectors s)(fs_base_block s + b := io_torn s (io_ops s))\<rparr>"
    have "update_node n data b s = Inr (FILE_WRITE_ERROR, ?s')"
      using True assms(5) lba_exact [OF h(2)] f
      by (simp add: update_node_def Let_def write_block_data_def block_write_def)
    moreover have "holds ?s' xs" using holds_write_other [OF h(1,4)] by (simp add: f)
    moreover have "env ?s' = env s" using h(3) by (simp add: env_def)
    ultimately show ?thesis using True by auto
  qed
qed

lemma update_node_ok:
  assumes "holds s xs" "length xs \<le> 12" "geometry_ok s" "n \<notin> set xs" "n < km_calls s"
    and "b \<notin> n_block ` lru_nodes s ` set xs" "n_block (lru_nodes s n) = b"
    and "b < fs_block_count s" "io_ok s (io_ops s)"
  shows "\<exists>s'. update_node n data b s = Inr (SUCCESS, s') \<and> env s' = env s \<and> holds s' (take 12 (n # xs)) \<and>
    sectors s' = (sectors s)(fs_base_block s + b := take (bytes_per_block s) data) \<and>
    lru_blocks s' = take 12 (b # map (\<lambda>p. n_block (lru_nodes s p)) xs)"
proof -
  let ?d = "take (bytes_per_block s) data"
  let ?nd = "(lru_nodes s n)\<lparr>n_data := ?d\<rparr>"
  let ?s = "put_node n ?nd s"
  let ?s' = "?s\<lparr>io_ops := io_ops s + 1, sectors := (sectors s)(fs_base_block s + b := ?d)\<rparr>"
  have f: "io_ok ?s = io_ok s" "io_ops ?s = io_ops s" "fs_block_count ?s = fs_block_count s"
    "fs_base_block ?s = fs_base_block s" "sectors ?s = sectors s" "lru_nodes ?s n = ?nd" "km_calls ?s = km_calls s"
    by (simp_all add: put_node_def)
  have h: "holds ?s xs" "geometry_ok ?s" "env ?s = env s" "b \<notin> n_block ` lru_nodes ?s ` set xs"
    using holds_put_fresh [OF assms(1,4)] assms(3,4,6) by simp_all
  have h': "holds ?s' xs" using holds_write_other [OF h(1,4)] by (simp add: f)
  obtain s' where s': "link_front n (put_node n (?nd\<lparr>n_dirty := False\<rparr>) ?s') = Inr (SUCCESS, s')"
      "rest s' = rest ?s'" "holds s' (take 12 (n # xs))"
      "lru_blocks s' = take 12 (b # map (\<lambda>p. n_block (lru_nodes ?s' p)) xs)"
  proof (rule link_fresh [OF h' assms(2,4), of b "?nd\<lparr>n_dirty := False\<rparr>"])
    show "payload (?nd\<lparr>n_dirty := False\<rparr>) = (blk_content ?s' b, False, b)"
      using assms(7) by (simp add: payload_def blk_content_def f)
  qed (use assms(5,8) h(4) f in simp_all)
  have "update_node n data b s = Inr (SUCCESS, s')"
    using assms(8,9) lba_exact [OF h(2)] f s'(1)
    by (simp add: update_node_def Let_def write_block_data_def block_write_def)
  moreover have "env s' = env s" "sectors s' = (sectors s)(fs_base_block s + b := ?d)"
    using env_rest [OF s'(2)] h(3) by (auto simp: env_def)
  moreover have "map (\<lambda>p. n_block (lru_nodes ?s' p)) xs = map (\<lambda>p. n_block (lru_nodes s p)) xs"
    using assms(4) by (auto simp: put_node_def)
  ultimately show ?thesis using s'(3,4) by metis
qed

text \<open>One outcome for the whole operation.\<close>

definition write_outcome :: "'a blk_scheme \<Rightarrow> byte list \<Rightarrow> nat \<Rightarrow> err_t \<Rightarrow> 'a blk_scheme \<Rightarrow> bool" where
  "write_outcome s data b err s' \<longleftrightarrow>
     blk_inv s' \<and> env s' = env s \<and>
     (if err = SUCCESS then
        b < fs_block_count s \<and>
        sectors s' = (sectors s)(fs_base_block s + b := take (bytes_per_block s) data) \<and>
        lru_blocks s' = take 12 (b # filter (\<lambda>c. c \<noteq> b) (lru_blocks s))
      else err = FILE_WRITE_ERROR \<and>
        (sectors s' = sectors s \<or>
         b < fs_block_count s \<and> sectors s' = (sectors s)(fs_base_block s + b := io_torn s (io_ops s))))"

lemma geometry_env:
  "env s' = env s \<Longrightarrow> geometry_ok s \<Longrightarrow> \<forall>l. length (sectors s' l) = bytes_per_block s \<Longrightarrow> geometry_ok s'"
  by (simp add: env_def geometry_ok_def)

lemma update_node_outcome:
  assumes h: "holds s xs" "length xs \<le> 12" "geometry_ok s" "n \<notin> set xs" "n < km_calls s"
    and b: "b \<notin> n_block ` lru_nodes s ` set xs" "n_block (lru_nodes s n) = b"
    and d: "bytes_per_block s \<le> length data"
    and s0: "env s = env s0" "sectors s = sectors s0" "io_ops s = io_ops s0"
      "map (\<lambda>p. n_block (lru_nodes s p)) xs = filter (\<lambda>c. c \<noteq> b) (lru_blocks s0)"
  shows "\<exists>err s'. update_node n data b s = Inr (err, s') \<and> write_outcome s0 data b err s' \<and>
    (b < fs_block_count s \<and> io_ok s (io_ops s) \<longrightarrow> err = SUCCESS)"
proof (cases "b < fs_block_count s \<and> io_ok s (io_ops s)")
  case True
  then obtain s' where s': "update_node n data b s = Inr (SUCCESS, s')" "env s' = env s"
      "holds s' (take 12 (n # xs))"
      "sectors s' = (sectors s)(fs_base_block s + b := take (bytes_per_block s) data)"
      "lru_blocks s' = take 12 (b # map (\<lambda>p. n_block (lru_nodes s p)) xs)"
    using update_node_ok [OF h b] by blast
  have "geometry_ok s'" using s'(2,4) h(3) d by (intro geometry_env [of s' s]) (auto simp: geometry_ok_def)
  then have "blk_inv s'" using s'(3) by (rule blk_invI) simp
  then have "write_outcome s0 data b SUCCESS s'"
    using s' s0 env_simps [OF s0(1)] True by (simp add: write_outcome_def)
  then show ?thesis using s'(1) by blast
next
  case False
  then obtain s' where s': "update_node n data b s = Inr (FILE_WRITE_ERROR, s')" "env s' = env s" "holds s' xs"
      "sectors s' = (if b < fs_block_count s then (sectors s)(fs_base_block s + b := io_torn s (io_ops s)) else sectors s)"
    using update_node_error [OF h(1,3,4) b(1), of data] by force
  have "geometry_ok s'" using s'(2,4) h(3) by (intro geometry_env [of s' s]) (auto simp: geometry_ok_def)
  then have "blk_inv s'" using s'(3) h(2) by (rule blk_invI)
  then have "write_outcome s0 data b FILE_WRITE_ERROR s'"
    using s' s0 env_simps [OF s0(1)] by (auto simp: write_outcome_def)
  then show ?thesis using s'(1) False by blast
qed

lemma write_block_outcome:
  assumes inv: "blk_inv s" and d: "bytes_per_block s \<le> length data"
  shows "\<exists>err s'. write_block data b s = Inr (err, s') \<and> write_outcome s data b err s' \<and>
    (b < fs_block_count s \<and> io_ok s (io_ops s) \<and> km_ok s (km_calls s) \<and> km_ok s (km_calls s + 1) \<longrightarrow> err = SUCCESS)"
proof -
  let ?xs = "lru_list s"
  have h: "holds s ?xs" "length ?xs \<le> 12" "geometry_ok s" using inv by (auto simp: blk_inv_def)
  note lb = lru_blocks_holds [OF h(1)]
  show ?thesis
    using h(1)
  proof (cases rule: get_block_cases [where b = b])
    case (hit n us vs)
    let ?s = "lru_cache_remove_node n (s\<lparr>cache_hits := cache_hits s + 1\<rparr>)"
    have r: "rest ?s = rest s" by simp
    have pay: "payload (lru_nodes ?s p) = payload (lru_nodes s p)" for p by simp
    then have blk: "n_block (lru_nodes ?s p) = n_block (lru_nodes s p)" for p by (rule n_block_payload)
    have hs: "holds ?s (us @ vs)"
      using h(1) hit(2) by (intro remove_node_holds) (simp add: holds_update_cache_only)
    have n: "n < km_calls ?s" using hit(6) r by (simp add: node_ok_def rest_def)
    have f: "b < fs_block_count s" "fs_block_count ?s = fs_block_count s" "io_ok ?s = io_ok s"
        "io_ops ?s = io_ops s" "bytes_per_block ?s = bytes_per_block s"
      using hit(3,6) r by (auto simp: node_ok_def rest_def)
    have other: "map (\<lambda>p. n_block (lru_nodes ?s p)) (us @ vs) = filter (\<lambda>c. c \<noteq> b) (lru_blocks s)"
      using lb filter_other_blocks [OF hit(3,5)] hit(2) by (simp only: blk)
    have "b \<notin> n_block ` lru_nodes ?s ` set (us @ vs)" using hit(5) by (simp add: image_image blk)
    from update_node_outcome [OF hs _ _ hit(4) n this _ _ env_rest(1) [OF r] env_rest(2) [OF r] env_rest(3) [OF r] other]
    have "\<exists>err s'. update_node n data b ?s = Inr (err, s') \<and> write_outcome s data b err s' \<and>
        (b < fs_block_count s \<and> io_ok s (io_ops s) \<longrightarrow> err = SUCCESS)"
      using h(2,3) hit(2,3) d f geometry_frame [OF r] by (simp add: blk)
    then show ?thesis using hit(1) by (auto simp: write_block_def lru_cache_update_data_def)
  next
    case miss
    have b': "filter (\<lambda>c. c \<noteq> b) (lru_blocks s) = map (\<lambda>p. n_block (lru_nodes s p)) ?xs"
      using miss(2) unfolding lb by (intro filter_True) (auto simp: image_image)
    have k: "kalloc (s\<lparr>cache_misses := cache_misses s + 1\<rparr>) =
        (if km_ok s (km_calls s) then Some (km_calls s) else None, bump 1 s)"
      "kalloc (bump 1 s) = (if km_ok s (km_calls s + 1) then Some (km_calls s + 1) else None, bump 2 s)"
      by (simp_all add: kalloc_def bump_def)
    have fail: "write_outcome s data b FILE_WRITE_ERROR (bump j s)" for j
      using bump_holds [OF h(1)] h by (auto simp: write_outcome_def intro!: blk_invI [where xs = ?xs])
    show ?thesis
    proof (cases "km_ok s (km_calls s) \<and> km_ok s (km_calls s + 1)")
      case False
      then have "write_block data b s = Inr (FILE_WRITE_ERROR, bump (if km_ok s (km_calls s) then 2 else 1) s)"
        using k miss(1) by (auto simp: write_block_def lru_cache_update_data_def Let_def)
      then show ?thesis using fail False by metis
    next
      case True
      let ?s = "put_node (km_calls s) (new_node b []) (bump 2 s)"
      have fresh: "km_calls s \<notin> set ?xs" using h(1) by (rule holds_fresh)
      then have hs: "holds ?s ?xs" using bump_holds [OF h(1)] by (intro holds_put_fresh)
      have f: "rest ?s = rest (bump 2 s)" by simp
      have g: "fs_block_count ?s = fs_block_count s" "io_ok ?s = io_ok s" "io_ops ?s = io_ops s"
          "bytes_per_block ?s = bytes_per_block s" "km_calls ?s = km_calls s + 2" "sectors ?s = sectors s"
          "n_block (lru_nodes ?s (km_calls s)) = b"
        using f by (auto simp: rest_def put_node_def new_node_def)
      have "map (\<lambda>p. n_block (lru_nodes ?s p)) ?xs = filter (\<lambda>c. c \<noteq> b) (lru_blocks s)"
        using b' fresh by (auto simp: put_node_def)
      moreover have "b \<notin> n_block ` lru_nodes ?s ` set ?xs" using miss(2) fresh by simp
      ultimately have "\<exists>err s'. update_node (km_calls s) data b ?s = Inr (err, s') \<and> write_outcome s data b err s' \<and>
          (b < fs_block_count s \<and> io_ok s (io_ops s) \<longrightarrow> err = SUCCESS)"
        using update_node_outcome [OF hs h(2) _ fresh, of b data s] h(3) d g by simp
      then show ?thesis using k miss(1) True by (auto simp: write_block_def lru_cache_update_data_def Let_def)
    qed
  qed
qed

definition read_outcome :: "'a blk_scheme \<Rightarrow> nat \<Rightarrow> err_t \<Rightarrow> byte list \<Rightarrow> 'a blk_scheme \<Rightarrow> bool" where
  "read_outcome s b err data s' \<longleftrightarrow>
     blk_inv s' \<and> env s' = env s \<and> sectors s' = sectors s \<and>
     (if err = SUCCESS then
        b < fs_block_count s \<and> data = blk_content s b \<and>
        lru_blocks s' = take 12 (b # filter (\<lambda>c. c \<noteq> b) (lru_blocks s))
      else err = FILE_READ_ERROR \<and> lru_blocks s' = lru_blocks s)"

lemma read_block_outcome:
  assumes inv: "blk_inv s"
  shows "read_block b s = Inr (err, data, s') \<Longrightarrow> read_outcome s b err data s'"
    and "b \<in> set (lru_blocks s) \<or> km_ok s (km_calls s) \<and> km_ok s (km_calls s + 1) \<Longrightarrow> \<exists>r. read_block b s = Inr r"
    and "b \<in> set (lru_blocks s) \<Longrightarrow> \<exists>s'. read_block b s = Inr (SUCCESS, blk_content s b, s') \<and> io_ops s' = io_ops s"
    and "km_ok s (km_calls s) \<Longrightarrow> km_ok s (km_calls s + 1) \<Longrightarrow> b < fs_block_count s \<Longrightarrow> io_ok s (io_ops s) \<Longrightarrow>
      \<exists>s'. read_block b s = Inr (SUCCESS, blk_content s b, s')"
proof -
  let ?xs = "lru_list s"
  have h: "holds s ?xs" "length ?xs \<le> 12" "geometry_ok s" using inv by (auto simp: blk_inv_def)
  note lb = lru_blocks_holds [OF h(1)]
  have mem: "b \<in> set (lru_blocks s) \<longleftrightarrow> b \<in> n_block ` lru_nodes s ` set ?xs" by (auto simp: lb)
  have len: "length (filter P (lru_blocks s)) \<le> 12" for P
    using h(2) lb by (metis length_filter_le length_map order_trans)
  have hit: "\<exists>s'. read_block b s = Inr (SUCCESS, blk_content s b, s') \<and> io_ops s' = io_ops s \<and>
      read_outcome s b SUCCESS (blk_content s b) s'" if "b \<in> set (lru_blocks s)"
  proof -
    have b: "b \<in> n_block ` lru_nodes s ` set ?xs" using that mem by simp
    obtain s' ys where s': "read_block b s = Inr (SUCCESS, blk_content s b, s')" "rest s' = rest s"
        "holds s' ys" "length ys \<le> 12" "lru_blocks s' = b # filter (\<lambda>c. c \<noteq> b) (lru_blocks s)"
        "b < fs_block_count s"
      by (rule read_hit [OF h b])
    have "length (lru_blocks s') \<le> 12" using lru_blocks_holds [OF s'(3)] s'(4) by simp
    then have "take 12 (lru_blocks s') = lru_blocks s'" by simp
    moreover have "blk_inv s'" using geometry_frame [OF s'(2)] h(3) s'(3,4) by (auto intro: blk_invI)
    ultimately have "read_outcome s b SUCCESS (blk_content s b) s'"
      using s' env_rest [OF s'(2)] by (simp add: read_outcome_def)
    then show ?thesis using s' env_rest(3) [OF s'(2)] by blast
  qed
  then show "\<exists>s'. read_block b s = Inr (SUCCESS, blk_content s b, s') \<and> io_ops s' = io_ops s"
    if "b \<in> set (lru_blocks s)" using that by blast
  have miss: "filter (\<lambda>c. c \<noteq> b) (lru_blocks s) = lru_blocks s" if "b \<notin> set (lru_blocks s)"
    using that by (intro filter_True) auto
  show "\<exists>r. read_block b s = Inr r"
    if "b \<in> set (lru_blocks s) \<or> km_ok s (km_calls s) \<and> km_ok s (km_calls s + 1)"
    using that hit read_miss(2,3) [OF h, of b] mem by (metis linorder_not_le)
  show "\<exists>s'. read_block b s = Inr (SUCCESS, blk_content s b, s')"
    if "km_ok s (km_calls s)" "km_ok s (km_calls s + 1)" "b < fs_block_count s" "io_ok s (io_ops s)"
    using that hit read_miss(3) [OF h, of b] mem by metis
  show "read_outcome s b err data s'" if eq: "read_block b s = Inr (err, data, s')"
  proof (cases "b \<in> set (lru_blocks s)")
    case True
    then show ?thesis using hit eq by force
  next
    case False
    then have nb: "b \<notin> n_block ` lru_nodes s ` set ?xs" by (simp add: mem)
    have km: "km_ok s (km_calls s)" "km_ok s (km_calls s + 1)" using read_miss(1) [OF h nb] eq by auto
    show ?thesis
    proof (cases "b < fs_block_count s \<and> io_ok s (io_ops s)")
      case True
      then have "read_block b s = Inr (SUCCESS, blk_content s b, s') \<and> env s' = env s \<and> sectors s' = sectors s \<and>
          err = SUCCESS \<and> data = blk_content s b \<and>
          holds s' (take 12 (km_calls s # ?xs)) \<and> lru_blocks s' = take 12 (b # lru_blocks s)"
        using read_miss(3) [OF h nb km] eq lb by auto
      then show ?thesis using True miss [OF \<open>b \<notin> set (lru_blocks s)\<close>] h(3)
        by (auto simp: read_outcome_def geometry_ok_def env_def intro!: blk_invI [where xs = "take 12 (km_calls s # ?xs)"])
    next
      case False
      then have "err = FILE_READ_ERROR" "env s' = env s" "sectors s' = sectors s" "holds s' ?xs" "lru_nodes s' = lru_nodes s"
        using read_miss(2) [OF h nb km] eq by (auto simp: not_less)
      then show ?thesis using h(2,3) lb lru_blocks_holds [of s' ?xs]
        by (auto simp: read_outcome_def geometry_ok_def env_def intro!: blk_invI [where xs = ?xs])
    qed
  qed
qed

subsection \<open>The contract of the block layer\<close>

datatype blk_op = Rd nat | Wr nat "byte list"

text \<open>What a client may conclude from the results it has seen: a successful read returns the
  last data known to be in the block; a failed write makes the block unknown.\<close>

fun trace_ok :: "nat \<Rightarrow> (nat \<Rightarrow> byte list option) \<Rightarrow> (blk_op \<times> err_t \<times> byte list) list \<Rightarrow> bool" where
  "trace_ok n g [] = True"
| "trace_ok n g ((Rd b, e, d) # t) =
     (if e = SUCCESS then (case g b of None \<Rightarrow> True | Some x \<Rightarrow> d = x) \<and> trace_ok n (g(b \<mapsto> d)) t
      else trace_ok n g t)"
| "trace_ok n g ((Wr b x, e, d) # t) = trace_ok n (g(b := if e = SUCCESS then Some (take n x) else None)) t"

fun blk_op_ok :: "nat \<Rightarrow> blk_op \<Rightarrow> bool" where
  "blk_op_ok n (Rd b) = True"
| "blk_op_ok n (Wr b x) = (n \<le> length x)"

definition knows :: "(nat \<Rightarrow> byte list option) \<Rightarrow> (nat \<Rightarrow> byte list) \<Rightarrow> bool" where
  "knows g c \<longleftrightarrow> (\<forall>b d. g b = Some d \<longrightarrow> c b = d)"

locale block_store =
  fixes inv :: "'s \<Rightarrow> bool"
    and content :: "'s \<Rightarrow> nat \<Rightarrow> byte list"
    and bsize :: "'s \<Rightarrow> nat"
    and rd :: "nat \<Rightarrow> 's \<Rightarrow> (err_t \<times> byte list \<times> 's) kres"
    and wr :: "byte list \<Rightarrow> nat \<Rightarrow> 's \<Rightarrow> (err_t \<times> 's) kres"
  assumes rd_law: "inv s \<Longrightarrow> rd b s = Inr (e, d, s') \<Longrightarrow>
      inv s' \<and> content s' = content s \<and> bsize s' = bsize s \<and> (e = SUCCESS \<longrightarrow> d = content s b)"
    and wr_law: "inv s \<Longrightarrow> bsize s \<le> length d \<Longrightarrow> wr d b s = Inr (e, s') \<Longrightarrow>
      inv s' \<and> bsize s' = bsize s \<and> (\<forall>c. c \<noteq> b \<longrightarrow> content s' c = content s c) \<and>
      (e = SUCCESS \<longrightarrow> content s' b = take (bsize s) d)"
begin

fun step :: "'s \<Rightarrow> blk_op \<Rightarrow> (err_t \<times> byte list \<times> 's) kres" where
  "step s (Rd b) = rd b s"
| "step s (Wr b x) = (case wr x b s of Inl p \<Rightarrow> Inl p | Inr (e, s') \<Rightarrow> Inr (e, [], s'))"

fun run :: "'s \<Rightarrow> blk_op list \<Rightarrow> ((blk_op \<times> err_t \<times> byte list) list \<times> 's) kres" where
  "run s [] = Inr ([], s)"
| "run s (c # cs) =
     (case step s c of Inl p \<Rightarrow> Inl p
      | Inr (e, d, s') \<Rightarrow> (case run s' cs of Inl p \<Rightarrow> Inl p | Inr (t, s'') \<Rightarrow> Inr ((c, e, d) # t, s'')))"

lemma run_trace:
  "inv s \<Longrightarrow> list_all (blk_op_ok (bsize s)) cs \<Longrightarrow> knows g (content s) \<Longrightarrow> run s cs = Inr (t, s') \<Longrightarrow>
     inv s' \<and> bsize s' = bsize s \<and> trace_ok (bsize s) g t"
proof (induction cs arbitrary: s g t)
  case (Cons c cs)
  obtain e d s1 where st: "step s c = Inr (e, d, s1)" using Cons.prems(4) by (auto split: sum.splits)
  then obtain t1 where t1: "run s1 cs = Inr (t1, s')" "t = (c, e, d) # t1"
    using Cons.prems(4) by (auto split: sum.splits)
  show ?case
  proof (cases c)
    case (Rd b)
    then have l: "inv s1" "content s1 = content s" "bsize s1 = bsize s" "e = SUCCESS \<longrightarrow> d = content s b"
      using rd_law [OF Cons.prems(1)] st by auto
    define g' where "g' = (if e = SUCCESS then g(b \<mapsto> d) else g)"
    have "knows g' (content s1)" using Cons.prems(3) l by (auto simp: knows_def g'_def)
    then have "inv s' \<and> bsize s' = bsize s \<and> trace_ok (bsize s) g' t1"
      using Cons.IH [OF l(1) _ _ t1(1), of g'] Cons.prems(2) l(3) by simp
    then show ?thesis using t1 Rd l(4) Cons.prems(3)
      by (auto simp: g'_def knows_def split: option.split)
  next
    case (Wr b x)
    then have w: "wr x b s = Inr (e, s1)" "d = []" "bsize s \<le> length x"
      using st Cons.prems(2) by (auto split: sum.splits)
    note l = wr_law [OF Cons.prems(1) w(3,1)]
    define g' where "g' = g(b := if e = SUCCESS then Some (take (bsize s) x) else None)"
    have "knows g' (content s1)" using Cons.prems(3) l by (auto simp: knows_def g'_def)
    then have "inv s' \<and> bsize s' = bsize s \<and> trace_ok (bsize s) g' t1"
      using Cons.IH [OF _ _ _ t1(1), of g'] Cons.prems(2) l by simp
    then show ?thesis using t1 Wr by (simp add: g'_def)
  qed
qed simp

end

lemma content_write: "sectors s' = (sectors s)(fs_base_block s + b := d) \<Longrightarrow> fs_base_block s' = fs_base_block s \<Longrightarrow>
    blk_content s' = (blk_content s)(b := d)"
  by (auto simp: blk_content_def)

interpretation cache: block_store blk_inv blk_content bytes_per_block read_block write_block
proof unfold_locales
  fix s s' :: "'a blk_scheme" and b e d
  assume inv: "blk_inv s"
  { assume "read_block b s = Inr (e, d, s')"
    from read_block_outcome(1) [OF inv this]
    show "blk_inv s' \<and> blk_content s' = blk_content s \<and> bytes_per_block s' = bytes_per_block s \<and>
        (e = SUCCESS \<longrightarrow> d = blk_content s b)"
      by (auto simp: read_outcome_def blk_content_def env_def) }
  assume "bytes_per_block s \<le> length d" "write_block d b s = Inr (e, s')"
  then have w: "write_outcome s d b e s'" using write_block_outcome [OF inv, of d b] by auto
  then have e: "fs_base_block s' = fs_base_block s" "bytes_per_block s' = bytes_per_block s"
    by (auto simp: write_outcome_def env_def)
  obtain x where "blk_content s' = (blk_content s)(b := x)" "e = SUCCESS \<longrightarrow> x = take (bytes_per_block s) d"
  proof (cases "sectors s' = sectors s \<and> e \<noteq> SUCCESS")
    case True
    then have "blk_content s' = (blk_content s)(b := blk_content s b)" using e(1) by (auto simp: blk_content_def)
    then show thesis using that True by blast
  next
    case False
    then have "sectors s' = (sectors s)(fs_base_block s + b := (if e = SUCCESS then take (bytes_per_block s) d
        else io_torn s (io_ops s)))"
      using w by (auto simp: write_outcome_def split: if_splits)
    then show thesis using that content_write [OF _ e(1)] by metis
  qed
  then show "blk_inv s' \<and> bytes_per_block s' = bytes_per_block s \<and>
      (\<forall>c. c \<noteq> b \<longrightarrow> blk_content s' c = blk_content s c) \<and>
      (e = SUCCESS \<longrightarrow> blk_content s' b = take (bytes_per_block s) d)"
    using w e by (simp add: write_outcome_def)
qed

definition cache_run :: "'a blk_scheme \<Rightarrow> blk_op list \<Rightarrow> ((blk_op \<times> err_t \<times> byte list) list \<times> 'a blk_scheme) kres" where
  "cache_run = cache.run"

lemma remove_back_holds:
  assumes "holds s (xs @ [t])"
  obtains s' where "lru_cache_remove_back s = Inr (SUCCESS, s')" "holds s' xs" "rest s' = rest s"
proof -
  let ?s = "lru_cache_remove_node t s"
  have "lru_tail s = Some t" using assms by (simp add: holds_def cached_def dll_def)
  moreover have "\<not> n_dirty (lru_nodes ?s t)"
    using assms remove_node_frame(2) [of t s t] by (simp add: holds_def node_ok_def payload_def)
  ultimately have "lru_cache_remove_back s = Inr (SUCCESS, ?s\<lparr>cache_evictions := cache_evictions ?s + 1\<rparr>)"
    by (simp add: lru_cache_remove_back_def Let_def)
  moreover have "holds ?s xs" using remove_node_holds [of s xs t "[]"] assms by simp
  ultimately show thesis using that by (simp add: holds_update_cache_only)
qed

lemma empty_holds:
  "holds s xs \<Longrightarrow> length xs < k \<Longrightarrow>
     \<exists>s'. lru_cache_empty k s = Some (Inr (SUCCESS, s')) \<and> holds s' [] \<and> rest s' = rest s"
proof (induction xs arbitrary: k s rule: rev_induct)
  case Nil
  then show ?case by (cases k) (auto simp: holds_def cached_def dll_def)
next
  case (snoc t xs)
  then obtain j where k: "k = Suc j" by (cases k) auto
  obtain s1 where s1: "lru_cache_remove_back s = Inr (SUCCESS, s1)" "holds s1 xs" "rest s1 = rest s"
    using snoc.prems(1) by (rule remove_back_holds)
  have "lru_tail s \<noteq> None" using snoc.prems(1) by (simp add: holds_def cached_def dll_def)
  then show ?case using snoc.IH [OF s1(2), of j] snoc.prems(2) k s1 by auto
qed

definition blank_disk :: blk where
  "blank_disk = \<lparr>sectors = \<lambda>_. [0, 0], io_ops = 0, io_ok = \<lambda>_. True, io_torn = \<lambda>_. [9, 9], km_calls = 0,
     km_ok = \<lambda>_. True, fs_base_block = 100, fs_block_count = 50, bytes_per_block = 2,
     lru_nodes = \<lambda>_. new_node 0 [], lru_head = None, lru_tail = None, lru_size = 0,
     cache_hits = 0, cache_misses = 0, cache_evictions = 0\<rparr>"

lemma blank_disk_inv: "blk_inv blank_disk" "bytes_per_block blank_disk = 2" "fs_block_count blank_disk = 50"
  "lru_blocks blank_disk = []" "io_ok blank_disk k" "km_ok blank_disk k"
  by (simp_all add: blk_inv_def blank_disk_def geometry_ok_def lru_list_def lru_blocks_def holds_def cached_def dll_def)

text \<open>C8. The block cache is transparent. Run any sequence of \<^verbatim>\<open>read_block\<close> and \<^verbatim>\<open>write_block\<close>,
  with transfers failing (and tearing the sector) at any time: a successful read always returns
  what the last successful write to that block stored, unless a later write to it failed; the
  cached copies stay equal to the sectors, and no sector outside the file system's region changes.\<close>

theorem block_cache_coherent:
  assumes "blk_inv s" and "list_all (blk_op_ok (bytes_per_block s)) cs"
    and "knows g (blk_content s)" and "cache_run s cs = Inr (t, s')"
  shows "trace_ok (bytes_per_block s) g t \<and> blk_inv s' \<and>
    (\<forall>l. l < fs_base_block s \<or> fs_base_block s + fs_block_count s \<le> l \<longrightarrow> sectors s' l = sectors s l)"
proof -
  have "env s' = env s \<and> (\<forall>l. l < fs_base_block s \<or> fs_base_block s + fs_block_count s \<le> l \<longrightarrow> sectors s' l = sectors s l)"
    using assms(1,2,4) unfolding cache_run_def
  proof (induction cs arbitrary: s t)
    case (Cons c cs)
    obtain e d s1 where st: "cache.step s c = Inr (e, d, s1)" using Cons.prems(3) by (auto split: sum.splits)
    then obtain t1 where t1: "cache.run s1 cs = Inr (t1, s')" using Cons.prems(3) by (auto split: sum.splits)
    have s1: "blk_inv s1 \<and> env s1 = env s \<and>
        (\<forall>l. l < fs_base_block s \<or> fs_base_block s + fs_block_count s \<le> l \<longrightarrow> sectors s1 l = sectors s l)"
    proof (cases c)
      case (Rd b)
      then show ?thesis using read_block_outcome(1) [OF Cons.prems(1)] st by (auto simp: read_outcome_def)
    next
      case (Wr b x)
      then have "bytes_per_block s \<le> length x" "write_block x b s = Inr (e, s1)"
        using st Cons.prems(2) by (auto split: sum.splits)
      then have "write_outcome s x b e s1" using write_block_outcome [OF Cons.prems(1), of x b] by auto
      then show ?thesis by (auto simp: write_outcome_def split: if_splits)
    qed
    then have "env s' = env s1 \<and>
        (\<forall>l. l < fs_base_block s1 \<or> fs_base_block s1 + fs_block_count s1 \<le> l \<longrightarrow> sectors s' l = sectors s1 l)"
      using Cons.IH [OF _ _ t1] Cons.prems(2) env_simps [of s1 s] by simp
    then show ?case using s1 env_simps [of s1 s] by simp
  qed simp
  then show ?thesis using cache.run_trace [OF assms(1-3)] assms(4) by (auto simp: cache_run_def)
qed

theorem block_cache_coherent_witness:
  "\<exists>t s'. cache_run blank_disk [Wr 3 [7, 8], Rd 3, Rd 4] = Inr (t, s') \<and>
     trace_ok 2 (Some \<circ> blk_content blank_disk) t \<and> blk_inv s' \<and> sectors s' 99 = [0, 0]"
proof -
  obtain s1 where 1: "write_block [7, 8] 3 blank_disk = Inr (SUCCESS, s1)" "write_outcome blank_disk [7, 8] 3 SUCCESS s1"
    using write_block_outcome [OF blank_disk_inv(1), of "[7, 8]" 3] by (auto simp: blank_disk_inv)
  then have s1: "blk_inv s1" "km_ok s1 k" for k
    using blank_disk_inv(6) by (auto simp: write_outcome_def env_def)
  obtain e2 d2 s2 where 2: "read_block 3 s1 = Inr (e2, d2, s2)"
    using read_block_outcome(2) [OF s1(1), of 3] s1(2) by auto
  have s2: "blk_inv s2" "km_ok s2 k" for k
    using read_block_outcome(1) [OF s1(1) 2] s1(2) by (auto simp: read_outcome_def env_def)
  obtain e3 d3 s3 where 3: "read_block 4 s2 = Inr (e3, d3, s3)"
    using read_block_outcome(2) [OF s2(1), of 4] s2(2) by auto
  have run: "cache_run blank_disk [Wr 3 [7, 8], Rd 3, Rd 4] =
      Inr ([(Wr 3 [7, 8], SUCCESS, []), (Rd 3, e2, d2), (Rd 4, e3, d3)], s3)"
    using 1 2 3 by (simp add: cache_run_def)
  show ?thesis
    using block_cache_coherent [OF blank_disk_inv(1) _ _ run, of "Some \<circ> blk_content blank_disk"] run
    by (auto simp: blank_disk_inv knows_def) (auto simp: blank_disk_def)
qed

text \<open>C24. Least recently used replacement within a bound of twelve blocks. When \<^verbatim>\<open>read_block\<close>
  returns, it has returned the block's current contents and moved the block to the front of
  the cache, cutting the list to the twelve most recently used blocks; the only error is
  \<^verbatim>\<open>FILE_READ_ERROR\<close>, which leaves the cached blocks alone. A block that is cached is read
  without touching the device, and a read of an existing block whose allocations and transfer succeed succeeds.\<close>

theorem lru_replacement:
  assumes "blk_inv s"
  shows "(\<forall>err d s'. read_block b s = Inr (err, d, s') \<longrightarrow>
      length (lru_blocks s') \<le> 12 \<and>
      (if err = SUCCESS then d = blk_content s b \<and> lru_blocks s' = take 12 (b # filter (\<lambda>c. c \<noteq> b) (lru_blocks s))
       else err = FILE_READ_ERROR \<and> lru_blocks s' = lru_blocks s))
    \<and> (b \<in> set (lru_blocks s) \<longrightarrow> (\<exists>d s'. read_block b s = Inr (SUCCESS, d, s') \<and> io_ops s' = io_ops s))
    \<and> (km_ok s (km_calls s) \<and> km_ok s (km_calls s + 1) \<and> b < fs_block_count s \<and> io_ok s (io_ops s) \<longrightarrow>
        (\<exists>d s'. read_block b s = Inr (SUCCESS, d, s')))"
proof (intro conjI allI impI)
  fix err d s' assume "read_block b s = Inr (err, d, s')"
  then have o: "read_outcome s b err d s'" by (rule read_block_outcome(1) [OF assms])
  then show "length (lru_blocks s') \<le> 12" by (simp add: read_outcome_def blk_inv_def lru_blocks_def)
  show "if err = SUCCESS then d = blk_content s b \<and> lru_blocks s' = take 12 (b # filter (\<lambda>c. c \<noteq> b) (lru_blocks s))
       else err = FILE_READ_ERROR \<and> lru_blocks s' = lru_blocks s"
    using o by (simp add: read_outcome_def split: if_splits)
next
  assume "b \<in> set (lru_blocks s)"
  then show "\<exists>d s'. read_block b s = Inr (SUCCESS, d, s') \<and> io_ops s' = io_ops s"
    using read_block_outcome(3) [OF assms] by blast
next
  assume "km_ok s (km_calls s) \<and> km_ok s (km_calls s + 1) \<and> b < fs_block_count s \<and> io_ok s (io_ops s)"
  then show "\<exists>d s'. read_block b s = Inr (SUCCESS, d, s')" using read_block_outcome(4) [OF assms] by blast
qed

theorem lru_replacement_witness:
  "blk_inv blank_disk \<and> (\<exists>d s'. read_block 5 blank_disk = Inr (SUCCESS, d, s') \<and> lru_blocks s' = [5])"
proof -
  obtain d s' where r: "read_block 5 blank_disk = Inr (SUCCESS, d, s')"
    using lru_replacement [OF blank_disk_inv(1), of 5] by (auto simp: blank_disk_inv)
  moreover have "lru_blocks s' = [5]"
    using conjunct1 [OF lru_replacement [OF blank_disk_inv(1), of 5], rule_format, OF r] by (simp add: blank_disk_inv)
  ultimately show ?thesis using blank_disk_inv(1) by auto
qed

text \<open>C35. \<^verbatim>\<open>lru_cache_empty\<close> terminates, within one step per cached block, empties the cache and
  loses nothing: the sectors already hold every cached block.\<close>

theorem lru_cache_empty_ends:
  assumes "blk_inv s"
  shows "\<exists>s'. lru_cache_empty 13 s = Some (Inr (SUCCESS, s')) \<and> lru_blocks s' = [] \<and>
    blk_content s' = blk_content s \<and> blk_inv s'"
proof -
  have h: "holds s (lru_list s)" "length (lru_list s) < 13" "geometry_ok s"
    using assms by (auto simp: blk_inv_def)
  obtain s' where s': "lru_cache_empty 13 s = Some (Inr (SUCCESS, s'))" "holds s' []" "rest s' = rest s"
    using empty_holds [OF h(1,2)] by blast
  then show ?thesis
    using lru_blocks_holds [OF s'(2)] content_frame [OF s'(3)] geometry_frame [OF s'(3)] h(3)
    by (auto intro: blk_invI)
qed

theorem lru_cache_empty_ends_witness:
  "blk_inv blank_disk \<and> (\<exists>s'. lru_cache_empty 13 blank_disk = Some (Inr (SUCCESS, s')) \<and> lru_blocks s' = [])"
  using lru_cache_empty_ends [OF blank_disk_inv(1)] blank_disk_inv(1) by auto

end
