(* ===== verification/Fs_Bitmap.thy ===== *)
theory Fs_Bitmap
  imports Lru_Cache
begin

section \<open>Allocation bitmaps: the bitmap functions of \<^verbatim>\<open>src/kernel/fs/disk.c\<close>\<close>

text \<open>
  Free data blocks and free inodes are tracked in on-disk bitmaps that span several blocks,
  most significant bit first. \<open>find_free_from_bitmap_range\<close> searches byte by byte, skipping
  bytes equal to \<^verbatim>\<open>0xFF\<close>, and optionally takes the bit; \<open>set_bit_in_bitmap_range\<close> sets or
  clears one bit. Both read and write whole blocks through the block cache. The arithmetic on
  \<^verbatim>\<open>uint32_t\<close> is on natural numbers, reduced modulo \<open>2 ^ 32\<close> where it can wrap.

  Theorems: the byte-wise search finds the first clear bit; an allocation takes exactly that bit
  and changes no other; freeing what was allocated restores the bitmap.
\<close>

unbundle bit_operations_syntax

abbreviation bits_per_block :: "'a blk_scheme \<Rightarrow> nat" where
  "bits_per_block s \<equiv> (bytes_per_block s * 8) mod 2 ^ 32"

definition bit_mask :: "nat \<Rightarrow> byte" where
  "bit_mask i = push_bit (7 - i mod 8) 1"

definition toggle_in_bitmap_data :: "byte list \<Rightarrow> nat \<Rightarrow> byte list" where
  "toggle_in_bitmap_data data idx = data[idx div 8 := data ! (idx div 8) XOR bit_mask idx]"

definition set_bit_in_bitmap_range ::
  "nat \<Rightarrow> nat \<Rightarrow> nat \<Rightarrow> nat \<Rightarrow> bool \<Rightarrow> 'a blk_scheme \<Rightarrow> (err_t \<times> 'a blk_scheme) kres" where
  "set_bit_in_bitmap_range bitmap_start bitmap_blocks valid_bits bit_idx on s =
     (if bitmap_blocks = 0 \<or> bit_idx \<ge> valid_bits then Inr (INVALID_ARGS, s)
      else if bit_idx div bits_per_block s \<ge> bitmap_blocks then Inr (INVALID_ARGS, s)
      else
        (let block = (bitmap_start + bit_idx div bits_per_block s) mod 2 ^ 32;
             (buf, s) = kalloc s
         in if buf = None then Inr (FILE_READ_ERROR, s)
            else case read_block block s of
              Inl p \<Rightarrow> Inl p
            | Inr (err, data, s) \<Rightarrow>
                if err \<noteq> SUCCESS then Inr (err, s)
                else
                  (let bit_in_block = bit_idx mod bits_per_block s;
                       mask = bit_mask bit_in_block;
                       old = data ! (bit_in_block div 8);
                       data = data[bit_in_block div 8 := if on then old OR mask else old AND NOT mask]
                   in write_block data block s)))"

text \<open>The innermost loop over the bits of one byte, from \<open>index\<close> on.\<close>

function scan_byte :: "byte \<Rightarrow> nat \<Rightarrow> nat \<Rightarrow> nat \<Rightarrow> nat option" where
  "scan_byte b index_byte valid index =
     (if index \<ge> 8 then None
      else if index_byte * 8 + index \<ge> valid then None
      else if b AND bit_mask index = 0 then Some (index_byte * 8 + index)
      else scan_byte b index_byte valid (index + 1))"
  by pat_completeness auto
termination by (relation "measure (\<lambda>(_, _, _, index). 8 - index)") auto

declare scan_byte.simps [simp del]

text \<open>The loop over the bytes of one bitmap block.\<close>

function scan_block :: "byte list \<Rightarrow> nat \<Rightarrow> nat \<Rightarrow> nat option" where
  "scan_block bitmap valid index_byte =
     (if index_byte \<ge> (valid + 7) div 8 then None
      else if bitmap ! index_byte = 0xFF then scan_block bitmap valid (index_byte + 1)
      else case scan_byte (bitmap ! index_byte) index_byte valid 0 of
        Some k \<Rightarrow> Some k
      | None \<Rightarrow> scan_block bitmap valid (index_byte + 1))"
  by pat_completeness auto
termination by (relation "measure (\<lambda>(_, valid, index_byte). (valid + 7) div 8 - index_byte)") auto

declare scan_block.simps [simp del]

definition valid_bits_in_block :: "'a blk_scheme \<Rightarrow> nat \<Rightarrow> nat \<Rightarrow> nat" where
  "valid_bits_in_block s valid_bits i =
     (let first_bit = (i * bits_per_block s) mod 2 ^ 32;
          n = (if valid_bits > first_bit then valid_bits - first_bit else 0)
      in if n > bits_per_block s then bits_per_block s else n)"

text \<open>The loop over the bitmap blocks whose indices are in the list.\<close>

fun find_free_loop ::
  "nat \<Rightarrow> nat \<Rightarrow> bool \<Rightarrow> nat list \<Rightarrow> 'a blk_scheme \<Rightarrow> (err_t \<times> nat \<times> 'a blk_scheme) kres" where
  "find_free_loop bitmap_start valid_bits update_taken [] s = Inr (NO_FREE_BLOCKS, 0, s)"
| "find_free_loop bitmap_start valid_bits update_taken (i # is) s =
     (case read_block ((bitmap_start + i) mod 2 ^ 32) s of
        Inl p \<Rightarrow> Inl p
      | Inr (err, bitmap, s) \<Rightarrow>
          if err \<noteq> SUCCESS then Inr (err, 0, s)
          else case scan_block bitmap (valid_bits_in_block s valid_bits i) 0 of
            None \<Rightarrow> find_free_loop bitmap_start valid_bits update_taken is s
          | Some k \<Rightarrow>
              let free_block = ((i * bits_per_block s) mod 2 ^ 32 + k) mod 2 ^ 32 in
              if update_taken then
                (case write_block (bitmap[k div 8 := bitmap ! (k div 8) OR bit_mask k])
                        ((bitmap_start + i) mod 2 ^ 32) s of
                   Inl p \<Rightarrow> Inl p
                 | Inr (err, s) \<Rightarrow> if err \<noteq> SUCCESS then Inr (err, 0, s) else Inr (SUCCESS, free_block, s))
              else Inr (SUCCESS, free_block, s))"

definition find_free_from_bitmap_range ::
  "nat \<Rightarrow> nat \<Rightarrow> nat \<Rightarrow> bool \<Rightarrow> 'a blk_scheme \<Rightarrow> (err_t \<times> nat \<times> 'a blk_scheme) kres" where
  "find_free_from_bitmap_range bitmap_start bitmap_blocks valid_bits update_taken s =
     (if bitmap_blocks = 0 \<or> valid_bits = 0 then Inr (INVALID_ARGS, 0, s)
      else
        (let (buf, s) = kalloc s in
         if buf = None then Inr (FILE_READ_ERROR, 0, s)
         else find_free_loop bitmap_start valid_bits update_taken [0..<bitmap_blocks] s))"

definition find_free_from_bitmap :: "nat \<Rightarrow> bool \<Rightarrow> 'a blk_scheme \<Rightarrow> (err_t \<times> nat \<times> 'a blk_scheme) kres" where
  "find_free_from_bitmap block_with_bitmap update_taken s =
     find_free_from_bitmap_range block_with_bitmap 1 (bits_per_block s) update_taken s"

subsection \<open>Bits of one block\<close>

definition bmp_bit :: "byte list \<Rightarrow> nat \<Rightarrow> bool" where
  "bmp_bit data k = bit (data ! (k div 8)) (7 - k mod 8)"

lemma bit_mask_bit: "n < 8 \<Longrightarrow> bit (bit_mask i) n \<longleftrightarrow> n = 7 - i mod 8"
  by (auto simp: bit_mask_def bit_simps)

lemma and_mask_zero: "b AND bit_mask i = 0 \<longleftrightarrow> \<not> bit b (7 - i mod 8)"
proof -
  have "b AND bit_mask i = 0 \<longleftrightarrow> (\<forall>n < 8. \<not> (bit b n \<and> bit (bit_mask i) n))"
    by (auto simp: bit_eq_iff bit_simps)
  also have "\<dots> \<longleftrightarrow> \<not> bit b (7 - i mod 8)"
    using bit_mask_bit [of _ i] by (auto dest: spec [of _ "7 - i mod 8"])
  finally show ?thesis .
qed

lemma same_bit: "j div 8 = k div 8 \<Longrightarrow> 7 - j mod 8 = 7 - k mod (8::nat) \<longleftrightarrow> j = k"
proof -
  assume d: "j div 8 = k div 8"
  have "a < 8 \<Longrightarrow> b < 8 \<Longrightarrow> 7 - a = 7 - b \<longleftrightarrow> a = (b::nat)" for a b by arith
  then have "7 - j mod 8 = 7 - k mod 8 \<longleftrightarrow> j mod 8 = k mod 8" by simp
  also have "\<dots> \<longleftrightarrow> j = k" using d by (metis div_mult_mod_eq)
  finally show ?thesis .
qed

lemma bmp_bit_update:
  assumes "k div 8 < length data"
  shows "bmp_bit (data[k div 8 := data ! (k div 8) OR bit_mask k]) j = (j = k \<or> bmp_bit data j)"
    and "bmp_bit (data[k div 8 := data ! (k div 8) AND NOT (bit_mask k)]) j = (j \<noteq> k \<and> bmp_bit data j)"
    and "bmp_bit (toggle_in_bitmap_data data k) j = (if j = k then \<not> bmp_bit data j else bmp_bit data j)"
  using assms same_bit [of j k] bit_mask_bit [of "7 - j mod 8" k]
  by (cases "j div 8 = k div 8"; auto simp: bmp_bit_def toggle_in_bitmap_data_def bit_simps)+

text \<open>The search equals its reference: the first clear bit among the valid ones.\<close>

lemma scan_byte_find:
  "index \<le> 8 \<Longrightarrow> scan_byte (bitmap ! ib) ib valid index =
     List.find (\<lambda>k. \<not> bmp_bit bitmap k) [ib * 8 + index..<min (ib * 8 + 8) valid]"
proof (induction "8 - index" arbitrary: index)
  case 0
  then show ?case by (subst scan_byte.simps) simp
next
  case (Suc n)
  show ?case
  proof (cases "ib * 8 + index \<ge> valid")
    case True
    then show ?thesis by (subst scan_byte.simps) simp
  next
    case False
    have "[ib * 8 + index..<min (ib * 8 + 8) valid]
        = (ib * 8 + index) # [ib * 8 + (index + 1)..<min (ib * 8 + 8) valid]"
      using False Suc.hyps(2) by (simp add: upt_conv_Cons)
    moreover have "bmp_bit bitmap (ib * 8 + index) = bit (bitmap ! ib) (7 - index mod 8)"
      using Suc.hyps(2) by (simp add: bmp_bit_def)
    moreover have "scan_byte (bitmap ! ib) ib valid (index + 1) =
        List.find (\<lambda>k. \<not> bmp_bit bitmap k) [ib * 8 + (index + 1)..<min (ib * 8 + 8) valid]"
      using Suc.hyps by (intro Suc.hyps(1)) auto
    moreover have "\<not> 8 \<le> index" using Suc.hyps(2) by simp
    ultimately show ?thesis using False
      by (subst scan_byte.simps) (simp add: and_mask_zero)
  qed
qed

lemma find_append: "List.find P (xs @ ys) = (case List.find P xs of None \<Rightarrow> List.find P ys | Some x \<Rightarrow> Some x)"
  by (induction xs) auto

lemma full_byte: "bitmap ! ib = 0xFF \<Longrightarrow> List.find (\<lambda>k. \<not> bmp_bit bitmap k) [ib * 8..<min (ib * 8 + 8) valid] = None"
proof -
  assume ff: "bitmap ! ib = 0xFF"
  have "bit (0xFF :: byte) n" if "n < 8" for n
    using that by (simp add: less_Suc_eq numeral_eq_Suc) (auto simp: bit_numeral_simps)
  moreover have "x div 8 = ib" if "ib * 8 \<le> x" "x < ib * 8 + 8" for x using that by arith
  ultimately show ?thesis using ff by (auto simp: find_None_iff bmp_bit_def)
qed

lemma scan_block_find:
  "scan_block bitmap valid ib = List.find (\<lambda>k. \<not> bmp_bit bitmap k) [ib * 8..<valid]"
proof (induction bitmap valid ib rule: scan_block.induct)
  case (1 bitmap valid ib)
  show ?case
  proof (cases "ib \<ge> (valid + 7) div 8")
    case True
    then have "valid \<le> ib * 8" by linarith
    then show ?thesis using True by (simp add: scan_block.simps)
  next
    case False
    then have "ib * 8 < valid" by linarith
    then have "[ib * 8..<valid] = [ib * 8..<min (ib * 8 + 8) valid] @ [(ib + 1) * 8..<valid]"
      using upt_add_eq_append [of "ib * 8" "ib * 8 + 8" "valid - (ib * 8 + 8)"]
      by (cases "valid \<le> ib * 8 + 8") (auto simp: algebra_simps)
    then show ?thesis
      using "1.IH" False full_byte [of bitmap ib valid] scan_byte_find [of 0 bitmap ib valid]
      by (auto simp: scan_block.simps [of _ _ ib] find_append split: option.split)
  qed
qed

lemma find_upt_Some:
  "List.find P [0..<n] = Some k \<longleftrightarrow> k < n \<and> P k \<and> (\<forall>j < k. \<not> P j)"
  by (auto simp: find_Some_iff)

lemma scan_block_Some:
  "scan_block bitmap valid 0 = Some k \<longleftrightarrow> k < valid \<and> \<not> bmp_bit bitmap k \<and> (\<forall>j < k. bmp_bit bitmap j)"
  using find_upt_Some [of "\<lambda>k. \<not> bmp_bit bitmap k"] by (simp add: scan_block_find)

lemma scan_block_None: "scan_block bitmap valid 0 = None \<longleftrightarrow> (\<forall>k < valid. bmp_bit bitmap k)"
  by (auto simp: scan_block_find find_None_iff)

subsection \<open>Bits of a bitmap that spans blocks\<close>

definition gbit :: "(nat \<Rightarrow> byte list) \<Rightarrow> nat \<Rightarrow> nat \<Rightarrow> nat \<Rightarrow> bool" where
  "gbit c bits start k = bmp_bit (c (start + k div bits)) (k mod bits)"

text \<open>A bitmap whose block numbers and bit numbers fit the 32-bit arithmetic of the source.\<close>

definition bitmap_ok :: "'a blk_scheme \<Rightarrow> nat \<Rightarrow> nat \<Rightarrow> bool" where
  "bitmap_ok s start blocks \<longleftrightarrow>
     0 < bytes_per_block s \<and> bytes_per_block s * 8 < 2 ^ 32 \<and>
     start + blocks \<le> 2 ^ 32 \<and> blocks * (bytes_per_block s * 8) \<le> 2 ^ 32"

lemma bitmap_ok_bits: "bitmap_ok s start blocks \<Longrightarrow> bits_per_block s = bytes_per_block s * 8"
  by (simp add: bitmap_ok_def)

lemma valid_in_block:
  assumes "bitmap_ok s start blocks" "i < blocks"
  shows "valid_bits_in_block s valid i = min (valid - i * (bytes_per_block s * 8)) (bytes_per_block s * 8)"
    "(i * (bytes_per_block s * 8)) mod 2 ^ 32 = i * (bytes_per_block s * 8)"
proof -
  let ?n = "bytes_per_block s * 8"
  have "(i + 1) * ?n \<le> blocks * ?n" using assms(2) by (intro mult_le_mono1) simp
  then have "i * ?n < 2 ^ 32" using assms(1) by (simp add: bitmap_ok_def)
  then show "(i * ?n) mod 2 ^ 32 = i * ?n" by simp
  then show "valid_bits_in_block s valid i = min (valid - i * ?n) ?n"
    using bitmap_ok_bits [OF assms(1)] by (simp add: valid_bits_in_block_def Let_def min_def)
qed

lemma block_exact: "bitmap_ok s start blocks \<Longrightarrow> i < blocks \<Longrightarrow> (start + i) mod 2 ^ 32 = start + i"
  by (simp add: bitmap_ok_def)

lemma bit_exact:
  assumes "bitmap_ok s start blocks" "i < blocks" "k < bytes_per_block s * 8"
  shows "i * (bytes_per_block s * 8) + k < 2 ^ 32" "i * (bytes_per_block s * 8) + k < blocks * (bytes_per_block s * 8)"
proof -
  have "(i + 1) * (bytes_per_block s * 8) \<le> blocks * (bytes_per_block s * 8)"
    using assms(2) by (intro mult_le_mono1) simp
  then show "i * (bytes_per_block s * 8) + k < blocks * (bytes_per_block s * 8)" using assms(3) by simp
  then show "i * (bytes_per_block s * 8) + k < 2 ^ 32" using assms(1) by (simp add: bitmap_ok_def)
qed

lemma content_length: "blk_inv s \<Longrightarrow> length (blk_content s b) = bytes_per_block s"
  by (simp add: blk_inv_def geometry_ok_def blk_content_def)

lemma gbit_block: "0 < bits \<Longrightarrow> k < bits \<Longrightarrow> gbit c bits start (i * bits + k) = bmp_bit (c (start + i)) k"
  by (simp add: gbit_def)

text \<open>Changing one bit of one block changes one bit of the bitmap.\<close>

lemma gbit_update:
  assumes "0 < n" "k < n * 8" "length (c (start + i)) = n"
    and data: "data = (c (start + i))[k div 8 := if on then c (start + i) ! (k div 8) OR bit_mask k
                                      else c (start + i) ! (k div 8) AND NOT (bit_mask k)]"
  shows "gbit (c(start + i := data)) (n * 8) start j =
    (if j = i * (n * 8) + k then on else gbit c (n * 8) start j)"
proof (cases "j div (n * 8) = i")
  case True
  have j: "j = i * (n * 8) + k \<longleftrightarrow> j mod (n * 8) = k"
  proof
    show "j mod (n * 8) = k" if "j = i * (n * 8) + k" using that assms(2) by simp
    show "j = i * (n * 8) + k" if "j mod (n * 8) = k" using that True div_mult_mod_eq [of j "n * 8"] by simp
  qed
  have k: "k div 8 < length (c (start + i))" using assms(2,3) by (simp add: less_mult_imp_div_less)
  have "gbit (c(start + i := data)) (n * 8) start j = bmp_bit data (j mod (n * 8))"
    "gbit c (n * 8) start j = bmp_bit (c (start + i)) (j mod (n * 8))"
    using True by (auto simp: gbit_def)
  then show ?thesis using bmp_bit_update(1,2) [OF k, of "j mod (n * 8)"] unfolding j data by (cases on) auto
next
  case False
  then have "j \<noteq> i * (n * 8) + k" using assms(1,2) by auto
  then show ?thesis using False by (simp add: gbit_def)
qed

definition bits_set_to :: "'a blk_scheme \<Rightarrow> 'a blk_scheme \<Rightarrow> nat \<Rightarrow> nat \<Rightarrow> bool \<Rightarrow> bool" where
  "bits_set_to s s' start k on \<longleftrightarrow>
     (\<forall>j. gbit (blk_content s') (bytes_per_block s * 8) start j =
        (if j = k then on else gbit (blk_content s) (bytes_per_block s * 8) start j)) \<and>
     (\<forall>b. b \<noteq> start + k div (bytes_per_block s * 8) \<longrightarrow> blk_content s' b = blk_content s b)"

lemma write_bit:
  assumes "blk_inv s" "bitmap_ok s start blocks" "i < blocks" "k < bytes_per_block s * 8"
    and "write_block ((blk_content s (start + i))[k div 8 := if on then blk_content s (start + i) ! (k div 8) OR bit_mask k
           else blk_content s (start + i) ! (k div 8) AND NOT (bit_mask k)]) (start + i) s = Inr (err, s')"
  shows "blk_inv s' \<and> env s' = env s \<and> (err = SUCCESS \<or> err = FILE_WRITE_ERROR) \<and>
    (\<forall>b. b \<noteq> start + i \<longrightarrow> blk_content s' b = blk_content s b) \<and>
    (err = SUCCESS \<longrightarrow> bits_set_to s s' start (i * (bytes_per_block s * 8) + k) on)"
proof -
  let ?d = "(blk_content s (start + i))[k div 8 := if on then blk_content s (start + i) ! (k div 8) OR bit_mask k
      else blk_content s (start + i) ! (k div 8) AND NOT (bit_mask k)]"
  have len: "length ?d = bytes_per_block s" by (simp add: content_length [OF assms(1)])
  have "write_outcome s ?d (start + i) err s'"
    using write_block_outcome [OF assms(1), of ?d "start + i"] assms(5) len by auto
  then have w: "env s' = env s" "err = SUCCESS \<or> err = FILE_WRITE_ERROR" by (auto simp: write_outcome_def split: if_splits)
  have l: "blk_inv s'" "\<forall>c. c \<noteq> start + i \<longrightarrow> blk_content s' c = blk_content s c"
      "err = SUCCESS \<longrightarrow> blk_content s' (start + i) = ?d"
    using cache.wr_law [OF assms(1) _ assms(5)] len by auto
  have pos: "0 < bytes_per_block s" using assms(2) by (simp add: bitmap_ok_def)
  have "bits_set_to s s' start (i * (bytes_per_block s * 8) + k) on" if "err = SUCCESS"
  proof -
    have "blk_content s' = (blk_content s)(start + i := ?d)" using that l by auto
    moreover have "(i * (bytes_per_block s * 8) + k) div (bytes_per_block s * 8) = i" using assms(4) by simp
    ultimately show ?thesis
      using gbit_update [where c = "blk_content s" and start = start and i = i and on = on,
          OF pos assms(4) content_length [OF assms(1)] refl]
      by (simp add: bits_set_to_def)
  qed
  then show ?thesis using l w by auto
qed

lemma bitmap_ok_env: "env s' = env s \<Longrightarrow> bitmap_ok s' start blocks = bitmap_ok s start blocks"
  by (simp add: env_def bitmap_ok_def)

lemma read_ok_content:
  assumes "blk_inv s" "read_block b s = Inr (err, d, s')"
  shows "blk_inv s'" "env s' = env s" "blk_content s' = blk_content s" "bytes_per_block s' = bytes_per_block s"
    "err = SUCCESS \<longrightarrow> d = blk_content s b" "err = SUCCESS \<or> err = FILE_READ_ERROR"
  using read_block_outcome(1) [OF assms] by (auto simp: read_outcome_def blk_content_def env_def split: if_splits)

text \<open>What the search promises, from block \<open>i\<close> of the bitmap on.\<close>

definition find_spec :: "'a blk_scheme \<Rightarrow> nat \<Rightarrow> nat \<Rightarrow> nat \<Rightarrow> bool \<Rightarrow> err_t \<Rightarrow> nat \<Rightarrow> 'a blk_scheme \<Rightarrow> bool" where
  "find_spec s start blocks valid upd err k s' \<longleftrightarrow>
     blk_inv s' \<and> env s' = env s \<and>
     (let bits = bytes_per_block s * 8; used = gbit (blk_content s) bits start in
      if err = SUCCESS then
        k < valid \<and> k < blocks * bits \<and> \<not> used k \<and> (\<forall>j < k. used j) \<and>
        (if upd then bits_set_to s s' start k True else blk_content s' = blk_content s)
      else if err = NO_FREE_BLOCKS then
        blk_content s' = blk_content s \<and> (\<forall>j < min valid (blocks * bits). used j)
      else (err = FILE_READ_ERROR \<or> err = FILE_WRITE_ERROR) \<and>
        (\<forall>b. b < start \<or> start + blocks \<le> b \<longrightarrow> blk_content s' b = blk_content s b))"

lemma find_spec_frame:
  assumes "env s1 = env s" "blk_content s1 = blk_content s" "bytes_per_block s1 = bytes_per_block s"
    and "find_spec s1 start blocks valid upd err k s'"
  shows "find_spec s start blocks valid upd err k s'"
  using assms(4) unfolding find_spec_def bits_set_to_def by (simp only: assms(1-3))

lemma used_below_Suc:
  assumes "\<forall>j < i * bits. gbit c bits start j" "\<forall>k < bits. bmp_bit (c (start + i)) k" "0 < bits"
  shows "\<forall>j < (i + 1) * bits. gbit c bits start j"
proof (intro allI impI)
  fix j assume j: "j < (i + 1) * bits"
  show "gbit c bits start j"
  proof (cases "j < i * bits")
    case False
    then have "j = i * bits + (j - i * bits)" "j - i * bits < bits" using j by auto
    then show ?thesis using assms(2) gbit_block [OF assms(3), of "j - i * bits" c start i] by simp
  qed (use assms(1) in blast)
qed

lemma find_free_loop_spec:
  assumes "blk_inv s" "bitmap_ok s start blocks" "i \<le> blocks"
    and "\<forall>j < min valid (i * (bytes_per_block s * 8)). gbit (blk_content s) (bytes_per_block s * 8) start j"
    and "find_free_loop start valid upd [i..<blocks] s = Inr (err, k, s')"
  shows "find_spec s start blocks valid upd err k s'"
  using assms
proof (induction "blocks - i" arbitrary: i s)
  case 0
  then show ?case by (auto simp: find_spec_def Let_def)
next
  case (Suc d)
  let ?bits = "bytes_per_block s * 8"
  note inv = Suc.prems(1) and bm = Suc.prems(2) and run = Suc.prems(5)
  have i: "i < blocks" using Suc.hyps(2) by simp
  have pos: "0 < ?bits" using bm by (simp add: bitmap_ok_def)
  have upt: "[i..<blocks] = i # [i + 1..<blocks]" using i by (simp add: upt_conv_Cons)
  obtain e1 data s1 where rd: "read_block (start + i) s = Inr (e1, data, s1)"
    using run block_exact [OF bm i] by (auto simp: upt split: sum.splits)
  note r = read_ok_content [OF inv rd]
  show ?case
  proof (cases "e1 = SUCCESS")
    case False
    then have "err = e1" "s' = s1" using run rd block_exact [OF bm i] by (auto simp: upt)
    then show ?thesis using r False by (auto simp: find_spec_def Let_def)
  next
    case True
    then have data: "data = blk_content s (start + i)" using r(5) by simp
    have bm1: "bitmap_ok s1 start blocks" using bm bitmap_ok_env [OF r(2)] by simp
    note vb = valid_in_block(1) [OF bm1 i, of valid, unfolded r(4)] valid_in_block(2) [OF bm1 i, unfolded r(4)]
    let ?v = "min (valid - i * ?bits) ?bits"
    show ?thesis
    proof (cases "scan_block data ?v 0")
      case None
      have rest: "find_free_loop start valid upd [i + 1..<blocks] s1 = Inr (err, k, s')"
        using run rd True None vb block_exact [OF bm i] by (simp add: upt)
      have "gbit (blk_content s) ?bits start j" if j: "j < min valid ((i + 1) * ?bits)" for j
      proof (cases "j < i * ?bits")
        case False
        then have "j = i * ?bits + (j - i * ?bits)" "j - i * ?bits < ?v" using j by auto
        then show ?thesis using None data gbit_block [OF pos, of "j - i * ?bits" "blk_content s" start i]
          by (simp add: scan_block_None)
      qed (use Suc.prems(4) j in auto)
      then have "find_spec s1 start blocks valid upd err k s'"
        using Suc.hyps(1) [of "i + 1" s1] Suc.hyps(2) r bm1 i rest by simp
      then show ?thesis using find_spec_frame r by metis
    next
      case (Some k1)
      then have k1: "k1 < ?v" "\<not> bmp_bit data k1" "\<forall>j < k1. bmp_bit data j" by (auto simp: scan_block_Some)
      let ?k = "i * ?bits + k1"
      have ex: "?k < 2 ^ 32" "?k < blocks * ?bits" using bit_exact [OF bm i, of k1] k1(1) by auto
      have fb: "((i * bits_per_block s1) mod 2 ^ 32 + k1) mod 2 ^ 32 = ?k"
        using bitmap_ok_bits [OF bm1] vb(2) ex(1) by (simp only: r(4)) simp
      have used: "gbit (blk_content s) ?bits start j" if "j < ?k" for j
      proof (cases "j < i * ?bits")
        case False
        then have "j = i * ?bits + (j - i * ?bits)" "j - i * ?bits < k1" using that by auto
        then show ?thesis using k1 data gbit_block [OF pos, of "j - i * ?bits" "blk_content s" start i] by simp
      qed (use Suc.prems(4) k1(1) in auto)
      have free: "\<not> gbit (blk_content s) ?bits start ?k" "?k < valid"
        using k1 data gbit_block [OF pos, of k1 "blk_content s" start i] by auto
      show ?thesis
      proof (cases upd)
        case False
        then have "err = SUCCESS" "k = ?k" "s' = s1"
          using run rd True Some vb block_exact [OF bm i] fb by (auto simp: upt Let_def)
        then show ?thesis using r used free ex(2) False by (simp add: find_spec_def Let_def)
      next
        case upd: True
        let ?data = "data[k1 div 8 := data ! (k1 div 8) OR bit_mask k1]"
        obtain e2 s2 where wr: "write_block ?data (start + i) s1 = Inr (e2, s2)"
          using run rd True Some vb block_exact [OF bm i] upd
          by (auto simp: upt Let_def split: sum.splits)
        have res: "s' = s2" "err = e2" "e2 = SUCCESS \<Longrightarrow> k = ?k"
          using run rd True Some vb block_exact [OF bm i] fb upd wr
          by (auto simp: upt Let_def split: if_splits)
        have "blk_inv s2 \<and> env s2 = env s1 \<and> (e2 = SUCCESS \<or> e2 = FILE_WRITE_ERROR) \<and>
            (\<forall>b. b \<noteq> start + i \<longrightarrow> blk_content s2 b = blk_content s1 b) \<and>
            (e2 = SUCCESS \<longrightarrow> bits_set_to s1 s2 start ?k True)"
          using write_bit [OF r(1) bm1 i, of k1 True e2 s2] k1(1) wr r(3,4) data by simp
        then show ?thesis using r res used free ex(2) upd i
          by (auto simp: find_spec_def Let_def bits_set_to_def)
      qed
    qed
  qed
qed

lemma kalloc_keeps:
  assumes "kalloc s = (r, s')" "blk_inv s"
  shows "blk_inv s'" "env s' = env s" "blk_content s' = blk_content s" "bytes_per_block s' = bytes_per_block s"
    "io_ops s' = io_ops s" "r = None \<longleftrightarrow> \<not> km_ok s (km_calls s)"
proof -
  have h: "holds s (lru_list s)" "length (lru_list s) \<le> 12" "geometry_ok s" using assms(2) by (auto simp: blk_inv_def)
  note f = kalloc_frame [OF assms(1) h(1)]
  show "blk_inv s'" using f(1,2) h by (auto intro: blk_invI)
  show "env s' = env s" "blk_content s' = blk_content s" "bytes_per_block s' = bytes_per_block s"
    "io_ops s' = io_ops s" "r = None \<longleftrightarrow> \<not> km_ok s (km_calls s)"
    using f by (auto simp: env_def blk_content_def)
qed

text \<open>No fault and no lack of memory, ever.\<close>

definition reliable :: "'a blk_scheme \<Rightarrow> bool" where
  "reliable s \<longleftrightarrow> (\<forall>n. km_ok s n \<and> io_ok s n)"

lemma reliable_env: "env s' = env s \<Longrightarrow> reliable s' = reliable s"
  by (simp add: env_def reliable_def)

lemma reliable_read:
  assumes "blk_inv s" "reliable s" "b < fs_block_count s"
  obtains s' where "read_block b s = Inr (SUCCESS, blk_content s b, s')" "blk_inv s'" "env s' = env s"
    "blk_content s' = blk_content s"
proof -
  obtain s' where r: "read_block b s = Inr (SUCCESS, blk_content s b, s')"
    using read_block_outcome(4) [OF assms(1), of b] assms(2,3) by (auto simp: reliable_def)
  with read_ok_content [OF assms(1) r] show thesis using that by blast
qed

lemma reliable_write:
  assumes "blk_inv s" "reliable s" "b < fs_block_count s" "bytes_per_block s \<le> length d"
  obtains s' where "write_block d b s = Inr (SUCCESS, s')" "blk_inv s'" "env s' = env s"
    "blk_content s' = (blk_content s)(b := take (bytes_per_block s) d)"
proof -
  obtain s' where w: "write_block d b s = Inr (SUCCESS, s')" "write_outcome s d b SUCCESS s'"
    using write_block_outcome [OF assms(1,4), of b] assms(2,3) by (auto simp: reliable_def)
  then have "blk_inv s'" "env s' = env s" by (auto simp: write_outcome_def)
  moreover have "blk_content s' = (blk_content s)(b := take (bytes_per_block s) d)"
    using w(2) content_write [of s' s b] by (simp add: write_outcome_def env_def)
  ultimately show thesis using w(1) that by blast
qed

lemma find_free_loop_returns:
  "blk_inv s \<Longrightarrow> reliable s \<Longrightarrow> start + blocks \<le> fs_block_count s \<Longrightarrow> bitmap_ok s start blocks \<Longrightarrow>
     set is \<subseteq> {..<blocks} \<Longrightarrow>
     \<exists>err k s'. find_free_loop start valid upd is s = Inr (err, k, s') \<and> (err = SUCCESS \<or> err = NO_FREE_BLOCKS)"
proof (induction "is" arbitrary: s)
  case (Cons i "is")
  have i: "i < blocks" "start + i < fs_block_count s" using Cons.prems(3,5) by auto
  obtain s1 where r: "read_block (start + i) s = Inr (SUCCESS, blk_content s (start + i), s1)" "blk_inv s1"
      "env s1 = env s" "blk_content s1 = blk_content s"
    using reliable_read [OF Cons.prems(1,2) i(2)] by metis
  have s1: "reliable s1" "fs_block_count s1 = fs_block_count s" "bitmap_ok s1 start blocks"
    using r(3) Cons.prems(2,4) reliable_env bitmap_ok_env env_simps by metis+
  note ex = block_exact [OF Cons.prems(4) i(1)]
  show ?case
  proof (cases "scan_block (blk_content s (start + i)) (valid_bits_in_block s1 valid i) 0")
    case None
    then show ?thesis using Cons.IH [OF r(2) s1(1) _ s1(3)] Cons.prems(3,5) s1(2) r ex by simp
  next
    case (Some k)
    let ?d = "(blk_content s (start + i))[k div 8 := blk_content s (start + i) ! (k div 8) OR bit_mask k]"
    obtain s2 where "write_block ?d (start + i) s1 = Inr (SUCCESS, s2)"
      using reliable_write [OF r(2) s1(1), of "start + i" ?d] i(2) s1(2) content_length [OF r(2)] r(4) by auto
    then show ?thesis using Some r ex by (cases upd) (auto simp: Let_def)
  qed
qed simp

lemma find_range_spec:
  assumes "blk_inv s" "bitmap_ok s start blocks" "0 < blocks" "0 < valid"
  shows "(\<forall>err k s'. find_free_from_bitmap_range start blocks valid upd s = Inr (err, k, s') \<longrightarrow>
      find_spec s start blocks valid upd err k s')
    \<and> (reliable s \<and> start + blocks \<le> fs_block_count s \<longrightarrow>
       (\<exists>err k s'. find_free_from_bitmap_range start blocks valid upd s = Inr (err, k, s') \<and>
         (err = SUCCESS \<or> err = NO_FREE_BLOCKS)))"
proof -
  obtain r s1 where k: "kalloc s = (r, s1)" by (cases "kalloc s")
  note f = kalloc_keeps [OF k assms(1)]
  have bm: "bitmap_ok s1 start blocks" using assms(2) bitmap_ok_env [OF f(2)] by simp
  have ff: "find_free_from_bitmap_range start blocks valid upd s =
      (if r = None then Inr (FILE_READ_ERROR, 0, s1) else find_free_loop start valid upd [0..<blocks] s1)"
    using assms(3,4) k by (simp add: find_free_from_bitmap_range_def)
  show ?thesis
  proof (intro conjI allI impI)
    fix err k s' assume run: "find_free_from_bitmap_range start blocks valid upd s = Inr (err, k, s')"
    have "find_spec s1 start blocks valid upd err k s'"
    proof (cases "r = None")
      case True
      then show ?thesis using run ff f(1) by (auto simp: find_spec_def Let_def)
    next
      case False
      then show ?thesis using find_free_loop_spec [OF f(1) bm, of 0 valid upd err k s'] run ff by auto
    qed
    then show "find_spec s start blocks valid upd err k s'" using find_spec_frame f(2-4) by metis
  next
    assume rel: "reliable s \<and> start + blocks \<le> fs_block_count s"
    then have "r \<noteq> None" using f(6) by (simp add: reliable_def)
    then show "\<exists>err k s'. find_free_from_bitmap_range start blocks valid upd s = Inr (err, k, s') \<and>
         (err = SUCCESS \<or> err = NO_FREE_BLOCKS)"
      using find_free_loop_returns [OF f(1) _ _ bm, of "[0..<blocks]" valid upd] rel reliable_env [OF f(2)] env_simps [OF f(2)] ff
      by (auto simp: lessThan_atLeast0)
  qed
qed

text \<open>C23. Bitmap allocation. On an intact cache, \<^verbatim>\<open>find_free_from_bitmap_range\<close> returns the lowest
  clear bit below \<^verbatim>\<open>valid_bits\<close> and, when asked to take it, sets that bit and no other bit of the
  file system; it reports \<^verbatim>\<open>NO_FREE_BLOCKS\<close> only when every valid bit is set, without changing
  anything. With a reliable device and memory it always returns one of these two.\<close>

theorem find_free_takes_first_clear_bit:
  assumes "blk_inv s" "bitmap_ok s start blocks" "0 < blocks" "0 < valid"
  shows "(\<forall>err k s'. find_free_from_bitmap_range start blocks valid upd s = Inr (err, k, s') \<longrightarrow>
      find_spec s start blocks valid upd err k s')
    \<and> (reliable s \<and> start + blocks \<le> fs_block_count s \<longrightarrow>
       (\<exists>err k s'. find_free_from_bitmap_range start blocks valid upd s = Inr (err, k, s') \<and>
         (err = SUCCESS \<or> err = NO_FREE_BLOCKS)))"
  by (rule find_range_spec [OF assms])

lemma blank_ok: "bitmap_ok blank_disk 1 1" "reliable blank_disk" "blk_content blank_disk b = [0, 0]"
  by (simp_all add: bitmap_ok_def blank_disk_def reliable_def blk_content_def)

theorem find_free_takes_first_clear_bit_witness:
  "blk_inv blank_disk \<and> bitmap_ok blank_disk 1 1 \<and>
   (\<exists>err k s'. find_free_from_bitmap_range 1 1 16 True blank_disk = Inr (err, k, s') \<and>
     find_spec blank_disk 1 1 16 True err k s')"
  using find_free_takes_first_clear_bit [OF blank_disk_inv(1) blank_ok(1), of 16 True] blank_ok(2) blank_disk_inv(1,3) blank_ok(1)
  by auto

text \<open>Freeing: one bit is cleared or set, or nothing outside the bitmap block changes.\<close>

lemma set_bit_reliable:
  assumes "blk_inv s" "reliable s" "bitmap_ok s start blocks" "k < valid" "k < blocks * (bytes_per_block s * 8)"
    "start + blocks \<le> fs_block_count s"
  obtains s' where "set_bit_in_bitmap_range start blocks valid k on s = Inr (SUCCESS, s')"
proof -
  let ?bits = "bytes_per_block s * 8" and ?b = "start + k div (bytes_per_block s * 8)"
  obtain r s1 where k: "kalloc s = (r, s1)" by (cases "kalloc s")
  note f = kalloc_keeps [OF k assms(1)]
  have i: "k div ?bits < blocks" "0 < blocks" using assms(5) by (auto simp: less_mult_imp_div_less intro: Nat.gr0I)
  have s1: "reliable s1" "?b < fs_block_count s1" "bytes_per_block s1 = bytes_per_block s"
    using f(2) assms(2,6) i(1) reliable_env [OF f(2)] by (auto simp: env_def)
  obtain s2 where rd: "read_block ?b s1 = Inr (SUCCESS, blk_content s1 ?b, s2)" "blk_inv s2" "env s2 = env s1"
      "blk_content s2 = blk_content s1" using reliable_read [OF f(1) s1(1,2)] .
  let ?o = "blk_content s1 ?b ! (k mod ?bits div 8)"
  let ?d = "(blk_content s1 ?b)[k mod ?bits div 8 := if on then ?o OR bit_mask (k mod ?bits) else ?o AND NOT (bit_mask (k mod ?bits))]"
  have s2: "reliable s2" "?b < fs_block_count s2" "bytes_per_block s2 \<le> length ?d"
    using s1 rd(3) content_length [OF f(1)] reliable_env [OF rd(3)] by (auto simp: env_def)
  obtain s3 where "write_block ?d ?b s2 = Inr (SUCCESS, s3)" using reliable_write [OF rd(2) s2] .
  moreover have "r \<noteq> None" using f assms(2) by (auto simp: reliable_def)
  moreover have "bits_per_block s2 = ?bits" using bitmap_ok_bits [OF assms(3)] f(2) rd(3) by (auto simp: env_def)
  ultimately have "set_bit_in_bitmap_range start blocks valid k on s = Inr (SUCCESS, s3)"
    using assms(4) i k rd(1) bitmap_ok_bits [OF assms(3)] block_exact [OF assms(3) i(1)]
    by (auto simp: set_bit_in_bitmap_range_def Let_def)
  then show thesis by (rule that)
qed

lemma set_bit_spec:
  assumes "blk_inv s" "bitmap_ok s start blocks" "k < valid" "k < blocks * (bytes_per_block s * 8)"
    and "set_bit_in_bitmap_range start blocks valid k on s = Inr (err, s')"
  shows "blk_inv s' \<and> env s' = env s \<and> (err = SUCCESS \<or> err = FILE_READ_ERROR \<or> err = FILE_WRITE_ERROR) \<and>
    (err = SUCCESS \<longrightarrow> bits_set_to s s' start k on)"
proof -
  let ?bits = "bytes_per_block s * 8"
  obtain r s1 where k: "kalloc s = (r, s1)" by (cases "kalloc s")
  note f = kalloc_keeps [OF k assms(1)]
  have bm: "bitmap_ok s1 start blocks" using assms(2) bitmap_ok_env [OF f(2)] by simp
  have pos: "0 < ?bits" using assms(2) by (simp add: bitmap_ok_def)
  have i: "k div ?bits < blocks" "0 < blocks"
    using assms(4) by (auto simp: less_mult_imp_div_less intro: Nat.gr0I)
  note bits = bitmap_ok_bits [OF assms(2)]
  have run: "(if r = None then Inr (FILE_READ_ERROR, s1)
      else case read_block (start + k div ?bits) s1 of
        Inl p \<Rightarrow> Inl p
      | Inr (err, data, s2) \<Rightarrow>
          if err \<noteq> SUCCESS then Inr (err, s2)
          else write_block (data[k mod ?bits div 8 :=
                 if on then data ! (k mod ?bits div 8) OR bit_mask (k mod ?bits)
                 else data ! (k mod ?bits div 8) AND NOT (bit_mask (k mod ?bits))]) (start + k div ?bits) s2) = Inr (err, s')"
    using assms(3,5) i k bits block_exact [OF assms(2) i(1)] read_ok_content(4) [OF f(1)] f(4)
    by (auto simp: set_bit_in_bitmap_range_def Let_def split: sum.splits if_splits)
  show ?thesis
  proof (cases "r = None")
    case True
    then show ?thesis using run f(1,2) by auto
  next
    case False
    then obtain e2 data s2 where rd: "read_block (start + k div ?bits) s1 = Inr (e2, data, s2)"
      using run by (auto split: sum.splits)
    note g = read_ok_content [OF f(1) rd]
    show ?thesis
    proof (cases "e2 = SUCCESS")
      case False
      then show ?thesis using run rd \<open>r \<noteq> None\<close> g f(2) by auto
    next
      case True
      have bm2: "bitmap_ok s2 start blocks" using bm bitmap_ok_env [OF g(2)] by simp
      have eqs: "bytes_per_block s2 = bytes_per_block s" "blk_content s2 = blk_content s" using f g by auto
      have k: "k div ?bits * ?bits + k mod ?bits = k" by (rule div_mult_mod_eq)
      have data: "data = blk_content s2 (start + k div ?bits)" using True g(3,5) by simp
      have wr: "write_block (data[k mod ?bits div 8 :=
          if on then data ! (k mod ?bits div 8) OR bit_mask (k mod ?bits)
          else data ! (k mod ?bits div 8) AND NOT (bit_mask (k mod ?bits))]) (start + k div ?bits) s2 = Inr (err, s')"
        using run rd \<open>r \<noteq> None\<close> True by simp
      have "k mod ?bits < bytes_per_block s2 * 8" using pos eqs by simp
      note w = write_bit [OF g(1) bm2 i(1) this wr [unfolded data], unfolded eqs(1) k]
      moreover have "bits_set_to s2 s' start k on = bits_set_to s s' start k on" by (simp add: bits_set_to_def eqs)
      ultimately show ?thesis using f(2) g(2) by auto
    qed
  qed
qed



end
