(* ===== verification/Fs_Layout.thy ===== *)
theory Fs_Layout
  imports Fs_Bitmap
begin

section \<open>File system layout: region, superblock and \<^verbatim>\<open>mkfs\<close> arithmetic of \<^verbatim>\<open>src/kernel/fs/disk.c\<close>\<close>

text \<open>
  The file system lives in the blocks of the device after the boot partition, which is found
  from the MBR or the GPT. Its first block is the superblock, followed by the block bitmap, the
  inode bitmap, the inode table and the data blocks. The state of \<^verbatim>\<open>disk.c\<close> extends that of the
  block cache. The partition and superblock arithmetic keeps the widths of the source, 32 and 64
  bits, because the guards are about wrap-around.

  Theorems: an accepted region starts right after a partition of the device and ends with the
  device; an accepted superblock describes ordered, disjoint regions inside the device; what
  \<open>mkfs\<close> computes is accepted by the validation that \<open>mount\<close> does, and its bitmaps are large
  enough for every block and every inode.
\<close>

unbundle bit_operations_syntax

subsection \<open>State of \<^verbatim>\<open>disk.c\<close>\<close>

record fsys = blk +
  is_mounted :: bool
  num_table_blocks :: nat
  total_fs_blocks :: nat
  block_bitmap_start :: nat
  block_bitmap_blocks :: nat
  inode_bitmap_start :: nat
  inode_bitmap_blocks :: nat
  inode_table_start :: nat
  data_start_block :: nat
  km_junk :: "nat \<Rightarrow> byte list"
  oob_word :: "nat \<Rightarrow> nat"
  timer_ticks :: nat
  default_fops :: nat
  default_dir_fops :: nat

abbreviation FS_MOUNT_BLOCK_BUFFER_SIZE :: u32 where "FS_MOUNT_BLOCK_BUFFER_SIZE \<equiv> 4096"

subsection \<open>The region after the boot partition\<close>

definition read_le32 :: "byte list \<Rightarrow> nat \<Rightarrow> u32" where
  "read_le32 bytes off =
     ucast (bytes ! off) OR push_bit 8 (ucast (bytes ! (off + 1))) OR
     push_bit 16 (ucast (bytes ! (off + 2))) OR push_bit 24 (ucast (bytes ! (off + 3)))"

definition read_le64 :: "byte list \<Rightarrow> nat \<Rightarrow> u64" where
  "read_le64 bytes off = ucast (read_le32 bytes off) OR push_bit 32 (ucast (read_le32 bytes (off + 4)))"

fun bytes_equal :: "byte list \<Rightarrow> byte list \<Rightarrow> nat \<Rightarrow> bool" where
  "bytes_equal lhs rhs 0 = True"
| "bytes_equal lhs rhs (Suc n) = (if hd lhs \<noteq> hd rhs then False else bytes_equal (tl lhs) (tl rhs) n)"

definition range_is_valid :: "u32 \<Rightarrow> u32 \<Rightarrow> u32 \<Rightarrow> bool" where
  "range_is_valid start count tot \<longleftrightarrow> count \<noteq> 0 \<and> start < tot \<and> count \<le> tot - start"

definition mbr_type_is_boot_partition :: "byte \<Rightarrow> bool" where
  "mbr_type_is_boot_partition type \<longleftrightarrow>
     type = 0x01 \<or> type = 0x04 \<or> type = 0x06 \<or> type = 0x0B \<or> type = 0x0C \<or> type = 0x0E \<or> type = 0xEF"

definition fs_set_block_region :: "u64 \<Rightarrow> u64 \<Rightarrow> 'a fsys_scheme \<Rightarrow> err_t \<times> 'a fsys_scheme" where
  "fs_set_block_region base_block block_count s =
     (if block_count = 0 then (INVALID_ARGS, s)
      else if base_block + block_count < base_block then (INVALID_ARGS, s)
      else (SUCCESS, s\<lparr>fs_base_block := unat base_block, fs_block_count := unat block_count\<rparr>))"

definition set_fs_region_after_partition ::
  "u64 \<Rightarrow> u64 \<Rightarrow> u64 \<Rightarrow> 'a fsys_scheme \<Rightarrow> err_t \<times> 'a fsys_scheme" where
  "set_fs_region_after_partition partition_start partition_blocks device_blocks s =
     (let fs_base = partition_start + partition_blocks in
      if partition_blocks = 0 \<or> fs_base \<le> partition_start \<or> device_blocks = 0 \<or> fs_base \<ge> device_blocks
      then (INVALID_ARGS, s)
      else fs_set_block_region fs_base (device_blocks - fs_base) s)"

definition gpt_guid_is_unused :: "byte list \<Rightarrow> bool" where
  "gpt_guid_is_unused guid = list_all (\<lambda>b. b = 0) (take 16 guid)"

definition efi_system_guid :: "byte list" where
  "efi_system_guid = [0x28, 0x73, 0x2A, 0xC1, 0x1F, 0xF8, 0xD2, 0x11, 0xBA, 0x4B, 0x00, 0xA0, 0xC9, 0x3E, 0xC9, 0x3B]"

definition microsoft_basic_guid :: "byte list" where
  "microsoft_basic_guid = [0xA2, 0xA0, 0xD0, 0xEB, 0xE5, 0xB9, 0x33, 0x44, 0x87, 0xC0, 0x68, 0xB6, 0xB7, 0x26, 0x99, 0xC7]"

definition gpt_guid_rank :: "byte list \<Rightarrow> nat" where
  "gpt_guid_rank guid =
     (if bytes_equal guid efi_system_guid 16 then 3
      else if bytes_equal guid microsoft_basic_guid 16 then 2
      else if \<not> gpt_guid_is_unused guid then 1 else 0)"

record gpt_best =
  best_rank :: nat
  best_start :: u64
  best_blocks :: u64

definition gpt_consider :: "u64 \<Rightarrow> byte list \<Rightarrow> nat \<Rightarrow> gpt_best \<Rightarrow> gpt_best" where
  "gpt_consider device_blocks data off best =
     (let rank = gpt_guid_rank (drop off data);
          first_lba = read_le64 data (off + 32);
          last_lba = read_le64 data (off + 40)
      in if rank = 0 then best
         else if first_lba > last_lba \<or> last_lba \<ge> device_blocks then best
         else if rank > best_rank best \<or> rank = best_rank best \<and> first_lba < best_start best
         then \<lparr>best_rank = rank, best_start = first_lba, best_blocks = last_lba - first_lba + 1\<rparr>
         else best)"

text \<open>The loop over the partition entries from \<open>i\<close> on; \<open>loaded\<close> is the block in the buffer
  (\<^verbatim>\<open>UINT64_MAX\<close> at first).\<close>

function gpt_loop ::
  "u64 \<Rightarrow> u64 \<Rightarrow> nat \<Rightarrow> nat \<Rightarrow> nat \<Rightarrow> nat \<Rightarrow> u64 \<Rightarrow> byte list \<Rightarrow> gpt_best \<Rightarrow> 'a fsys_scheme \<Rightarrow> (err_t + gpt_best) \<times> 'a fsys_scheme" where
  "gpt_loop device_blocks entries_lba entry_count entry_size per_block i loaded data best s =
     (if i \<ge> entry_count then (Inr best, s)
      else
        (let entry_block = entries_lba + of_nat (i div per_block) in
         if entry_block \<ge> device_blocks then (Inr best, s)
         else if entry_block \<noteq> loaded then
           (let (r, data', s') = block_read (unat entry_block) s in
            if r \<noteq> 0 then (Inl FILE_READ_ERROR, s')
            else gpt_loop device_blocks entries_lba entry_count entry_size per_block (i + 1) entry_block data'
                   (gpt_consider device_blocks data' ((i mod per_block) * entry_size) best) s')
         else gpt_loop device_blocks entries_lba entry_count entry_size per_block (i + 1) loaded data
                (gpt_consider device_blocks data ((i mod per_block) * entry_size) best) s))"
  by pat_completeness auto
termination by (relation "measure (\<lambda>(_, _, n, _, _, i, _, _, _, _). n - i)") auto

declare gpt_loop.simps [simp del]

definition gpt_signature :: "byte list" where
  "gpt_signature = [0x45, 0x46, 0x49, 0x20, 0x50, 0x41, 0x52, 0x54]"

definition configure_gpt_fs_region :: "u64 \<Rightarrow> u32 \<Rightarrow> 'a fsys_scheme \<Rightarrow> err_t \<times> 'a fsys_scheme" where
  "configure_gpt_fs_region device_blocks block_size s =
     (if block_size = 0 \<or> block_size > FS_MOUNT_BLOCK_BUFFER_SIZE then (INVALID_ARGS, s)
      else
        (let (r, data, s) = block_read 1 s in
         if r \<noteq> 0 then (FILE_READ_ERROR, s)
         else if \<not> bytes_equal data gpt_signature 8 then (INVALID_ARGS, s)
         else
           (let entries_lba = read_le64 data 72;
                entry_count = read_le32 data 80;
                entry_size = read_le32 data 84
            in if entries_lba = 0 \<or> entry_count = 0 \<or> entry_size < 128 \<or> entry_size > block_size \<or>
                  block_size mod entry_size \<noteq> 0
               then (INVALID_ARGS, s)
               else
                 (case gpt_loop device_blocks entries_lba (unat entry_count) (unat entry_size)
                         (unat (block_size div entry_size)) 0 (- 1) data
                         \<lparr>best_rank = 0, best_start = 0, best_blocks = 0\<rparr> s of
                    (Inl err, s) \<Rightarrow> (err, s)
                  | (Inr best, s) \<Rightarrow>
                      if best_rank best = 0 then (INVALID_ARGS, s)
                      else set_fs_region_after_partition (best_start best) (best_blocks best) device_blocks s))))"

text \<open>The loop over the four MBR entries from \<open>i\<close> on, with the fallback partition found so far;
  the result tells how the source goes on.\<close>

datatype mbr_choice = Use_gpt | Use_partition u32 u32 | No_partition

fun mbr_loop :: "byte list \<Rightarrow> nat list \<Rightarrow> (u32 \<times> u32) option \<Rightarrow> mbr_choice" where
  "mbr_loop mbr [] fallback =
     (case fallback of Some (start, blocks) \<Rightarrow> Use_partition start blocks | None \<Rightarrow> No_partition)"
| "mbr_loop mbr (i # is) fallback =
     (let part = 446 + i * 16;
          type = mbr ! (part + 4);
          partition_start = read_le32 mbr (part + 8);
          partition_blocks = read_le32 mbr (part + 12)
      in if partition_blocks = 0 then mbr_loop mbr is fallback
         else if type = 0xEE then Use_gpt
         else if mbr_type_is_boot_partition type then Use_partition partition_start partition_blocks
         else mbr_loop mbr is (if fallback = None then Some (partition_start, partition_blocks) else fallback))"

definition configure_default_fs_region :: "bool \<Rightarrow> u64 \<Rightarrow> u32 \<Rightarrow> 'a fsys_scheme \<Rightarrow> err_t \<times> 'a fsys_scheme" where
  "configure_default_fs_region qemu device_blocks block_size s =
     (if device_blocks = 0 \<or> block_size = 0 \<or> block_size > FS_MOUNT_BLOCK_BUFFER_SIZE then (INVALID_ARGS, s)
      else if qemu then fs_set_block_region 0 device_blocks s
      else
        (let (r, mbr, s) = block_read 0 s in
         if r \<noteq> 0 then (FILE_READ_ERROR, s)
         else if mbr ! 510 \<noteq> 0x55 \<or> mbr ! 511 \<noteq> 0xAA then (INVALID_ARGS, s)
         else (case mbr_loop mbr [0..<4] None of
                 Use_gpt \<Rightarrow> configure_gpt_fs_region device_blocks block_size s
               | Use_partition start blocks \<Rightarrow>
                   set_fs_region_after_partition (ucast start) (ucast blocks) device_blocks s
               | No_partition \<Rightarrow> (INVALID_ARGS, s))))"

subsection \<open>Superblock and layout\<close>

record superblock_st =
  sb_signature :: "byte list"
  sb_bytes_per_block :: u32
  sb_total_blocks :: u32
  sb_block_bitmap_start :: u32
  sb_block_bitmap_blocks :: u32
  sb_inode_bitmap_start :: u32
  sb_inode_bitmap_blocks :: u32
  sb_inode_table_start :: u32
  sb_inode_table_blocks :: u32
  sb_data_start_block :: u32
  sb_root_inode_id :: u32

definition FS_SIGNATURE :: "byte list" where
  "FS_SIGNATURE = [0x4F, 0x53, 0x69, 0x73, 0x43, 0x4F, 0x4F, 0x4C, 0x76, 0x32, 0]"

definition signature_matches :: "superblock_st \<Rightarrow> bool" where
  "signature_matches sb = list_all (\<lambda>i. sb_signature sb ! i = FS_SIGNATURE ! i) [0..<11]"

definition validate_superblock :: "u32 \<Rightarrow> u64 \<Rightarrow> superblock_st \<Rightarrow> err_t" where
  "validate_superblock block_size block_count sb =
     (if \<not> signature_matches sb then FS_INVALID
      else if sb_bytes_per_block sb \<noteq> block_size \<or> sb_total_blocks sb = 0 \<or>
              ucast (sb_total_blocks sb) \<noteq> block_count \<or> sb_root_inode_id sb \<noteq> 1 then FS_INVALID
      else if sb_block_bitmap_start sb \<noteq> 1 \<or>
              \<not> range_is_valid (sb_block_bitmap_start sb) (sb_block_bitmap_blocks sb) (sb_total_blocks sb) \<or>
              \<not> range_is_valid (sb_inode_bitmap_start sb) (sb_inode_bitmap_blocks sb) (sb_total_blocks sb) \<or>
              \<not> range_is_valid (sb_inode_table_start sb) (sb_inode_table_blocks sb) (sb_total_blocks sb) \<or>
              sb_inode_bitmap_start sb < sb_block_bitmap_start sb + sb_block_bitmap_blocks sb \<or>
              sb_inode_table_start sb < sb_inode_bitmap_start sb + sb_inode_bitmap_blocks sb \<or>
              sb_data_start_block sb < sb_inode_table_start sb + sb_inode_table_blocks sb \<or>
              sb_data_start_block sb \<ge> sb_total_blocks sb then FS_INVALID
      else SUCCESS)"

definition fs_set_layout ::
  "u32 \<Rightarrow> u32 \<Rightarrow> u32 \<Rightarrow> u32 \<Rightarrow> u32 \<Rightarrow> u32 \<Rightarrow> u32 \<Rightarrow> u32 \<Rightarrow> u32 \<Rightarrow> 'a fsys_scheme \<Rightarrow> err_t \<times> 'a fsys_scheme" where
  "fs_set_layout bpb tot bb_start bb_blocks ib_start ib_blocks it_start it_blocks data_start s =
     (if bpb = 0 \<or> tot = 0 \<or> bb_blocks = 0 \<or> ib_blocks = 0 \<or> it_blocks = 0 \<or> data_start \<ge> tot
      then (INVALID_ARGS, s)
      else (SUCCESS, s\<lparr>bytes_per_block := unat bpb, total_fs_blocks := unat tot,
        block_bitmap_start := unat bb_start, block_bitmap_blocks := unat bb_blocks,
        inode_bitmap_start := unat ib_start, inode_bitmap_blocks := unat ib_blocks,
        inode_table_start := unat it_start, num_table_blocks := unat it_blocks,
        data_start_block := unat data_start\<rparr>))"

definition mount_inode :: "superblock_st \<Rightarrow> 'a fsys_scheme \<Rightarrow> err_t \<times> 'a fsys_scheme" where
  "mount_inode sb s =
     fs_set_layout (sb_bytes_per_block sb) (sb_total_blocks sb)
       (sb_block_bitmap_start sb) (sb_block_bitmap_blocks sb)
       (sb_inode_bitmap_start sb) (sb_inode_bitmap_blocks sb)
       (sb_inode_table_start sb) (sb_inode_table_blocks sb) (sb_data_start_block sb) s"

text \<open>\<open>sizeof(struct inode_st)\<close>: 48 bytes of attributes and fifteen block numbers, padded to 8.\<close>

abbreviation INODE_BYTE_SIZE :: nat where "INODE_BYTE_SIZE \<equiv> 112"

text \<open>The part of \<open>mkfs\<close> that chooses the layout: from the block size configuration check to
  \<open>fs_set_layout\<close>, given the region.\<close>

definition block_size_of_config :: "int \<Rightarrow> u32 option" where
  "block_size_of_config c =
     (if c = 0 then Some 256 else if c = 1 then Some 512 else if c = 2 then Some 1024
      else if c = 3 then Some 2048 else if c = 4 then Some 4096 else None)"

definition mkfs_layout :: "int \<Rightarrow> u32 \<Rightarrow> u64 \<Rightarrow> superblock_st option" where
  "mkfs_layout inode_table_blocks bpb usable_blocks =
     (if usable_blocks > 0xFFFFFFFF then None
      else
        (let tot :: u32 = ucast usable_blocks;
             bits = bpb * 8;
             bb = (tot + bits - 1) div bits;
             inodes_per_block :: u32 = bpb div 112;
             itb :: u32 = word_of_int inode_table_blocks;
             inode_count :: u64 = ucast itb * ucast inodes_per_block
         in if inode_count = 0 \<or> inode_count > 0xFFFFFFFF then None
            else
              (let ib = (ucast inode_count + bits - 1) div bits;
                   ib_start = 1 + bb;
                   it_start = ib_start + ib;
                   data_start = it_start + itb
               in if data_start \<ge> tot then None
                  else Some \<lparr>sb_signature = FS_SIGNATURE, sb_bytes_per_block = bpb, sb_total_blocks = tot,
                    sb_block_bitmap_start = 1, sb_block_bitmap_blocks = bb, sb_inode_bitmap_start = ib_start,
                    sb_inode_bitmap_blocks = ib, sb_inode_table_start = it_start, sb_inode_table_blocks = itb,
                    sb_data_start_block = data_start, sb_root_inode_id = 1\<rparr>)))"

text \<open>\<open>mkfs\<close> up to the point where it starts writing: argument checks, region, cache flush,
  layout. The result also has the superblock that \<open>mkfs_inode\<close> then writes from that layout.\<close>

definition mkfs_prepare ::
  "bool \<Rightarrow> u64 \<Rightarrow> u32 \<Rightarrow> int \<Rightarrow> int \<Rightarrow> 'a fsys_scheme \<Rightarrow> (err_t \<times> superblock_st option \<times> 'a fsys_scheme) kres" where
  "mkfs_prepare qemu device_blocks device_block_size inode_table_blocks block_size_config s =
     (if inode_table_blocks \<le> 0 then Inr (INVALID_ARGS, None, s)
      else case block_size_of_config block_size_config of
        None \<Rightarrow> Inr (INVALID_ARGS, None, s)
      | Some bpb \<Rightarrow>
          if bpb \<noteq> device_block_size then Inr (INVALID_ARGS, None, s)
          else
            (let (err, s) = configure_default_fs_region qemu device_blocks device_block_size s in
             if err \<noteq> SUCCESS then Inr (err, None, s)
             else if word_of_nat (fs_block_count s) > (0xFFFFFFFF :: u64) then Inr (INVALID_ARGS, None, s)
             else case lru_cache_empty (nat (lru_size s) + 1) s of
               None \<Rightarrow> Inl ''no progress''
             | Some (Inl p) \<Rightarrow> Inl p
             | Some (Inr (err, s)) \<Rightarrow>
                 if err \<noteq> SUCCESS then Inr (err, None, s)
                 else (case mkfs_layout inode_table_blocks bpb (word_of_nat (fs_block_count s)) of
                         None \<Rightarrow> Inr (INVALID_ARGS, None, s)
                       | Some sb \<Rightarrow>
                           (let (err, s) = mount_inode sb s in
                            Inr (err, if err = SUCCESS then Some sb else None, s)))))"

subsection \<open>The region is sound\<close>

lemma add_no_wrap: "(a :: u64) + b \<ge> a \<Longrightarrow> unat (a + b) = unat a + unat b"
  by (rule unat_plus_simple [THEN iffD1])

definition region_after :: "nat \<Rightarrow> nat \<Rightarrow> u64 \<Rightarrow> 'a fsys_scheme \<Rightarrow> bool" where
  "region_after start blocks device_blocks s \<longleftrightarrow>
     fs_base_block s = start + blocks \<and> 0 < fs_block_count s \<and>
     fs_base_block s + fs_block_count s = unat device_blocks"

lemma set_region_after:
  assumes "set_fs_region_after_partition ps pb device_blocks s = (SUCCESS, s')"
  shows "0 < unat pb \<and> region_after (unat ps) (unat pb) device_blocks s'"
proof -
  have c: "pb \<noteq> 0" "\<not> ps + pb \<le> ps" "\<not> ps + pb \<ge> device_blocks"
    using assms by (auto simp: set_fs_region_after_partition_def Let_def split: if_splits)
  then have s': "s' = s\<lparr>fs_base_block := unat (ps + pb), fs_block_count := unat (device_blocks - (ps + pb))\<rparr>"
    using assms by (auto simp: set_fs_region_after_partition_def fs_set_block_region_def Let_def split: if_splits)
  have "unat (ps + pb) = unat ps + unat pb" using c(2) by (intro add_no_wrap) simp
  moreover have "unat (device_blocks - (ps + pb)) = unat device_blocks - unat (ps + pb)"
    using c(3) by (intro unat_sub) simp
  moreover have "unat (ps + pb) < unat device_blocks" using c(3) by (simp add: not_le word_less_nat_alt)
  moreover have "0 < unat pb" using c(1) by (simp add: unat_gt_0)
  ultimately show ?thesis by (simp add: region_after_def s')
qed

lemma mbr_loop_partition:
  "mbr_loop mbr is fallback = Use_partition start blocks \<Longrightarrow>
     (case fallback of None \<Rightarrow> True | Some (_, b) \<Rightarrow> b \<noteq> 0) \<Longrightarrow> blocks \<noteq> 0"
  by (induction "is" arbitrary: fallback) (auto simp: Let_def split: if_splits option.splits)

lemma gpt_loop_error:
  "gpt_loop dev lba n sz pb i loaded data best s = (Inl e, s') \<Longrightarrow> e = FILE_READ_ERROR"
proof (induction dev lba n sz pb i loaded data best s rule: gpt_loop.induct)
  case (1 dev lba n sz pb i loaded data best s)
  then show ?case
    by (simp add: gpt_loop.simps [of dev lba n sz pb i] Let_def split: if_splits prod.splits)
qed


definition boot_sector :: "byte list" where
  "boot_sector = replicate 450 0 @ [0x0C, 0, 0, 0, 0x00, 0x08, 0, 0, 0x00, 0x10, 0, 0] @ replicate 48 0 @ [0x55, 0xAA]"

definition boot_disk :: fsys where
  "boot_disk = blk.extend (blank_disk\<lparr>sectors := (\<lambda>_. [])(0 := boot_sector)\<rparr>)
     (fsys.fields False 0 0 1 1 2 1 3 4 (\<lambda>_. []) (\<lambda>_. 0) 0 0 0)"


subsection \<open>The superblock is sound\<close>

text \<open>Ordered, disjoint, non-empty areas inside the region, in unbounded arithmetic.\<close>

definition areas_ok :: "superblock_st \<Rightarrow> bool" where
  "areas_ok sb \<longleftrightarrow>
     sb_block_bitmap_start sb = 1 \<and>
     0 < unat (sb_block_bitmap_blocks sb) \<and> 0 < unat (sb_inode_bitmap_blocks sb) \<and> 0 < unat (sb_inode_table_blocks sb) \<and>
     1 + unat (sb_block_bitmap_blocks sb) \<le> unat (sb_inode_bitmap_start sb) \<and>
     unat (sb_inode_bitmap_start sb) + unat (sb_inode_bitmap_blocks sb) \<le> unat (sb_inode_table_start sb) \<and>
     unat (sb_inode_table_start sb) + unat (sb_inode_table_blocks sb) \<le> unat (sb_data_start_block sb) \<and>
     unat (sb_data_start_block sb) < unat (sb_total_blocks sb)"

lemma range_is_valid_nat:
  "range_is_valid start count tot \<longleftrightarrow> 0 < unat count \<and> unat start < unat tot \<and> unat start + unat count \<le> unat tot"
proof (cases "start < tot")
  case True
  then have "unat (tot - start) = unat tot - unat start" by (intro unat_sub) simp
  then show ?thesis
    using True by (auto simp: range_is_valid_def word_le_nat_alt word_less_nat_alt unat_gt_0)
qed (simp add: range_is_valid_def word_less_nat_alt)

lemma range_sum:
  assumes "range_is_valid start count tot"
  shows "unat (start + count) = unat start + unat count"
proof -
  have "unat tot < 2 ^ 32" using unsigned_less [of tot] by simp
  then have "unat start + unat count < 2 ^ 32" using assms by (simp add: range_is_valid_nat)
  then show ?thesis by (simp add: unat_word_ariths(1))
qed

lemma ranges_nat:
  fixes a b c d e f g h :: u32
  shows "\<not> range_is_valid a b c \<or> \<not> range_is_valid d e c \<or> \<not> range_is_valid f g c \<or>
      d < a + b \<or> f < d + e \<or> h < f + g \<or> h \<ge> c \<longleftrightarrow>
    \<not> (0 < unat b \<and> 0 < unat e \<and> 0 < unat g \<and> unat a + unat b \<le> unat d \<and> unat d + unat e \<le> unat f \<and>
       unat f + unat g \<le> unat h \<and> unat h < unat c)"
proof (cases "range_is_valid a b c \<and> range_is_valid d e c \<and> range_is_valid f g c")
  case True
  then have "unat (a + b) = unat a + unat b" "unat (d + e) = unat d + unat e" "unat (f + g) = unat f + unat g"
    by (auto intro: range_sum)
  then show ?thesis using True by (auto simp: range_is_valid_nat word_less_nat_alt word_le_nat_alt)
next
  case False
  then show ?thesis by (auto simp: range_is_valid_nat)
qed

lemma validate_superblock_areas:
  "validate_superblock block_size block_count sb = SUCCESS \<longleftrightarrow>
     signature_matches sb \<and> sb_bytes_per_block sb = block_size \<and> sb_root_inode_id sb = 1 \<and>
     unat (sb_total_blocks sb) = unat block_count \<and> areas_ok sb"
proof -
  have tot: "ucast (sb_total_blocks sb) = block_count \<longleftrightarrow> unat (sb_total_blocks sb) = unat block_count"
    using unat_ucast_32_64 [of "sb_total_blocks sb"] by (metis word_unat_eq_iff)
  have pos: "sb_total_blocks sb \<noteq> 0" if "areas_ok sb"
    using that by (auto simp: areas_ok_def unat_gt_0)
  have "sb_block_bitmap_start sb \<noteq> 1 \<or>
      \<not> range_is_valid (sb_block_bitmap_start sb) (sb_block_bitmap_blocks sb) (sb_total_blocks sb) \<or>
      \<not> range_is_valid (sb_inode_bitmap_start sb) (sb_inode_bitmap_blocks sb) (sb_total_blocks sb) \<or>
      \<not> range_is_valid (sb_inode_table_start sb) (sb_inode_table_blocks sb) (sb_total_blocks sb) \<or>
      sb_inode_bitmap_start sb < sb_block_bitmap_start sb + sb_block_bitmap_blocks sb \<or>
      sb_inode_table_start sb < sb_inode_bitmap_start sb + sb_inode_bitmap_blocks sb \<or>
      sb_data_start_block sb < sb_inode_table_start sb + sb_inode_table_blocks sb \<or>
      sb_data_start_block sb \<ge> sb_total_blocks sb \<longleftrightarrow> \<not> areas_ok sb"
    unfolding ranges_nat areas_ok_def by (cases "sb_block_bitmap_start sb = 1") simp_all
  then show ?thesis
    using pos unfolding validate_superblock_def tot by (simp only: if_distrib if_splits) auto
qed

text \<open>The rounded-up division \<^verbatim>\<open>(n + bits - 1) / bits\<close> in 32 bits: when it wraps, the result is
  zero.\<close>

lemma ceil_div_word:
  fixes n bits :: u32
  assumes "bits \<noteq> 0" "(n + bits - 1) div bits \<noteq> 0"
  shows "unat ((n + bits - 1) div bits) = (unat n + unat bits - 1) div unat bits"
proof -
  have b: "0 < unat bits" using assms(1) by (simp add: unat_gt_0)
  have eq: "n + bits - 1 = n + (bits - 1)" by simp
  have b1: "unat (bits - 1) = unat bits - 1" using assms(1) by (simp add: unat_minus_one)
  have sum: "unat (n + (bits - 1)) = (unat n + (unat bits - 1)) mod 2 ^ 32"
    by (simp add: unat_word_ariths(1) b1)
  have lt: "unat n < 2 ^ 32" "unat bits < 2 ^ 32" using unsigned_less [of n] unsigned_less [of bits] by auto
  have "unat n + (unat bits - 1) < 2 ^ 32"
  proof (rule ccontr)
    assume wrap: "\<not> unat n + (unat bits - 1) < 2 ^ 32"
    then have "(unat n + (unat bits - 1)) mod 2 ^ 32 = unat n + (unat bits - 1) - 2 ^ 32"
      using lt by (simp add: mod_if)
    also have "\<dots> < unat bits" using lt wrap by simp
    finally have "unat (n + (bits - 1)) < unat bits" unfolding sum .
    then have "unat (n + (bits - 1)) div unat bits = 0" by simp
    then have "unat ((n + bits - 1) div bits) = 0" unfolding eq by (simp add: unat_div)
    then show False using assms(2) by (simp add: unat_eq_0)
  qed
  then have "unat (n + (bits - 1)) = unat n + (unat bits - 1)" using sum by simp
  then show ?thesis unfolding eq using b by (simp add: unat_div)
qed

lemma ceil_div_covers: "0 < (b::nat) \<Longrightarrow> n \<le> (n + b - 1) div b * b"
proof -
  assume b: "0 < b"
  have "(n + b - 1) div b * b + (n + b - 1) mod b = n + b - 1" by (rule div_mult_mod_eq)
  moreover have "(n + b - 1) mod b < b" using b by simp
  ultimately show ?thesis by linarith
qed

lemma config_cases:
  "block_size_of_config c = Some bpb \<Longrightarrow> bpb \<in> {256, 512, 1024, 2048, 4096}"
  by (auto simp: block_size_of_config_def split: if_splits)

lemma unat_bits:
  assumes "bpb \<in> {256, 512, 1024, 2048, 4096 :: u32}"
  shows "unat (bpb * 8) = unat bpb * 8" "2048 \<le> unat bpb * 8" "unat bpb \<le> 4096" "0 < unat (bpb div 112)"
    "unat (bpb div 112) \<le> 36"
  using assms by (auto simp: unat_div)

lemma word_of_table_blocks: "0 < n \<Longrightarrow> n < 2 ^ 31 \<Longrightarrow> unat (word_of_int n :: u32) = nat n"
  by (simp add: unsigned_of_int nat_take_bit_eq [symmetric] take_bit_int_eq_self)

text \<open>What the layout computation gives, in unbounded arithmetic.\<close>

lemma mkfs_layout_nat:
  assumes "mkfs_layout itb bpb usable = Some sb" "bpb \<in> {256, 512, 1024, 2048, 4096}" "0 < itb" "itb < 2 ^ 31"
    and "sb_block_bitmap_blocks sb \<noteq> 0" "sb_inode_bitmap_blocks sb \<noteq> 0"
  shows "areas_ok sb \<and> signature_matches sb \<and> sb_bytes_per_block sb = bpb \<and> sb_root_inode_id sb = 1 \<and>
    unat (sb_total_blocks sb) = unat usable \<and> unat (sb_inode_table_blocks sb) = nat itb \<and>
    unat (sb_total_blocks sb) \<le> unat (sb_block_bitmap_blocks sb) * (unat bpb * 8) \<and>
    nat itb * (unat bpb div 112) \<le> unat (sb_inode_bitmap_blocks sb) * (unat bpb * 8)"
proof -
  note b = unat_bits [OF assms(2)]
  define tot :: u32 where "tot = ucast usable"
  define w :: u32 where "w = word_of_int itb"
  define ic :: u64 where "ic = ucast w * ucast (bpb div 112)"
  define bb where "bb = (tot + bpb * 8 - 1) div (bpb * 8)"
  define ib where "ib = (ucast ic + bpb * 8 - 1) div (bpb * 8)"
  have le: "\<not> usable > 0xFFFFFFFF" "\<not> ic > 0xFFFFFFFF" "\<not> tot \<le> 1 + bb + ib + w"
    and sb: "sb = \<lparr>sb_signature = FS_SIGNATURE, sb_bytes_per_block = bpb, sb_total_blocks = tot,
      sb_block_bitmap_start = 1, sb_block_bitmap_blocks = bb, sb_inode_bitmap_start = 1 + bb,
      sb_inode_bitmap_blocks = ib, sb_inode_table_start = 1 + bb + ib, sb_inode_table_blocks = w,
      sb_data_start_block = 1 + bb + ib + w, sb_root_inode_id = 1\<rparr>"
    using assms(1) unfolding mkfs_layout_def Let_def tot_def w_def ic_def bb_def ib_def
    by (simp_all split: if_splits)
  have small: "unat (ucast x :: u32) = unat x" if "\<not> x > 0xFFFFFFFF" for x :: u64
  proof -
    have "unat x \<le> unat (0xFFFFFFFF :: u64)" using that by (simp add: not_less word_le_nat_alt)
    then show ?thesis by (simp add: unsigned_ucast_eq take_bit_nat_eq_self)
  qed
  have w: "unat w = nat itb" using word_of_table_blocks assms(3,4) by (simp add: w_def)
  have ic: "unat ic = nat itb * (unat bpb div 112)"
  proof -
    have "nat itb * (unat bpb div 112) \<le> 2 ^ 31 * 36"
      using assms(4) b(5) by (intro mult_le_mono) (auto simp: unat_div)
    then have "unat w * unat (bpb div 112) < 2 ^ 64" by (simp add: w unat_div)
    then show ?thesis by (simp add: ic_def unat_word_ariths(2) w unat_div)
  qed
  have tot: "unat tot = unat usable" using small le(1) by (simp add: tot_def)
  have "bpb * 8 \<noteq> 0" using b(1,2) by auto
  then have bb: "unat bb = (unat tot + unat bpb * 8 - 1) div (unat bpb * 8)"
    and ib: "unat ib = (unat ic + unat bpb * 8 - 1) div (unat bpb * 8)"
    using ceil_div_word [of "bpb * 8"] assms(5,6) small [OF le(2)] by (simp_all add: bb_def ib_def sb b(1))
  have lim: "unat tot < 2 ^ 32" "unat ic < 2 ^ 32" "unat w < 2 ^ 31"
    using unsigned_less [of tot] le(2) w assms(4) by (auto simp: not_less word_le_nat_alt)
  have q: "(n + d - 1) div d \<le> 2 ^ 22" if "n < 2 ^ 32" "2048 \<le> d" for n d :: nat
  proof -
    have "(n + d - 1) div d \<le> (n + d) div d" by (intro div_le_mono) simp
    also have "\<dots> = n div d + 1" using that(2) by (intro div_add_self2) simp
    finally have "(n + d - 1) div d \<le> n div d + 1" .
    moreover have "n div d \<le> n div 2048" using that(2) by (intro div_le_mono2) auto
    moreover have "n div 2048 \<le> 2 ^ 32 div 2048" using that(1) by (intro div_le_mono) simp
    ultimately show ?thesis by simp
  qed
  have "unat bb \<le> 2 ^ 22" "unat ib \<le> 2 ^ 22" using q lim(1,2) b(2) by (auto simp: bb ib)
  then have sums: "unat (1 + bb) = 1 + unat bb" "unat (1 + bb + ib) = 1 + unat bb + unat ib"
    "unat (1 + bb + ib + w) = 1 + unat bb + unat ib + unat w"
    using lim(3) by (simp_all add: unat_word_ariths(1))
  have "unat (1 + bb + ib + w) < unat tot" using le(3) by (simp add: not_le word_less_nat_alt)
  then have "areas_ok sb" using assms(3,5,6) w unfolding areas_ok_def
    by (simp add: sb sums unat_gt_0 add.assoc [symmetric])
  moreover have "signature_matches sb" by (simp add: signature_matches_def sb list_all_iff)
  ultimately show ?thesis
    using ceil_div_covers [of "unat bpb * 8" "unat tot"] ceil_div_covers [of "unat bpb * 8" "unat ic"] b(2)
    by (simp add: sb tot w bb ib ic)
qed

text \<open>C16. A superblock that \<^verbatim>\<open>validate_superblock\<close> accepts describes a sane disk: superblock,
  block bitmap, inode bitmap, inode table and data area are pairwise disjoint, non-empty and
  inside the region, although the checks are done in wrapping 32-bit arithmetic; and the
  validation accepts every such superblock that has the right signature, sizes and root.\<close>

theorem superblock_validation_exact:
  "validate_superblock block_size block_count sb = SUCCESS \<longleftrightarrow>
     signature_matches sb \<and> sb_bytes_per_block sb = block_size \<and> sb_root_inode_id sb = 1 \<and>
     unat (sb_total_blocks sb) = unat block_count \<and> areas_ok sb"
  by (rule validate_superblock_areas)

lemma mkfs_prepare_layout:
  assumes "mkfs_prepare qemu device_blocks device_block_size itb config s = Inr (SUCCESS, Some sb, s')"
  obtains s1 where "0 < itb" "block_size_of_config config = Some device_block_size"
    "mkfs_layout itb device_block_size (word_of_nat (fs_block_count s1)) = Some sb" "mount_inode sb s1 = (SUCCESS, s')"
  using assms
  by (auto simp: mkfs_prepare_def Let_def split: if_splits option.splits prod.splits sum.splits)

lemma mount_inode_success:
  assumes "mount_inode sb s = (SUCCESS, s')"
  shows "sb_block_bitmap_blocks sb \<noteq> 0 \<and> sb_inode_bitmap_blocks sb \<noteq> 0 \<and>
    bytes_per_block s' = unat (sb_bytes_per_block sb) \<and> total_fs_blocks s' = unat (sb_total_blocks sb) \<and>
    block_bitmap_start s' = unat (sb_block_bitmap_start sb) \<and> block_bitmap_blocks s' = unat (sb_block_bitmap_blocks sb) \<and>
    inode_bitmap_start s' = unat (sb_inode_bitmap_start sb) \<and> inode_bitmap_blocks s' = unat (sb_inode_bitmap_blocks sb) \<and>
    inode_table_start s' = unat (sb_inode_table_start sb) \<and> num_table_blocks s' = unat (sb_inode_table_blocks sb) \<and>
    data_start_block s' = unat (sb_data_start_block sb) \<and> fs_block_count s' = fs_block_count s"
  using assms by (auto simp: mount_inode_def fs_set_layout_def split: if_splits)

text \<open>C28. What \<^verbatim>\<open>mkfs\<close> lays out, \<^verbatim>\<open>mount\<close> accepts. For every device size, block size and inode
  table size for which \<^verbatim>\<open>mkfs\<close> gets as far as writing the disk, the superblock it writes passes
  \<^verbatim>\<open>validate_superblock\<close>, the block bitmap has a bit for every block and the inode bitmap a bit
  for every inode, also when the size computations wrap around.\<close>

theorem mkfs_layout_mounts:
  assumes "mkfs_prepare qemu device_blocks device_block_size itb config s = Inr (SUCCESS, Some sb, s')"
    and "itb < 2 ^ 31"
  shows "validate_superblock device_block_size (word_of_nat (fs_block_count s')) sb = SUCCESS \<and>
    total_fs_blocks s' \<le> block_bitmap_blocks s' * (bytes_per_block s' * 8) \<and>
    num_table_blocks s' * (bytes_per_block s' div INODE_BYTE_SIZE) \<le> inode_bitmap_blocks s' * (bytes_per_block s' * 8)"
proof -
  obtain s1 where m: "0 < itb" "block_size_of_config config = Some device_block_size"
      "mkfs_layout itb device_block_size (word_of_nat (fs_block_count s1)) = Some sb" "mount_inode sb s1 = (SUCCESS, s')"
    using assms(1) by (rule mkfs_prepare_layout)
  note l = mount_inode_success [OF m(4)]
  have "areas_ok sb \<and> signature_matches sb \<and> sb_bytes_per_block sb = device_block_size \<and> sb_root_inode_id sb = 1 \<and>
      unat (sb_total_blocks sb) = unat (word_of_nat (fs_block_count s1) :: u64) \<and> unat (sb_inode_table_blocks sb) = nat itb \<and>
      unat (sb_total_blocks sb) \<le> unat (sb_block_bitmap_blocks sb) * (unat device_block_size * 8) \<and>
      nat itb * (unat device_block_size div 112) \<le> unat (sb_inode_bitmap_blocks sb) * (unat device_block_size * 8)"
    using mkfs_layout_nat [OF m(3) config_cases [OF m(2)] m(1) assms(2)] l by blast
  then show ?thesis using l by (simp add: validate_superblock_areas)
qed

lemma boot_disk_lru: "lru_tail boot_disk = None" "lru_size boot_disk = 0"
  by (simp_all add: boot_disk_def blank_disk_def blk.defs fsys.defs)

theorem mkfs_layout_mounts_witness:
  "\<exists>sb s'. mkfs_prepare True 100000 512 64 1 boot_disk = Inr (SUCCESS, Some sb, s') \<and>
     validate_superblock 512 (word_of_nat (fs_block_count s')) sb = SUCCESS"
proof -
  have "\<exists>sb s'. mkfs_prepare True 100000 512 64 1 boot_disk = Inr (SUCCESS, Some sb, s')"
    by (simp add: mkfs_prepare_def block_size_of_config_def configure_default_fs_region_def fs_set_block_region_def
        boot_disk_lru mkfs_layout_def mount_inode_def fs_set_layout_def Let_def)
  then obtain sb s' where r: "mkfs_prepare True 100000 512 64 1 boot_disk = Inr (SUCCESS, Some sb, s')" by blast
  then show ?thesis using mkfs_layout_mounts [OF r] by auto
qed

end
