(* ===== verification/Fs_Monad.thy ===== *)
theory Fs_Monad
  imports Fs_Layout Byte_Memory
begin

section \<open>File system operations as state transformers\<close>

text \<open>
  The functions of \<^verbatim>\<open>inodes.c\<close> and the layers above run on the state of \<^verbatim>\<open>disk.c\<close>, return an
  \<open>err_t\<close>, and return early on the first error. Such a function is a state transformer here:
  \<open>Inl\<close> is a panic (a dereferenced null pointer), \<open>Inr (Inl e, s)\<close> the return of error \<open>e\<close>, and
  \<open>Inr (Inr a, s)\<close> a return of \<open>SUCCESS\<close> with the output parameters \<open>a\<close>. \<open>bindE\<close> is the sequence
  \<^verbatim>\<open>err = m(); if (err != SUCCESS) return err;\<close>.

  The theory also has the little-endian view of a block as an array of numbers.
\<close>

type_synonym ('s, 'a) fsm = "'s \<Rightarrow> ((err_t + 'a) \<times> 's) kres"

definition ret :: "'a \<Rightarrow> ('s, 'a) fsm" where
  "ret a s = Inr (Inr a, s)"

definition fail :: "err_t \<Rightarrow> ('s, 'a) fsm" where
  "fail e s = Inr (Inl e, s)"

definition abort :: "string \<Rightarrow> ('s, 'a) fsm" where
  "abort p s = Inl p"

definition bindE :: "('s, 'a) fsm \<Rightarrow> ('a \<Rightarrow> ('s, 'b) fsm) \<Rightarrow> ('s, 'b) fsm" where
  "bindE m f s =
     (case m s of Inl p \<Rightarrow> Inl p | Inr (Inl e, s') \<Rightarrow> Inr (Inl e, s') | Inr (Inr a, s') \<Rightarrow> f a s')"

text \<open>A call whose error code the source inspects itself.\<close>

definition attempt :: "('s, 'a) fsm \<Rightarrow> ('s, err_t + 'a) fsm" where
  "attempt m s = (case m s of Inl p \<Rightarrow> Inl p | Inr (r, s') \<Rightarrow> Inr (Inr r, s'))"

definition gets :: "('s \<Rightarrow> 'a) \<Rightarrow> ('s, 'a) fsm" where
  "gets f s = Inr (Inr (f s), s)"

definition modify :: "('s \<Rightarrow> 's) \<Rightarrow> ('s, unit) fsm" where
  "modify f s = Inr (Inr (), f s)"

definition as_result :: "err_t \<Rightarrow> 'a \<Rightarrow> err_t + 'a" where
  "as_result err a = (if err \<noteq> SUCCESS then Inl err else Inr a)"

definition kalloc_m :: "('a blk_scheme, nat option) fsm" where
  "kalloc_m s = (case kalloc s of (r, s') \<Rightarrow> Inr (Inr r, s'))"

text \<open>\<open>read_block\<close> into a buffer that may be null: the copy into it is what faults.\<close>

definition read_block_m :: "nat option \<Rightarrow> nat \<Rightarrow> ('a blk_scheme, byte list) fsm" where
  "read_block_m buf num s =
     (case read_block num s of
        Inl p \<Rightarrow> Inl p
      | Inr (err, data, s') \<Rightarrow>
          if err \<noteq> SUCCESS then Inr (Inl err, s')
          else if buf = None then Inl data_abort else Inr (Inr data, s'))"

definition write_block_m :: "byte list \<Rightarrow> nat \<Rightarrow> ('a blk_scheme, unit) fsm" where
  "write_block_m data num s =
     (case write_block data num s of Inl p \<Rightarrow> Inl p | Inr (err, s') \<Rightarrow> Inr (as_result err (), s'))"

lemma ret_success [simp]: "ret a s = Inr (Inr b, s') \<longleftrightarrow> b = a \<and> s' = s"
  by (auto simp: ret_def)

lemma fail_success [simp]: "fail e s \<noteq> Inr (Inr b, s')"
  by (simp add: fail_def)

lemma abort_success [simp]: "abort p s \<noteq> Inr r"
  by (simp add: abort_def)

lemma gets_success [simp]: "gets f s = Inr (Inr b, s') \<longleftrightarrow> b = f s \<and> s' = s"
  by (auto simp: gets_def)

lemma bindE_success:
  "bindE m f s = Inr (Inr b, s'') \<longleftrightarrow> (\<exists>a s'. m s = Inr (Inr a, s') \<and> f a s' = Inr (Inr b, s''))"
  by (auto simp: bindE_def split: sum.splits prod.splits)

lemma bindE_gets [simp]: "bindE (gets f) g s = g (f s) s"
  by (simp add: bindE_def gets_def)

lemma bindE_ret [simp]: "bindE (ret a) g = g a"
  by (simp add: bindE_def ret_def fun_eq_iff)

lemma bindE_known: "m s = Inr (Inr a, s') \<Longrightarrow> bindE m f s = f a s'"
  by (simp add: bindE_def)

lemma bindE_panic: "m s = Inl p \<Longrightarrow> bindE m f s = Inl p"
  by (simp add: bindE_def)

lemma bindE_error: "m s = Inr (Inl e, s') \<Longrightarrow> bindE m f s = Inr (Inl e, s')"
  by (simp add: bindE_def)

lemmas bindE_cases = bindE_known bindE_panic bindE_error

subsection \<open>Little-endian numbers in byte lists\<close>

definition slice :: "byte list \<Rightarrow> nat \<Rightarrow> nat \<Rightarrow> byte list" where
  "slice data off n = take n (drop off data)"

definition splice :: "byte list \<Rightarrow> nat \<Rightarrow> byte list \<Rightarrow> byte list" where
  "splice data off bs = take off data @ bs @ drop (off + length bs) data"

lemma length_splice [simp]: "off + length bs \<le> length data \<Longrightarrow> length (splice data off bs) = length data"
  by (simp add: splice_def)

lemma slice_splice_same: "off + length bs \<le> length data \<Longrightarrow> slice (splice data off bs) off (length bs) = bs"
  by (simp add: slice_def splice_def)

lemma slice_splice_other:
  assumes "off + length bs \<le> length data" "o' + n \<le> off \<or> off + length bs \<le> o'" "o' + n \<le> length data"
  shows "slice (splice data off bs) o' n = slice data o' n"
proof (rule list_eq_by_nth)
  show "length (slice (splice data off bs) o' n) = length (slice data o' n)" using assms by (simp add: slice_def)
  fix i assume "i < length (slice data o' n)"
  then have i: "i < n" using assms(3) by (simp add: slice_def)
  then have "splice data off bs ! (o' + i) = data ! (o' + i)"
    using assms by (auto simp: splice_def nth_append min_def)
  then show "slice (splice data off bs) o' n ! i = slice data o' n ! i"
    using i assms by (simp add: slice_def)
qed

text \<open>The array of 32-bit block numbers in a pointer block. A load past the buffer returns
  whatever lies there, \<open>oob_word\<close>.\<close>

definition get_u32 :: "'a fsys_scheme \<Rightarrow> byte list \<Rightarrow> nat \<Rightarrow> nat" where
  "get_u32 s data i = (if 4 * i + 4 \<le> length data then le_val (slice data (4 * i) 4) else oob_word s i)"

definition put_u32 :: "byte list \<Rightarrow> nat \<Rightarrow> nat \<Rightarrow> byte list" where
  "put_u32 data i v = (if 4 * i + 4 \<le> length data then splice data (4 * i) (le_bytes 4 v) else data)"

lemma length_put_u32 [simp]: "length (put_u32 data i v) = length data"
  by (simp add: put_u32_def)

lemma get_put_u32:
  assumes "4 * i + 4 \<le> length data" "v < 2 ^ 32" "4 * j + 4 \<le> length data"
  shows "get_u32 s (put_u32 data i v) j = (if j = i then v else get_u32 s data j)"
proof (cases "j = i")
  case True
  then show ?thesis
    using assms slice_splice_same [of "4 * i" "le_bytes 4 v" data] le_val_bytes [of v 4]
    by (simp add: get_u32_def put_u32_def)
next
  case False
  then have "4 * j + 4 \<le> 4 * i \<or> 4 * i + 4 \<le> 4 * j" by arith
  then show ?thesis
    using False assms slice_splice_other [of "4 * i" "le_bytes 4 v" data "4 * j" 4]
    by (simp add: get_u32_def put_u32_def)
qed

subsection \<open>Effects of the block operations\<close>

text \<open>\<open>quiet s s'\<close>: the blocks and the layout are as before.\<close>

definition quiet :: "'a blk_scheme \<Rightarrow> 'a blk_scheme \<Rightarrow> bool" where
  "quiet s s' \<longleftrightarrow> blk_inv s' \<and> env s' = env s \<and> blk_content s' = blk_content s"

lemma quiet_trans: "quiet s s1 \<Longrightarrow> quiet s1 s2 \<Longrightarrow> quiet s s2"
  by (simp add: quiet_def)

lemma kalloc_m_quiet:
  "kalloc_m s = Inr (r, s') \<Longrightarrow> blk_inv s \<Longrightarrow> quiet s s' \<and> (\<exists>buf. r = Inr buf)"
  using kalloc_keeps [of s "fst (kalloc s)" "snd (kalloc s)"]
  by (auto simp: kalloc_m_def quiet_def split: prod.splits)

lemma read_block_m_quiet:
  assumes "read_block_m buf b s = Inr (r, s')" "blk_inv s"
  shows "quiet s s' \<and> (\<forall>d. r = Inr d \<longrightarrow> d = blk_content s b) \<and> (\<forall>e. r = Inl e \<longrightarrow> e = FILE_READ_ERROR)"
proof -
  obtain err d s1 where rd: "read_block b s = Inr (err, d, s1)"
    using assms(1) by (auto simp: read_block_m_def split: sum.splits)
  from read_ok_content [OF assms(2) rd] show ?thesis
    using assms(1) rd by (auto simp: read_block_m_def quiet_def split: if_splits)
qed

lemma write_block_m_effect:
  assumes "write_block_m d b s = Inr (r, s')" "blk_inv s" "length d = bytes_per_block s"
  shows "blk_inv s' \<and> env s' = env s \<and> (\<forall>c. c \<noteq> b \<longrightarrow> blk_content s' c = blk_content s c) \<and>
    (r = Inr () \<longrightarrow> blk_content s' = (blk_content s)(b := d)) \<and> (\<forall>e. r = Inl e \<longrightarrow> e = FILE_WRITE_ERROR)"
proof -
  obtain err where w: "write_block d b s = Inr (err, s')" "r = as_result err ()"
    using assms(1) by (auto simp: write_block_m_def split: sum.splits)
  have l: "blk_inv s'" "\<forall>c. c \<noteq> b \<longrightarrow> blk_content s' c = blk_content s c"
      "err = SUCCESS \<longrightarrow> blk_content s' b = d"
    using cache.wr_law [OF assms(2) _ w(1)] assms(3) by auto
  have "write_outcome s d b err s'" using write_block_outcome [OF assms(2), of d b] w(1) assms(3) by auto
  then have "env s' = env s" "err = SUCCESS \<or> err = FILE_WRITE_ERROR" by (auto simp: write_outcome_def split: if_splits)
  then show ?thesis using l w(2) by (auto simp: as_result_def split: if_splits)
qed

end
