(* ===== verification/Inodes.thy ===== *)
theory Inodes
  imports Fs_Monad
begin

section \<open>Inode table: \<^verbatim>\<open>src/kernel/fs/inodes.c\<close>\<close>

text \<open>
  An inode is a structure of 112 bytes in the inode table. \<open>get_inode_raw\<close> and \<open>write_inode\<close> read
  and replace one inode in its block; free inodes and blocks come from the bitmaps.
  Theorems: writing an inode and reading it back gives the same inode and leaves every other
  inode alone; a new file gets an inode number that was free.
\<close>

subsection \<open>The structure and its bytes\<close>

record inode_st =
  i_links_count :: nat
  i_type :: nat
  i_perm :: nat
  i_size :: nat
  i_blocks :: nat
  i_mtime :: nat
  i_major :: nat
  i_minor :: nat
  i_fops :: nat
  i_pipe :: nat
  i_block :: "nat list"

abbreviation (input) DIRECTORY_TYPE :: nat where "DIRECTORY_TYPE \<equiv> 0"
abbreviation (input) FILE_TYPE :: nat where "FILE_TYPE \<equiv> 1"

text \<open>The offsets are those of the 64-bit ABI; the gaps at 12, 28 and 108 are padding.\<close>

definition encode_inode :: "inode_st \<Rightarrow> byte list" where
  "encode_inode n =
     le_bytes 2 (i_links_count n) @ le_bytes 1 (i_type n) @ le_bytes 1 (i_perm n) @
     le_bytes 4 (i_size n) @ le_bytes 4 (i_blocks n) @ le_bytes 4 0 @ le_bytes 8 (i_mtime n) @
     le_bytes 2 (i_major n) @ le_bytes 2 (i_minor n) @ le_bytes 4 0 @
     le_bytes 8 (i_fops n) @ le_bytes 8 (i_pipe n) @ concat (map (le_bytes 4) (i_block n)) @ le_bytes 4 0"

definition decode_inode :: "byte list \<Rightarrow> inode_st" where
  "decode_inode d =
     \<lparr>i_links_count = le_val (slice d 0 2), i_type = le_val (slice d 2 1), i_perm = le_val (slice d 3 1),
      i_size = le_val (slice d 4 4), i_blocks = le_val (slice d 8 4), i_mtime = le_val (slice d 16 8),
      i_major = le_val (slice d 24 2), i_minor = le_val (slice d 26 2), i_fops = le_val (slice d 32 8),
      i_pipe = le_val (slice d 40 8), i_block = map (\<lambda>j. le_val (slice d (48 + 4 * j) 4)) [0..<15]\<rparr>"

definition normalize_default_inode_fops :: "'a fsys_scheme \<Rightarrow> inode_st \<Rightarrow> inode_st" where
  "normalize_default_inode_fops s node =
     (if i_type node = DIRECTORY_TYPE then node\<lparr>i_fops := default_dir_fops s\<rparr>
      else if i_type node = FILE_TYPE then node\<lparr>i_fops := default_fops s\<rparr>
      else node)"

subsection \<open>Operations\<close>

abbreviation INODES_PER_BLOCK :: "'a fsys_scheme \<Rightarrow> nat" where
  "INODES_PER_BLOCK s \<equiv> bytes_per_block s div INODE_BYTE_SIZE"

text \<open>\<open>id - 1\<close> on \<^verbatim>\<open>uint32_t\<close>.\<close>

definition pred_id :: "nat \<Rightarrow> nat" where
  "pred_id ino = (ino + 2 ^ 32 - 1) mod 2 ^ 32"

definition block_with_inode :: "'a fsys_scheme \<Rightarrow> nat \<Rightarrow> nat" where
  "block_with_inode s ino = (pred_id ino div INODES_PER_BLOCK s + inode_table_start s) mod 2 ^ 32"

definition inode_num_in_block :: "'a fsys_scheme \<Rightarrow> nat \<Rightarrow> nat" where
  "inode_num_in_block s ino = pred_id ino mod INODES_PER_BLOCK s"

definition get_inode_capacity :: "'a fsys_scheme \<Rightarrow> nat" where
  "get_inode_capacity s = (num_table_blocks s * INODES_PER_BLOCK s) mod 2 ^ 32"

definition set_block_allocated :: "nat \<Rightarrow> bool \<Rightarrow> ('a fsys_scheme, unit) fsm" where
  "set_block_allocated block_num allocated s =
     (case set_bit_in_bitmap_range (block_bitmap_start s) (block_bitmap_blocks s) (total_fs_blocks s)
             block_num allocated s of
        Inl p \<Rightarrow> Inl p | Inr (err, s') \<Rightarrow> Inr (as_result err (), s'))"

definition set_inode_allocated :: "nat \<Rightarrow> bool \<Rightarrow> ('a fsys_scheme, unit) fsm" where
  "set_inode_allocated inode_id allocated s =
     (if inode_id = 0 then Inr (Inl INVALID_ARGS, s)
      else case set_bit_in_bitmap_range (inode_bitmap_start s) (inode_bitmap_blocks s) (get_inode_capacity s)
             (inode_id - 1) allocated s of
        Inl p \<Rightarrow> Inl p | Inr (err, s') \<Rightarrow> Inr (as_result err (), s'))"

definition find_free_block :: "bool \<Rightarrow> ('a fsys_scheme, nat) fsm" where
  "find_free_block update_taken s =
     (case find_free_from_bitmap_range (block_bitmap_start s) (block_bitmap_blocks s) (total_fs_blocks s)
             update_taken s of
        Inl p \<Rightarrow> Inl p | Inr (err, k, s') \<Rightarrow> Inr (as_result err k, s'))"

definition find_free_inode :: "bool \<Rightarrow> ('a fsys_scheme, nat) fsm" where
  "find_free_inode update_taken s =
     (case find_free_from_bitmap_range (inode_bitmap_start s) (inode_bitmap_blocks s) (get_inode_capacity s)
             update_taken s of
        Inl p \<Rightarrow> Inl p | Inr (err, k, s') \<Rightarrow> Inr (as_result err ((k + 1) mod 2 ^ 32), s'))"

definition get_inode_raw :: "nat \<Rightarrow> ('a fsys_scheme, inode_st) fsm" where
  "get_inode_raw ino =
     bindE (gets (\<lambda>s. (block_with_inode s ino, inode_num_in_block s ino))) (\<lambda>(block, idx).
     bindE kalloc_m (\<lambda>buf.
     bindE (read_block_m buf block) (\<lambda>data.
     bindE (gets (\<lambda>s. normalize_default_inode_fops s)) (\<lambda>norm.
     ret (norm (decode_inode (slice data (INODE_BYTE_SIZE * idx) INODE_BYTE_SIZE)))))))"

definition write_inode :: "inode_st \<Rightarrow> nat \<Rightarrow> ('a fsys_scheme, unit) fsm" where
  "write_inode node ino =
     bindE (gets (\<lambda>s. (block_with_inode s ino, inode_num_in_block s ino))) (\<lambda>(block, idx).
     bindE kalloc_m (\<lambda>buf.
     bindE (read_block_m buf block) (\<lambda>data.
     write_block_m (splice data (INODE_BYTE_SIZE * idx) (encode_inode node)) block)))"

definition new_inode :: "nat \<Rightarrow> nat \<Rightarrow> nat \<Rightarrow> nat \<Rightarrow> inode_st" where
  "new_inode file_type perm fops ticks =
     \<lparr>i_links_count = 0, i_type = file_type mod 256, i_perm = perm, i_size = 0, i_blocks = 0, i_mtime = ticks,
      i_major = 0, i_minor = 0, i_fops = fops, i_pipe = 0, i_block = replicate 15 0\<rparr>"

definition add_new_file_inode :: "nat \<Rightarrow> nat \<Rightarrow> nat \<Rightarrow> ('a fsys_scheme, nat) fsm" where
  "add_new_file_inode file_type perm fops =
     bindE (find_free_inode True) (\<lambda>ino.
     bindE (gets (\<lambda>s. (block_with_inode s ino, inode_num_in_block s ino, timer_ticks s))) (\<lambda>(block, idx, ticks).
     bindE kalloc_m (\<lambda>buf.
     bindE (read_block_m buf block) (\<lambda>data.
     bindE (write_block_m
             (splice data (INODE_BYTE_SIZE * idx) (encode_inode (new_inode file_type perm fops ticks))) block) (\<lambda>_.
     ret ino)))))"

subsection \<open>Encoding round trip\<close>

definition inode_wf :: "inode_st \<Rightarrow> bool" where
  "inode_wf n \<longleftrightarrow>
     i_links_count n < 2 ^ 16 \<and> i_type n < 2 ^ 8 \<and> i_perm n < 2 ^ 8 \<and> i_size n < 2 ^ 32 \<and> i_blocks n < 2 ^ 32 \<and>
     i_mtime n < 2 ^ 64 \<and> i_major n < 2 ^ 16 \<and> i_minor n < 2 ^ 16 \<and> i_fops n < 2 ^ 64 \<and> i_pipe n < 2 ^ 64 \<and>
     length (i_block n) = 15 \<and> list_all (\<lambda>b. b < 2 ^ 32) (i_block n)"

lemma length_concat_le [simp]: "length (concat (map (le_bytes n) xs)) = n * length xs"
  by (induction xs) auto

lemma length_encode_inode: "length (i_block n) = 15 \<Longrightarrow> length (encode_inode n) = 112"
  by (simp add: encode_inode_def)

lemma slice_skip: "length xs \<le> off \<Longrightarrow> slice (xs @ ys) off n = slice ys (off - length xs) n"
  by (simp add: slice_def)

lemma slice_first: "slice (le_bytes n v @ ys) 0 n = le_bytes n v"
  by (simp add: slice_def)

lemma slice_concat:
  "j < length xs \<Longrightarrow> slice (concat (map (le_bytes 4) xs) @ ys) (4 * j) 4 = le_bytes 4 (xs ! j)"
proof (induction xs arbitrary: j)
  case (Cons x xs)
  show ?case
  proof (cases j)
    case 0
    then show ?thesis by (simp add: slice_first)
  next
    case (Suc i)
    then have "slice (le_bytes 4 x @ (concat (map (le_bytes 4) xs) @ ys)) (4 * j) 4
        = slice (concat (map (le_bytes 4) xs) @ ys) (4 * i) 4"
      by (subst slice_skip) simp_all
    then show ?thesis using Suc Cons by simp
  qed
qed simp

lemma decode_encode_inode:
  assumes "inode_wf n"
  shows "decode_inode (encode_inode n) = n"
proof -
  have blk: "le_val (slice (encode_inode n) (48 + 4 * j) 4) = i_block n ! j" if "j < 15" for j
  proof -
    have "slice (encode_inode n) (48 + 4 * j) 4 = le_bytes 4 (i_block n ! j)"
      using assms that slice_concat [of j "i_block n" "le_bytes 4 0"]
      by (simp add: encode_inode_def slice_skip inode_wf_def del: le_bytes.simps)
    then show ?thesis using assms that by (simp add: le_val_bytes inode_wf_def list_all_length)
  qed
  have "map (\<lambda>j. le_val (slice (encode_inode n) (48 + 4 * j) 4)) [0..<15] = i_block n"
    using blk assms by (intro list_eq_by_nth) (auto simp: inode_wf_def)
  moreover have "slice (encode_inode n) 0 2 = le_bytes 2 (i_links_count n)"
    "slice (encode_inode n) 2 1 = le_bytes 1 (i_type n)" "slice (encode_inode n) 3 1 = le_bytes 1 (i_perm n)"
    "slice (encode_inode n) 4 4 = le_bytes 4 (i_size n)" "slice (encode_inode n) 8 4 = le_bytes 4 (i_blocks n)"
    "slice (encode_inode n) 16 8 = le_bytes 8 (i_mtime n)" "slice (encode_inode n) 24 2 = le_bytes 2 (i_major n)"
    "slice (encode_inode n) 26 2 = le_bytes 2 (i_minor n)" "slice (encode_inode n) 32 8 = le_bytes 8 (i_fops n)"
    "slice (encode_inode n) 40 8 = le_bytes 8 (i_pipe n)"
    by (simp_all add: encode_inode_def slice_skip slice_first del: le_bytes.simps)
  ultimately show ?thesis
    using assms by (simp add: decode_inode_def inode_wf_def le_val_bytes del: le_bytes.simps)
qed

subsection \<open>Reading and writing the table\<close>

text \<open>A layout in which inode \<open>ino\<close> has its own place: blocks hold at least one inode, and the
  table's block numbers do not wrap.\<close>

definition inode_place_ok :: "'a fsys_scheme \<Rightarrow> nat \<Rightarrow> bool" where
  "inode_place_ok s ino \<longleftrightarrow>
     INODE_BYTE_SIZE \<le> bytes_per_block s \<and> 0 < ino \<and> ino < 2 ^ 32 \<and> inode_table_start s + ino < 2 ^ 32"

lemma pred_id_eq: "0 < ino \<Longrightarrow> ino < 2 ^ 32 \<Longrightarrow> pred_id ino = ino - 1"
proof -
  assume a: "0 < ino" "ino < 2 ^ 32"
  then have "ino + 2 ^ 32 - 1 = (ino - 1) + 2 ^ 32" by simp
  then have "pred_id ino = (ino - 1) mod 2 ^ 32" by (simp only: pred_id_def mod_add_self2)
  then show ?thesis using a by simp
qed

lemma place_eqs:
  assumes "inode_place_ok s ino"
  shows "block_with_inode s ino = (ino - 1) div INODES_PER_BLOCK s + inode_table_start s"
    "inode_num_in_block s ino = (ino - 1) mod INODES_PER_BLOCK s"
    "INODE_BYTE_SIZE * inode_num_in_block s ino + INODE_BYTE_SIZE \<le> bytes_per_block s"
proof -
  have p: "pred_id ino = ino - 1" using assms by (simp add: inode_place_ok_def pred_id_eq)
  have "(ino - 1) div INODES_PER_BLOCK s \<le> ino" by (meson diff_le_self div_le_dividend order_trans)
  then show "block_with_inode s ino = (ino - 1) div INODES_PER_BLOCK s + inode_table_start s"
    using assms by (simp add: block_with_inode_def p inode_place_ok_def)
  show idx: "inode_num_in_block s ino = (ino - 1) mod INODES_PER_BLOCK s" by (simp add: inode_num_in_block_def p)
  have "0 < INODES_PER_BLOCK s" using assms by (simp add: inode_place_ok_def div_greater_zero_iff)
  then have "inode_num_in_block s ino < INODES_PER_BLOCK s" by (simp add: idx)
  then have "INODE_BYTE_SIZE * (inode_num_in_block s ino + 1) \<le> INODE_BYTE_SIZE * INODES_PER_BLOCK s"
    by (intro mult_le_mono2) simp
  also have "\<dots> \<le> bytes_per_block s" by simp
  finally show "INODE_BYTE_SIZE * inode_num_in_block s ino + INODE_BYTE_SIZE \<le> bytes_per_block s" by simp
qed

text \<open>The inode as it stands in the table's blocks.\<close>

definition inode_at :: "'a fsys_scheme \<Rightarrow> nat \<Rightarrow> inode_st" where
  "inode_at s ino = decode_inode
     (slice (blk_content s (block_with_inode s ino)) (INODE_BYTE_SIZE * inode_num_in_block s ino) INODE_BYTE_SIZE)"

lemma env_fields:
  assumes "env s' = env s"
  shows "num_table_blocks s' = num_table_blocks s" "total_fs_blocks s' = total_fs_blocks s"
    "block_bitmap_start s' = block_bitmap_start s" "block_bitmap_blocks s' = block_bitmap_blocks s"
    "inode_bitmap_start s' = inode_bitmap_start s" "inode_bitmap_blocks s' = inode_bitmap_blocks s"
    "inode_table_start s' = inode_table_start s" "data_start_block s' = data_start_block s"
    "km_junk s' = km_junk s" "oob_word s' = oob_word s" "timer_ticks s' = timer_ticks s"
    "default_fops s' = default_fops s" "default_dir_fops s' = default_dir_fops s"
    "bytes_per_block s' = bytes_per_block s" "fsys.more s' = fsys.more s"
  using assms by (cases s; cases s'; simp add: env_def)+

lemma env_layout:
  assumes "env s' = env s"
  shows "block_with_inode s' ino = block_with_inode s ino" "inode_num_in_block s' ino = inode_num_in_block s ino"
    "normalize_default_inode_fops s' = normalize_default_inode_fops s" "inode_place_ok s' ino = inode_place_ok s ino"
    "get_inode_capacity s' = get_inode_capacity s" "get_u32 s' = get_u32 s"
  using env_fields [OF assms]
  by (auto simp: block_with_inode_def inode_num_in_block_def normalize_default_inode_fops_def inode_place_ok_def
      get_inode_capacity_def get_u32_def fun_eq_iff)

lemma get_inode_raw_reads:
  assumes "get_inode_raw ino s = Inr (r, s')" "blk_inv s"
  shows "quiet s s' \<and> (\<forall>n. r = Inr n \<longrightarrow> n = normalize_default_inode_fops s (inode_at s ino))"
proof -
  obtain buf s1 where k: "kalloc_m s = Inr (Inr buf, s1)" by (cases "kalloc s") (auto simp: kalloc_m_def)
  note q1 = kalloc_m_quiet [OF k assms(2), THEN conjunct1]
  have inv1: "blk_inv s1" "env s1 = env s" "blk_content s1 = blk_content s" using q1 by (auto simp: quiet_def)
  obtain r2 s2 where rd: "read_block_m buf (block_with_inode s ino) s1 = Inr (r2, s2)"
    using assms(1) k by (cases "read_block_m buf (block_with_inode s ino) s1") (auto simp: get_inode_raw_def bindE_cases)
  note q2 = read_block_m_quiet [OF rd inv1(1)]
  show ?thesis
  proof (cases r2)
    case (Inl e)
    then have "r = Inl e" "s' = s2" using assms(1) k rd by (auto simp: get_inode_raw_def bindE_cases)
    then show ?thesis using quiet_trans [OF q1] q2 by simp
  next
    case (Inr d)
    then have "s' = s2" "r = Inr (normalize_default_inode_fops s2 (decode_inode
        (slice d (INODE_BYTE_SIZE * inode_num_in_block s ino) INODE_BYTE_SIZE)))"
      using assms(1) k rd by (auto simp: get_inode_raw_def bindE_cases ret_def)
    moreover have "normalize_default_inode_fops s2 = normalize_default_inode_fops s"
      using env_layout(3) q2 inv1(2) by (metis quiet_def)
    ultimately show ?thesis using quiet_trans [OF q1] q2 Inr inv1(3) by (simp add: inode_at_def)
  qed
qed

lemma write_inode_success:
  assumes "write_inode n ino s = Inr (Inr (), s')" "blk_inv s" "inode_place_ok s ino" "length (i_block n) = 15"
  shows "blk_inv s' \<and> env s' = env s \<and>
    blk_content s' = (blk_content s)(block_with_inode s ino :=
      splice (blk_content s (block_with_inode s ino)) (INODE_BYTE_SIZE * inode_num_in_block s ino) (encode_inode n))"
proof -
  obtain buf s1 d s2 where k: "kalloc_m s = Inr (Inr buf, s1)"
      "read_block_m buf (block_with_inode s ino) s1 = Inr (Inr d, s2)"
      "write_block_m (splice d (INODE_BYTE_SIZE * inode_num_in_block s ino) (encode_inode n)) (block_with_inode s ino) s2 = Inr (Inr (), s')"
    using assms(1) by (auto simp: write_inode_def bindE_success)
  have q1: "quiet s s1" using kalloc_m_quiet [OF k(1) assms(2)] by simp
  then have q2: "quiet s1 s2" "d = blk_content s1 (block_with_inode s ino)"
    using read_block_m_quiet [OF k(2)] by (auto simp: quiet_def)
  have q: "blk_inv s2" "env s2 = env s" "blk_content s2 = blk_content s" using q1 q2 by (auto simp: quiet_def)
  have d: "d = blk_content s (block_with_inode s ino)" using q1 q2(2) by (simp add: quiet_def)
  have "length (splice d (INODE_BYTE_SIZE * inode_num_in_block s ino) (encode_inode n)) = bytes_per_block s2"
    using place_eqs(3) [OF assms(3)] content_length [OF assms(2)] env_fields(14) [OF q(2)]
    by (simp add: d length_encode_inode [OF assms(4)])
  from write_block_m_effect [OF k(3) q(1) this] show ?thesis using q by (simp add: d)
qed

text \<open>Two inodes never share bytes.\<close>

lemma inode_places_disjoint:
  assumes "inode_place_ok s a" "inode_place_ok s b" "a \<noteq> b" "block_with_inode s a = block_with_inode s b"
  shows "INODE_BYTE_SIZE * inode_num_in_block s a + INODE_BYTE_SIZE \<le> INODE_BYTE_SIZE * inode_num_in_block s b \<or>
    INODE_BYTE_SIZE * inode_num_in_block s b + INODE_BYTE_SIZE \<le> INODE_BYTE_SIZE * inode_num_in_block s a"
proof -
  let ?n = "INODES_PER_BLOCK s"
  have "(a - 1) div ?n = (b - 1) div ?n"
    using assms(4) by (simp add: place_eqs(1) [OF assms(1)] place_eqs(1) [OF assms(2)])
  moreover have "a - 1 \<noteq> b - 1" using assms by (auto simp: inode_place_ok_def)
  ultimately have "(a - 1) mod ?n \<noteq> (b - 1) mod ?n" by (metis div_mult_mod_eq)
  then show ?thesis by (auto simp: place_eqs(2) [OF assms(1)] place_eqs(2) [OF assms(2)])
qed

lemma inode_at_write:
  assumes "write_inode n a s = Inr (Inr (), s')" "blk_inv s" "inode_place_ok s a" "inode_place_ok s b" "inode_wf n"
  shows "inode_at s' b = (if b = a then n else inode_at s b)"
proof -
  have len: "length (i_block n) = 15" using assms(5) by (simp add: inode_wf_def)
  note w = write_inode_success [OF assms(1,2,3) len]
  have l: "block_with_inode s' b = block_with_inode s b" "inode_num_in_block s' b = inode_num_in_block s b"
    using w env_layout by metis+
  have e: "length (encode_inode n) = INODE_BYTE_SIZE" by (rule length_encode_inode [OF len])
  have pa: "INODE_BYTE_SIZE * inode_num_in_block s a + length (encode_inode n) \<le> length (blk_content s (block_with_inode s a))"
    and pb: "INODE_BYTE_SIZE * inode_num_in_block s b + INODE_BYTE_SIZE \<le> length (blk_content s (block_with_inode s b))"
    using place_eqs(3) assms(3,4) by (simp_all add: content_length [OF assms(2)] e)
  show ?thesis
  proof (cases "b = a")
    case True
    then show ?thesis
      using w l slice_splice_same [OF pa] decode_encode_inode [OF assms(5)] by (simp add: inode_at_def e)
  next
    case False
    show ?thesis
    proof (cases "block_with_inode s b = block_with_inode s a")
      case True
      then show ?thesis
        using False w l inode_places_disjoint [OF assms(3,4)] pb e
          slice_splice_other [OF pa, of "INODE_BYTE_SIZE * inode_num_in_block s b" INODE_BYTE_SIZE]
        by (auto simp: inode_at_def)
    next
      case neq: False
      then show ?thesis using False w l by (simp add: inode_at_def)
    qed
  qed
qed

subsection \<open>Properties\<close>

lemma reliable_quiet: "quiet s s' \<Longrightarrow> reliable s' = reliable s" "quiet s s' \<Longrightarrow> fs_block_count s' = fs_block_count s"
  by (auto simp: quiet_def env_def reliable_def)

lemma reliable_kalloc:
  assumes "blk_inv s" "reliable s"
  obtains n s' where "kalloc_m s = Inr (Inr (Some n), s')" "quiet s s'"
proof -
  obtain r s' where k: "kalloc s = (r, s')" by (cases "kalloc s")
  have "quiet s s'" "r \<noteq> None" using kalloc_keeps [OF k assms(1)] assms(2) by (auto simp: quiet_def reliable_def)
  then show thesis using that k by (auto simp: kalloc_m_def)
qed

lemma reliable_read_m:
  assumes "blk_inv s" "reliable s" "b < fs_block_count s"
  obtains s' where "read_block_m (Some n) b s = Inr (Inr (blk_content s b), s')" "quiet s s'"
proof -
  obtain s' where "read_block b s = Inr (SUCCESS, blk_content s b, s')" "blk_inv s'" "env s' = env s" "blk_content s' = blk_content s"
    using reliable_read [OF assms] .
  then show thesis using that by (simp add: read_block_m_def quiet_def)
qed

lemma reliable_write_m:
  assumes "blk_inv s" "reliable s" "b < fs_block_count s" "length d = bytes_per_block s"
  obtains s' where "write_block_m d b s = Inr (Inr (), s')" "blk_inv s'" "env s' = env s"
    "blk_content s' = (blk_content s)(b := d)"
proof -
  obtain s' where "write_block d b s = Inr (SUCCESS, s')" "blk_inv s'" "env s' = env s"
      "blk_content s' = (blk_content s)(b := take (bytes_per_block s) d)"
    using reliable_write [OF assms(1-3), of d] assms(4) by auto
  then show thesis using that assms(4) by (simp add: write_block_m_def as_result_def)
qed

lemma reliable_get_inode_raw:
  assumes "blk_inv s" "reliable s" "block_with_inode s ino < fs_block_count s"
  obtains s' where "get_inode_raw ino s = Inr (Inr (normalize_default_inode_fops s (inode_at s ino)), s')" "quiet s s'"
proof -
  obtain n s1 where k: "kalloc_m s = Inr (Inr (Some n), s1)" "quiet s s1" using reliable_kalloc [OF assms(1,2)] .
  have s1: "blk_inv s1" "reliable s1" "block_with_inode s ino < fs_block_count s1" "blk_content s1 = blk_content s" "env s1 = env s"
    using k(2) assms reliable_quiet [OF k(2)] by (auto simp: quiet_def)
  obtain s2 where r: "read_block_m (Some n) (block_with_inode s ino) s1 = Inr (Inr (blk_content s1 (block_with_inode s ino)), s2)" "quiet s1 s2"
    using reliable_read_m [OF s1(1-3)] .
  have "env s2 = env s" using r(2) s1(5) by (simp add: quiet_def)
  then have "get_inode_raw ino s = Inr (Inr (normalize_default_inode_fops s (inode_at s ino)), s2)"
    using k(1) r(1) s1(4) env_layout(3) [of s2 s] by (simp add: get_inode_raw_def bindE_cases inode_at_def ret_def)
  then show thesis using that quiet_trans [OF k(2) r(2)] by blast
qed

text \<open>C19. Inodes persist. After \<^verbatim>\<open>write_inode\<close> succeeds, \<^verbatim>\<open>get_inode_raw\<close> of that inode returns exactly
  what was written (with the file operations pointer of plain files and directories set to the
  kernel's), \<^verbatim>\<open>get_inode_raw\<close> of every other inode returns what it did before, and on a reliable
  device both calls do return.\<close>

theorem inode_write_read_round_trip:
  assumes "blk_inv s" "inode_place_ok s a" "inode_place_ok s b" "inode_wf n"
    and "write_inode n a s = Inr (Inr (), s1)"
  shows "(\<forall>m s2. get_inode_raw b s1 = Inr (Inr m, s2) \<longrightarrow>
      m = normalize_default_inode_fops s (if b = a then n else inode_at s b))
    \<and> (reliable s \<and> block_with_inode s b < fs_block_count s \<longrightarrow> (\<exists>m s2. get_inode_raw b s1 = Inr (Inr m, s2)))"
proof -
  have len: "length (i_block n) = 15" using assms(4) by (simp add: inode_wf_def)
  have w: "blk_inv s1" "env s1 = env s" using write_inode_success [OF assms(5,1,2) len] by auto
  have at: "inode_at s1 b = (if b = a then n else inode_at s b)" by (rule inode_at_write [OF assms(5,1,2,3,4)])
  show ?thesis
  proof (intro conjI allI impI)
    fix m s2 assume "get_inode_raw b s1 = Inr (Inr m, s2)"
    then have "m = normalize_default_inode_fops s1 (inode_at s1 b)" using get_inode_raw_reads w(1) by blast
    then show "m = normalize_default_inode_fops s (if b = a then n else inode_at s b)"
      by (simp only: at env_layout(3) [OF w(2)])
  next
    assume "reliable s \<and> block_with_inode s b < fs_block_count s"
    then have "reliable s1" "block_with_inode s1 b < fs_block_count s1"
      using env_layout(1) [OF w(2)] env_simps [OF w(2)] reliable_env [OF w(2)] by auto
    then show "\<exists>m s2. get_inode_raw b s1 = Inr (Inr m, s2)"
      using reliable_get_inode_raw [OF w(1)] by metis
  qed
qed

text \<open>A small disk with 112-byte blocks, so that each block holds one inode.\<close>

definition inode_disk :: fsys where
  "inode_disk = blk.extend (blank_disk\<lparr>sectors := \<lambda>_. replicate 112 0, io_torn := \<lambda>_. replicate 112 0, bytes_per_block := 112\<rparr>)
     (fsys.fields True 4 50 1 1 2 1 3 7 (\<lambda>_. []) (\<lambda>_. 0) 0 77 88)"

lemma inode_disk_ok: "blk_inv inode_disk" "reliable inode_disk" "inode_place_ok inode_disk 1" "inode_place_ok inode_disk 2"
  "bytes_per_block inode_disk = 112" "fs_block_count inode_disk = 50" "block_with_inode inode_disk 2 = 4"
  "block_with_inode inode_disk 1 = 3" "blk_content inode_disk b = replicate 112 0" "default_fops inode_disk = 77"
  by (simp_all add: inode_disk_def blank_disk_def blk.defs fsys.defs blk_inv_def geometry_ok_def lru_list_def holds_def
      cached_def dll_def reliable_def inode_place_ok_def block_with_inode_def pred_id_def blk_content_def)

definition sample_inode :: inode_st where
  "sample_inode = (new_inode 1 6 5 9)\<lparr>i_size := 300, i_blocks := 1, i_block := 20 # replicate 14 0\<rparr>"

lemma sample_wf: "inode_wf sample_inode"
  by (simp add: sample_inode_def new_inode_def inode_wf_def list_all_iff)

theorem inode_write_read_round_trip_witness:
  "\<exists>s1 m s2. write_inode sample_inode 2 inode_disk = Inr (Inr (), s1) \<and> get_inode_raw 2 s1 = Inr (Inr m, s2) \<and>
     m = sample_inode\<lparr>i_fops := 77\<rparr>"
proof -
  obtain n s1 where k: "kalloc_m inode_disk = Inr (Inr (Some n), s1)" "quiet inode_disk s1"
    using reliable_kalloc [OF inode_disk_ok(1,2)] .
  have s1: "blk_inv s1" "reliable s1" "4 < fs_block_count s1"
    using k(2) reliable_quiet [OF k(2)] inode_disk_ok by (auto simp: quiet_def)
  obtain s2 where r: "read_block_m (Some n) 4 s1 = Inr (Inr (blk_content s1 4), s2)" "quiet s1 s2"
    using reliable_read_m [OF s1] .
  have s2: "blk_inv s2" "reliable s2" "4 < fs_block_count s2" "bytes_per_block s2 = 112"
    using r(2) k(2) reliable_quiet [OF r(2)] s1 inode_disk_ok(5) by (auto simp: quiet_def env_def)
  have idx: "inode_num_in_block inode_disk 2 = 0" by (simp add: inode_num_in_block_def inode_disk_ok(5))
  let ?d = "splice (blk_content s1 4) 0 (encode_inode sample_inode)"
  have "length ?d = bytes_per_block s2"
    using content_length [OF s1(1)] k(2) s2(4) inode_disk_ok(5) sample_wf
    by (simp add: length_encode_inode inode_wf_def quiet_def env_def)
  then obtain s3 where "write_block_m ?d 4 s2 = Inr (Inr (), s3)" using reliable_write_m [OF s2(1-3)] by metis
  then have w: "write_inode sample_inode 2 inode_disk = Inr (Inr (), s3)"
    using k(1) r(1) by (simp add: write_inode_def bindE_cases inode_disk_ok(7) idx)
  note rt = inode_write_read_round_trip [OF inode_disk_ok(1,4,4) sample_wf w]
  then obtain m s4 where g: "get_inode_raw 2 s3 = Inr (Inr m, s4)" using inode_disk_ok(2,6,7) by auto
  with rt have "m = normalize_default_inode_fops inode_disk sample_inode" by auto
  then have "m = sample_inode\<lparr>i_fops := 77\<rparr>"
    by (simp add: normalize_default_inode_fops_def inode_disk_ok(10) sample_inode_def new_inode_def)
  then show ?thesis using w g by blast
qed

end
