(* ===== verification/Inode_Blocks.thy ===== *)
theory Inode_Blocks
  imports Inodes
begin

section \<open>Block map of a file: \<^verbatim>\<open>src/kernel/fs/inodes.c\<close>\<close>

text \<open>
  A file's blocks are numbered from 0. Up to fifteen of them stand in the inode itself; from the
  sixteenth on, entries 12, 13 and 14 of the inode become a single, a double and a triple
  indirect pointer block. \<open>allocate_block_for_file_inode\<close> appends a block,
  \<open>get_block_num_from_inode\<close> looks one up, \<open>remove_last_block_inode\<close> drops the last one and
  \<open>clear_blocks_of_inode\<close> frees them. The functions change the inode in place, also on error
  paths, so the state of these models is the pair of the inode and the file system.

  Theorems: in the direct and single-indirect range, appending gives the file one more block, a
  free one, and moves no other; removing the last block is its inverse. The lookup in the double
  and triple range divides by the wrong constants; that it then reads outside the pointer block
  is also a theorem here.
\<close>

abbreviation BLOCKS_IN_SINGLE_PTR :: "'a fsys_scheme \<Rightarrow> nat" where
  "BLOCKS_IN_SINGLE_PTR s \<equiv> bytes_per_block s div 4"

abbreviation BLOCKS_IN_DOUBLE_PTR :: "'a fsys_scheme \<Rightarrow> nat" where
  "BLOCKS_IN_DOUBLE_PTR s \<equiv> BLOCKS_IN_SINGLE_PTR s * BLOCKS_IN_SINGLE_PTR s"

abbreviation BLOCKS_IN_TRIPLE_PTR :: "'a fsys_scheme \<Rightarrow> nat" where
  "BLOCKS_IN_TRIPLE_PTR s \<equiv> BLOCKS_IN_DOUBLE_PTR s * BLOCKS_IN_SINGLE_PTR s"

subsection \<open>Lookup\<close>

text \<open>The result of \<open>read_block\<close> is ignored: after a failed read the number comes from the
  uninitialised buffer.\<close>

definition get_block_num_from_disk_ptr :: "nat \<Rightarrow> nat \<Rightarrow> ('a fsys_scheme, nat) fsm" where
  "get_block_num_from_disk_ptr ptr_block_num desired_block_idx s =
     (case kalloc s of (buf, s) \<Rightarrow>
      case read_block ptr_block_num s of
        Inl p \<Rightarrow> Inl p
      | Inr (err, data, s) \<Rightarrow>
          (case buf of
             None \<Rightarrow> Inl data_abort
           | Some n \<Rightarrow>
               Inr (Inr (get_u32 s (if err \<noteq> SUCCESS then km_junk s n else data) desired_block_idx), s)))"

definition get_block_num_from_inode :: "inode_st \<Rightarrow> nat \<Rightarrow> ('a fsys_scheme, nat) fsm" where
  "get_block_num_from_inode inode block_num s =
     (let S = BLOCKS_IN_SINGLE_PTR s; D = BLOCKS_IN_DOUBLE_PTR s; T = BLOCKS_IN_TRIPLE_PTR s in
      if i_blocks inode \<le> block_num then ret 0 s
      else if block_num < 12 \<or> i_blocks inode \<le> 15 then ret (i_block inode ! block_num) s
      else if block_num < 12 + S then get_block_num_from_disk_ptr (i_block inode ! 12) (block_num - 12) s
      else if block_num < 12 + S + D then
        (let double_ptr_with_block = block_num - S - 12;
             ptr_with_block = double_ptr_with_block mod D;
             double_ptr_with_block = double_ptr_with_block div D
         in bindE (get_block_num_from_disk_ptr (i_block inode ! 13) double_ptr_with_block) (\<lambda>single_ptr_block.
            get_block_num_from_disk_ptr single_ptr_block ptr_with_block) s)
      else
        (let triple_ptr_with_block = block_num - D - S - 12;
             double_ptr_with_block = triple_ptr_with_block mod T;
             triple_ptr_with_block = triple_ptr_with_block div T;
             ptr_with_block = double_ptr_with_block mod D;
             double_ptr_with_block = double_ptr_with_block div D
         in bindE (get_block_num_from_disk_ptr (i_block inode ! 14) triple_ptr_with_block) (\<lambda>double_ptr_block.
            bindE (get_block_num_from_disk_ptr double_ptr_block double_ptr_with_block) (\<lambda>ptr_block.
            get_block_num_from_disk_ptr ptr_block ptr_with_block)) s))"

definition get_block_from_file_inode :: "nat option \<Rightarrow> inode_st \<Rightarrow> nat \<Rightarrow> ('a fsys_scheme, byte list) fsm" where
  "get_block_from_file_inode buf inode block_num =
     bindE (get_block_num_from_inode inode block_num) (\<lambda>b. read_block_m buf b)"

definition write_block_of_file_inode :: "byte list \<Rightarrow> inode_st \<Rightarrow> nat \<Rightarrow> ('a fsys_scheme, unit) fsm" where
  "write_block_of_file_inode data inode block_num =
     bindE (get_block_num_from_inode inode block_num) (\<lambda>b. write_block_m data b)"

subsection \<open>Operations on an inode held in memory\<close>

type_synonym ('a, 'b) inode_m = "(inode_st \<times> 'a fsys_scheme, 'b) fsm"

definition onS :: "('a fsys_scheme, 'b) fsm \<Rightarrow> ('a, 'b) inode_m" where
  "onS m p = (case m (snd p) of Inl e \<Rightarrow> Inl e | Inr (r, s) \<Rightarrow> Inr (r, (fst p, s)))"

definition set_entry :: "nat \<Rightarrow> nat \<Rightarrow> ('a, unit) inode_m" where
  "set_entry i b = modify (\<lambda>(n, s). (n\<lparr>i_block := (i_block n)[i := b]\<rparr>, s))"

text \<open>The bytes of a fresh buffer; touching a null one faults.\<close>

definition fresh_buffer :: "nat option \<Rightarrow> ('a, byte list) inode_m" where
  "fresh_buffer buf =
     (case buf of None \<Rightarrow> abort data_abort | Some n \<Rightarrow> gets (\<lambda>(_, s). km_junk s n))"

abbreviation alloc_block :: "('a, nat) inode_m" where
  "alloc_block \<equiv> onS (find_free_block True)"

abbreviation read_ptrs :: "nat option \<Rightarrow> nat \<Rightarrow> ('a, byte list) inode_m" where
  "read_ptrs buf b \<equiv> onS (read_block_m buf b)"

abbreviation write_ptrs :: "byte list \<Rightarrow> nat \<Rightarrow> ('a, unit) inode_m" where
  "write_ptrs data b \<equiv> onS (write_block_m data b)"

definition entry_of :: "nat \<Rightarrow> ('a, nat) inode_m" where
  "entry_of i = gets (\<lambda>(n, _). i_block n ! i)"

definition ptr_at :: "byte list \<Rightarrow> nat \<Rightarrow> ('a, nat) inode_m" where
  "ptr_at data i = gets (\<lambda>(_, s). get_u32 s data i)"

text \<open>Append within the single-indirect range. At fifteen blocks the pointer block is made and
  takes over entries 12 to 14.\<close>

definition alloc_in_single :: "nat \<Rightarrow> nat \<Rightarrow> ('a, unit) inode_m" where
  "alloc_in_single count b =
     bindE (onS kalloc_m) (\<lambda>buf.
     bindE (if count = 15 then
              bindE alloc_block (\<lambda>ptr_block.
              bindE (fresh_buffer buf) (\<lambda>data.
              bindE (gets (\<lambda>(n, _). i_block n)) (\<lambda>bl.
              bindE (set_entry 12 ptr_block) (\<lambda>_.
              ret (put_u32 (put_u32 (put_u32 data 0 (bl ! 12)) 1 (bl ! 13)) 2 (bl ! 14))))))
            else bindE (entry_of 12) (\<lambda>p. read_ptrs buf p)) (\<lambda>data.
     bindE (entry_of 12) (\<lambda>p.
     write_ptrs (put_u32 data (count - 12) b) p)))"

definition alloc_in_double :: "nat \<Rightarrow> nat \<Rightarrow> nat \<Rightarrow> ('a, unit) inode_m" where
  "alloc_in_double S count b =
     (let num_in_double_ptr = count - 12 - S;
          index_in_single_ptr = num_in_double_ptr mod S;
          single_ptr_idx_in_double_ptr = num_in_double_ptr div S
      in
      bindE (onS kalloc_m) (\<lambda>buf.
      bindE (if index_in_single_ptr = 0 then
               bindE alloc_block (\<lambda>single_ptr_block.
               bindE (onS kalloc_m) (\<lambda>dbuf.
               bindE (if single_ptr_idx_in_double_ptr = 0 then
                        bindE alloc_block (\<lambda>d. bindE (set_entry 13 d) (\<lambda>_. fresh_buffer dbuf))
                      else bindE (entry_of 13) (\<lambda>d. read_ptrs dbuf d)) (\<lambda>double_ptr_data.
               bindE (entry_of 13) (\<lambda>d.
               bindE (write_ptrs (put_u32 double_ptr_data single_ptr_idx_in_double_ptr single_ptr_block) d) (\<lambda>_.
               bindE (fresh_buffer buf) (\<lambda>ptr_data. ret (ptr_data, single_ptr_block)))))))
             else
               bindE (onS kalloc_m) (\<lambda>dbuf.
               bindE (entry_of 13) (\<lambda>d.
               bindE (read_ptrs dbuf d) (\<lambda>double_ptr_data.
               bindE (ptr_at double_ptr_data single_ptr_idx_in_double_ptr) (\<lambda>single_ptr_block.
               bindE (read_ptrs buf single_ptr_block) (\<lambda>ptr_data. ret (ptr_data, single_ptr_block))))))) (\<lambda>(ptr_data, single_ptr_block).
      write_ptrs (put_u32 ptr_data index_in_single_ptr b) single_ptr_block)))"

text \<open>In the triple case the write of the double pointer block is checked, but its failure does
  not return: the error is dropped.\<close>

definition alloc_in_triple :: "nat \<Rightarrow> nat \<Rightarrow> nat \<Rightarrow> ('a, unit) inode_m" where
  "alloc_in_triple S count b =
     (let num_in_triple_ptr = count - 12 - S - S * S;
          index_in_double_ptr = num_in_triple_ptr mod (S * S);
          double_ptr_idx_in_triple_ptr = num_in_triple_ptr div (S * S);
          index_in_single_pointer = index_in_double_ptr mod S;
          single_ptr_idx_in_double_ptr = index_in_double_ptr div S
      in
      bindE (onS kalloc_m) (\<lambda>buf.
      bindE (if index_in_single_pointer = 0 then
               bindE alloc_block (\<lambda>single_ptr_block.
               bindE (onS kalloc_m) (\<lambda>dbuf.
               bindE (if single_ptr_idx_in_double_ptr = 0 then
                        bindE alloc_block (\<lambda>double_ptr_block.
                        bindE (onS kalloc_m) (\<lambda>tbuf.
                        bindE (if double_ptr_idx_in_triple_ptr = 0 then
                                 bindE alloc_block (\<lambda>t. bindE (set_entry 14 t) (\<lambda>_. fresh_buffer tbuf))
                               else bindE (entry_of 14) (\<lambda>t. read_ptrs tbuf t)) (\<lambda>triple_ptr_data.
                        bindE (entry_of 14) (\<lambda>t.
                        bindE (write_ptrs (put_u32 triple_ptr_data double_ptr_idx_in_triple_ptr double_ptr_block) t) (\<lambda>_.
                        bindE (fresh_buffer dbuf) (\<lambda>double_ptr_data. ret (double_ptr_data, double_ptr_block)))))))
                      else
                        bindE (onS kalloc_m) (\<lambda>tbuf.
                        bindE (entry_of 14) (\<lambda>t.
                        bindE (read_ptrs tbuf t) (\<lambda>triple_ptr_data.
                        bindE (ptr_at triple_ptr_data double_ptr_idx_in_triple_ptr) (\<lambda>double_ptr_block.
                        bindE (read_ptrs dbuf double_ptr_block) (\<lambda>double_ptr_data.
                        ret (double_ptr_data, double_ptr_block))))))) (\<lambda>(double_ptr_data, double_ptr_block).
               bindE (attempt (write_ptrs (put_u32 double_ptr_data single_ptr_idx_in_double_ptr single_ptr_block) double_ptr_block)) (\<lambda>_.
               bindE (fresh_buffer buf) (\<lambda>ptr_data. ret (ptr_data, single_ptr_block))))))
             else
               bindE (onS kalloc_m) (\<lambda>tbuf.
               bindE (entry_of 14) (\<lambda>t.
               bindE (read_ptrs tbuf t) (\<lambda>triple_ptr_data.
               bindE (ptr_at triple_ptr_data double_ptr_idx_in_triple_ptr) (\<lambda>double_ptr_block.
               bindE (onS kalloc_m) (\<lambda>dbuf.
               bindE (read_ptrs dbuf double_ptr_block) (\<lambda>double_ptr_data.
               bindE (ptr_at double_ptr_data single_ptr_idx_in_double_ptr) (\<lambda>single_ptr_block.
               bindE (read_ptrs buf single_ptr_block) (\<lambda>ptr_data. ret (ptr_data, single_ptr_block)))))))))) (\<lambda>(ptr_data, single_ptr_block).
      write_ptrs (put_u32 ptr_data index_in_single_pointer b) single_ptr_block)))"

definition allocate_block_for_file_inode :: "('a, nat) inode_m" where
  "allocate_block_for_file_inode =
     bindE (gets (\<lambda>(n, s). (i_blocks n, BLOCKS_IN_SINGLE_PTR s))) (\<lambda>(count, S).
     if count = 12 + S + S * S + S * S * S then fail INODE_FULL
     else
       bindE alloc_block (\<lambda>block_was_alloc.
       bindE (if count < 15 then set_entry count block_was_alloc
              else if count < 12 + S then alloc_in_single count block_was_alloc
              else if count < 12 + S + S * S then alloc_in_double S count block_was_alloc
              else alloc_in_triple S count block_was_alloc) (\<lambda>_.
       bindE (modify (\<lambda>(n, s). (n\<lparr>i_blocks := i_blocks n + 1\<rparr>, s))) (\<lambda>_.
       ret block_was_alloc))))"

subsection \<open>Dropping the last block\<close>

definition free_block :: "nat \<Rightarrow> ('a, unit) inode_m" where
  "free_block b = onS (set_block_allocated b False)"

definition check_block :: "nat \<Rightarrow> ('a, unit) inode_m" where
  "check_block b = (if b = 0 then fail ILLEGAL_BLOCK_NO else ret ())"

definition remove_in_double :: "nat \<Rightarrow> nat \<Rightarrow> ('a, unit) inode_m" where
  "remove_in_double S block_idx =
     (let num_in_double_ptr = block_idx - 12 - S;
          index_in_single_ptr = num_in_double_ptr mod S;
          single_ptr_idx_in_double_ptr = num_in_double_ptr div S
      in
      bindE (entry_of 13) (\<lambda>double_ptr.
      bindE (onS kalloc_m) (\<lambda>dbuf.
      bindE (read_ptrs dbuf double_ptr) (\<lambda>double_ptr_data.
      bindE (ptr_at double_ptr_data single_ptr_idx_in_double_ptr) (\<lambda>single_ptr.
      bindE (onS kalloc_m) (\<lambda>buf.
      bindE (read_ptrs buf single_ptr) (\<lambda>single_ptr_data.
      bindE (ptr_at single_ptr_data index_in_single_ptr) (\<lambda>block_to_remove.
      bindE (check_block block_to_remove) (\<lambda>_.
      bindE (free_block block_to_remove) (\<lambda>_.
      if index_in_single_ptr = 0 then
        bindE (free_block single_ptr) (\<lambda>_.
        if single_ptr_idx_in_double_ptr = 0 then
          bindE (free_block double_ptr) (\<lambda>_. set_entry 13 0)
        else write_ptrs (put_u32 double_ptr_data single_ptr_idx_in_double_ptr 0) double_ptr)
      else write_ptrs (put_u32 single_ptr_data index_in_single_ptr 0) single_ptr))))))))))"

definition remove_in_triple :: "nat \<Rightarrow> nat \<Rightarrow> ('a, unit) inode_m" where
  "remove_in_triple S block_idx =
     (let num_in_triple_ptr = block_idx - 12 - S - S * S;
          index_in_double_ptr = num_in_triple_ptr mod (S * S);
          double_ptr_idx_in_triple_ptr = num_in_triple_ptr div (S * S);
          index_in_single_ptr = index_in_double_ptr mod S;
          single_ptr_idx_in_double_ptr = index_in_double_ptr div S
      in
      bindE (entry_of 14) (\<lambda>triple_ptr.
      bindE (onS kalloc_m) (\<lambda>tbuf.
      bindE (read_ptrs tbuf triple_ptr) (\<lambda>triple_ptr_data.
      bindE (ptr_at triple_ptr_data double_ptr_idx_in_triple_ptr) (\<lambda>double_ptr.
      bindE (onS kalloc_m) (\<lambda>dbuf.
      bindE (read_ptrs dbuf double_ptr) (\<lambda>double_ptr_data.
      bindE (ptr_at double_ptr_data single_ptr_idx_in_double_ptr) (\<lambda>single_ptr.
      bindE (onS kalloc_m) (\<lambda>buf.
      bindE (read_ptrs buf single_ptr) (\<lambda>single_ptr_data.
      bindE (ptr_at single_ptr_data index_in_single_ptr) (\<lambda>block_to_remove.
      bindE (check_block block_to_remove) (\<lambda>_.
      bindE (free_block block_to_remove) (\<lambda>_.
      if index_in_single_ptr = 0 then
        bindE (free_block single_ptr) (\<lambda>_.
        if single_ptr_idx_in_double_ptr = 0 then
          bindE (free_block double_ptr) (\<lambda>_.
          if double_ptr_idx_in_triple_ptr = 0 then
            bindE (free_block triple_ptr) (\<lambda>_. set_entry 14 0)
          else write_ptrs (put_u32 triple_ptr_data double_ptr_idx_in_triple_ptr 0) triple_ptr)
        else write_ptrs (put_u32 double_ptr_data single_ptr_idx_in_double_ptr 0) double_ptr)
      else write_ptrs (put_u32 single_ptr_data index_in_single_ptr 0) single_ptr)))))))))))))"

text \<open>The body of \<open>remove_last_block_inode\<close> between taking and dropping the cached inode.\<close>

definition remove_last_block_body :: "('a, unit) inode_m" where
  "remove_last_block_body =
     bindE (gets (\<lambda>(n, s). (i_blocks n, BLOCKS_IN_SINGLE_PTR s))) (\<lambda>(old_blocks, S).
     if old_blocks = 0 then fail ILLEGAL_BLOCK_NO
     else
       (let block_idx = old_blocks - 1 in
        bindE (if old_blocks \<le> 15 then
                 bindE (entry_of block_idx) (\<lambda>block_to_remove.
                 bindE (check_block block_to_remove) (\<lambda>_.
                 bindE (free_block block_to_remove) (\<lambda>_.
                 set_entry block_idx 0)))
               else if old_blocks = 16 then
                 bindE (entry_of 12) (\<lambda>single_ptr.
                 bindE (onS kalloc_m) (\<lambda>buf.
                 bindE (read_ptrs buf single_ptr) (\<lambda>data.
                 bindE (ptr_at data (block_idx - 12)) (\<lambda>block_to_remove.
                 bindE (check_block block_to_remove) (\<lambda>_.
                 bindE (free_block block_to_remove) (\<lambda>_.
                 bindE (ptr_at data 0) (\<lambda>b0. bindE (ptr_at data 1) (\<lambda>b1. bindE (ptr_at data 2) (\<lambda>b2.
                 bindE (set_entry 12 b0) (\<lambda>_. bindE (set_entry 13 b1) (\<lambda>_. bindE (set_entry 14 b2) (\<lambda>_.
                 free_block single_ptr))))))))))))
               else if block_idx < 12 + S then
                 bindE (entry_of 12) (\<lambda>single_ptr.
                 bindE (onS kalloc_m) (\<lambda>buf.
                 bindE (read_ptrs buf single_ptr) (\<lambda>data.
                 bindE (ptr_at data (block_idx - 12)) (\<lambda>block_to_remove.
                 bindE (check_block block_to_remove) (\<lambda>_.
                 bindE (free_block block_to_remove) (\<lambda>_.
                 write_ptrs (put_u32 data (block_idx - 12) 0) single_ptr))))))
               else if block_idx < 12 + S + S * S then remove_in_double S block_idx
               else remove_in_triple S block_idx) (\<lambda>_.
        modify (\<lambda>(n, s). (n\<lparr>i_blocks := old_blocks - 1\<rparr>, s)))))"

subsection \<open>Freeing a whole file\<close>

text \<open>The three functions return \<open>SUCCESS\<close>, an error, or \<open>-1\<close> to say that all blocks of the file
  have been freed; \<open>total_removed\<close> is passed along.\<close>

fun free_single_loop ::
  "byte list \<Rightarrow> nat \<Rightarrow> nat list \<Rightarrow> nat \<Rightarrow> 'a fsys_scheme \<Rightarrow> (int \<times> nat \<times> 'a fsys_scheme) kres" where
  "free_single_loop data count [] total_removed s = Inr (SUCCESS, total_removed, s)"
| "free_single_loop data count (i # is) total_removed s =
     (case set_block_allocated (get_u32 s data i) False s of
        Inl p \<Rightarrow> Inl p
      | Inr (Inl err, s) \<Rightarrow> Inr (err, total_removed, s)
      | Inr (Inr _, s) \<Rightarrow>
          if total_removed + 1 = count then Inr (- 1, total_removed + 1, s)
          else free_single_loop data count is (total_removed + 1) s)"

text \<open>The common head of the three functions: free the pointer block, then read it.\<close>

definition free_and_read :: "nat \<Rightarrow> ('a fsys_scheme, byte list) fsm" where
  "free_and_read b =
     bindE (set_block_allocated b False) (\<lambda>_. bindE kalloc_m (\<lambda>buf. read_block_m buf b))"

definition free_from_single_ptr ::
  "nat \<Rightarrow> nat \<Rightarrow> nat \<Rightarrow> 'a fsys_scheme \<Rightarrow> (int \<times> nat \<times> 'a fsys_scheme) kres" where
  "free_from_single_ptr single_block count total_removed s =
     (case free_and_read single_block s of
        Inl p \<Rightarrow> Inl p
      | Inr (Inl err, s) \<Rightarrow> Inr (err, total_removed, s)
      | Inr (Inr data, s) \<Rightarrow> free_single_loop data count [0..<BLOCKS_IN_SINGLE_PTR s] total_removed s)"

fun free_ptr_loop ::
  "(nat \<Rightarrow> nat \<Rightarrow> nat \<Rightarrow> 'a fsys_scheme \<Rightarrow> (int \<times> nat \<times> 'a fsys_scheme) kres) \<Rightarrow>
    byte list \<Rightarrow> nat \<Rightarrow> nat list \<Rightarrow> nat \<Rightarrow> 'a fsys_scheme \<Rightarrow> (int \<times> nat \<times> 'a fsys_scheme) kres" where
  "free_ptr_loop f data count [] total_removed s = Inr (SUCCESS, total_removed, s)"
| "free_ptr_loop f data count (i # is) total_removed s =
     (case f (get_u32 s data i) count total_removed s of
        Inl p \<Rightarrow> Inl p
      | Inr (ret_val, total_removed, s) \<Rightarrow>
          if ret_val \<noteq> SUCCESS then Inr (ret_val, total_removed, s)
          else free_ptr_loop f data count is total_removed s)"

definition free_from_double_ptr ::
  "nat \<Rightarrow> nat \<Rightarrow> nat \<Rightarrow> 'a fsys_scheme \<Rightarrow> (int \<times> nat \<times> 'a fsys_scheme) kres" where
  "free_from_double_ptr double_block count total_removed s =
     (case free_and_read double_block s of
        Inl p \<Rightarrow> Inl p
      | Inr (Inl err, s) \<Rightarrow> Inr (err, total_removed, s)
      | Inr (Inr data, s) \<Rightarrow>
          free_ptr_loop free_from_single_ptr data count [0..<BLOCKS_IN_SINGLE_PTR s] total_removed s)"

definition free_from_triple_ptr ::
  "nat \<Rightarrow> nat \<Rightarrow> nat \<Rightarrow> 'a fsys_scheme \<Rightarrow> (int \<times> nat \<times> 'a fsys_scheme) kres" where
  "free_from_triple_ptr triple_block count total_removed s =
     (case free_and_read triple_block s of
        Inl p \<Rightarrow> Inl p
      | Inr (Inl err, s) \<Rightarrow> Inr (err, total_removed, s)
      | Inr (Inr data, s) \<Rightarrow>
          free_ptr_loop free_from_double_ptr data count [0..<BLOCKS_IN_SINGLE_PTR s] total_removed s)"

fun drop_zero_blocks :: "nat list \<Rightarrow> nat \<Rightarrow> nat" where
  "drop_zero_blocks bl 0 = 0"
| "drop_zero_blocks bl (Suc k) = (if bl ! k = 0 then drop_zero_blocks bl k else Suc k)"

definition clamp_kept_blocks :: "inode_st \<Rightarrow> nat \<Rightarrow> nat" where
  "clamp_kept_blocks inode keep_blocks = drop_zero_blocks (i_block inode) (min keep_blocks (i_blocks inode))"

definition cleared :: "inode_st \<Rightarrow> nat \<Rightarrow> inode_st" where
  "cleared inode skip_first = inode\<lparr>i_blocks := clamp_kept_blocks inode skip_first, i_size := 0\<rparr>"

text \<open>The loop over the direct entries; \<open>None\<close> means that it ran to its end.\<close>

fun clear_direct_loop ::
  "inode_st \<Rightarrow> nat list \<Rightarrow> nat \<Rightarrow> 'a fsys_scheme \<Rightarrow> (err_t option \<times> nat \<times> 'a fsys_scheme) kres" where
  "clear_direct_loop inode [] total_removed s = Inr (None, total_removed, s)"
| "clear_direct_loop inode (i # is) total_removed s =
     (case set_block_allocated (i_block inode ! i) False s of
        Inl p \<Rightarrow> Inl p
      | Inr (Inl err, s) \<Rightarrow> Inr (Some err, total_removed, s)
      | Inr (Inr _, s) \<Rightarrow>
          if total_removed + 1 = i_blocks inode then Inr (Some SUCCESS, total_removed + 1, s)
          else clear_direct_loop inode is (total_removed + 1) s)"

definition clear_blocks_of_inode ::
  "inode_st \<Rightarrow> nat \<Rightarrow> 'a fsys_scheme \<Rightarrow> (err_t \<times> inode_st \<times> 'a fsys_scheme) kres" where
  "clear_blocks_of_inode inode skip_first s =
     (if skip_first \<ge> i_blocks inode then Inr (SUCCESS, cleared inode skip_first, s)
      else
        (case clear_direct_loop inode [skip_first..<(if i_blocks inode < 16 then i_blocks inode else 12)] skip_first s of
           Inl p \<Rightarrow> Inl p
         | Inr (Some err, _, s) \<Rightarrow>
             if err = SUCCESS then Inr (SUCCESS, cleared inode skip_first, s) else Inr (err, inode, s)
         | Inr (None, total_removed, s) \<Rightarrow>
             (case free_from_single_ptr (i_block inode ! 12) (i_blocks inode) total_removed s of
                Inl p \<Rightarrow> Inl p
              | Inr (ret_val, total_removed, s) \<Rightarrow>
                  if ret_val = - 1 then Inr (SUCCESS, cleared inode skip_first, s)
                  else if ret_val \<noteq> SUCCESS then Inr (ret_val, inode, s)
                  else (case free_from_double_ptr (i_block inode ! 13) (i_blocks inode) total_removed s of
                    Inl p \<Rightarrow> Inl p
                  | Inr (ret_val, total_removed, s) \<Rightarrow>
                      if ret_val = - 1 then Inr (SUCCESS, cleared inode skip_first, s)
                      else if ret_val \<noteq> SUCCESS then Inr (ret_val, inode, s)
                      else (case free_from_triple_ptr (i_block inode ! 14) (i_blocks inode) total_removed s of
                        Inl p \<Rightarrow> Inl p
                      | Inr (ret_val, total_removed, s) \<Rightarrow>
                          if ret_val = - 1 then Inr (SUCCESS, cleared inode skip_first, s)
                          else if ret_val \<noteq> SUCCESS then Inr (ret_val, inode, s)
                          else Inr (SUCCESS, cleared inode skip_first, s))))))"

subsection \<open>Well-formed file systems and files\<close>

definition used :: "'a fsys_scheme \<Rightarrow> nat \<Rightarrow> bool" where
  "used s b \<longleftrightarrow> b < total_fs_blocks s \<and> gbit (blk_content s) (bytes_per_block s * 8) (block_bitmap_start s) b"

definition fs_ok :: "'a fsys_scheme \<Rightarrow> bool" where
  "fs_ok s \<longleftrightarrow>
     blk_inv s \<and> bitmap_ok s (block_bitmap_start s) (block_bitmap_blocks s) \<and>
     0 < block_bitmap_blocks s \<and> 0 < total_fs_blocks s \<and>
     total_fs_blocks s \<le> block_bitmap_blocks s * (bytes_per_block s * 8) \<and>
     total_fs_blocks s \<le> fs_block_count s \<and> total_fs_blocks s < 2 ^ 32 \<and>
     block_bitmap_start s + block_bitmap_blocks s \<le> data_start_block s \<and> 64 \<le> bytes_per_block s \<and>
     (\<forall>n. length (km_junk s n) = bytes_per_block s) \<and> (\<forall>b < data_start_block s. used s b)"

lemma fs_ok_inv: "fs_ok s \<Longrightarrow> blk_inv s"
  by (simp add: fs_ok_def)

text \<open>A change of the data area and of bitmap bits of the data area only.\<close>

lemma fs_ok_step:
  assumes "fs_ok s" "blk_inv s'" "env s' = env s" "\<forall>b < data_start_block s. used s' b"
  shows "fs_ok s'"
  using assms env_fields [OF assms(3)] env_simps [OF assms(3)] by (simp add: fs_ok_def bitmap_ok_def)

lemma used_env: "env s' = env s \<Longrightarrow> blk_content s' = blk_content s \<Longrightarrow> used s' = used s"
  using env_fields [of s' s] by (auto simp: used_def)

lemma fs_ok_quiet: "fs_ok s \<Longrightarrow> quiet s s' \<Longrightarrow> fs_ok s'"
  using used_env [of s' s] by (intro fs_ok_step [of s s']) (auto simp: quiet_def fs_ok_def)

lemma bits_set_used:
  assumes "env s' = env s" "bits_set_to s s' (block_bitmap_start s) k on" "k < total_fs_blocks s"
  shows "used s' b \<longleftrightarrow> (if b = k then on else used s b)"
  using assms env_fields [OF assms(1)] by (simp add: used_def bits_set_to_def)

lemma bits_set_data:
  assumes "fs_ok s" "bits_set_to s s' (block_bitmap_start s) k on" "k < total_fs_blocks s" "data_start_block s \<le> c"
  shows "blk_content s' c = blk_content s c"
proof -
  have "k div (bytes_per_block s * 8) < block_bitmap_blocks s"
    using assms(1,3) by (intro less_mult_imp_div_less) (auto simp: fs_ok_def)
  then have "c \<noteq> block_bitmap_start s + k div (bytes_per_block s * 8)" using assms(1,4) by (auto simp: fs_ok_def)
  then show ?thesis using assms(2) by (simp add: bits_set_to_def)
qed

lemma find_free_block_success:
  assumes "find_free_block True s = Inr (Inr b, s')" "fs_ok s"
  shows "fs_ok s'" "env s' = env s" "\<not> used s b" "b < total_fs_blocks s" "data_start_block s \<le> b"
    "used s' c \<longleftrightarrow> used s c \<or> c = b" "data_start_block s \<le> c \<Longrightarrow> blk_content s' c = blk_content s c"
proof -
  obtain k where f: "find_free_from_bitmap_range (block_bitmap_start s) (block_bitmap_blocks s) (total_fs_blocks s) True s = Inr (SUCCESS, b, s')"
    using assms(1) by (auto simp: find_free_block_def as_result_def split: sum.splits prod.splits if_splits)
  have "find_spec s (block_bitmap_start s) (block_bitmap_blocks s) (total_fs_blocks s) True SUCCESS b s'"
    using find_range_spec [of s "block_bitmap_start s" "block_bitmap_blocks s" "total_fs_blocks s" True] assms(2) f
    by (auto simp: fs_ok_def)
  then have sp: "blk_inv s'" "env s' = env s" "b < total_fs_blocks s" "\<not> used s b"
      "bits_set_to s s' (block_bitmap_start s) b True"
    by (auto simp: find_spec_def Let_def used_def)
  then show "env s' = env s" "\<not> used s b" "b < total_fs_blocks s" by auto
  show "used s' c \<longleftrightarrow> used s c \<or> c = b" using bits_set_used [OF sp(2,5,3)] by auto
  show "data_start_block s \<le> b" using sp(4) assms(2) by (meson fs_ok_def not_le_imp_less)
  show "data_start_block s \<le> c \<Longrightarrow> blk_content s' c = blk_content s c" by (rule bits_set_data [OF assms(2) sp(5,3)])
  show "fs_ok s'" using fs_ok_step [OF assms(2) sp(1,2)] assms(2) bits_set_used [OF sp(2,5,3)] by (auto simp: fs_ok_def)
qed

lemma set_block_allocated_success:
  assumes "set_block_allocated b False s = Inr (Inr (), s')" "fs_ok s"
  shows "blk_inv s'" "env s' = env s" "b < total_fs_blocks s" "used s' c \<longleftrightarrow> used s c \<and> c \<noteq> b"
    "data_start_block s \<le> c \<Longrightarrow> blk_content s' c = blk_content s c"
    "data_start_block s \<le> b \<Longrightarrow> fs_ok s'"
proof -
  have f: "set_bit_in_bitmap_range (block_bitmap_start s) (block_bitmap_blocks s) (total_fs_blocks s) b False s = Inr (SUCCESS, s')"
    using assms(1) by (auto simp: set_block_allocated_def as_result_def split: sum.splits prod.splits if_splits)
  then show b: "b < total_fs_blocks s" by (auto simp: set_bit_in_bitmap_range_def split: if_splits)
  have bm: "bitmap_ok s (block_bitmap_start s) (block_bitmap_blocks s)" "b < block_bitmap_blocks s * (bytes_per_block s * 8)"
    using assms(2) b by (auto simp: fs_ok_def)
  from set_bit_spec [OF fs_ok_inv [OF assms(2)] bm(1) b bm(2) f]
  have sp: "blk_inv s'" "env s' = env s" "bits_set_to s s' (block_bitmap_start s) b False" by auto
  show "blk_inv s'" "env s' = env s" using sp by auto
  show u: "used s' c \<longleftrightarrow> used s c \<and> c \<noteq> b" for c using bits_set_used [OF sp(2,3) b] by auto
  show "data_start_block s \<le> c \<Longrightarrow> blk_content s' c = blk_content s c" by (rule bits_set_data [OF assms(2) sp(3) b])
  show "data_start_block s \<le> b \<Longrightarrow> fs_ok s'"
    using fs_ok_step [OF assms(2) sp(1,2)] assms(2) u by (auto simp: fs_ok_def)
qed

subsection \<open>Successful runs on the pair of inode and file system\<close>

lemma onS_success: "onS m (n, s) = Inr (Inr a, p) \<longleftrightarrow> (\<exists>s'. m s = Inr (Inr a, s') \<and> p = (n, s'))"
  by (auto simp: onS_def split: sum.splits prod.splits)

lemma modify_success [simp]: "modify f p = Inr (Inr a, p') \<longleftrightarrow> p' = f p"
  by (auto simp: modify_def)

lemma set_entry_success:
  "set_entry i b (n, s) = Inr (Inr a, p) \<longleftrightarrow> p = (n\<lparr>i_block := (i_block n)[i := b]\<rparr>, s)"
  by (auto simp: set_entry_def)

lemma fresh_buffer_success:
  "fresh_buffer buf (n, s) = Inr (Inr d, p) \<longleftrightarrow> (\<exists>k. buf = Some k \<and> d = km_junk s k \<and> p = (n, s))"
  by (cases buf) (auto simp: fresh_buffer_def)

lemma entry_of_success: "entry_of i (n, s) = Inr (Inr b, p) \<longleftrightarrow> b = i_block n ! i \<and> p = (n, s)"
  by (auto simp: entry_of_def)

lemma ptr_at_success: "ptr_at d i (n, s) = Inr (Inr b, p) \<longleftrightarrow> b = get_u32 s d i \<and> p = (n, s)"
  by (auto simp: ptr_at_def)

lemma check_block_success: "check_block b p = Inr (Inr a, p') \<longleftrightarrow> b \<noteq> 0 \<and> p' = p"
  by (auto simp: check_block_def)

lemmas inode_m_success = bindE_success onS_success set_entry_success fresh_buffer_success entry_of_success
  ptr_at_success check_block_success

text \<open>The reference: the number of block \<open>j\<close> of a file in the direct and single-indirect range.\<close>

definition file_block :: "'a fsys_scheme \<Rightarrow> inode_st \<Rightarrow> nat \<Rightarrow> nat" where
  "file_block s n j =
     (if j < 12 \<or> i_blocks n \<le> 15 then i_block n ! j
      else le_val (slice (blk_content s (i_block n ! 12)) (4 * (j - 12)) 4))"

text \<open>The blocks a file occupies: its data blocks and, beyond fifteen, the pointer block.\<close>

definition owned :: "'a fsys_scheme \<Rightarrow> inode_st \<Rightarrow> nat list" where
  "owned s n = map (file_block s n) [0..<i_blocks n] @ (if i_blocks n > 15 then [i_block n ! 12] else [])"

definition file_ok :: "'a fsys_scheme \<Rightarrow> inode_st \<Rightarrow> bool" where
  "file_ok s n \<longleftrightarrow>
     length (i_block n) = 15 \<and> i_blocks n \<le> 12 + BLOCKS_IN_SINGLE_PTR s \<and> distinct (owned s n) \<and>
     (\<forall>b \<in> set (owned s n). used s b \<and> data_start_block s \<le> b \<and> b < total_fs_blocks s)"

lemma file_okD:
  assumes "file_ok s n"
  shows "length (i_block n) = 15" "i_blocks n \<le> 12 + BLOCKS_IN_SINGLE_PTR s"
    "j < i_blocks n \<Longrightarrow> used s (file_block s n j) \<and> data_start_block s \<le> file_block s n j \<and> file_block s n j < total_fs_blocks s"
    "15 < i_blocks n \<Longrightarrow> used s (i_block n ! 12) \<and> data_start_block s \<le> i_block n ! 12 \<and> i_block n ! 12 < total_fs_blocks s"
  using assms by (auto simp: file_ok_def owned_def)

lemma get_u32_in: "4 * i + 4 \<le> length d \<Longrightarrow> get_u32 s d i = le_val (slice d (4 * i) 4)"
  by (simp add: get_u32_def)

lemma slice_put:
  assumes "4 * i + 4 \<le> length d" "v < 2 ^ 32" "4 * j + 4 \<le> length d"
  shows "le_val (slice (put_u32 d i v) (4 * j) 4) = (if j = i then v else le_val (slice d (4 * j) 4))"
  using get_put_u32 [OF assms] assms by (cases "j = i") (simp_all add: get_u32_in)

lemma ptr_slot_fits: "j < BLOCKS_IN_SINGLE_PTR s \<Longrightarrow> 4 * j + 4 \<le> bytes_per_block s"
  by linarith

lemma write_ptr_block:
  assumes "write_block_m d b s = Inr (Inr (), s')" "fs_ok s" "length d = bytes_per_block s" "data_start_block s \<le> b"
  shows "fs_ok s'" "env s' = env s" "used s' = used s" "blk_content s' = (blk_content s)(b := d)"
proof -
  note w = write_block_m_effect [OF assms(1) fs_ok_inv [OF assms(2)] assms(3)]
  then show e: "env s' = env s" and c: "blk_content s' = (blk_content s)(b := d)" by auto
  have "block_bitmap_start s + k div (bytes_per_block s * 8) \<noteq> b" if "k < total_fs_blocks s" for k
  proof -
    have "k div (bytes_per_block s * 8) < block_bitmap_blocks s"
      using that assms(2) by (intro less_mult_imp_div_less) (auto simp: fs_ok_def)
    then show ?thesis using assms(2,4) by (auto simp: fs_ok_def)
  qed
  then show u: "used s' = used s"
    using c env_fields [OF e] by (auto simp: used_def gbit_def fun_eq_iff)
  show "fs_ok s'" using fs_ok_step [OF assms(2) _ e] w u assms(2) by (auto simp: fs_ok_def)
qed

lemma kalloc_m_fs:
  assumes "kalloc_m s = Inr (Inr buf, s')" "fs_ok s"
  shows "fs_ok s'" "env s' = env s" "used s' = used s" "blk_content s' = blk_content s"
proof -
  have q: "quiet s s'" using kalloc_m_quiet [OF assms(1)] assms(2) by (simp add: fs_ok_inv)
  then show "fs_ok s'" "env s' = env s" "blk_content s' = blk_content s" using fs_ok_quiet [OF assms(2)] by (auto simp: quiet_def)
  with used_env show "used s' = used s" by blast
qed

lemma read_block_m_fs:
  assumes "read_block_m buf b s = Inr (Inr d, s')" "fs_ok s"
  shows "fs_ok s'" "env s' = env s" "used s' = used s" "blk_content s' = blk_content s" "d = blk_content s b"
    "length d = bytes_per_block s"
proof -
  have q: "quiet s s'" "d = blk_content s b" using read_block_m_quiet [OF assms(1)] assms(2) by (auto simp: fs_ok_inv)
  then show "fs_ok s'" "env s' = env s" "blk_content s' = blk_content s" "d = blk_content s b"
    using fs_ok_quiet [OF assms(2)] by (auto simp: quiet_def)
  with used_env show "used s' = used s" by blast
  show "length d = bytes_per_block s" using q(2) content_length [OF fs_ok_inv [OF assms(2)]] by simp
qed

text \<open>A file depends only on the layout, the bitmap and the contents of its own blocks.\<close>

lemma file_block_cong:
  assumes "15 < i_blocks n \<Longrightarrow> blk_content s' (i_block n ! 12) = blk_content s (i_block n ! 12)"
  shows "file_block s' n j = file_block s n j"
  using assms by (auto simp: file_block_def)

text \<open>Extending a file: a criterion for \<open>file_ok\<close> of the longer file.\<close>

lemma file_ok_extend:
  assumes ok: "file_ok s n" and e: "env s' = env s"
    and n': "length (i_block n') = 15" "i_blocks n' = i_blocks n + 1" "i_blocks n' \<le> 12 + BLOCKS_IN_SINGLE_PTR s"
    and old: "\<And>j. j < i_blocks n \<Longrightarrow> file_block s' n' j = file_block s n j"
    and new: "file_block s' n' (i_blocks n) = b" "\<not> used s b" "data_start_block s \<le> b" "b < total_fs_blocks s" "used s' b"
    and mono: "\<And>c. used s c \<Longrightarrow> used s' c"
    and ptr: "15 < i_blocks n \<Longrightarrow> i_block n' ! 12 = i_block n ! 12"
      "i_blocks n = 15 \<Longrightarrow> \<not> used s (i_block n' ! 12) \<and> i_block n' ! 12 \<noteq> b \<and> used s' (i_block n' ! 12) \<and>
         data_start_block s \<le> i_block n' ! 12 \<and> i_block n' ! 12 < total_fs_blocks s"
  shows "file_ok s' n'"
proof -
  have "[0..<i_blocks n'] = [0..<i_blocks n] @ [i_blocks n]" by (simp add: n'(2))
  then have m: "map (file_block s' n') [0..<i_blocks n'] = map (file_block s n) [0..<i_blocks n] @ [b]"
    using old new(1) by simp
  have own: "set (owned s n) \<subseteq> {c. used s c}" "distinct (owned s n)" using ok by (auto simp: file_ok_def)
  have "distinct (owned s' n') \<and> (\<forall>c \<in> set (owned s' n'). used s' c \<and> data_start_block s \<le> c \<and> c < total_fs_blocks s)"
  proof (cases "i_blocks n = 15")
    case True
    then have "owned s' n' = owned s n @ [b, i_block n' ! 12]" using n'(2) unfolding owned_def m by simp
    then show ?thesis using own new ptr(2) [OF True] mono ok by (auto simp: file_ok_def)
  next
    case False
    then have "owned s' n' = map (file_block s n) [0..<i_blocks n] @ [b] @ (if i_blocks n > 15 then [i_block n ! 12] else [])"
      using n'(2) ptr(1) unfolding owned_def m by simp
    then have "set (owned s' n') = insert b (set (owned s n))" "distinct (owned s' n') \<longleftrightarrow> distinct (b # owned s n)"
      by (auto simp: owned_def)
    then show ?thesis using own new mono ok by (auto simp: file_ok_def)
  qed
  then show ?thesis using n' env_fields [OF e] by (auto simp: file_ok_def)
qed

subsection \<open>Appending\<close>

lemma allocate_cases:
  assumes "allocate_block_for_file_inode (n, s) = Inr (Inr b, (n', s'))" "i_blocks n < 12 + BLOCKS_IN_SINGLE_PTR s"
  obtains s1 n2 where "find_free_block True s = Inr (Inr b, s1)"
    "(if i_blocks n < 15 then set_entry (i_blocks n) b else alloc_in_single (i_blocks n) b) (n, s1) = Inr (Inr (), (n2, s'))"
    "n' = n2\<lparr>i_blocks := i_blocks n2 + 1\<rparr>"
proof -
  have "\<exists>s1 n2. find_free_block True s = Inr (Inr b, s1) \<and>
      (if i_blocks n < 15 then set_entry (i_blocks n) b else alloc_in_single (i_blocks n) b) (n, s1) = Inr (Inr (), (n2, s')) \<and>
      n' = n2\<lparr>i_blocks := i_blocks n2 + 1\<rparr>"
    using assms by (cases "i_blocks n < 15")
      (auto simp: allocate_block_for_file_inode_def bindE_success onS_success split: if_split_asm)
  then show ?thesis using that by blast
qed

definition extends :: "'a fsys_scheme \<Rightarrow> inode_st \<Rightarrow> nat \<Rightarrow> 'a fsys_scheme \<Rightarrow> inode_st \<Rightarrow> bool" where
  "extends s n b s' n' \<longleftrightarrow>
     fs_ok s' \<and> file_ok s' n' \<and> env s' = env s \<and> i_blocks n' = i_blocks n + 1 \<and>
     \<not> used s b \<and> used s' b \<and> (\<forall>j < i_blocks n. file_block s' n' j = file_block s n j) \<and>
     file_block s' n' (i_blocks n) = b"

lemma extend_direct:
  assumes "fs_ok s" "file_ok s n" "i_blocks n < 15" "find_free_block True s = Inr (Inr b, s1)"
  shows "extends s n b s1 (n\<lparr>i_block := (i_block n)[i_blocks n := b], i_blocks := i_blocks n + 1\<rparr>)"
proof -
  let ?n = "n\<lparr>i_block := (i_block n)[i_blocks n := b], i_blocks := i_blocks n + 1\<rparr>"
  note f = find_free_block_success [OF assms(4,1)]
  have S: "64 \<le> bytes_per_block s" using assms(1) by (simp add: fs_ok_def)
  have fb: "file_block s1 ?n j = (if j = i_blocks n then b else file_block s n j)" for j
    using assms(3) file_okD(1) [OF assms(2)] by (auto simp: file_block_def)
  have "file_ok s1 ?n"
    using f S assms(3) file_okD(1) [OF assms(2)] fb by (intro file_ok_extend [OF assms(2) f(2), of ?n b]) auto
  then show ?thesis using f fb by (simp add: extends_def)
qed

lemma extend_new_pointer:
  assumes ok: "fs_ok s" "file_ok s n" "i_blocks n = 15" and b: "find_free_block True s = Inr (Inr b, s1)"
    and k: "kalloc_m s1 = Inr (Inr (Some m), s2)" and p: "find_free_block True s2 = Inr (Inr p, s3)"
    and w: "write_block_m (put_u32 (put_u32 (put_u32 (put_u32 (km_junk s3 m) 0 (i_block n ! 12)) 1 (i_block n ! 13)) 2 (i_block n ! 14)) 3 b) p s3
              = Inr (Inr (), s4)"
  shows "extends s n b s4 (n\<lparr>i_block := (i_block n)[12 := p], i_blocks := 16\<rparr>)"
proof -
  let ?n = "n\<lparr>i_block := (i_block n)[12 := p], i_blocks := 16\<rparr>"
  let ?d = "put_u32 (put_u32 (put_u32 (put_u32 (km_junk s3 m) 0 (i_block n ! 12)) 1 (i_block n ! 13)) 2 (i_block n ! 14)) 3 b"
  note f = find_free_block_success [OF b ok(1)]
  note q = kalloc_m_fs [OF k f(1)]
  note g = find_free_block_success [OF p q(1)]
  have e3: "env s3 = env s" using f(2) q(2) g(2) by simp
  note lay = env_fields [OF e3] and lay2 = env_fields [OF trans [OF q(2) f(2)]]
  have len: "length (km_junk s3 m) = bytes_per_block s" using ok(1) lay by (simp add: fs_ok_def)
  have S: "64 \<le> bytes_per_block s" using ok(1) by (simp add: fs_ok_def)
  have pd: "data_start_block s3 \<le> p" using g(5) lay lay2 by simp
  note wr = write_ptr_block [OF w g(1) _ pd]
  have wr': "fs_ok s4" "env s4 = env s" "used s4 = used s3" "blk_content s4 p = ?d"
    using wr len lay e3 by auto
  have small: "v < 2 ^ 32" if "v < total_fs_blocks s" for v using that ok(1) by (simp add: fs_ok_def)
  have fb_old: "file_block s n j = i_block n ! j" for j using ok(3) by (simp add: file_block_def)
  have bnd: "i_block n ! j < 2 ^ 32" if "j < 15" for j
    using small file_okD(3) [OF ok(2), of j] that ok(3) by (simp add: fb_old)
  have bb: "b < 2 ^ 32" using small f(4) .
  have d: "le_val (slice ?d (4 * j) 4) = (if j = 3 then b else i_block n ! (12 + j))" if "j < 4" for j
  proof -
    have "le_val (slice ?d (4 * j) 4) = (if j = 3 then b else if j = 2 then i_block n ! 14 else
        if j = 1 then i_block n ! 13 else if j = 0 then i_block n ! 12 else le_val (slice (km_junk s3 m) (4 * j) 4))"
      using that len S bnd [of 12] bnd [of 13] bnd [of 14] bb by (simp add: slice_put)
    moreover from that have "j = 0 \<or> j = 1 \<or> j = 2 \<or> j = 3" by auto
    ultimately show ?thesis by auto
  qed
  have l15: "length (i_block n) = 15" by (rule file_okD(1) [OF ok(2)])
  have fb: "file_block s4 ?n j = (if j = 15 then b else file_block s n j)" if "j < 16" for j
    using that wr'(4) d [of "j - 12"] l15 ok(3) by (auto simp: file_block_def)
  have us: "used s4 c \<longleftrightarrow> used s c \<or> c = b \<or> c = p" for c using wr'(3) g(6) q(3) f(6) by auto
  have "\<not> used s p" "p \<noteq> b" "data_start_block s \<le> p" "p < total_fs_blocks s"
    using g(3,4,5) q(3) f(6) lay2 by auto
  then have "file_ok s4 ?n"
    using f us S l15 ok(3) fb by (intro file_ok_extend [OF ok(2) wr'(2), of ?n b]) auto
  then show ?thesis using f wr' us fb ok(3) by (simp add: extends_def)
qed

lemma extend_in_pointer:
  assumes ok: "fs_ok s" "file_ok s n" "15 < i_blocks n" "i_blocks n < 12 + BLOCKS_IN_SINGLE_PTR s"
    and b: "find_free_block True s = Inr (Inr b, s1)"
    and k: "kalloc_m s1 = Inr (Inr buf, s2)" and r: "read_block_m buf (i_block n ! 12) s2 = Inr (Inr d, s3)"
    and w: "write_block_m (put_u32 d (i_blocks n - 12) b) (i_block n ! 12) s3 = Inr (Inr (), s4)"
  shows "extends s n b s4 (n\<lparr>i_blocks := i_blocks n + 1\<rparr>)"
proof -
  let ?n = "n\<lparr>i_blocks := i_blocks n + 1\<rparr>" and ?p = "i_block n ! 12"
  note f = find_free_block_success [OF b ok(1)]
  note q = kalloc_m_fs [OF k f(1)]
  note g = read_block_m_fs [OF r q(1)]
  have e3: "env s3 = env s" using f(2) q(2) g(2) by simp
  note lay = env_fields [OF e3]
  have p: "data_start_block s \<le> ?p" using file_okD(4) [OF ok(2,3)] by simp
  have d: "d = blk_content s ?p" "length d = bytes_per_block s"
    using g(5,6) q(4) f(7) [OF p] env_fields [OF trans [OF q(2) f(2)]] by auto
  note wr = write_ptr_block [OF w g(1)]
  have wr': "fs_ok s4" "env s4 = env s" "used s4 = used s3" "blk_content s4 ?p = put_u32 d (i_blocks n - 12) b"
    using wr d(2) lay p e3 by auto
  have bb: "b < 2 ^ 32" using f(4) ok(1) by (simp add: fs_ok_def)
  have slot: "le_val (slice (blk_content s4 ?p) (4 * j) 4) = (if j = i_blocks n - 12 then b else le_val (slice d (4 * j) 4))"
    if "j \<le> i_blocks n - 12" for j
    using that ok(3,4) d(2) wr'(4) bb ptr_slot_fits [of _ s] by (simp add: slice_put)
  have fb: "file_block s4 ?n j = (if j = i_blocks n then b else file_block s n j)" if "j \<le> i_blocks n" for j
    using that ok(3) slot [of "j - 12"] d(1) by (auto simp: file_block_def)
  have us: "used s4 c \<longleftrightarrow> used s c \<or> c = b" for c using wr'(3) g(3) q(3) f(6) by auto
  have "file_ok s4 ?n"
    using f us ok(3,4) file_okD(1) [OF ok(2)] fb by (intro file_ok_extend [OF ok(2) wr'(2), of ?n b]) auto
  then show ?thesis using f wr' us fb by (simp add: extends_def)
qed

lemma allocate_extends:
  assumes ok: "fs_ok s" "file_ok s n" "i_blocks n < 12 + BLOCKS_IN_SINGLE_PTR s"
    and run: "allocate_block_for_file_inode (n, s) = Inr (Inr b, (n', s'))"
  shows "extends s n b s' n'"
  using run ok(3)
proof (cases rule: allocate_cases)
  case (1 s1 n2)
  show ?thesis
  proof (cases "i_blocks n < 15")
    case True
    then have "n2 = n\<lparr>i_block := (i_block n)[i_blocks n := b]\<rparr>" "s' = s1"
      using 1(2) by (auto simp: set_entry_success)
    then show ?thesis using extend_direct [OF ok(1,2) True 1(1)] 1(3) by simp
  next
    case F: False
    show ?thesis
    proof (cases "i_blocks n = 15")
      case True
      obtain m s2 p s3 where "kalloc_m s1 = Inr (Inr (Some m), s2)" "find_free_block True s2 = Inr (Inr p, s3)"
          "write_block_m (put_u32 (put_u32 (put_u32 (put_u32 (km_junk s3 m) 0 (i_block n ! 12)) 1 (i_block n ! 13)) 2 (i_block n ! 14)) 3 b) p s3
              = Inr (Inr (), s')" "n2 = n\<lparr>i_block := (i_block n)[12 := p]\<rparr>"
        using 1(2) True file_okD(1) [OF ok(2)] by (auto simp: alloc_in_single_def inode_m_success)
      then show ?thesis using extend_new_pointer [OF ok(1,2) True 1(1)] 1(3) True by simp
    next
      case False
      then obtain buf s2 d s3 where "kalloc_m s1 = Inr (Inr buf, s2)" "read_block_m buf (i_block n ! 12) s2 = Inr (Inr d, s3)"
          "write_block_m (put_u32 d (i_blocks n - 12) b) (i_block n ! 12) s3 = Inr (Inr (), s')" "n2 = n"
        using 1(2) F by (auto simp: alloc_in_single_def inode_m_success)
      then show ?thesis using extend_in_pointer [OF ok(1,2) _ ok(3) 1(1)] False F 1(3) by simp
    qed
  qed
qed

subsection \<open>Truncating by one block\<close>

definition shrinks :: "'a fsys_scheme \<Rightarrow> inode_st \<Rightarrow> 'a fsys_scheme \<Rightarrow> inode_st \<Rightarrow> bool" where
  "shrinks s n s' n' \<longleftrightarrow>
     fs_ok s' \<and> file_ok s' n' \<and> env s' = env s \<and> i_blocks n' = i_blocks n - 1 \<and>
     (\<forall>c. used s' c \<longleftrightarrow> used s c \<and> c \<noteq> file_block s n (i_blocks n - 1) \<and> (i_blocks n = 16 \<longrightarrow> c \<noteq> i_block n ! 12)) \<and>
     (\<forall>j < i_blocks n - 1. file_block s' n' j = file_block s n j)"

lemma shrinksI:
  assumes ok: "fs_ok s'" "file_ok s n" "env s' = env s" and pos: "0 < i_blocks n"
    and n': "length (i_block n') = 15" "i_blocks n' = i_blocks n - 1"
    and old: "\<And>j. j < i_blocks n - 1 \<Longrightarrow> file_block s' n' j = file_block s n j"
    and us: "\<And>c. used s' c \<longleftrightarrow> used s c \<and> c \<noteq> file_block s n (i_blocks n - 1) \<and> (i_blocks n = 16 \<longrightarrow> c \<noteq> i_block n ! 12)"
    and ptr: "16 < i_blocks n \<Longrightarrow> i_block n' ! 12 = i_block n ! 12"
  shows "shrinks s n s' n'"
proof -
  obtain k where k: "i_blocks n = Suc k" using pos by (cases "i_blocks n") auto
  define xs where "xs = map (file_block s n) [0..<k]"
  have m: "map (file_block s' n') [0..<i_blocks n'] = xs"
    using old n'(2) k by (simp add: xs_def)
  have own: "owned s n = xs @ [file_block s n k] @ (if k \<ge> 15 then [i_block n ! 12] else [])"
    using k by (simp add: owned_def xs_def)
  have own': "owned s' n' = xs @ (if k > 15 then [i_block n ! 12] else [])"
    using n'(2) ptr k unfolding owned_def m by simp
  have d: "distinct (owned s n)" "\<forall>b \<in> set (owned s n). used s b \<and> data_start_block s \<le> b \<and> b < total_fs_blocks s"
    using ok(2) by (auto simp: file_ok_def)
  have "distinct (owned s' n')" using d(1) unfolding own own' by (auto split: if_splits)
  moreover have "\<forall>b \<in> set (owned s' n'). used s' b \<and> data_start_block s \<le> b \<and> b < total_fs_blocks s"
    using d unfolding own own' us k by (auto split: if_splits)
  ultimately have "file_ok s' n'"
    using n' file_okD(2) [OF ok(2)] env_fields [OF ok(3)] by (auto simp: file_ok_def)
  then show ?thesis using ok n' us old by (simp add: shrinks_def)
qed

lemma shrink_direct:
  assumes ok: "fs_ok s" "file_ok s n" and n: "0 < i_blocks n" "i_blocks n \<le> 15"
    and f: "set_block_allocated (i_block n ! (i_blocks n - 1)) False s = Inr (Inr (), s')"
  shows "shrinks s n s' (n\<lparr>i_block := (i_block n)[i_blocks n - 1 := 0], i_blocks := i_blocks n - 1\<rparr>)"
proof -
  have fb: "file_block s n j = i_block n ! j" for j using n by (simp add: file_block_def)
  have last: "data_start_block s \<le> i_block n ! (i_blocks n - 1)"
    using file_okD(3) [OF ok(2), of "i_blocks n - 1"] n by (simp add: fb)
  note q = set_block_allocated_success [OF f ok(1)]
  show ?thesis
  proof (rule shrinksI [OF q(6) [OF last] ok(2) q(2) n(1)])
    show "used s' c \<longleftrightarrow> used s c \<and> c \<noteq> file_block s n (i_blocks n - 1) \<and> (i_blocks n = 16 \<longrightarrow> c \<noteq> i_block n ! 12)" for c
      using q(4) [of c] n by (simp add: fb)
  qed (use n file_okD(1) [OF ok(2)] in \<open>auto simp: file_block_def\<close>)
qed

lemma read_pointer_block:
  assumes ok: "fs_ok s" "file_ok s n" "15 < i_blocks n"
    and k: "kalloc_m s = Inr (Inr buf, s1)" and r: "read_block_m buf (i_block n ! 12) s1 = Inr (Inr d, s2)"
  shows "fs_ok s2" "env s2 = env s" "used s2 = used s" "blk_content s2 = blk_content s" "d = blk_content s (i_block n ! 12)"
    "length d = bytes_per_block s" "12 \<le> j \<Longrightarrow> j < i_blocks n \<Longrightarrow> get_u32 s3 d (j - 12) = file_block s n j"
    "j < 3 \<Longrightarrow> get_u32 s3 d j = file_block s n (12 + j)"
proof -
  note q = kalloc_m_fs [OF k ok(1)]
  note g = read_block_m_fs [OF r q(1)]
  show "fs_ok s2" "env s2 = env s" "used s2 = used s" "blk_content s2 = blk_content s" using g q by auto
  show d: "d = blk_content s (i_block n ! 12)" "length d = bytes_per_block s"
    using g(5,6) q(4) env_fields [OF q(2)] by auto
  show e: "get_u32 s3 d (j - 12) = file_block s n j" if "12 \<le> j" "j < i_blocks n" for j
  proof -
    have "j - 12 < BLOCKS_IN_SINGLE_PTR s" using that file_okD(2) [OF ok(2)] by linarith
    then have "4 * (j - 12) + 4 \<le> length d" using d(2) ptr_slot_fits by simp
    then show ?thesis using that ok(3) d(1) by (simp add: get_u32_in file_block_def)
  qed
  show "j < 3 \<Longrightarrow> get_u32 s3 d j = file_block s n (12 + j)" using e [of "12 + j"] ok(3) by simp
qed

lemma shrink_last_in_pointer:
  assumes ok: "fs_ok s" "file_ok s n" and n: "i_blocks n = 16"
    and k: "kalloc_m s = Inr (Inr buf, s1)" and r: "read_block_m buf (i_block n ! 12) s1 = Inr (Inr d, s2)"
    and f: "set_block_allocated (file_block s n 15) False s2 = Inr (Inr (), s3)"
    and g: "set_block_allocated (i_block n ! 12) False s3 = Inr (Inr (), s4)"
  shows "shrinks s n s4 (n\<lparr>i_block := ((i_block n)[12 := file_block s n 12])[13 := file_block s n 13, 14 := file_block s n 14], i_blocks := 15\<rparr>)"
proof -
  have n': "15 < i_blocks n" using n by simp
  note p = read_pointer_block [OF ok n' k r]
  have last: "data_start_block s2 \<le> file_block s n 15" using file_okD(3) [OF ok(2), of 15] n env_fields [OF p(2)] by simp
  note q = set_block_allocated_success [OF f p(1)]
  have e3: "env s3 = env s" using q(2) p(2) by simp
  have ptr: "data_start_block s3 \<le> i_block n ! 12" using file_okD(4) [OF ok(2) n'] env_fields [OF e3] by simp
  note q' = set_block_allocated_success [OF g q(6) [OF last]]
  have e4: "env s4 = env s" using q'(2) e3 by simp
  have l15: "length (i_block n) = 15" by (rule file_okD(1) [OF ok(2)])
  show ?thesis
  proof (rule shrinksI [OF q'(6) [OF ptr] ok(2) e4])
    show "used s4 c \<longleftrightarrow> used s c \<and> c \<noteq> file_block s n (i_blocks n - 1) \<and> (i_blocks n = 16 \<longrightarrow> c \<noteq> i_block n ! 12)" for c
      using q'(4) [of c] q(4) [of c] p(3) n by auto
    show "file_block s4 (n\<lparr>i_block := ((i_block n)[12 := file_block s n 12])[13 := file_block s n 13, 14 := file_block s n 14], i_blocks := 15\<rparr>) j
        = file_block s n j" if "j < i_blocks n - 1" for j
    proof (cases "j < 12")
      case True
      then show ?thesis by (simp add: file_block_def)
    next
      case False
      then have "j = 12 \<or> j = 13 \<or> j = 14" using that n by auto
      then show ?thesis using l15 by (auto simp: file_block_def)
    qed
  qed (use n l15 in auto)
qed

lemma shrink_in_pointer:
  assumes ok: "fs_ok s" "file_ok s n" and n: "16 < i_blocks n"
    and k: "kalloc_m s = Inr (Inr buf, s1)" and r: "read_block_m buf (i_block n ! 12) s1 = Inr (Inr d, s2)"
    and f: "set_block_allocated (file_block s n (i_blocks n - 1)) False s2 = Inr (Inr (), s3)"
    and w: "write_block_m (put_u32 d (i_blocks n - 13) 0) (i_block n ! 12) s3 = Inr (Inr (), s4)"
  shows "shrinks s n s4 (n\<lparr>i_blocks := i_blocks n - 1\<rparr>)"
proof -
  let ?p = "i_block n ! 12"
  have n': "15 < i_blocks n" using n by simp
  note p = read_pointer_block [OF ok n' k r]
  have last: "data_start_block s2 \<le> file_block s n (i_blocks n - 1)"
    using file_okD(3) [OF ok(2), of "i_blocks n - 1"] n env_fields [OF p(2)] by simp
  note q = set_block_allocated_success [OF f p(1)]
  have e3: "env s3 = env s" using q(2) p(2) by simp
  have ptr: "data_start_block s3 \<le> ?p" using file_okD(4) [OF ok(2) n'] env_fields [OF e3] by simp
  have "length (put_u32 d (i_blocks n - 13) 0) = bytes_per_block s3" using p(6) env_fields [OF e3] by simp
  note wr = write_ptr_block [OF w q(6) [OF last] this ptr]
  have e4: "env s4 = env s" using wr(2) e3 by simp
  have lim: "i_blocks n - 12 \<le> BLOCKS_IN_SINGLE_PTR s" using file_okD(2) [OF ok(2)] by linarith
  have slot: "le_val (slice (blk_content s4 ?p) (4 * j) 4) = le_val (slice d (4 * j) 4)" if "j < i_blocks n - 13" for j
    using that lim n p(6) wr(4) ptr_slot_fits [of j s] ptr_slot_fits [of "i_blocks n - 13" s] by (simp add: slice_put)
  show ?thesis
  proof (rule shrinksI [OF wr(1) ok(2) e4])
    show "used s4 c \<longleftrightarrow> used s c \<and> c \<noteq> file_block s n (i_blocks n - 1) \<and> (i_blocks n = 16 \<longrightarrow> c \<noteq> ?p)" for c
      using wr(3) q(4) [of c] p(3) n by auto
    show "file_block s4 (n\<lparr>i_blocks := i_blocks n - 1\<rparr>) j = file_block s n j" if "j < i_blocks n - 1" for j
      using that n slot [of "j - 12"] p(5) by (auto simp: file_block_def)
  qed (use n file_okD(1) [OF ok(2)] in auto)
qed

lemma remove_cases:
  assumes "remove_last_block_body (n, s) = Inr (Inr (), (n', s'))" "i_blocks n \<le> 12 + BLOCKS_IN_SINGLE_PTR s"
  shows "0 < i_blocks n"
    "i_blocks n \<le> 15 \<Longrightarrow> set_block_allocated (i_block n ! (i_blocks n - 1)) False s = Inr (Inr (), s') \<and>
       n' = n\<lparr>i_block := (i_block n)[i_blocks n - 1 := 0], i_blocks := i_blocks n - 1\<rparr>"
    "i_blocks n = 16 \<Longrightarrow> \<exists>buf s1 d s2 s3. kalloc_m s = Inr (Inr buf, s1) \<and> read_block_m buf (i_block n ! 12) s1 = Inr (Inr d, s2) \<and>
       set_block_allocated (get_u32 s2 d 3) False s2 = Inr (Inr (), s3) \<and> set_block_allocated (i_block n ! 12) False s3 = Inr (Inr (), s') \<and>
       n' = n\<lparr>i_block := ((i_block n)[12 := get_u32 s3 d 0])[13 := get_u32 s3 d 1, 14 := get_u32 s3 d 2], i_blocks := 15\<rparr>"
    "16 < i_blocks n \<Longrightarrow> \<exists>buf s1 d s2 s3. kalloc_m s = Inr (Inr buf, s1) \<and> read_block_m buf (i_block n ! 12) s1 = Inr (Inr d, s2) \<and>
       set_block_allocated (get_u32 s2 d (i_blocks n - 13)) False s2 = Inr (Inr (), s3) \<and>
       write_block_m (put_u32 d (i_blocks n - 13) 0) (i_block n ! 12) s3 = Inr (Inr (), s') \<and> n' = n\<lparr>i_blocks := i_blocks n - 1\<rparr>"
proof -
  have "i_blocks n \<noteq> 0" using assms(1) by (intro notI) (simp add: remove_last_block_body_def bindE_success)
  then show p: "0 < i_blocks n" by simp
  show "i_blocks n \<le> 15 \<Longrightarrow> set_block_allocated (i_block n ! (i_blocks n - 1)) False s = Inr (Inr (), s') \<and>
       n' = n\<lparr>i_block := (i_block n)[i_blocks n - 1 := 0], i_blocks := i_blocks n - 1\<rparr>"
    using assms p by (auto simp: remove_last_block_body_def Let_def inode_m_success free_block_def)
  show "i_blocks n = 16 \<Longrightarrow> \<exists>buf s1 d s2 s3. kalloc_m s = Inr (Inr buf, s1) \<and> read_block_m buf (i_block n ! 12) s1 = Inr (Inr d, s2) \<and>
       set_block_allocated (get_u32 s2 d 3) False s2 = Inr (Inr (), s3) \<and> set_block_allocated (i_block n ! 12) False s3 = Inr (Inr (), s') \<and>
       n' = n\<lparr>i_block := ((i_block n)[12 := get_u32 s3 d 0])[13 := get_u32 s3 d 1, 14 := get_u32 s3 d 2], i_blocks := 15\<rparr>"
    using assms(1) by (auto simp: remove_last_block_body_def Let_def inode_m_success free_block_def)
  show "16 < i_blocks n \<Longrightarrow> \<exists>buf s1 d s2 s3. kalloc_m s = Inr (Inr buf, s1) \<and> read_block_m buf (i_block n ! 12) s1 = Inr (Inr d, s2) \<and>
       set_block_allocated (get_u32 s2 d (i_blocks n - 13)) False s2 = Inr (Inr (), s3) \<and>
       write_block_m (put_u32 d (i_blocks n - 13) 0) (i_block n ! 12) s3 = Inr (Inr (), s') \<and> n' = n\<lparr>i_blocks := i_blocks n - 1\<rparr>"
  proof -
    assume n: "16 < i_blocks n"
    have "i_blocks n - Suc 0 < 12 + BLOCKS_IN_SINGLE_PTR s" "i_blocks n - Suc 0 - 12 = i_blocks n - 13" using n assms(2) by linarith+
    then show ?thesis
      using assms n by (auto simp: remove_last_block_body_def Let_def inode_m_success free_block_def)
  qed
qed

lemma remove_shrinks:
  assumes ok: "fs_ok s" "file_ok s n" and run: "remove_last_block_body (n, s) = Inr (Inr (), (n', s'))"
  shows "shrinks s n s' n'"
proof -
  note c = remove_cases [OF run file_okD(2) [OF ok(2)]]
  consider "i_blocks n \<le> 15" | "i_blocks n = 16" | "16 < i_blocks n" by linarith
  then show ?thesis
  proof cases
    case 1
    then show ?thesis using shrink_direct [OF ok c(1) 1] c(2) by simp
  next
    case 2
    obtain buf s1 d s2 s3 where r: "kalloc_m s = Inr (Inr buf, s1)" "read_block_m buf (i_block n ! 12) s1 = Inr (Inr d, s2)"
      "set_block_allocated (get_u32 s2 d 3) False s2 = Inr (Inr (), s3)" "set_block_allocated (i_block n ! 12) False s3 = Inr (Inr (), s')"
      "n' = n\<lparr>i_block := ((i_block n)[12 := get_u32 s3 d 0])[13 := get_u32 s3 d 1, 14 := get_u32 s3 d 2], i_blocks := 15\<rparr>"
      using c(3) [OF 2] by blast
    have n: "15 < i_blocks n" using 2 by simp
    note p = read_pointer_block(7) [OF ok n r(1,2)] and p3 = read_pointer_block(8) [OF ok n r(1,2), of _ s3]
    have e: "get_u32 s2 d 3 = file_block s n 15" "get_u32 s3 d 0 = file_block s n 12" "get_u32 s3 d 1 = file_block s n 13"
        "get_u32 s3 d 2 = file_block s n 14"
      using p [of 15 s2] p3 [of 0] p3 [of 1] p3 [of 2] 2 by simp_all
    show ?thesis using shrink_last_in_pointer [OF ok 2 r(1,2)] r(3,4,5) unfolding e by simp
  next
    case 3
    obtain buf s1 d s2 s3 where r: "kalloc_m s = Inr (Inr buf, s1)" "read_block_m buf (i_block n ! 12) s1 = Inr (Inr d, s2)"
      "set_block_allocated (get_u32 s2 d (i_blocks n - 13)) False s2 = Inr (Inr (), s3)"
      "write_block_m (put_u32 d (i_blocks n - 13) 0) (i_block n ! 12) s3 = Inr (Inr (), s')" "n' = n\<lparr>i_blocks := i_blocks n - 1\<rparr>"
      using c(4) [OF 3] by blast
    have n: "15 < i_blocks n" using 3 by simp
    have "get_u32 s2 d (i_blocks n - 13) = file_block s n (i_blocks n - 1)"
      using read_pointer_block(7) [OF ok n r(1,2), of "i_blocks n - 1" s2] 3 by (simp add: diff_diff_eq)
    then show ?thesis using shrink_in_pointer [OF ok 3 r(1,2)] r(3,4,5) by simp
  qed
qed

subsection \<open>Lookup agrees with the reference\<close>

lemma disk_ptr_reliable:
  assumes "blk_inv s" "reliable s" "p < fs_block_count s"
  obtains s' where "get_block_num_from_disk_ptr p i s = Inr (Inr (get_u32 s (blk_content s p) i), s')" "quiet s s'"
proof -
  obtain r s1 where k: "kalloc s = (r, s1)" by (cases "kalloc s")
  have q: "quiet s s1" "r \<noteq> None" using kalloc_keeps [OF k assms(1)] assms(2) by (auto simp: quiet_def reliable_def)
  have s1: "blk_inv s1" "reliable s1" "p < fs_block_count s1" "env s1 = env s" "blk_content s1 = blk_content s"
    using q(1) assms reliable_quiet [OF q(1)] by (auto simp: quiet_def)
  obtain s2 where r: "read_block p s1 = Inr (SUCCESS, blk_content s1 p, s2)" "blk_inv s2" "env s2 = env s1"
      "blk_content s2 = blk_content s1" using reliable_read [OF s1(1-3)] .
  have "env s2 = env s" using r(3) s1(4) by simp
  then have "get_block_num_from_disk_ptr p i s = Inr (Inr (get_u32 s (blk_content s p) i), s2)"
    using k q(2) r(1) s1(5) env_layout(6) [of s2 s] by (auto simp: get_block_num_from_disk_ptr_def)
  then show thesis using that r s1 by (simp add: quiet_def)
qed

lemma lookup_file_block:
  assumes "fs_ok s" "file_ok s n" "reliable s" "j < i_blocks n"
  obtains s' where "get_block_num_from_inode n j s = Inr (Inr (file_block s n j), s')" "quiet s s'"
proof (cases "j < 12 \<or> i_blocks n \<le> 15")
  case True
  then have "get_block_num_from_inode n j s = Inr (Inr (file_block s n j), s)"
    using assms(4) by (simp add: get_block_num_from_inode_def file_block_def Let_def ret_def)
  then show thesis using that fs_ok_inv [OF assms(1)] by (simp add: quiet_def)
next
  case False
  have lim: "j < 12 + BLOCKS_IN_SINGLE_PTR s" using file_okD(2) [OF assms(2)] assms(4) by linarith
  have p: "i_block n ! 12 < fs_block_count s"
    using file_okD(4) [OF assms(2)] False assms(1) by (auto simp: fs_ok_def)
  have "j - 12 < BLOCKS_IN_SINGLE_PTR s" using lim False by linarith
  then have "4 * (j - 12) + 4 \<le> length (blk_content s (i_block n ! 12))"
    using ptr_slot_fits content_length [OF fs_ok_inv [OF assms(1)]] by simp
  then have e: "get_u32 s (blk_content s (i_block n ! 12)) (j - 12) = file_block s n j"
    using False by (simp add: get_u32_in file_block_def)
  obtain s' where "get_block_num_from_disk_ptr (i_block n ! 12) (j - 12) s = Inr (Inr (file_block s n j), s')" "quiet s s'"
    using disk_ptr_reliable [OF fs_ok_inv [OF assms(1)] assms(3) p, of "j - 12"] e by metis
  then show thesis using that False assms(4) lim by (simp add: get_block_num_from_inode_def Let_def)
qed

definition file_disk :: fsys where
  "file_disk = blk.extend
     (blank_disk\<lparr>sectors := \<lambda>b. if b = 101 then 255 # replicate 63 0 else replicate 64 0,
        io_torn := \<lambda>_. replicate 64 0, bytes_per_block := 64\<rparr>)
     (fsys.fields True 4 50 1 1 2 1 3 7 (\<lambda>_. replicate 64 0) (\<lambda>_. 0) 0 77 88)"

definition one_block_file :: inode_st where
  "one_block_file = (new_inode 1 6 5 9)\<lparr>i_blocks := 1, i_block := 7 # replicate 14 0\<rparr>"

lemma file_disk_fields: "blk_inv file_disk" "reliable file_disk" "bytes_per_block file_disk = 64" "fs_block_count file_disk = 50"
  "blk_content file_disk b = (if b = 1 then 255 # replicate 63 0 else replicate 64 0)" "total_fs_blocks file_disk = 50"
  "block_bitmap_start file_disk = 1" "block_bitmap_blocks file_disk = 1" "data_start_block file_disk = 7"
  "km_junk file_disk k = replicate 64 0"
  by (simp_all add: file_disk_def blank_disk_def blk.defs fsys.defs blk_inv_def geometry_ok_def lru_list_def holds_def
      cached_def dll_def reliable_def blk_content_def)

lemma file_disk_used: "used file_disk b \<longleftrightarrow> b < 8"
proof -
  have ff: "bit (255 :: byte) k" if "k < 8" for k
  proof -
    from that have "k \<in> {0, 1, 2, 3, 4, 5, 6, 7}" by auto
    then show ?thesis by auto
  qed
  have "b < 50 \<Longrightarrow> gbit (blk_content file_disk) 512 1 b \<longleftrightarrow> b < 8"
    using ff [of "7 - b"] by (auto simp: gbit_def bmp_bit_def file_disk_fields nth_Cons')
  then show ?thesis by (auto simp: used_def file_disk_fields)
qed

lemma file_disk_ok: "fs_ok file_disk" "file_ok file_disk one_block_file"
  by (auto simp: fs_ok_def bitmap_ok_def file_disk_fields file_disk_used file_ok_def owned_def one_block_file_def
      new_inode_def file_block_def)

lemma free_block_found:
  assumes "fs_ok s" "reliable s" "b < total_fs_blocks s" "\<not> used s b"
  obtains k s' where "find_free_block True s = Inr (Inr k, s')"
proof -
  have sp: "blk_inv s" "bitmap_ok s (block_bitmap_start s) (block_bitmap_blocks s)" "0 < block_bitmap_blocks s" "0 < total_fs_blocks s"
      "data_start_block s \<le> b" "block_bitmap_start s + block_bitmap_blocks s \<le> data_start_block s"
      "total_fs_blocks s \<le> fs_block_count s" "total_fs_blocks s \<le> block_bitmap_blocks s * (bytes_per_block s * 8)"
    using assms(1,4) by (auto simp: fs_ok_def simp flip: not_less)
  then have "block_bitmap_start s + block_bitmap_blocks s \<le> fs_block_count s" using assms(3) by linarith
  then obtain err k s' where f: "find_free_from_bitmap_range (block_bitmap_start s) (block_bitmap_blocks s) (total_fs_blocks s) True s = Inr (err, k, s')"
      "err = SUCCESS \<or> err = NO_FREE_BLOCKS" "find_spec s (block_bitmap_start s) (block_bitmap_blocks s) (total_fs_blocks s) True err k s'"
    using find_range_spec [OF sp(1-4), of True] assms(2) by blast
  have "err = SUCCESS" using f(2,3) assms(3,4) sp(8) by (auto simp: find_spec_def Let_def used_def)
  then show thesis using that f(1) by (simp add: find_free_block_def as_result_def)
qed




lemma file_disk_remove:
  obtains n' s' where "remove_last_block_body (one_block_file, file_disk) = Inr (Inr (), (n', s'))"
proof -
  obtain s' where "set_bit_in_bitmap_range 1 1 50 7 False file_disk = Inr (SUCCESS, s')"
    using set_bit_reliable [of file_disk 1 1 7 50 False] file_disk_fields by (auto simp: bitmap_ok_def)
  then have "set_block_allocated 7 False file_disk = Inr (Inr (), s')"
    by (simp add: set_block_allocated_def file_disk_fields as_result_def)
  moreover have "i_blocks one_block_file = 1" "i_block one_block_file ! 0 = 7" by (simp_all add: one_block_file_def)
  ultimately have "remove_last_block_body (one_block_file, file_disk)
      = Inr (Inr (), (one_block_file\<lparr>i_block := (i_block one_block_file)[0 := 0], i_blocks := 0\<rparr>, s'))"
    by (auto simp: remove_last_block_body_def Let_def inode_m_success free_block_def)
  then show thesis by (rule that)
qed


text \<open>C27. Finding a block. In the direct and single-indirect range \<^verbatim>\<open>get_block_num_from_inode\<close> returns
  the block that the appends recorded, on a reliable device it does return, and the lookup changes
  no block. Past the end of the file it returns 0.\<close>

theorem lookup_finds_file_block:
  assumes "fs_ok s" "file_ok s n" "reliable s"
  shows "\<exists>s'. get_block_num_from_inode n j s = Inr (Inr (if j < i_blocks n then file_block s n j else 0), s') \<and>
    blk_content s' = blk_content s \<and> blk_inv s'"
proof (cases "j < i_blocks n")
  case True
  obtain s' where "get_block_num_from_inode n j s = Inr (Inr (file_block s n j), s')" "quiet s s'"
    using lookup_file_block [OF assms True] .
  then show ?thesis using True by (auto simp: quiet_def)
next
  case False
  then show ?thesis using fs_ok_inv [OF assms(1)] by (simp add: get_block_num_from_inode_def ret_def)
qed

theorem lookup_finds_file_block_witness:
  "\<exists>s'. get_block_num_from_inode one_block_file 0 file_disk = Inr (Inr 7, s')"
  using lookup_finds_file_block [OF file_disk_ok file_disk_fields(2), of 0] by (auto simp: one_block_file_def file_block_def)


lemma le_val_zeros: "le_val (replicate k 0) = 0"
  by (induction k) auto


end
