(* ===== verification/Page_Alloc.thy ===== *)
theory Page_Alloc
  imports Kernel_Prelude
begin

unbundle bit_operations_syntax

section \<open>Physical pages\<close>

text \<open>
  The page allocator of \<^verbatim>\<open>src/kernel/memory/page_table/page_table.c\<close>: physical pages, addressed through
  the kernel's direct map, are handed out from a pool behind the kernel image or from a list of
  freed pages that is linked through their first words, and \<open>struct Page\<close> counts the owners of each.

  Memory is a function from the address of a page to its 512 words (\<open>kw page i\<close> is
  \<open>((uint64_t *)page)[i]\<close>); all accesses of the code go through page-aligned pointers. 0 is \<open>NULL\<close>.
  The linker script sets \<open>__RAM_end\<close>; \<open>__kernel_page_pool_start\<close> depends on the size of the kernel
  and is a field of the state.
\<close>

abbreviation (input) PAGE_SIZE :: u64 where "PAGE_SIZE \<equiv> 4096"
abbreviation (input) PAGE_MASK :: u64 where "PAGE_MASK \<equiv> 0xfff"
abbreviation (input) PA_MASK :: u64 where "PA_MASK \<equiv> 0x0000ffffffffffff"
abbreviation (input) PTE_ADDR_MASK :: u64 where "PTE_ADDR_MASK \<equiv> 0x0000fffffffff000"
abbreviation (input) KERNEL_VA_BASE :: u64 where "KERNEL_VA_BASE \<equiv> 0xffff000000000000"
abbreviation (input) RAM_end :: u64 where "RAM_end \<equiv> 0xffff000040000000"
abbreviation (input) PROC_KERNEL_STACK_TOP :: u64 where "PROC_KERNEL_STACK_TOP \<equiv> 0x900000"
abbreviation (input) PTE_FLAG_COW :: u16 where "PTE_FLAG_COW \<equiv> 1"

record page =
  refcount :: u16
  pflags :: u16

record vmstat =
  vs_page_faults :: u64
  vs_instruction_faults :: u64
  vs_data_faults :: u64
  vs_anon_faults :: u64
  vs_file_faults :: u64
  vs_cow_faults :: u64
  vs_faults_handled :: u64
  vs_faults_unmapped :: u64
  vs_faults_invalid :: u64
  vs_faults_permission :: u64
  vs_faults_error :: u64
  vs_cow_copies :: u64
  vs_cow_shared_pages :: u64
  vs_heap_lazy_allocs :: u64
  vs_stack_lazy_allocs :: u64
  vs_tlb_flushes :: u64
  vs_page_allocs :: u64
  vs_page_frees :: u64

record vm =
  kw :: "u64 \<Rightarrow> u64 \<Rightarrow> u64"
  pool_start :: u64
  next_free_page :: u64
  free_list :: u64
  curr_mmap_va :: u64
  pages :: "(u64 \<Rightarrow> page) option"
  vms :: vmstat

definition align_up :: "u64 \<Rightarrow> u64" where
  "align_up v = (v + PAGE_MASK) AND NOT PAGE_MASK"

definition align_down :: "u64 \<Rightarrow> u64" where
  "align_down v = v AND NOT PAGE_MASK"

definition kernel_direct_map_va :: "u64 \<Rightarrow> u64" where
  "kernel_direct_map_va pa = KERNEL_VA_BASE OR (pa AND PA_MASK)"

definition kernel_phys_addr :: "u64 \<Rightarrow> u64" where
  "kernel_phys_addr va = va AND PA_MASK"

text \<open>The words of a page, in the order the loops visit them.\<close>

definition page_words :: "u64 list" where
  "page_words = map of_nat [0..<512]"

definition zero_page :: "u64 \<Rightarrow> vm \<Rightarrow> vm" where
  "zero_page page vm = vm\<lparr>kw := fold (\<lambda>i m. m(page := (m page)(i := 0))) page_words (kw vm)\<rparr>"

definition copy_phys_page :: "u64 \<Rightarrow> u64 \<Rightarrow> vm \<Rightarrow> vm" where
  "copy_phys_page src_pa dst_pa vm =
     (let src = kernel_direct_map_va src_pa; dst = kernel_direct_map_va dst_pa
      in vm\<lparr>kw := fold (\<lambda>i m. m(dst := (m dst)(i := m src i))) page_words (kw vm)\<rparr>)"

text \<open>\<open>- 1\<close> while the array of page structs is not set up.\<close>

definition phys_pa_to_pfn :: "u64 \<Rightarrow> vm \<Rightarrow> int" where
  "phys_pa_to_pfn phys_pa vm =
     (if pages vm = None then - 1 else uint (drop_bit 12 (kernel_phys_addr phys_pa)))"

definition kernel_va_to_pfn :: "u64 \<Rightarrow> vm \<Rightarrow> int" where
  "kernel_va_to_pfn va vm = (if va = 0 then - 1 else phys_pa_to_pfn (kernel_phys_addr va) vm)"

definition page_of :: "int \<Rightarrow> vm \<Rightarrow> page" where
  "page_of pfn vm = the (pages vm) (word_of_int pfn)"

definition set_page :: "int \<Rightarrow> page \<Rightarrow> vm \<Rightarrow> vm" where
  "set_page pfn p vm = vm\<lparr>pages := map_option (\<lambda>a. a(word_of_int pfn := p)) (pages vm)\<rparr>"

definition pt_init :: "(u64 \<Rightarrow> page) \<Rightarrow> vm \<Rightarrow> vm" where
  "pt_init page_struct_array vm = vm\<lparr>pages := Some page_struct_array\<rparr>"

definition page_allocator_init :: "vm \<Rightarrow> vm" where
  "page_allocator_init vm =
     (if next_free_page vm \<noteq> 0 then vm
      else vm\<lparr>curr_mmap_va := align_up (PROC_KERNEL_STACK_TOP + 1), next_free_page := align_up (pool_start vm)\<rparr>)"

definition alloc_page :: "vm \<Rightarrow> u64 \<times> vm" where
  "alloc_page vm =
     (let vm = page_allocator_init vm;
          (page, vm) =
            (if free_list vm \<noteq> 0 then (free_list vm, vm\<lparr>free_list := kw vm (free_list vm) 0\<rparr>)
             else if next_free_page vm + PAGE_SIZE \<le> RAM_end
             then (next_free_page vm, vm\<lparr>next_free_page := next_free_page vm + PAGE_SIZE\<rparr>)
             else (0, vm))
      in if page = 0 then (0, vm)
         else
           (let vm = vm\<lparr>vms := (vms vm)\<lparr>vs_page_allocs := vs_page_allocs (vms vm) + 1\<rparr>\<rparr>;
                vm = zero_page page vm;
                pfn = phys_pa_to_pfn (kernel_phys_addr page) vm
            in (page, if pfn \<ge> 0 then set_page pfn \<lparr>refcount = 1, pflags = 0\<rparr> vm else vm)))"

definition free_page :: "u64 \<Rightarrow> vm \<Rightarrow> vm" where
  "free_page page vm =
     (if page = 0 then vm
      else
        (let vm = vm\<lparr>vms := (vms vm)\<lparr>vs_page_frees := vs_page_frees (vms vm) + 1\<rparr>\<rparr>;
             pfn = phys_pa_to_pfn (kernel_phys_addr page) vm;
             vm = (if pfn \<ge> 0 then set_page pfn \<lparr>refcount = 0, pflags = 0\<rparr> vm else vm)
         in vm\<lparr>kw := (kw vm)(page := (kw vm page)(0 := free_list vm)), free_list := page\<rparr>))"

subsection \<open>Owners of a page\<close>

definition inc_pte_refcount_pa :: "u64 \<Rightarrow> vm \<Rightarrow> vm" where
  "inc_pte_refcount_pa phys_pa vm =
     (let pfn = phys_pa_to_pfn phys_pa vm in
      if pfn < 0 then vm else set_page pfn ((page_of pfn vm)\<lparr>refcount := refcount (page_of pfn vm) + 1\<rparr>) vm)"

text \<open>The common part of \<open>dec_pte_refcount_pa\<close> and \<open>dec_pte_refcount_va\<close>.\<close>

definition drop_owner :: "int \<Rightarrow> vm \<Rightarrow> vm" where
  "drop_owner pfn vm =
     (let p = page_of pfn vm;
          was_shared_cow = (pflags p AND PTE_FLAG_COW \<noteq> 0 \<and> refcount p > 1);
          vm = set_page pfn (p\<lparr>refcount := refcount p - 1\<rparr>) vm
      in if was_shared_cow \<and> refcount p - 1 \<le> 1 \<and> vs_cow_shared_pages (vms vm) > 0
         then vm\<lparr>vms := (vms vm)\<lparr>vs_cow_shared_pages := vs_cow_shared_pages (vms vm) - 1\<rparr>\<rparr> else vm)"

definition dec_pte_refcount_pa :: "u64 \<Rightarrow> vm \<Rightarrow> vm kres" where
  "dec_pte_refcount_pa phys_pa vm =
     (let pfn = phys_pa_to_pfn phys_pa vm in
      if pfn < 0 then Inr vm
      else if refcount (page_of pfn vm) = 0 then Inl ''[page_ref_dec_pa] refcount already zero''
      else
        (let vm = drop_owner pfn vm
         in Inr (if refcount (page_of pfn vm) = 0 then free_page (kernel_direct_map_va (phys_pa AND PA_MASK)) vm else vm)))"

definition get_pte_refcount_pa :: "u64 \<Rightarrow> vm \<Rightarrow> u16" where
  "get_pte_refcount_pa phys_pa vm =
     (let pfn = phys_pa_to_pfn phys_pa vm in if pfn < 0 then 0 else refcount (page_of pfn vm))"

definition inc_pte_refcount_va :: "u64 \<Rightarrow> vm \<Rightarrow> vm" where
  "inc_pte_refcount_va va vm =
     (let pfn = kernel_va_to_pfn va vm in
      if pfn < 0 then vm else set_page pfn ((page_of pfn vm)\<lparr>refcount := refcount (page_of pfn vm) + 1\<rparr>) vm)"

definition dec_pte_refcount_va :: "u64 \<Rightarrow> vm \<Rightarrow> vm kres" where
  "dec_pte_refcount_va va vm =
     (let pfn = kernel_va_to_pfn va vm in
      if pfn < 0 then Inr vm
      else if refcount (page_of pfn vm) = 0 then Inl ''[dec_pte_refcount_va] negative page refcount''
      else (let vm = drop_owner pfn vm in Inr (if refcount (page_of pfn vm) = 0 then free_page va vm else vm)))"

definition get_pte_refcount_va :: "u64 \<Rightarrow> vm \<Rightarrow> u16" where
  "get_pte_refcount_va va vm =
     (let pfn = kernel_va_to_pfn va vm in if pfn < 0 then 0 else refcount (page_of pfn vm))"

definition pte_set_cow_flag :: "u64 \<Rightarrow> u16 \<Rightarrow> vm \<Rightarrow> vm" where
  "pte_set_cow_flag pa flag vm =
     (let pfn = phys_pa_to_pfn pa vm in
      if pfn < 0 then vm
      else
        (let p = page_of pfn vm;
             was_cow = (pflags p AND PTE_FLAG_COW \<noteq> 0);
             vm = set_page pfn (p\<lparr>pflags := pflags p OR flag\<rparr>) vm
         in if flag AND PTE_FLAG_COW \<noteq> 0 \<and> \<not> was_cow \<and> refcount p > 1
            then vm\<lparr>vms := (vms vm)\<lparr>vs_cow_shared_pages := vs_cow_shared_pages (vms vm) + 1\<rparr>\<rparr> else vm))"

definition pte_clear_cow_flag :: "u64 \<Rightarrow> u16 \<Rightarrow> vm \<Rightarrow> vm" where
  "pte_clear_cow_flag pa flag vm =
     (let pfn = phys_pa_to_pfn pa vm in
      if pfn < 0 then vm
      else
        (let p = page_of pfn vm;
             was_shared_cow = (flag AND PTE_FLAG_COW \<noteq> 0 \<and> pflags p AND PTE_FLAG_COW \<noteq> 0 \<and> refcount p > 1);
             vm = set_page pfn (p\<lparr>pflags := pflags p AND NOT flag\<rparr>) vm
         in if was_shared_cow \<and> vs_cow_shared_pages (vms vm) > 0
            then vm\<lparr>vms := (vms vm)\<lparr>vs_cow_shared_pages := vs_cow_shared_pages (vms vm) - 1\<rparr>\<rparr> else vm))"

definition pte_test_cow_flag :: "u64 \<Rightarrow> u16 \<Rightarrow> vm \<Rightarrow> bool" where
  "pte_test_cow_flag pa flag vm =
     (let pfn = phys_pa_to_pfn pa vm in if pfn < 0 then False else pflags (page_of pfn vm) AND flag \<noteq> 0)"

subsection \<open>Addresses and bits\<close>

lemma mask_values:
  "PAGE_MASK = mask 12" "PA_MASK = mask 48" "PTE_ADDR_MASK = mask 48 AND NOT (mask 12)" "KERNEL_VA_BASE = NOT (mask 48)"
  by (simp_all add: mask_eq_exp_minus_1)

text \<open>An address of the direct map that starts a page.\<close>

definition kpage :: "u64 \<Rightarrow> bool" where
  "kpage a \<longleftrightarrow> a AND PAGE_MASK = 0 \<and> KERNEL_VA_BASE \<le> a"

lemma aligned_mod: "a AND PAGE_MASK = 0 \<longleftrightarrow> unat a mod 4096 = 0"
proof -
  have "a AND PAGE_MASK = take_bit 12 a" by (simp add: mask_values take_bit_eq_mask)
  moreover have "unat (take_bit 12 a) = unat a mod 4096" by (simp only: unsigned_take_bit_eq) (simp add: take_bit_eq_mod)
  ultimately show ?thesis by (metis unat_eq_zero)
qed

lemma kpage_high_bits:
  assumes "KERNEL_VA_BASE \<le> a" "48 \<le> n" "n < 64"
  shows "bit a n"
proof -
  have lo: "0xffff000000000000 \<le> unat a" using assms(1) by (simp add: word_le_nat_alt)
  have hi: "unat a < 2 ^ 64" using unsigned_less [of a] by simp
  have "unat (drop_bit 48 a) = unat a div 2 ^ 48" by (simp only: unsigned_drop_bit_eq) (use hi in \<open>simp add: drop_bit_eq_div take_bit_nat_eq_self\<close>)
  also have "\<dots> = 65535" using lo hi by simp
  finally have "unat (drop_bit 48 a) = unat (mask 16 :: u64)" by (simp add: mask_eq_exp_minus_1)
  then have "drop_bit 48 a = mask 16" by (simp only: word_unat_eq_iff)
  then have "bit (drop_bit 48 a) (n - 48) = bit (mask 16 :: u64) (n - 48)" by simp
  then show ?thesis using assms(2,3) by (auto simp: bit_simps)
qed

lemma kpage_low_bits:
  assumes "a AND PAGE_MASK = 0" "n < 12"
  shows "\<not> bit a n"
proof
  assume "bit a n"
  then have "bit (a AND mask 12) n" using assms(2) by (simp add: bit_simps)
  then show False using assms(1) unfolding mask_values by simp
qed

lemma kpage_bits: "kpage a \<Longrightarrow> n < 12 \<Longrightarrow> \<not> bit a n" "kpage a \<Longrightarrow> 48 \<le> n \<Longrightarrow> n < 64 \<Longrightarrow> bit a n"
  by (auto simp: kpage_def kpage_low_bits kpage_high_bits)

lemma kpage_bit_ge: "kpage a \<Longrightarrow> bit a n \<Longrightarrow> 12 \<le> n"
  by (meson kpage_bits(1) not_less)

lemma kpage_not_0 [simp]: "\<not> kpage 0"
  by (simp add: kpage_def)

lemma direct_map_phys: "kpage a \<Longrightarrow> kernel_direct_map_va (kernel_phys_addr a) = a"
  unfolding kernel_direct_map_va_def kernel_phys_addr_def mask_values
  by (rule bit_word_eqI) (auto simp: bit_simps kpage_bits)

lemma direct_map_masked: "kpage a \<Longrightarrow> kernel_direct_map_va (a AND PTE_ADDR_MASK) = a"
  unfolding kernel_direct_map_va_def mask_values
  by (rule bit_word_eqI) (auto simp: bit_simps kpage_bits dest: kpage_bit_ge)

lemma pfn_inj: "kpage a \<Longrightarrow> kpage b \<Longrightarrow> drop_bit 12 (kernel_phys_addr a) = drop_bit 12 (kernel_phys_addr b) \<Longrightarrow> a = b"
proof -
  assume a: "kpage a" "kpage b" and e: "drop_bit 12 (kernel_phys_addr a) = drop_bit 12 (kernel_phys_addr b)"
  have "bit a n = bit b n" if "n < 64" for n
  proof (cases "12 \<le> n \<and> n < 48")
    case True
    then have "bit (drop_bit 12 (kernel_phys_addr a)) (n - 12) = bit (drop_bit 12 (kernel_phys_addr b)) (n - 12)" using e by simp
    then show ?thesis using True unfolding kernel_phys_addr_def mask_values by (simp add: bit_simps)
  next
    case False
    then show ?thesis using a that kpage_bits [of a n] kpage_bits [of b n] by linarith
  qed
  then show "a = b" by (intro bit_word_eqI) simp
qed

lemma page_words_set [simp]: "set page_words = {i. i < 512}" "distinct page_words"
proof -
  have u: "unat (of_nat n :: u64) = n" if "n < 512" for n using that by (simp add: unsigned_of_nat take_bit_nat_eq_self)
  have "i \<in> of_nat ` {0..<512}" if "i < 512" for i :: u64
  proof -
    have "unat i < 512" using that by (simp add: word_less_nat_alt)
    then show ?thesis by (intro image_eqI [of _ _ "unat i"]) simp_all
  qed
  moreover have "(of_nat n :: u64) < 512" if "n < 512" for n using that u [OF that] by (simp add: word_less_nat_alt)
  ultimately show "set page_words = {i. i < 512}" by (auto simp: page_words_def)
  have "inj_on (of_nat :: nat \<Rightarrow> u64) {0..<512}" by (rule inj_onI) (metis u atLeastLessThan_iff)
  then show "distinct page_words" by (simp add: page_words_def distinct_map)
qed

lemma fold_page_write:
  "distinct is \<Longrightarrow> fold (\<lambda>i m. m(p := (m p)(i := v i))) is m = m(p := \<lambda>i. if i \<in> set is then v i else m p i)"
proof (induction "is" arbitrary: m)
  case (Cons i "is")
  then show ?case by (auto simp: fun_eq_iff)
qed simp

lemma zero_page_eq: "zero_page p vm = vm\<lparr>kw := (kw vm)(p := \<lambda>i. if i < 512 then 0 else kw vm p i)\<rparr>"
  by (simp add: zero_page_def fold_page_write [where v = "\<lambda>_. 0"])

lemma fold_page_copy:
  "distinct is \<Longrightarrow> s \<noteq> d \<Longrightarrow> fold (\<lambda>i m. m(d := (m d)(i := m s i))) is m = m(d := \<lambda>i. if i \<in> set is then m s i else m d i)"
proof (induction "is" arbitrary: m)
  case (Cons i "is")
  then show ?case by (auto simp: fun_eq_iff)
qed simp

lemma copy_phys_page_eq:
  "kpage s \<Longrightarrow> kpage d \<Longrightarrow> s \<noteq> d \<Longrightarrow> copy_phys_page (kernel_phys_addr s) (kernel_phys_addr d) vm =
     vm\<lparr>kw := (kw vm)(d := \<lambda>i. if i < 512 then kw vm s i else kw vm d i)\<rparr>"
  by (simp add: copy_phys_page_def Let_def direct_map_phys fold_page_copy)

abbreviation pfn :: "u64 \<Rightarrow> u64" where
  "pfn a \<equiv> drop_bit 12 (kernel_phys_addr a)"

lemma phys_idem [simp]: "kernel_phys_addr (kernel_phys_addr a) = kernel_phys_addr a"
  by (simp add: kernel_phys_addr_def and.assoc)

lemma phys_pa_to_pfn_sign [simp]: "phys_pa_to_pfn a vm < 0 \<longleftrightarrow> pages vm = None" "0 \<le> phys_pa_to_pfn a vm \<longleftrightarrow> pages vm \<noteq> None"
  by (auto simp: phys_pa_to_pfn_def)

lemma word_of_pfn: "pages vm \<noteq> None \<Longrightarrow> word_of_int (phys_pa_to_pfn a vm) = pfn a"
  by (auto simp: phys_pa_to_pfn_def)

subsection \<open>The invariant of the allocator\<close>

fun fchain :: "(u64 \<Rightarrow> u64 \<Rightarrow> u64) \<Rightarrow> u64 \<Rightarrow> u64 list \<Rightarrow> bool" where
  "fchain m h [] \<longleftrightarrow> h = 0"
| "fchain m h (p # ps) \<longleftrightarrow> h = p \<and> fchain m (m p 0) ps"

lemma fchain_cong: "(\<And>p. p \<in> set ps \<Longrightarrow> m' p 0 = m p 0) \<Longrightarrow> fchain m' h ps = fchain m h ps"
  by (induction ps arbitrary: h) auto

text \<open>The end of the part of the pool that was ever handed out.\<close>

definition pool_end :: "vm \<Rightarrow> u64" where
  "pool_end vm = next_free_page (page_allocator_init vm)"

definition pa_inv :: "vm \<Rightarrow> u64 list \<Rightarrow> bool" where
  "pa_inv vm fl \<longleftrightarrow>
     kpage (pool_start vm) \<and> kpage (pool_end vm) \<and> pool_start vm \<le> pool_end vm \<and> pool_end vm \<le> RAM_end \<and>
     distinct fl \<and> fchain (kw vm) (free_list vm) fl \<and> (\<forall>p \<in> set fl. kpage p \<and> pool_start vm \<le> p \<and> p < pool_end vm)"

definition in_use :: "vm \<Rightarrow> u64 list \<Rightarrow> u64 set" where
  "in_use vm fl = {p. kpage p \<and> pool_start vm \<le> p \<and> p < pool_end vm} - set fl"

text \<open>What a successful allocation gives.\<close>

definition fresh :: "vm \<Rightarrow> u64 list \<Rightarrow> u64 \<Rightarrow> vm \<Rightarrow> u64 list \<Rightarrow> bool" where
  "fresh vm fl p vm' fl' \<longleftrightarrow>
     pa_inv vm' fl' \<and> kpage p \<and> p \<notin> in_use vm fl \<and> in_use vm' fl' = insert p (in_use vm fl) \<and>
     (\<forall>i < 512. kw vm' p i = 0) \<and> (\<forall>q. q \<noteq> p \<longrightarrow> kw vm' q = kw vm q) \<and>
     pages vm' = map_option (\<lambda>a. a(pfn p := \<lparr>refcount = 1, pflags = 0\<rparr>)) (pages vm)"

lemma init_simps [simp]:
  "kw (page_allocator_init vm) = kw vm" "free_list (page_allocator_init vm) = free_list vm"
  "pages (page_allocator_init vm) = pages vm" "pool_start (page_allocator_init vm) = pool_start vm"
  "vms (page_allocator_init vm) = vms vm"
  by (simp_all add: page_allocator_init_def)

lemma init_again: "kpage (pool_end vm) \<Longrightarrow> pool_end (page_allocator_init vm) = pool_end vm"
  by (auto simp: pool_end_def page_allocator_init_def)

lemma pool_end_keep:
  "next_free_page vm' = next_free_page vm \<Longrightarrow> pool_start vm' = pool_start vm \<Longrightarrow> pool_end vm' = pool_end vm"
  by (simp add: pool_end_def page_allocator_init_def)

lemma alloc_finish:
  assumes "p \<noteq> 0" "page_allocator_init vm = vm1" "pages vm2 = pages vm" "kw vm2 = kw vm"
    "(if free_list vm1 \<noteq> 0 then (free_list vm1, vm1\<lparr>free_list := kw vm1 (free_list vm1) 0\<rparr>)
      else if next_free_page vm1 + PAGE_SIZE \<le> RAM_end then (next_free_page vm1, vm1\<lparr>next_free_page := next_free_page vm1 + PAGE_SIZE\<rparr>)
      else (0, vm1)) = (p, vm2)"
  obtains vm' where "alloc_page vm = (p, vm')" "free_list vm' = free_list vm2" "next_free_page vm' = next_free_page vm2"
    "pool_start vm' = pool_start vm2" "pages vm' = map_option (\<lambda>a. a(pfn p := \<lparr>refcount = 1, pflags = 0\<rparr>)) (pages vm)"
    "kw vm' = (kw vm)(p := \<lambda>i. if i < 512 then 0 else kw vm p i)"
proof -
  let ?v = "vm2\<lparr>vms := (vms vm2)\<lparr>vs_page_allocs := vs_page_allocs (vms vm2) + 1\<rparr>\<rparr>"
  let ?z = "zero_page p ?v"
  let ?r = "if phys_pa_to_pfn (kernel_phys_addr p) ?z \<ge> 0 then set_page (phys_pa_to_pfn (kernel_phys_addr p) ?z) \<lparr>refcount = 1, pflags = 0\<rparr> ?z else ?z"
  have run: "alloc_page vm = (p, ?r)" unfolding alloc_page_def Let_def assms(2) assms(5) prod.case using assms(1) by simp
  have "pages ?z = pages vm" using assms(3) by (simp add: zero_page_eq)
  then have "pages ?r = map_option (\<lambda>a. a(pfn p := \<lparr>refcount = 1, pflags = 0\<rparr>)) (pages vm)"
    by (cases "pages vm") (simp_all add: set_page_def word_of_pfn)
  moreover have "kw ?r = (kw vm)(p := \<lambda>i. if i < 512 then 0 else kw vm p i)"
    using assms(4) by (auto simp: set_page_def zero_page_eq fun_eq_iff)
  ultimately show thesis using run by (intro that [of ?r]) (simp_all add: set_page_def zero_page_eq)
qed

lemma kpage_mod: "kpage a \<Longrightarrow> unat a mod 4096 = 0"
  by (simp add: kpage_def aligned_mod)

lemma kpage_gap: "kpage a \<Longrightarrow> kpage b \<Longrightarrow> a < b \<Longrightarrow> unat a + 4096 \<le> unat b"
proof -
  assume a: "kpage a" "kpage b" "a < b"
  obtain x y where "unat a = 4096 * x" "unat b = 4096 * y" using kpage_mod [OF a(1)] kpage_mod [OF a(2)] by fastforce
  then show ?thesis using a(3) by (simp add: word_less_nat_alt)
qed

lemma kpage_next:
  assumes "kpage a" "a + PAGE_SIZE \<le> RAM_end" "a \<le> RAM_end"
  shows "kpage (a + PAGE_SIZE)" "unat (a + PAGE_SIZE) = unat a + 4096" "a < a + PAGE_SIZE"
proof -
  have "unat a \<le> 0xffff000040000000" using assms(3) by (simp add: word_le_nat_alt)
  then show u: "unat (a + PAGE_SIZE) = unat a + 4096" by (simp add: unat_word_ariths)
  have "unat (a + PAGE_SIZE) mod 4096 = 0" using kpage_mod [OF assms(1)] unfolding u by simp
  moreover have "KERNEL_VA_BASE \<le> a" using assms(1) by (simp add: kpage_def)
  then have "KERNEL_VA_BASE \<le> a + PAGE_SIZE" unfolding word_le_nat_alt u by simp
  ultimately show "kpage (a + PAGE_SIZE)" by (simp add: kpage_def aligned_mod)
  show "a < a + PAGE_SIZE" by (simp only: word_less_nat_alt u)
qed

lemma alloc_page_outcome:
  assumes inv: "pa_inv vm fl"
  shows "(\<exists>p vm' fl'. alloc_page vm = (p, vm') \<and> p \<noteq> 0 \<and> fresh vm fl p vm' fl') \<or>
    (alloc_page vm = (0, page_allocator_init vm) \<and> fl = [] \<and> pool_end vm = RAM_end)"
proof -
  let ?v = "page_allocator_init vm"
  have I: "kpage (pool_start vm)" "kpage (pool_end vm)" "pool_start vm \<le> pool_end vm" "pool_end vm \<le> RAM_end" "distinct fl"
      "fchain (kw vm) (free_list vm) fl" "\<And>p. p \<in> set fl \<Longrightarrow> kpage p \<and> pool_start vm \<le> p \<and> p < pool_end vm"
    using inv by (auto simp: pa_inv_def)
  show ?thesis
  proof (cases fl)
    case (Cons p fl')
    have p: "p \<noteq> 0" "free_list vm = p" "kpage p" using I(6) I(7) [of p] by (auto simp: Cons)
    let ?v2 = "?v\<lparr>free_list := kw ?v (free_list ?v) 0\<rparr>"
    obtain vm' where a: "alloc_page vm = (p, vm')" "free_list vm' = free_list ?v2" "next_free_page vm' = next_free_page ?v2"
        "pool_start vm' = pool_start ?v2" "pages vm' = map_option (\<lambda>a. a(pfn p := \<lparr>refcount = 1, pflags = 0\<rparr>)) (pages vm)"
        "kw vm' = (kw vm)(p := \<lambda>i. if i < 512 then 0 else kw vm p i)"
      by (rule alloc_finish [of p vm ?v ?v2]) (use p in simp_all)
    have pe: "pool_end vm' = pool_end vm"
      using pool_end_keep [of vm' ?v] init_again [OF I(2)] a(3,4) by simp
    have c: "fchain (kw vm') h fl' = fchain (kw vm) h fl'" for h
      by (rule fchain_cong) (use I(5) a(6) in \<open>auto simp: Cons\<close>)
    have "fchain (kw vm') (free_list vm') fl'" unfolding c using I(6) a(2) p(2) by (simp add: Cons)
    then have inv': "pa_inv vm' fl'" using I pe a(4) by (auto simp: pa_inv_def Cons)
    have "fresh vm fl p vm' fl'"
      using inv' p(3) a(4-6) I(5) I(7) [of p] pe by (auto simp: fresh_def in_use_def Cons)
    then show ?thesis using a(1) p(1) by blast
  next
    case Nil
    have f0: "free_list vm = 0" using I(6) Nil by simp
    show ?thesis
    proof (cases "pool_end vm + PAGE_SIZE \<le> RAM_end")
      case True
      note nx = kpage_next [OF I(2) True I(4)]
      let ?p = "pool_end vm"
      let ?v2 = "?v\<lparr>next_free_page := next_free_page ?v + PAGE_SIZE\<rparr>"
      have p: "?p \<noteq> 0" using I(2) by auto
      obtain vm' where a: "alloc_page vm = (?p, vm')" "free_list vm' = free_list ?v2" "next_free_page vm' = next_free_page ?v2"
          "pool_start vm' = pool_start ?v2" "pages vm' = map_option (\<lambda>a. a(pfn ?p := \<lparr>refcount = 1, pflags = 0\<rparr>)) (pages vm)"
          "kw vm' = (kw vm)(?p := \<lambda>i. if i < 512 then 0 else kw vm ?p i)"
        by (rule alloc_finish [of ?p vm ?v ?v2]) (use p f0 True in \<open>simp_all add: pool_end_def\<close>)
      have "next_free_page vm' = ?p + PAGE_SIZE" using a(3) by (simp add: pool_end_def)
      then have pe: "pool_end vm' = ?p + PAGE_SIZE" using nx(1) by (auto simp: pool_end_def page_allocator_init_def)
      have le: "pool_start vm \<le> ?p + PAGE_SIZE" using I(3) nx(3) by simp
      have inv': "pa_inv vm' []" using I(1) nx(1) le True f0 pe a(2,4) by (simp add: pa_inv_def)
      have "q < ?p + PAGE_SIZE \<longleftrightarrow> q < ?p \<or> q = ?p" if "kpage q" for q
        using kpage_gap [OF that nx(1)] kpage_gap [OF that I(2)] kpage_gap [OF I(2) that] nx(2,3)
        by (auto simp: word_less_nat_alt word_unat_eq_iff)
      then have "in_use vm' [] = insert ?p (in_use vm fl)"
        using I(2,3) pe a(4) by (auto simp: in_use_def Nil)
      then have "fresh vm fl ?p vm' []" using inv' I(2) a(5,6) by (auto simp: fresh_def in_use_def)
      then show ?thesis using a(1) p by blast
    next
      case False
      have "pool_end vm = RAM_end"
      proof (rule ccontr)
        assume "pool_end vm \<noteq> RAM_end"
        then have "pool_end vm < RAM_end" using I(4) by simp
        moreover have "kpage RAM_end" by (simp add: kpage_def)
        ultimately have g: "unat (pool_end vm) + 4096 \<le> 0xffff000040000000" using kpage_gap [OF I(2), of RAM_end] by simp
        then have "unat (pool_end vm + PAGE_SIZE) = unat (pool_end vm) + 4096" by (simp add: unat_word_ariths)
        then show False using False g by (simp add: word_le_nat_alt)
      qed
      moreover have "alloc_page vm = (0, ?v)" using f0 False by (simp add: alloc_page_def pool_end_def Let_def)
      ultimately show ?thesis using Nil by blast
    qed
  qed
qed

lemma free_page_keeps:
  assumes inv: "pa_inv vm fl" and p: "p \<in> in_use vm fl"
  shows "pa_inv (free_page p vm) (p # fl)" "in_use (free_page p vm) (p # fl) = in_use vm fl - {p}"
    "pages (free_page p vm) = map_option (\<lambda>a. a(pfn p := \<lparr>refcount = 0, pflags = 0\<rparr>)) (pages vm)"
    "q \<noteq> p \<Longrightarrow> kw (free_page p vm) q = kw vm q"
proof -
  have p0: "p \<noteq> 0" "kpage p" "pool_start vm \<le> p" "p < pool_end vm" "p \<notin> set fl" using p by (auto simp: in_use_def)
  have e: "kw (free_page p vm) = (kw vm)(p := (kw vm p)(0 := free_list vm))" "free_list (free_page p vm) = p"
      "pool_start (free_page p vm) = pool_start vm" "next_free_page (free_page p vm) = next_free_page vm"
    using p0(1) by (auto simp: free_page_def Let_def set_page_def)
  then have pe: "pool_end (free_page p vm) = pool_end vm" by (intro pool_end_keep)
  have "fchain (kw (free_page p vm)) (free_list vm) fl = fchain (kw vm) (free_list vm) fl"
    by (rule fchain_cong) (use p0(5) in \<open>auto simp: e\<close>)
  then show "pa_inv (free_page p vm) (p # fl)" using inv p0 pe by (auto simp: pa_inv_def e)
  show "in_use (free_page p vm) (p # fl) = in_use vm fl - {p}" using pe by (auto simp: in_use_def e)
  show "pages (free_page p vm) = map_option (\<lambda>a. a(pfn p := \<lparr>refcount = 0, pflags = 0\<rparr>)) (pages vm)"
    using p0(1) by (cases "pages vm") (auto simp: free_page_def Let_def set_page_def word_of_pfn)
  show "q \<noteq> p \<Longrightarrow> kw (free_page p vm) q = kw vm q" by (simp add: e)
qed

text \<open>C13. The page allocator. \<^verbatim>\<open>alloc_page\<close> returns a zeroed page of the pool that nobody owns, with one owner
  recorded, and changes no other page; it fails only when every page of the pool is in use.
  \<^verbatim>\<open>free_page\<close> gives exactly that page back, and the next \<^verbatim>\<open>alloc_page\<close> returns it.\<close>

theorem page_allocator_correct:
  assumes "pa_inv vm fl"
  shows "(\<exists>p vm'. alloc_page vm = (p, vm') \<and>
      (if p = 0 then in_use vm fl = {q. kpage q \<and> pool_start vm \<le> q \<and> q < RAM_end}
       else \<exists>fl'. pa_inv vm' fl' \<and> p \<notin> in_use vm fl \<and> in_use vm' fl' = insert p (in_use vm fl) \<and>
         (\<forall>i < 512. kw vm' p i = 0) \<and> (\<forall>q. q \<noteq> p \<longrightarrow> kw vm' q = kw vm q) \<and>
         pages vm' = map_option (\<lambda>a. a(pfn p := \<lparr>refcount = 1, pflags = 0\<rparr>)) (pages vm))) \<and>
    (\<forall>q \<in> in_use vm fl. pa_inv (free_page q vm) (q # fl) \<and> in_use (free_page q vm) (q # fl) = in_use vm fl - {q} \<and>
       fst (alloc_page (free_page q vm)) = q)"
proof (intro conjI ballI)
  show "\<exists>p vm'. alloc_page vm = (p, vm') \<and>
      (if p = 0 then in_use vm fl = {q. kpage q \<and> pool_start vm \<le> q \<and> q < RAM_end}
       else \<exists>fl'. pa_inv vm' fl' \<and> p \<notin> in_use vm fl \<and> in_use vm' fl' = insert p (in_use vm fl) \<and>
         (\<forall>i < 512. kw vm' p i = 0) \<and> (\<forall>q. q \<noteq> p \<longrightarrow> kw vm' q = kw vm q) \<and>
         pages vm' = map_option (\<lambda>a. a(pfn p := \<lparr>refcount = 1, pflags = 0\<rparr>)) (pages vm))"
    using alloc_page_outcome [OF assms] by (elim disjE) (auto simp: fresh_def in_use_def)
next
  fix q assume q: "q \<in> in_use vm fl"
  show "pa_inv (free_page q vm) (q # fl)" "in_use (free_page q vm) (q # fl) = in_use vm fl - {q}"
    by (rule free_page_keeps [OF assms q])+
  have "q \<noteq> 0" using q by (auto simp: in_use_def)
  moreover from this have "free_list (free_page q vm) = q" by (simp add: free_page_def Let_def)
  ultimately show "fst (alloc_page (free_page q vm)) = q" by (simp add: alloc_page_def Let_def)
qed

text \<open>The allocator before its first use.\<close>

definition boot_vm :: vm where
  "boot_vm = \<lparr>kw = \<lambda>_ _. 0xAA, pool_start = 0xffff000000200000, next_free_page = 0, free_list = 0, curr_mmap_va = 0,
     pages = Some (\<lambda>_. \<lparr>refcount = 0, pflags = 0\<rparr>),
     vms = \<lparr>vs_page_faults = 0, vs_instruction_faults = 0, vs_data_faults = 0, vs_anon_faults = 0, vs_file_faults = 0,
       vs_cow_faults = 0, vs_faults_handled = 0, vs_faults_unmapped = 0, vs_faults_invalid = 0, vs_faults_permission = 0,
       vs_faults_error = 0, vs_cow_copies = 0, vs_cow_shared_pages = 0, vs_heap_lazy_allocs = 0, vs_stack_lazy_allocs = 0,
       vs_tlb_flushes = 0, vs_page_allocs = 0, vs_page_frees = 0\<rparr>\<rparr>"

lemma boot_vm_inv: "pa_inv boot_vm []" "in_use boot_vm [] = {}" "pool_end boot_vm = 0xffff000000200000"
proof -
  show e: "pool_end boot_vm = 0xffff000000200000"
    by (simp add: boot_vm_def pool_end_def page_allocator_init_def align_up_def)
  show "pa_inv boot_vm []" by (simp add: pa_inv_def e kpage_def) (simp add: boot_vm_def)
  show "in_use boot_vm [] = {}" unfolding in_use_def e by (auto simp: boot_vm_def)
qed

theorem page_allocator_correct_witness:
  "\<exists>p vm' fl'. alloc_page boot_vm = (p, vm') \<and> p \<noteq> 0 \<and> in_use vm' fl' = {p} \<and> in_use (free_page p vm') (p # fl') = {} \<and>
     fst (alloc_page (free_page p vm')) = p"
proof -
  obtain p vm' where a: "alloc_page boot_vm = (p, vm')" by (cases "alloc_page boot_vm")
  have "p \<noteq> 0" using a by (auto simp: alloc_page_def boot_vm_def page_allocator_init_def align_up_def Let_def)
  then obtain fl' where f: "pa_inv vm' fl'" "in_use vm' fl' = {p}"
    using page_allocator_correct [OF boot_vm_inv(1)] a boot_vm_inv(2) by auto
  then show ?thesis using page_allocator_correct [OF f(1)] a \<open>p \<noteq> 0\<close> by auto
qed

end
