(* ===== verification/Page_Table.thy ===== *)
theory Page_Table
  imports Page_Alloc
begin

section \<open>Page tables\<close>

text \<open>
  The four-level page tables of \<^verbatim>\<open>src/kernel/memory/page_table/page_table.c\<close>: walking and extending a
  table, mapping pages, blocks and ranges, the tables of the kernel, and taking a table apart. A
  table is a page of 512 descriptors. A pointer to a descriptor is the pair of table and index.
\<close>

abbreviation (input) DESC_VALID :: u64 where "DESC_VALID \<equiv> 1"
abbreviation (input) DESC_TABLE :: u64 where "DESC_TABLE \<equiv> 2"
abbreviation (input) DESC_PAGE :: u64 where "DESC_PAGE \<equiv> 2"
abbreviation (input) DESC_BLOCK :: u64 where "DESC_BLOCK \<equiv> 0"
abbreviation (input) PTE_AP_EL1_RW :: u64 where "PTE_AP_EL1_RW \<equiv> 0"
abbreviation (input) PTE_AP_EL0_RW :: u64 where "PTE_AP_EL0_RW \<equiv> 0x40"
abbreviation (input) PTE_AP_EL1_RO :: u64 where "PTE_AP_EL1_RO \<equiv> 0x80"
abbreviation (input) PTE_AP_EL0_RO :: u64 where "PTE_AP_EL0_RO \<equiv> 0xc0"
abbreviation (input) PTE_AP_MASK :: u64 where "PTE_AP_MASK \<equiv> 0xc0"
abbreviation (input) PTE_SH_INNER :: u64 where "PTE_SH_INNER \<equiv> 0x300"
abbreviation (input) PTE_AF :: u64 where "PTE_AF \<equiv> 0x400"
abbreviation (input) PTE_PXN :: u64 where "PTE_PXN \<equiv> 0x20000000000000"
abbreviation (input) PTE_UXN :: u64 where "PTE_UXN \<equiv> 0x40000000000000"
abbreviation (input) ATTR_NORMAL :: u64 where "ATTR_NORMAL \<equiv> 4"
abbreviation (input) L1_BLOCK_SIZE :: u64 where "L1_BLOCK_SIZE \<equiv> 0x40000000"
abbreviation (input) BLOCK_ADDR_MASK :: u64 where "BLOCK_ADDR_MASK \<equiv> 0x0000ffffc0000000"

definition ATTR_KERNEL_RX :: u64 where
  "ATTR_KERNEL_RX = ATTR_NORMAL OR PTE_AP_EL1_RO OR PTE_SH_INNER OR PTE_AF OR PTE_UXN"

definition ATTR_KERNEL_RO :: u64 where
  "ATTR_KERNEL_RO = ATTR_KERNEL_RX OR PTE_PXN"

definition ATTR_KERNEL_RW :: u64 where
  "ATTR_KERNEL_RW = ATTR_NORMAL OR PTE_AP_EL1_RW OR PTE_SH_INNER OR PTE_AF OR PTE_PXN OR PTE_UXN"

definition ATTR_USER_RX :: u64 where
  "ATTR_USER_RX = ATTR_NORMAL OR PTE_AP_EL0_RO OR PTE_SH_INNER OR PTE_AF"

definition ATTR_USER_RO :: u64 where
  "ATTR_USER_RO = ATTR_NORMAL OR PTE_AP_EL0_RO OR PTE_SH_INNER OR PTE_AF OR PTE_PXN OR PTE_UXN"

definition ATTR_USER_RW :: u64 where
  "ATTR_USER_RW = ATTR_NORMAL OR PTE_AP_EL0_RW OR PTE_SH_INNER OR PTE_AF OR PTE_PXN OR PTE_UXN"

definition ATTR_USER_RWX :: u64 where
  "ATTR_USER_RWX = ATTR_NORMAL OR PTE_AP_EL0_RW OR PTE_SH_INNER OR PTE_AF"

definition ATTR_DEVICE :: u64 where
  "ATTR_DEVICE = PTE_AP_EL1_RW OR PTE_AF OR PTE_PXN OR PTE_UXN"

definition set_word :: "u64 \<Rightarrow> u64 \<Rightarrow> u64 \<Rightarrow> vm \<Rightarrow> vm" where
  "set_word table index v vm = vm\<lparr>kw := (kw vm)(table := (kw vm table)(index := v))\<rparr>"

definition table_desc :: "u64 \<Rightarrow> u64" where
  "table_desc table = (table AND PTE_ADDR_MASK) OR DESC_VALID OR DESC_TABLE"

definition next_table :: "u64 \<Rightarrow> u64 \<Rightarrow> vm \<Rightarrow> u64 \<times> vm" where
  "next_table table index vm =
     (if kw vm table index AND DESC_VALID = 0 then
        (case alloc_page vm of
           (next, vm) \<Rightarrow>
             if next = 0 then (0, vm)
             else (let vm = set_word table index (table_desc next) vm
                   in (kernel_direct_map_va (kw vm table index AND PTE_ADDR_MASK), vm)))
      else (kernel_direct_map_va (kw vm table index AND PTE_ADDR_MASK), vm))"

definition l0_index :: "u64 \<Rightarrow> u64" where "l0_index va = drop_bit 39 va AND 0x1ff"
definition l1_index :: "u64 \<Rightarrow> u64" where "l1_index va = drop_bit 30 va AND 0x1ff"
definition l2_index :: "u64 \<Rightarrow> u64" where "l2_index va = drop_bit 21 va AND 0x1ff"
definition l3_index :: "u64 \<Rightarrow> u64" where "l3_index va = drop_bit 12 va AND 0x1ff"

definition pt_map_page :: "u64 \<Rightarrow> u64 \<Rightarrow> u64 \<Rightarrow> u64 \<Rightarrow> vm \<Rightarrow> bool \<times> vm" where
  "pt_map_page l0 va pa attrs vm =
     (if l0 = 0 \<or> va AND PAGE_MASK \<noteq> 0 \<or> pa AND PAGE_MASK \<noteq> 0 then (False, vm)
      else
        (let (l1, vm) = next_table l0 (l0_index va) vm in
         if l1 = 0 then (False, vm)
         else
           (let (l2, vm) = next_table l1 (l1_index va) vm in
            if l2 = 0 then (False, vm)
            else
              (let (l3, vm) = next_table l2 (l2_index va) vm in
               if l3 = 0 then (False, vm)
               else (True, set_word l3 (l3_index va)
                 ((pa AND PTE_ADDR_MASK) OR (attrs AND NOT PTE_ADDR_MASK) OR DESC_VALID OR DESC_PAGE) vm)))))"

definition pt_map_l1_block :: "u64 \<Rightarrow> u64 \<Rightarrow> u64 \<Rightarrow> u64 \<Rightarrow> vm \<Rightarrow> bool \<times> vm" where
  "pt_map_l1_block l0 va pa attrs vm =
     (if l0 = 0 \<or> va AND (L1_BLOCK_SIZE - 1) \<noteq> 0 \<or> pa AND (L1_BLOCK_SIZE - 1) \<noteq> 0 then (False, vm)
      else
        (let (l1, vm) = next_table l0 (l0_index va) vm in
         if l1 = 0 then (False, vm)
         else if kw vm l1 (l1_index va) AND DESC_VALID \<noteq> 0 then (False, vm)
         else (True, set_word l1 (l1_index va)
           ((pa AND BLOCK_ADDR_MASK) OR (attrs AND NOT BLOCK_ADDR_MASK) OR DESC_VALID OR DESC_BLOCK) vm)))"

partial_function (option) map_range_loop :: "u64 \<Rightarrow> u64 \<Rightarrow> u64 \<Rightarrow> u64 \<Rightarrow> u64 \<Rightarrow> vm \<Rightarrow> (bool \<times> vm) option" where
  "map_range_loop l0 va pa end_va attrs vm =
     (if va < end_va then
        (case pt_map_page l0 va pa attrs vm of
           (ok, vm) \<Rightarrow>
             if \<not> ok then Some (False, vm)
             else map_range_loop l0 (va + PAGE_SIZE) (pa + PAGE_SIZE) end_va attrs vm)
      else Some (True, vm))"

definition pt_map_range :: "u64 \<Rightarrow> u64 \<Rightarrow> u64 \<Rightarrow> u64 \<Rightarrow> u64 \<Rightarrow> vm \<Rightarrow> (bool \<times> vm) option" where
  "pt_map_range l0 va_start pa_start sz attrs vm =
     (if sz = 0 then Some (True, vm)
      else map_range_loop l0 (align_down va_start) (align_down pa_start) (align_up (va_start + sz)) attrs vm)"

definition pt_map_new_page :: "u64 \<Rightarrow> u64 \<Rightarrow> u64 \<Rightarrow> vm \<Rightarrow> u64 \<times> vm" where
  "pt_map_new_page l0 va attrs vm =
     (case alloc_page vm of
        (page, vm) \<Rightarrow>
          if page = 0 then (0, vm)
          else (case pt_map_page l0 (align_down va) (kernel_phys_addr page) attrs vm of
            (ok, vm) \<Rightarrow> (if ok then page else 0, vm)))"

definition pt_walk_user_page :: "u64 \<Rightarrow> u64 \<Rightarrow> vm \<Rightarrow> bool \<times> vm" where
  "pt_walk_user_page l0 va vm = (case pt_map_new_page l0 va ATTR_USER_RW vm of (p, vm) \<Rightarrow> (p \<noteq> 0, vm))"

definition pt_walk :: "u64 \<Rightarrow> u64 \<Rightarrow> vm \<Rightarrow> bool \<times> vm" where
  "pt_walk l0 va vm = pt_walk_user_page l0 va vm"

definition pt_walk_kernel_page :: "u64 \<Rightarrow> u64 \<Rightarrow> vm \<Rightarrow> bool \<times> vm" where
  "pt_walk_kernel_page l0 va vm = (case pt_map_new_page l0 va ATTR_KERNEL_RW vm of (p, vm) \<Rightarrow> (p \<noteq> 0, vm))"

definition pt_seed_kernel_page :: "u64 \<Rightarrow> u64 \<Rightarrow> vm \<Rightarrow> u64 \<times> vm" where
  "pt_seed_kernel_page l0 va vm = pt_map_new_page l0 va ATTR_KERNEL_RW vm"

definition pt_seed_user_page :: "u64 \<Rightarrow> u64 \<Rightarrow> vm \<Rightarrow> u64 \<times> vm" where
  "pt_seed_user_page l0 va vm = pt_map_new_page l0 va ATTR_USER_RW vm"

definition pt_get_mapped_page :: "u64 \<Rightarrow> u64 \<Rightarrow> vm \<Rightarrow> u64" where
  "pt_get_mapped_page l0 va vm =
     (if l0 = 0 then 0
      else if kw vm l0 (l0_index va) AND DESC_VALID = 0 then 0
      else
        (let l1 = kernel_direct_map_va (kw vm l0 (l0_index va) AND PTE_ADDR_MASK) in
         if kw vm l1 (l1_index va) AND DESC_VALID = 0 then 0
         else
           (let l2 = kernel_direct_map_va (kw vm l1 (l1_index va) AND PTE_ADDR_MASK) in
            if kw vm l2 (l2_index va) AND DESC_VALID = 0 then 0
            else
              (let l3 = kernel_direct_map_va (kw vm l2 (l2_index va) AND PTE_ADDR_MASK) in
               if kw vm l3 (l3_index va) AND DESC_VALID = 0 then 0
               else kernel_direct_map_va ((kw vm l3 (l3_index va) AND PTE_ADDR_MASK) OR (va AND PAGE_MASK))))))"

subsection \<open>The tables of the kernel\<close>

text \<open>Addresses the linker assigns.\<close>

record ksyms =
  text_start :: u64
  text_end :: u64
  rodata_start :: u64
  rodata_end :: u64
  user_image_start :: u64
  user_image_end :: u64
  data_start :: u64
  kernel_end :: u64

definition map_kernel_section :: "u64 \<Rightarrow> u64 \<Rightarrow> u64 \<Rightarrow> u64 \<Rightarrow> vm \<Rightarrow> (bool \<times> vm) option" where
  "map_kernel_section l0 va_start va_end attrs vm =
     pt_map_range l0 va_start (kernel_phys_addr va_start) (va_end - va_start) attrs vm"

definition map_page_pool :: "u64 \<Rightarrow> vm \<Rightarrow> (bool \<times> vm) option" where
  "map_page_pool l0 vm =
     (let pool_start_va = pool_start vm in
      if RAM_end \<le> pool_start_va then Some (True, vm)
      else pt_map_range l0 pool_start_va (kernel_phys_addr pool_start_va) (RAM_end - pool_start_va) ATTR_KERNEL_RW vm)"

definition map_device_block :: "u64 \<Rightarrow> u64 \<Rightarrow> vm \<Rightarrow> bool \<times> vm" where
  "map_device_block l0 pa vm = pt_map_l1_block l0 (kernel_direct_map_va pa) pa ATTR_DEVICE vm"

fun map_device_blocks :: "u64 \<Rightarrow> u64 list \<Rightarrow> vm \<Rightarrow> bool \<times> vm" where
  "map_device_blocks l0 [] vm = (True, vm)"
| "map_device_blocks l0 (pa # pas) vm =
     (case map_device_block l0 pa vm of (True, vm) \<Rightarrow> map_device_blocks l0 pas vm | (False, vm) \<Rightarrow> (False, vm))"

definition map_kernel_devices :: "u64 \<Rightarrow> vm \<Rightarrow> bool \<times> vm" where
  "map_kernel_devices l0 vm =
     map_device_blocks l0 [0x40000000, 0x1000000000, 0x1040000000, 0x1c00000000, 0x1f00000000, 0x1f80000000] vm"

definition map_boot_mailbox_page :: "u64 \<Rightarrow> vm \<Rightarrow> bool \<times> vm" where
  "map_boot_mailbox_page l0 vm = pt_map_page l0 KERNEL_VA_BASE 0 ATTR_KERNEL_RW vm"

definition map_boot_low_range :: "u64 \<Rightarrow> vm \<Rightarrow> (bool \<times> vm) option" where
  "map_boot_low_range l0 vm = pt_map_range l0 (KERNEL_VA_BASE + 0x80000) 0x80000 0x80000 ATTR_KERNEL_RW vm"

text \<open>The guards \<open>if (!map_...) return NULL\<close>, in order.\<close>

fun map_steps :: "(vm \<Rightarrow> (bool \<times> vm) option) list \<Rightarrow> vm \<Rightarrow> (bool \<times> vm) option" where
  "map_steps [] vm = Some (True, vm)"
| "map_steps (f # fs) vm =
     (case f vm of None \<Rightarrow> None | Some (True, vm) \<Rightarrow> map_steps fs vm | Some (False, vm) \<Rightarrow> Some (False, vm))"

definition initialize_kernel_page_table :: "ksyms \<Rightarrow> vm \<Rightarrow> (u64 \<times> vm) option" where
  "initialize_kernel_page_table sy vm =
     (case alloc_page vm of
        (l0, vm) \<Rightarrow>
          if l0 = 0 then Some (0, vm)
          else
            (case map_steps
                [map_boot_low_range l0,
                 map_kernel_section l0 (text_start sy) (text_end sy) ATTR_KERNEL_RX,
                 map_kernel_section l0 (rodata_start sy) (rodata_end sy) ATTR_KERNEL_RO,
                 map_kernel_section l0 (user_image_start sy) (user_image_end sy) ATTR_KERNEL_RO,
                 map_kernel_section l0 (data_start sy) (kernel_end sy) ATTR_KERNEL_RW,
                 map_page_pool l0,
                 Some \<circ> map_kernel_devices l0,
                 Some \<circ> map_boot_mailbox_page l0] vm of
               None \<Rightarrow> None
             | Some (ok, vm) \<Rightarrow> Some (if ok then l0 else 0, vm)))"

subsection \<open>Page table entries and taking a table apart\<close>

definition pte_is_user :: "u64 \<Rightarrow> bool" where
  "pte_is_user pte =
     (let ap = drop_bit 6 (pte AND PTE_AP_MASK)
      in ap = drop_bit 6 PTE_AP_EL0_RW \<or> ap = drop_bit 6 PTE_AP_EL0_RO)"

definition pte_is_writable :: "u64 \<Rightarrow> bool" where
  "pte_is_writable pte =
     (let ap = drop_bit 6 (pte AND PTE_AP_MASK)
      in ap = drop_bit 6 PTE_AP_EL0_RW \<or> ap = drop_bit 6 PTE_AP_EL1_RW)"

definition pte_clear_writable :: "u64 \<Rightarrow> u64" where
  "pte_clear_writable pte = (pte AND NOT PTE_AP_MASK) OR PTE_AP_EL0_RO"

definition pte_make_readonly_and_mark_cow :: "u64 \<Rightarrow> u64 \<Rightarrow> vm \<Rightarrow> vm" where
  "pte_make_readonly_and_mark_cow table index vm =
     (let pte = kw vm table index in
      if \<not> pte_is_user pte then vm
      else pte_set_cow_flag (pte AND PTE_ADDR_MASK) PTE_FLAG_COW
        (set_word table index ((pte AND NOT PTE_AP_MASK) OR PTE_AP_EL0_RO) vm))"

definition pte_clear_cow_and_make_writable :: "u64 \<Rightarrow> u64 \<Rightarrow> vm \<Rightarrow> vm" where
  "pte_clear_cow_and_make_writable table index vm =
     (let pte = kw vm table index;
          vm = pte_clear_cow_flag (pte AND PTE_ADDR_MASK) PTE_FLAG_COW vm
      in set_word table index ((pte AND NOT PTE_AP_MASK) OR PTE_AP_EL0_RW) vm)"

text \<open>A \<open>for\<close> loop over the 512 entries whose body may stop the kernel.\<close>

fun kfold :: "('a \<Rightarrow> 's \<Rightarrow> 's kres) \<Rightarrow> 'a list \<Rightarrow> 's \<Rightarrow> 's kres" where
  "kfold f [] s = Inr s"
| "kfold f (x # xs) s = (case f x s of Inl e \<Rightarrow> Inl e | Inr s \<Rightarrow> kfold f xs s)"

text \<open>The first argument is \<open>3 - level\<close>.\<close>

primrec destroy_page_table_level :: "nat \<Rightarrow> u64 \<Rightarrow> vm \<Rightarrow> vm kres" where
  "destroy_page_table_level 0 table vm =
     (if table = 0 then Inr vm
      else
        (case kfold (\<lambda>i vm.
             let desc = kw vm table i in
             if desc AND DESC_VALID = 0 then Inr vm else dec_pte_refcount_pa (desc AND PTE_ADDR_MASK) vm) page_words vm of
           Inl e \<Rightarrow> Inl e
         | Inr vm \<Rightarrow> Inr (free_page table vm)))"
| "destroy_page_table_level (Suc d) table vm =
     (if table = 0 then Inr vm
      else
        (case kfold (\<lambda>i vm.
             let desc = kw vm table i in
             if desc AND DESC_VALID = 0 then Inr vm
             else if desc AND DESC_TABLE = DESC_TABLE
             then destroy_page_table_level d (kernel_direct_map_va (desc AND PTE_ADDR_MASK)) vm
             else Inr vm) page_words vm of
           Inl e \<Rightarrow> Inl e
         | Inr vm \<Rightarrow> Inr (free_page table vm)))"

end
