(* ===== verification/Page_Walk.thy ===== *)
theory Page_Walk
  imports Page_Table
begin

section \<open>Translation through the page tables\<close>

text \<open>
  What a set of page tables means: which tables a root reaches and which entry answers for an
  address. The invariant says that the tables of all roots form disjoint trees of allocated pages.
  Under it, mapping a page changes the translation of exactly that page of that root.
\<close>

definition child :: "u64 \<Rightarrow> u64" where
  "child e = kernel_direct_map_va (e AND PTE_ADDR_MASK)"

abbreviation valid :: "u64 \<Rightarrow> bool" where
  "valid e \<equiv> e AND DESC_VALID \<noteq> 0"

text \<open>The table at a path of indices below a root; the last index comes first.\<close>

primrec walk :: "(u64 \<Rightarrow> u64 \<Rightarrow> u64) \<Rightarrow> u64 set \<Rightarrow> u64 \<Rightarrow> u64 list \<Rightarrow> u64 option" where
  "walk m R r [] = (if r \<in> R then Some r else None)"
| "walk m R r (i # p) =
     (case walk m R r p of None \<Rightarrow> None | Some t \<Rightarrow> if valid (m t i) then Some (child (m t i)) else None)"

definition okp :: "u64 list \<Rightarrow> bool" where
  "okp p \<longleftrightarrow> length p \<le> 3 \<and> (\<forall>i \<in> set p. i < 512)"

lemma okp_simps [simp]: "okp []" "okp (i # p) \<longleftrightarrow> i < 512 \<and> length p < 3 \<and> okp p"
  by (auto simp: okp_def)

definition tabs :: "(u64 \<Rightarrow> u64 \<Rightarrow> u64) \<Rightarrow> u64 set \<Rightarrow> u64 set" where
  "tabs m R = {t. \<exists>r p. okp p \<and> walk m R r p = Some t}"

definition tree :: "(u64 \<Rightarrow> u64 \<Rightarrow> u64) \<Rightarrow> u64 set \<Rightarrow> u64 set \<Rightarrow> bool" where
  "tree m R U \<longleftrightarrow>
     tabs m R \<subseteq> U \<and>
     (\<forall>r p r' p' t. okp p \<longrightarrow> okp p' \<longrightarrow> walk m R r p = Some t \<longrightarrow> walk m R r' p' = Some t \<longrightarrow> r = r' \<and> p = p')"

lemma treeD:
  assumes "tree m R U" "walk m R r p = Some t" "okp p"
  shows "t \<in> U" "t \<in> tabs m R" "walk m R r' p' = Some t \<Longrightarrow> okp p' \<Longrightarrow> r' = r \<and> p' = p"
proof -
  show "t \<in> tabs m R" using assms by (auto simp: tabs_def)
  then show "t \<in> U" using assms(1) by (auto simp: tree_def)
  show "walk m R r' p' = Some t \<Longrightarrow> okp p' \<Longrightarrow> r' = r \<and> p' = p"
    using assms unfolding tree_def by blast
qed

lemma walk_root: "walk m R r p \<noteq> None \<Longrightarrow> r \<in> R"
  by (induction p) (auto split: if_splits option.splits)

text \<open>The entry for a page: path to the last table, and index there.\<close>

definition leaf :: "(u64 \<Rightarrow> u64 \<Rightarrow> u64) \<Rightarrow> u64 set \<Rightarrow> u64 \<Rightarrow> u64 list \<Rightarrow> u64 \<Rightarrow> u64 option" where
  "leaf m R r p l = (case walk m R r p of None \<Rightarrow> None | Some t \<Rightarrow> if valid (m t l) then Some (m t l) else None)"

definition slot :: "u64 list \<Rightarrow> u64 \<Rightarrow> bool" where
  "slot p l \<longleftrightarrow> length p = 3 \<and> (\<forall>i \<in> set p. i < 512) \<and> l < 512"

lemma slot_okp: "slot p l \<Longrightarrow> okp p" "slot p l \<Longrightarrow> l < 512" "slot p l \<Longrightarrow> length p = 3"
  by (auto simp: slot_def okp_def)

abbreviation vpath :: "u64 \<Rightarrow> u64 list" where
  "vpath va \<equiv> [l2_index va, l1_index va, l0_index va]"

lemma index_small [simp]: "l0_index va < 512" "l1_index va < 512" "l2_index va < 512" "l3_index va < 512"
proof -
  have "x AND 0x1ff < 512" for x :: u64
  proof -
    have "x AND 0x1ff = take_bit 9 x" by (simp add: take_bit_eq_mask mask_eq_exp_minus_1)
    then have "unat (x AND 0x1ff) = take_bit 9 (unat x)" by (simp only: unsigned_take_bit_eq)
    also have "\<dots> < 512" by (simp add: take_bit_eq_mod)
    finally show ?thesis by (simp add: word_less_nat_alt)
  qed
  then show "l0_index va < 512" "l1_index va < 512" "l2_index va < 512" "l3_index va < 512"
    by (simp_all add: l0_index_def l1_index_def l2_index_def l3_index_def)
qed

lemma slot_of_va [simp]: "slot (vpath va) (l3_index va)"
  by (simp add: slot_def)

lemma mapped_page_leaf:
  assumes "r \<in> R" "r \<noteq> 0"
  shows "pt_get_mapped_page r va vm =
    (case leaf (kw vm) R r (vpath va) (l3_index va) of
       None \<Rightarrow> 0 | Some e \<Rightarrow> kernel_direct_map_va ((e AND PTE_ADDR_MASK) OR (va AND PAGE_MASK)))"
  using assms by (simp add: pt_get_mapped_page_def leaf_def child_def Let_def)

text \<open>Two addresses have the same entry when they agree on the bits 12 to 47.\<close>

lemma index_bits:
  "n < 9 \<Longrightarrow> bit (l0_index va) n = bit va (n + 39)" "n < 9 \<Longrightarrow> bit (l1_index va) n = bit va (n + 30)"
  "n < 9 \<Longrightarrow> bit (l2_index va) n = bit va (n + 21)" "n < 9 \<Longrightarrow> bit (l3_index va) n = bit va (n + 12)"
proof -
  have m: "(0x1ff :: u64) = mask 9" by (simp add: mask_eq_exp_minus_1)
  show "n < 9 \<Longrightarrow> bit (l0_index va) n = bit va (n + 39)" "n < 9 \<Longrightarrow> bit (l1_index va) n = bit va (n + 30)"
    "n < 9 \<Longrightarrow> bit (l2_index va) n = bit va (n + 21)" "n < 9 \<Longrightarrow> bit (l3_index va) n = bit va (n + 12)"
    unfolding l0_index_def l1_index_def l2_index_def l3_index_def m by (auto simp: bit_simps add.commute)
qed

lemma same_slot:
  "vpath va = vpath va' \<and> l3_index va = l3_index va' \<longleftrightarrow> va AND PTE_ADDR_MASK = va' AND PTE_ADDR_MASK"
proof
  assume e: "vpath va = vpath va' \<and> l3_index va = l3_index va'"
  have "bit va n = bit va' n" if "12 \<le> n" "n < 48" for n
  proof -
    consider "n < 21" | "21 \<le> n" "n < 30" | "30 \<le> n" "n < 39" | "39 \<le> n" using that by linarith
    then show ?thesis
    proof cases
      case 1
      then show ?thesis using e index_bits(4) [of "n - 12" va] index_bits(4) [of "n - 12" va'] that by simp
    next
      case 2
      then show ?thesis using e index_bits(3) [of "n - 21" va] index_bits(3) [of "n - 21" va'] by simp
    next
      case 3
      then show ?thesis using e index_bits(2) [of "n - 30" va] index_bits(2) [of "n - 30" va'] by simp
    next
      case 4
      then show ?thesis using e index_bits(1) [of "n - 39" va] index_bits(1) [of "n - 39" va'] that by simp
    qed
  qed
  then show "va AND PTE_ADDR_MASK = va' AND PTE_ADDR_MASK"
    unfolding mask_values by (intro bit_word_eqI) (auto simp: bit_simps)
next
  assume e: "va AND PTE_ADDR_MASK = va' AND PTE_ADDR_MASK"
  have b: "bit va n = bit va' n" if "12 \<le> n" "n < 48" for n
  proof -
    have "bit (va AND PTE_ADDR_MASK) n = bit (va' AND PTE_ADDR_MASK) n" using e by simp
    then show ?thesis using that unfolding mask_values by (simp add: bit_simps)
  qed
  have m: "(0x1ff :: u64) = mask 9" by (simp add: mask_eq_exp_minus_1)
  show "vpath va = vpath va' \<and> l3_index va = l3_index va'"
    unfolding l0_index_def l1_index_def l2_index_def l3_index_def m
    by (auto intro!: bit_word_eqI simp: bit_simps b)
qed

subsection \<open>How writes to tables change the translation\<close>

lemma walk_keep:
  assumes "\<And>r p t i. okp p \<Longrightarrow> length p < 3 \<Longrightarrow> walk m R r p = Some t \<Longrightarrow> i < 512 \<Longrightarrow> m' t i = m t i"
  shows "okp p \<Longrightarrow> walk m' R r p = walk m R r p"
proof (induction p)
  case (Cons i p)
  then show ?case using assms [of p r _ i] by (auto split: option.split)
qed simp

lemma tree_same_walk:
  assumes "tree m R U" "\<And>r p. okp p \<Longrightarrow> walk m' R r p = walk m R r p" "U \<subseteq> U'"
  shows "tree m' R U'" "tabs m' R = tabs m R"
proof -
  show t: "tabs m' R = tabs m R" using assms(2) unfolding tabs_def by metis
  show "tree m' R U'" using assms unfolding tree_def t by auto
qed

lemma leaf_write:
  fixes e :: u64
  assumes T: "tree m R U" and w: "walk m R r p = Some t" and s: "slot p l"
  defines "m' \<equiv> m(t := (m t)(l := e))"
  shows "okp p' \<Longrightarrow> walk m' R r' p' = walk m R r' p'" "tree m' R U" "tabs m' R = tabs m R"
    "slot p' l' \<Longrightarrow> leaf m' R r' p' l' =
       (if r' = r \<and> p' = p \<and> l' = l then (if valid e then Some e else None) else leaf m R r' p' l')"
proof -
  have ok: "okp p" "length p = 3" using s by (auto intro: slot_okp)
  have eq: "m' t' i = m t' i" if "okp q" "length q < 3" "walk m R r' q = Some t'" for r' q t' i
    using treeD(3) [OF T w ok(1)] that ok(2) by (auto simp: m'_def)
  have W: "walk m' R r' p' = walk m R r' p'" if "okp p'" for r' p' by (rule walk_keep [OF _ that]) (rule eq)
  then show "okp p' \<Longrightarrow> walk m' R r' p' = walk m R r' p'" .
  show "tree m' R U" "tabs m' R = tabs m R" using tree_same_walk [OF T W] by auto
  assume s': "slot p' l'"
  have "m' t' l' = (if r' = r \<and> p' = p \<and> l' = l then e else m t' l')" if "walk m R r' p' = Some t'" for t'
    using treeD(3) [OF T w ok(1), of r' p'] that w slot_okp(1) [OF s'] by (auto simp: m'_def)
  then show "leaf m' R r' p' l' =
       (if r' = r \<and> p' = p \<and> l' = l then (if valid e then Some e else None) else leaf m R r' p' l')"
    using w by (auto simp: leaf_def W [OF slot_okp(1) [OF s']] split: option.split)
qed

lemma table_desc_facts: "kpage n \<Longrightarrow> child (table_desc n) = n" "valid (table_desc n)"
proof -
  have three: "(1 :: u64) OR 2 = mask 2" by (simp add: mask_eq_exp_minus_1)
  have "table_desc n AND PTE_ADDR_MASK = n AND PTE_ADDR_MASK"
    unfolding table_desc_def mask_values three by (rule bit_word_eqI) (auto simp: bit_simps)
  then show "kpage n \<Longrightarrow> child (table_desc n) = n" by (simp add: child_def direct_map_masked)
  have "bit (table_desc n AND 1) 0" by (simp add: table_desc_def bit_simps)
  then show "valid (table_desc n)" by (metis bit_0_eq bot_apply bot_bool_def)
qed

lemma table_grow:
  assumes T: "tree m R U" and w: "walk m R r p = Some t" and ok: "okp (i # p)" and inv: "\<not> valid (m t i)"
    and n: "n \<notin> U" "kpage n" and z: "\<And>i. i < 512 \<Longrightarrow> m' n i = 0" and t': "m' t = (m t)(i := table_desc n)"
    and same: "\<And>q. q \<noteq> n \<Longrightarrow> q \<noteq> t \<Longrightarrow> m' q = m q"
  shows "okp p' \<Longrightarrow> walk m' R r' p' = (if r' = r \<and> p' = i # p then Some n else walk m R r' p')"
    "tree m' R (insert n U)" "tabs m' R = insert n (tabs m R)" "slot p' l' \<Longrightarrow> leaf m' R r' p' l' = leaf m R r' p' l'"
proof -
  have okp: "okp p" and i: "i < 512" and len: "length p < 3" using ok by auto
  have none: "walk m R r (i # p) = None" using w inv by simp
  have W: "walk m' R r' p' = (if r' = r \<and> p' = i # p then Some n else walk m R r' p')" if "okp p'" for r' p'
    using that
  proof (induction p')
    case (Cons j q)
    have jq: "j < 512" "okp q" using Cons.prems by auto
    show ?case
    proof (cases "r' = r \<and> q = i # p")
      case True
      then have "walk m' R r' q = Some n" using Cons.IH [OF jq(2)] by simp
      moreover have "m' n j = 0" using z jq(1) by simp
      ultimately show ?thesis using True none by simp
    next
      case False
      then have IH: "walk m' R r' q = walk m R r' q" using Cons.IH [OF jq(2)] by (simp only: if_False)
      show ?thesis
      proof (cases "walk m R r' q")
        case (Some u)
        have "u \<in> U" by (rule treeD(1) [OF T Some jq(2)])
        then have un: "u \<noteq> n" using n(1) by auto
        show ?thesis
        proof (cases "u = t")
          case True
          then have "r' = r \<and> q = p" using treeD(3) [OF T w okp] Some jq(2) by auto
          then show ?thesis using IH Some True t' table_desc_facts(1) [OF n(2)] table_desc_facts(2) [of n] by auto
        next
          case ut: False
          then have "\<not> (r' = r \<and> q = p)" using w Some by auto
          then show ?thesis using IH Some same [OF un ut] by auto
        qed
      qed (use IH False w in auto)
    qed
  qed auto
  then show "okp p' \<Longrightarrow> walk m' R r' p' = (if r' = r \<and> p' = i # p then Some n else walk m R r' p')" .
  have notn: "walk m R a b \<noteq> Some n" if "okp b" for a b using treeD(1) [OF T _ that] n(1) by blast
  show tb: "tabs m' R = insert n (tabs m R)"
  proof (intro subset_antisym subsetI)
    fix x assume "x \<in> tabs m' R"
    then obtain a b where "okp b" "walk m' R a b = Some x" by (auto simp: tabs_def)
    then show "x \<in> insert n (tabs m R)" using W [of b a] by (auto simp: tabs_def split: if_splits)
  next
    fix x assume "x \<in> insert n (tabs m R)"
    then consider "x = n" | a b where "okp b" "walk m R a b = Some x" by (auto simp: tabs_def)
    then show "x \<in> tabs m' R"
    proof cases
      case 1
      then show ?thesis using W [OF ok, of r] ok by (auto simp: tabs_def intro!: exI [of _ r] exI [of _ "i # p"])
    next
      case 2
      then show ?thesis using W [OF 2(1), of a] none by (auto simp: tabs_def intro!: exI [of _ a] exI [of _ b])
    qed
  qed
  show "tree m' R (insert n U)"
    unfolding tree_def
  proof (intro conjI allI impI)
    show "tabs m' R \<subseteq> insert n U" using T tb by (auto simp: tree_def)
    fix a b a' b' x assume x: "okp b" "okp b'" "walk m' R a b = Some x" "walk m' R a' b' = Some x"
    then have "a = a' \<and> b = b'"
      using W [OF x(1), of a] W [OF x(2), of a'] notn [OF x(1), of a] notn [OF x(2), of a'] treeD(3) [OF T _ x(1), of a x a' b']
      by (auto split: if_splits)
    then show "a = a'" "b = b'" by auto
  qed
  assume s: "slot p' l'"
  have o: "okp p'" "l' < 512" "length p' = 3" by (rule slot_okp [OF s])+
  show "leaf m' R r' p' l' = leaf m R r' p' l'"
  proof (cases "r' = r \<and> p' = i # p")
    case True
    then show ?thesis using W [OF o(1), of r'] none z [OF o(2)] by (simp add: leaf_def)
  next
    case False
    then have e: "walk m' R r' p' = walk m R r' p'" using W [OF o(1), of r'] by (simp only: if_False)
    have "m' u l' = m u l'" if "walk m R r' p' = Some u" for u
    proof -
      have "u \<noteq> n" using notn [OF o(1)] that by auto
      moreover have "u \<noteq> t" using treeD(3) [OF T w okp, of r' p'] that o len by auto
      ultimately show ?thesis using same by simp
    qed
    then show ?thesis by (simp add: leaf_def e split: option.split)
  qed
qed

subsection \<open>Extending the tables\<close>

definition pinfo :: "vm \<Rightarrow> u64 \<Rightarrow> page option" where
  "pinfo vm q = map_option (\<lambda>a. a (pfn q)) (pages vm)"

text \<open>Tables may be added; no translation changes, and neither do owned pages that are not tables.\<close>

definition evolves :: "vm \<Rightarrow> u64 list \<Rightarrow> u64 set \<Rightarrow> vm \<Rightarrow> u64 list \<Rightarrow> bool" where
  "evolves vm fl R vm' fl' \<longleftrightarrow>
     pa_inv vm' fl' \<and> tree (kw vm') R (in_use vm' fl') \<and> in_use vm fl \<subseteq> in_use vm' fl' \<and>
     (\<forall>r p t. okp p \<longrightarrow> walk (kw vm) R r p = Some t \<longrightarrow> walk (kw vm') R r p = Some t) \<and>
     (\<forall>r p l. slot p l \<longrightarrow> leaf (kw vm') R r p l = leaf (kw vm) R r p l) \<and>
     (\<forall>q \<in> in_use vm fl - tabs (kw vm) R. kw vm' q = kw vm q) \<and>
     tabs (kw vm') R \<inter> in_use vm fl \<subseteq> tabs (kw vm) R \<and>
     (\<forall>q \<in> in_use vm fl. pinfo vm' q = pinfo vm q) \<and> (pages vm' = None \<longleftrightarrow> pages vm = None)"

lemma evolves_refl: "pa_inv vm fl \<Longrightarrow> tree (kw vm) R (in_use vm fl) \<Longrightarrow> evolves vm fl R vm fl"
  by (simp add: evolves_def)

lemma evolves_trans:
  assumes a: "evolves vm fl R vm1 fl1" and b: "evolves vm1 fl1 R vm2 fl2"
  shows "evolves vm fl R vm2 fl2"
proof -
  have "kw vm2 q = kw vm q" if "q \<in> in_use vm fl - tabs (kw vm) R" for q
  proof -
    have "q \<in> in_use vm1 fl1 - tabs (kw vm1) R" "kw vm1 q = kw vm q" using that a unfolding evolves_def by blast+
    then show ?thesis using b unfolding evolves_def by simp
  qed
  moreover have "tabs (kw vm2) R \<inter> in_use vm fl \<subseteq> tabs (kw vm) R" "in_use vm fl \<subseteq> in_use vm2 fl2"
    using a b unfolding evolves_def by blast+
  moreover have "pinfo vm2 q = pinfo vm q" if "q \<in> in_use vm fl" for q
    using that a b unfolding evolves_def by (metis subsetD)
  ultimately show ?thesis using a b unfolding evolves_def by simp
qed

lemma in_use_kpage: "q \<in> in_use vm fl \<Longrightarrow> kpage q"
  by (simp add: in_use_def)

lemma in_use_init: "kpage (pool_end vm) \<Longrightarrow> in_use (page_allocator_init vm) fl = in_use vm fl"
  by (simp add: in_use_def init_again)

lemma init_keeps: "pa_inv vm fl \<Longrightarrow> pa_inv (page_allocator_init vm) fl"
  by (auto simp: pa_inv_def init_again)

lemma init_evolves: "pa_inv vm fl \<Longrightarrow> tree (kw vm) R (in_use vm fl) \<Longrightarrow> evolves vm fl R (page_allocator_init vm) fl"
  by (simp add: evolves_def init_keeps in_use_init pinfo_def pa_inv_def [of vm])

lemma set_word_simps [simp]:
  "kw (set_word t i v vm) = (kw vm)(t := (kw vm t)(i := v))" "pages (set_word t i v vm) = pages vm"
  "free_list (set_word t i v vm) = free_list vm" "pool_start (set_word t i v vm) = pool_start vm"
  "pool_end (set_word t i v vm) = pool_end vm" "in_use (set_word t i v vm) fl = in_use vm fl"
  "next_free_page (set_word t i v vm) = next_free_page vm" "pinfo (set_word t i v vm) = pinfo vm" "vms (set_word t i v vm) = vms vm"
  by (simp_all add: set_word_def in_use_def pool_end_def page_allocator_init_def pinfo_def fun_eq_iff)

lemma set_word_inv:
  assumes "pa_inv vm fl" "t \<in> in_use vm fl"
  shows "pa_inv (set_word t i v vm) fl"
proof -
  have "fchain (kw (set_word t i v vm)) h fl = fchain (kw vm) h fl" for h
    by (rule fchain_cong) (use assms(2) in \<open>auto simp: in_use_def\<close>)
  then show ?thesis using assms(1) unfolding pa_inv_def by simp
qed

lemma fresh_pinfo:
  assumes f: "fresh vm fl p vm' fl'" and q: "q \<in> in_use vm fl"
  shows "pinfo vm' q = pinfo vm q"
proof -
  have "q \<noteq> p" "kpage p" "kpage q" using f q by (auto simp: fresh_def in_use_def)
  then have "pfn q \<noteq> pfn p" using pfn_inj by blast
  then show ?thesis using f by (cases "pages vm") (auto simp: fresh_def pinfo_def)
qed

lemma next_table_outcome:
  assumes inv: "pa_inv vm fl" and T: "tree (kw vm) R (in_use vm fl)" and w: "walk (kw vm) R r p = Some t" and ok: "okp (i # p)"
  shows "\<exists>t' vm' fl'. next_table t i vm = (t', vm') \<and> evolves vm fl R vm' fl' \<and>
    (if t' = 0 then pool_end vm' = RAM_end \<and> fl' = [] else walk (kw vm') R r (i # p) = Some t')"
proof (cases "valid (kw vm t i)")
  case True
  then have w': "walk (kw vm) R r (i # p) = Some (child (kw vm t i))" using w by simp
  have "child (kw vm t i) \<in> in_use vm fl" by (rule treeD(1) [OF T w' ok])
  then have "child (kw vm t i) \<noteq> 0" using in_use_kpage by force
  moreover have "next_table t i vm = (child (kw vm t i), vm)" using True by (simp add: next_table_def child_def)
  ultimately show ?thesis using w' evolves_refl [OF inv T] by auto
next
  case False
  have okp: "okp p" using ok by simp
  have tU: "t \<in> in_use vm fl" by (rule treeD(1) [OF T w okp])
  from alloc_page_outcome [OF inv] show ?thesis
  proof (elim disjE exE conjE)
    assume a: "alloc_page vm = (0, page_allocator_init vm)" "fl = []" "pool_end vm = RAM_end"
    have "pool_end (page_allocator_init vm) = RAM_end" using init_again [of vm] inv a(3) by (simp add: pa_inv_def)
    then show ?thesis using False init_evolves [OF inv T] a(1,2) by (auto simp: next_table_def)
  next
    fix n vm1 fl1 assume a: "alloc_page vm = (n, vm1)" "n \<noteq> 0" "fresh vm fl n vm1 fl1"
    let ?v = "set_word t i (table_desc n) vm1"
    have F: "kpage n" "n \<notin> in_use vm fl" "in_use vm1 fl1 = insert n (in_use vm fl)" "pa_inv vm1 fl1" "\<And>i. i < 512 \<Longrightarrow> kw vm1 n i = 0"
        "\<And>q. q \<noteq> n \<Longrightarrow> kw vm1 q = kw vm q" "pages vm1 = None \<longleftrightarrow> pages vm = None"
      using a(3) by (auto simp: fresh_def)
    have tn: "t \<noteq> n" using tU F(2) by auto
    have G: "okp p' \<Longrightarrow> walk (kw ?v) R r' p' = (if r' = r \<and> p' = i # p then Some n else walk (kw vm) R r' p')"
        "tree (kw ?v) R (insert n (in_use vm fl))" "tabs (kw ?v) R = insert n (tabs (kw vm) R)"
        "slot p' l' \<Longrightarrow> leaf (kw ?v) R r' p' l' = leaf (kw vm) R r' p' l'" for r' p' l'
      using table_grow [OF T w ok _ F(2,1), of "kw ?v"] False F(5,6) tn by auto
    have "next_table t i vm = (child (table_desc n), ?v)" using False a(1,2) by (simp add: next_table_def child_def)
    then have run: "next_table t i vm = (n, ?v)" using table_desc_facts(1) [OF F(1)] by simp
    have none: "walk (kw vm) R r (i # p) = None" using w False by simp
    have "evolves vm fl R ?v fl1"
      unfolding evolves_def
    proof (intro conjI ballI allI impI)
      show "pa_inv ?v fl1" using set_word_inv [OF F(4)] tU F(3) by simp
      show "tree (kw ?v) R (in_use ?v fl1)" using G(2) F(3) by simp
      show "in_use vm fl \<subseteq> in_use ?v fl1" using F(3) by auto
      show "walk (kw ?v) R r' p' = Some u" if "okp p'" "walk (kw vm) R r' p' = Some u" for r' p' u
        using G(1) [OF that(1), of r'] that(2) none by auto
      show "leaf (kw ?v) R r' p' l' = leaf (kw vm) R r' p' l'" if "slot p' l'" for r' p' l' by (rule G(4) [OF that])
      show "kw ?v q = kw vm q" if "q \<in> in_use vm fl - tabs (kw vm) R" for q
      proof -
        have "q \<noteq> n" "q \<noteq> t" using that F(2) treeD(2) [OF T w okp] by auto
        then show ?thesis using F(6) by simp
      qed
      show "tabs (kw ?v) R \<inter> in_use vm fl \<subseteq> tabs (kw vm) R" using G(3) F(2) by auto
      show "pinfo ?v q = pinfo vm q" if "q \<in> in_use vm fl" for q using fresh_pinfo [OF a(3) that] by simp
    qed (use F(7) in simp)
    moreover have "walk (kw ?v) R r (i # p) = Some n" using G(1) [OF ok, of r] by simp
    ultimately show ?thesis using run a(2) by auto
  qed
qed

definition page_entry :: "u64 \<Rightarrow> u64 \<Rightarrow> u64" where
  "page_entry pa attrs = (pa AND PTE_ADDR_MASK) OR (attrs AND NOT PTE_ADDR_MASK) OR DESC_VALID OR DESC_PAGE"

lemma page_entry_facts:
  "valid (page_entry pa attrs)" "page_entry pa attrs AND PTE_ADDR_MASK = pa AND PTE_ADDR_MASK"
  "child (page_entry pa attrs) = kernel_direct_map_va (pa AND PTE_ADDR_MASK)"
proof -
  have three: "(1 :: u64) OR 2 = mask 2" by (simp add: mask_eq_exp_minus_1)
  show e: "page_entry pa attrs AND PTE_ADDR_MASK = pa AND PTE_ADDR_MASK"
    unfolding page_entry_def mask_values three by (rule bit_word_eqI) (auto simp: bit_simps)
  show "child (page_entry pa attrs) = kernel_direct_map_va (pa AND PTE_ADDR_MASK)" unfolding child_def e ..
  have "bit (page_entry pa attrs AND 1) 0" by (simp add: page_entry_def bit_simps)
  then show "valid (page_entry pa attrs)" by (metis bit_0_eq bot_apply bot_bool_def)
qed

text \<open>After the three steps down, the entry is written.\<close>

lemma pt_map_page_outcome:
  assumes inv: "pa_inv vm fl" and T: "tree (kw vm) R (in_use vm fl)" and r: "r \<in> R"
    and al: "va AND PAGE_MASK = 0" "pa AND PAGE_MASK = 0"
  shows "\<exists>ok vm' vm1 fl'. pt_map_page r va pa attrs vm = (ok, vm') \<and> evolves vm fl R vm1 fl' \<and>
    (if ok then \<exists>t. walk (kw vm1) R r (vpath va) = Some t \<and> vm' = set_word t (l3_index va) (page_entry pa attrs) vm1
     else vm' = vm1 \<and> pool_end vm' = RAM_end \<and> fl' = [])"
proof -
  have w0: "walk (kw vm) R r [] = Some r" using r by simp
  have "r \<in> in_use vm fl" by (rule treeD(1) [OF T w0]) simp
  then have r0: "r \<noteq> 0" using in_use_kpage by force
  have down: "\<exists>t' vm' fl'. next_table t i vm1 = (t', vm') \<and> evolves vm fl R vm' fl' \<and> 
      (if t' = 0 then pool_end vm' = RAM_end \<and> fl' = [] else walk (kw vm') R r (i # p) = Some t')"
    if e: "evolves vm fl R vm1 fl1" "walk (kw vm1) R r p = Some t" "okp (i # p)" for vm1 fl1 p t i
  proof -
    have "pa_inv vm1 fl1" "tree (kw vm1) R (in_use vm1 fl1)" using e(1) by (simp_all add: evolves_def)
    from next_table_outcome [OF this e(2,3)] show ?thesis using evolves_trans [OF e(1)] by blast
  qed
  obtain l1 v1 f1 where a1: "next_table r (l0_index va) vm = (l1, v1)" "evolves vm fl R v1 f1"
      "if l1 = 0 then pool_end v1 = RAM_end \<and> f1 = [] else walk (kw v1) R r [l0_index va] = Some l1"
    using down [OF evolves_refl [OF inv T] w0, of "l0_index va"] by auto
  show ?thesis
  proof (cases "l1 = 0")
    case True
    then show ?thesis using a1 r0 al by (intro exI [of _ False] exI [of _ v1] exI [of _ f1]) (simp add: pt_map_page_def)
  next
    case l1: False
    obtain l2 v2 f2 where a2: "next_table l1 (l1_index va) v1 = (l2, v2)" "evolves vm fl R v2 f2"
        "if l2 = 0 then pool_end v2 = RAM_end \<and> f2 = [] else walk (kw v2) R r [l1_index va, l0_index va] = Some l2"
      using down [OF a1(2), of "[l0_index va]" l1 "l1_index va"] a1(3) l1 by auto
    show ?thesis
    proof (cases "l2 = 0")
      case True
      then show ?thesis using a1 a2 l1 r0 al by (intro exI [of _ False] exI [of _ v2] exI [of _ f2]) (simp add: pt_map_page_def)
    next
      case l2: False
      obtain l3 v3 f3 where a3: "next_table l2 (l2_index va) v2 = (l3, v3)" "evolves vm fl R v3 f3"
          "if l3 = 0 then pool_end v3 = RAM_end \<and> f3 = [] else walk (kw v3) R r (vpath va) = Some l3"
        using down [OF a2(2), of "[l1_index va, l0_index va]" l2 "l2_index va"] a2(3) l2 by auto
      show ?thesis
      proof (cases "l3 = 0")
        case True
        then show ?thesis using a1 a2 a3 l1 l2 r0 al by (intro exI [of _ False] exI [of _ v3] exI [of _ f3]) (simp add: pt_map_page_def)
      next
        case False
        let ?v = "set_word l3 (l3_index va) (page_entry pa attrs) v3"
        have "pt_map_page r va pa attrs vm = (True, ?v)"
          using a1(1) a2(1) a3(1) l1 l2 False r0 al by (simp add: pt_map_page_def page_entry_def)
        then show ?thesis using a3(2,3) False
          by (intro exI [of _ True] exI [of _ ?v] exI [of _ v3] exI [of _ f3]) (simp del: walk.simps)
      qed
    qed
  qed
qed

text \<open>A freshly allocated page is an empty address space.\<close>

lemma tree_add_root:
  assumes T: "tree m R U" and n: "n \<notin> U" and z: "\<And>i. i < 512 \<Longrightarrow> m' n i = 0" and same: "\<And>q. q \<noteq> n \<Longrightarrow> m' q = m q"
  shows "okp p \<Longrightarrow> walk m' (insert n R) r p = (if r = n then (if p = [] then Some n else None) else walk m R r p)"
    "tree m' (insert n R) (insert n U)" "tabs m' (insert n R) = insert n (tabs m R)"
    "slot p l \<Longrightarrow> leaf m' (insert n R) r p l = (if r = n then None else leaf m R r p l)"
proof -
  have nt: "t \<noteq> n" if "okp p" "walk m R r p = Some t" for r p t using treeD(1) [OF T that(2,1)] n by auto
  have nR: "n \<notin> R" using nt [of "[]" n n] by auto
  have W: "walk m' (insert n R) r p = (if r = n then (if p = [] then Some n else None) else walk m R r p)" if "okp p" for r p
    using that
  proof (induction p)
    case (Cons i p)
    then have "okp p" "i < 512" by auto
    then show ?case using Cons.IH z [of i] nt [of p r] same by (auto split: option.split)
  qed auto
  then show "okp p \<Longrightarrow> walk m' (insert n R) r p = (if r = n then (if p = [] then Some n else None) else walk m R r p)" .
  have wn: "walk m R n p = None" for p using walk_root [of m R n p] nR by blast
  show tb: "tabs m' (insert n R) = insert n (tabs m R)"
  proof (intro subset_antisym subsetI)
    fix x assume "x \<in> tabs m' (insert n R)"
    then obtain r p where "okp p" "walk m' (insert n R) r p = Some x" by (auto simp: tabs_def)
    then show "x \<in> insert n (tabs m R)" using W [of p r] by (auto simp: tabs_def split: if_splits)
  next
    fix x assume "x \<in> insert n (tabs m R)"
    then consider "x = n" | r p where "okp p" "walk m R r p = Some x" by (auto simp: tabs_def)
    then show "x \<in> tabs m' (insert n R)"
    proof cases
      case 1
      then show ?thesis using W [of "[]" n] by (auto simp: tabs_def intro!: exI [of _ n] exI [of _ "[]"])
    next
      case 2
      then have "walk m' (insert n R) r p = Some x" using W [of p r] wn [of p] by auto
      then show ?thesis using 2(1) unfolding tabs_def by blast
    qed
  qed
  show "tree m' (insert n R) (insert n U)"
    unfolding tree_def
  proof (intro conjI allI impI)
    show "tabs m' (insert n R) \<subseteq> insert n U" using tb T by (auto simp: tree_def)
    fix r p r' p' t assume x: "okp p" "okp p'" "walk m' (insert n R) r p = Some t" "walk m' (insert n R) r' p' = Some t"
    then have "r = r' \<and> p = p'"
      using W [OF x(1), of r] W [OF x(2), of r'] nt [OF x(1), of r t] nt [OF x(2), of r' t] treeD(3) [OF T _ x(1), of r t r' p']
      by (auto split: if_splits)
    then show "r = r'" "p = p'" by auto
  qed
  assume s: "slot p l"
  have o: "okp p" "length p = 3" by (rule slot_okp [OF s])+
  then have "p \<noteq> []" by auto
  then show "leaf m' (insert n R) r p l = (if r = n then None else leaf m R r p l)"
    using W [OF o(1), of r] nt [OF o(1), of r] same by (auto simp: leaf_def split: option.split)
qed

lemma tree_no_roots: "tree m {} U"
proof -
  have "walk m {} r p = None" for r p by (induction p) auto
  then show ?thesis by (simp add: tree_def tabs_def)
qed

lemma fresh_address_space:
  assumes "pa_inv vm fl" "tree (kw vm) R (in_use vm fl)" "fresh vm fl p vm' fl'"
  shows "tree (kw vm') (insert p R) (in_use vm' fl')"
  using tree_add_root(2) [OF assms(2), of p "kw vm'"] assms(3) by (auto simp: fresh_def)

lemma pt_map_page_translates:
  assumes "pa_inv vm fl" "tree (kw vm) R (in_use vm fl)" "r \<in> R" "va AND PAGE_MASK = 0" "kpage q"
  shows "\<exists>ok vm' fl'. pt_map_page r va (kernel_phys_addr q) attrs vm = (ok, vm') \<and>
    pa_inv vm' fl' \<and> tree (kw vm') R (in_use vm' fl') \<and> (ok \<or> pool_end vm' = RAM_end \<and> fl' = []) \<and>
    (\<forall>r' \<in> R. \<forall>va'. pt_get_mapped_page r' va' vm' =
       (if ok \<and> r' = r \<and> va' AND PTE_ADDR_MASK = va AND PTE_ADDR_MASK then q OR (va' AND PAGE_MASK)
        else pt_get_mapped_page r' va' vm)) \<and>
    (\<forall>x \<in> in_use vm fl - tabs (kw vm) R. kw vm' x = kw vm x) \<and>
    in_use vm fl \<subseteq> in_use vm' fl' \<and> tabs (kw vm') R \<inter> in_use vm fl \<subseteq> tabs (kw vm) R \<and>
    (ok \<longrightarrow> leaf (kw vm') R r (vpath va) (l3_index va) = Some (page_entry (kernel_phys_addr q) attrs))"
proof -
  let ?pa = "kernel_phys_addr q"
  have low: "?pa AND PAGE_MASK = 0"
    unfolding kernel_phys_addr_def mask_values by (rule bit_word_eqI) (auto simp: bit_simps kpage_bits [OF assms(5)])
  obtain ok vm' vm1 fl' where o: "pt_map_page r va ?pa attrs vm = (ok, vm')" "evolves vm fl R vm1 fl'"
      "if ok then \<exists>t. walk (kw vm1) R r (vpath va) = Some t \<and> vm' = set_word t (l3_index va) (page_entry ?pa attrs) vm1
       else vm' = vm1 \<and> pool_end vm' = RAM_end \<and> fl' = []"
    using pt_map_page_outcome [OF assms(1-4) low] by blast
  have nz: "r' \<noteq> 0" if "r' \<in> R" for r' using treeD(1) [OF assms(2), of r' "[]" r'] that in_use_kpage [of r'] by auto
  have ev: "pa_inv vm1 fl'" "tree (kw vm1) R (in_use vm1 fl')" "\<And>r p l. slot p l \<Longrightarrow> leaf (kw vm1) R r p l = leaf (kw vm) R r p l"
      "\<And>x. x \<in> in_use vm fl - tabs (kw vm) R \<Longrightarrow> kw vm1 x = kw vm x" "tabs (kw vm1) R \<inter> in_use vm fl \<subseteq> tabs (kw vm) R"
      "in_use vm fl \<subseteq> in_use vm1 fl'"
    using o(2) by (auto simp: evolves_def)
  show ?thesis
  proof (cases ok)
    case False
    then have "vm' = vm1" "pool_end vm1 = RAM_end" "fl' = []" using o(3) by auto
    then show ?thesis using o(1) ev False nz by (auto simp: mapped_page_leaf)
  next
    case True
    then obtain t where t: "walk (kw vm1) R r (vpath va) = Some t" "vm' = set_word t (l3_index va) (page_entry ?pa attrs) vm1"
      using o(3) by auto
    note L = leaf_write [OF ev(2) t(1) slot_of_va, where e = "page_entry ?pa attrs"]
    have tU: "t \<in> in_use vm1 fl'" "t \<in> tabs (kw vm1) R" using treeD(1,2) [OF ev(2) t(1)] by auto
    have lf: "leaf (kw vm') R r' (vpath va') (l3_index va') =
        (if r' = r \<and> va' AND PTE_ADDR_MASK = va AND PTE_ADDR_MASK then Some (page_entry ?pa attrs)
         else leaf (kw vm) R r' (vpath va') (l3_index va'))" for r' va'
      using L(4) [OF slot_of_va [of va'], where r' = r'] same_slot [of va' va] ev(3) [OF slot_of_va [of va'], of r']
        page_entry_facts(1) [of ?pa attrs] t(2) by (simp add: conj_assoc)
    have "kernel_direct_map_va ((page_entry ?pa attrs AND PTE_ADDR_MASK) OR (va' AND PAGE_MASK)) = q OR (va' AND PAGE_MASK)" for va'
      unfolding page_entry_facts(2) unfolding kernel_direct_map_va_def kernel_phys_addr_def mask_values
      by (rule bit_word_eqI) (auto simp: bit_simps kpage_bits [OF assms(5)] dest: kpage_bit_ge [OF assms(5)])
    then have tr: "pt_get_mapped_page r' va' vm' =
       (if r' = r \<and> va' AND PTE_ADDR_MASK = va AND PTE_ADDR_MASK then q OR (va' AND PAGE_MASK)
        else pt_get_mapped_page r' va' vm)" if "r' \<in> R" for r' va'
      using that nz [OF that] lf [of r' va'] by (simp add: mapped_page_leaf)
    have "kw vm' x = kw vm x" if "x \<in> in_use vm fl - tabs (kw vm) R" for x
      using ev(4) [OF that] that tU(2) ev(5) t(2) by auto
    moreover have "pa_inv vm' fl'" "tree (kw vm') R (in_use vm' fl')"
      using set_word_inv [OF ev(1) tU(1)] L(2) t(2) by simp_all
    moreover have "tabs (kw vm') R \<inter> in_use vm fl \<subseteq> tabs (kw vm) R" "in_use vm fl \<subseteq> in_use vm' fl'"
      using L(3) ev(5,6) t(2) by simp_all
    moreover have "leaf (kw vm') R r (vpath va) (l3_index va) = Some (page_entry ?pa attrs)" using lf [of r va] by simp
    ultimately show ?thesis using o(1) True tr by (intro exI [of _ True] exI [of _ vm'] exI [of _ fl']) simp
  qed
qed

text \<open>C9. Mapping a page. On the page tables of all address spaces, \<^verbatim>\<open>pt_map_page\<close> on aligned addresses fails only
  when memory is exhausted. When it succeeds, the address \<^verbatim>\<open>va\<close> of that root translates to \<^verbatim>\<open>pa\<close>, and every other
  page of this root and every address of every other root translates as before; when it fails, no
  translation changes. Owned pages that are not page tables keep their contents.\<close>

theorem pt_map_page_correct:
  assumes "pa_inv vm fl" "tree (kw vm) R (in_use vm fl)" "r \<in> R" "va AND PAGE_MASK = 0" "kpage q"
  shows "\<exists>ok vm' fl'. pt_map_page r va (kernel_phys_addr q) attrs vm = (ok, vm') \<and>
    pa_inv vm' fl' \<and> tree (kw vm') R (in_use vm' fl') \<and> (ok \<or> pool_end vm' = RAM_end \<and> fl' = []) \<and>
    (\<forall>r' \<in> R. \<forall>va'. pt_get_mapped_page r' va' vm' =
       (if ok \<and> r' = r \<and> va' AND PTE_ADDR_MASK = va AND PTE_ADDR_MASK then q OR (va' AND PAGE_MASK)
        else pt_get_mapped_page r' va' vm)) \<and>
    (\<forall>x \<in> in_use vm fl - tabs (kw vm) R. kw vm' x = kw vm x)"
  using pt_map_page_translates [OF assms, of attrs] by blast

lemma boot_space:
  "\<exists>p vm fl. alloc_page boot_vm = (p, vm) \<and> p \<noteq> 0 \<and> pa_inv vm fl \<and> tree (kw vm) {p} (in_use vm fl) \<and> in_use vm fl = {p}"
proof -
  from alloc_page_outcome [OF boot_vm_inv(1)] obtain p vm fl where a: "alloc_page boot_vm = (p, vm)" "p \<noteq> 0" "fresh boot_vm [] p vm fl"
    by (auto simp: boot_vm_inv(3))
  have "tree (kw vm) {p} (in_use vm fl)" using fresh_address_space [OF boot_vm_inv(1) tree_no_roots a(3)] .
  then show ?thesis using a boot_vm_inv(2) by (auto simp: fresh_def)
qed

theorem pt_map_page_correct_witness:
  "\<exists>p vm ok vm'. alloc_page boot_vm = (p, vm) \<and> pt_map_page p 0x400000 (kernel_phys_addr 0xffff000000300000) ATTR_USER_RW vm = (ok, vm') \<and>
     (if ok then pt_get_mapped_page p 0x400123 vm' = 0xffff000000300123 else pool_end vm' = RAM_end)"
proof -
  obtain p vm fl where b: "alloc_page boot_vm = (p, vm)" "pa_inv vm fl" "tree (kw vm) {p} (in_use vm fl)"
    using boot_space by blast
  have q: "kpage 0xffff000000300000" by (simp add: kpage_def)
  show ?thesis
    using pt_map_page_correct [OF b(2,3) _ _ q, of p "0x400000" ATTR_USER_RW] b(1) by fastforce
qed

end
