(* ===== verification/Cow.thy ===== *)
theory Cow
  imports Page_Walk
begin

section \<open>Copy on write\<close>

text \<open>
  After \<open>fork\<close> two address spaces share their pages read-only (\<^verbatim>\<open>process.c\<close>, \<open>cpy_address_space\<close>); the
  first write faults, and the handler in \<^verbatim>\<open>src/kernel/memory/mmu.c\<close> gives the writer a page of its own.
  The invariant of this theory is what makes that safe: the reference count of a mapped page is the
  number of page table entries that map it, and a writable page is mapped once.
\<close>

subsection \<open>Fault statistics\<close>

definition page_table_note_anon_fault :: "bool \<Rightarrow> bool \<Rightarrow> vm \<Rightarrow> vm" where
  "page_table_note_anon_fault heap_fault stack_fault vm =
     (let s = vms vm;
          s = s\<lparr>vs_page_faults := vs_page_faults s + 1, vs_data_faults := vs_data_faults s + 1,
                vs_anon_faults := vs_anon_faults s + 1, vs_faults_handled := vs_faults_handled s + 1\<rparr>;
          s = (if heap_fault then s\<lparr>vs_heap_lazy_allocs := vs_heap_lazy_allocs s + 1\<rparr> else s);
          s = (if stack_fault then s\<lparr>vs_stack_lazy_allocs := vs_stack_lazy_allocs s + 1\<rparr> else s)
      in vm\<lparr>vms := s\<rparr>)"

definition page_table_note_invalid_fault :: "vm \<Rightarrow> vm" where
  "page_table_note_invalid_fault vm =
     vm\<lparr>vms := (vms vm)\<lparr>vs_page_faults := vs_page_faults (vms vm) + 1, vs_data_faults := vs_data_faults (vms vm) + 1,
       vs_faults_unmapped := vs_faults_unmapped (vms vm) + 1, vs_faults_invalid := vs_faults_invalid (vms vm) + 1\<rparr>\<rparr>"

definition page_table_note_cow_fault :: "vm \<Rightarrow> vm" where
  "page_table_note_cow_fault vm =
     vm\<lparr>vms := (vms vm)\<lparr>vs_page_faults := vs_page_faults (vms vm) + 1, vs_data_faults := vs_data_faults (vms vm) + 1,
       vs_cow_faults := vs_cow_faults (vms vm) + 1, vs_faults_handled := vs_faults_handled (vms vm) + 1\<rparr>\<rparr>"

definition page_table_note_cow_copy :: "vm \<Rightarrow> vm" where
  "page_table_note_cow_copy vm = vm\<lparr>vms := (vms vm)\<lparr>vs_cow_copies := vs_cow_copies (vms vm) + 1\<rparr>\<rparr>"

definition page_table_note_tlb_flush :: "vm \<Rightarrow> vm" where
  "page_table_note_tlb_flush vm = vm\<lparr>vms := (vms vm)\<lparr>vs_tlb_flushes := vs_tlb_flushes (vms vm) + 1\<rparr>\<rparr>"

subsection \<open>The write fault\<close>

text \<open>The part of \<open>handle_data_abort\<close> for a write to a read-only user page. \<open>Some msg\<close> says that
  \<open>fatal_exception(msg)\<close> ended the thread.\<close>

text \<open>The handler once the walk has found the entry \<open>e\<close> at index \<open>l\<close> of table \<open>t\<close>.\<close>

definition cow_entry :: "u64 \<Rightarrow> u64 \<Rightarrow> u64 \<Rightarrow> vm \<Rightarrow> (string option \<times> vm) kres" where
  "cow_entry t l e vm =
     (if \<not> pte_is_user e then Inr (Some ''Data Abort COW: permission fault on non-user page'', vm)
      else if \<not> pte_test_cow_flag (e AND PTE_ADDR_MASK) PTE_FLAG_COW vm then
        Inr (Some ''Data Abort COW: write to non-COW read-only page'', page_table_note_invalid_fault vm)
      else
        (let vm = page_table_note_cow_fault vm in
         if get_pte_refcount_pa (e AND PTE_ADDR_MASK) vm > 1 then
           (case alloc_page vm of
              (n, vm) \<Rightarrow>
                if n = 0 then Inr (Some ''Data Abort COW: out of memory allocating copy page'', vm)
                else
                  (case dec_pte_refcount_pa (e AND PTE_ADDR_MASK)
                      (page_table_note_cow_copy (copy_phys_page (e AND PTE_ADDR_MASK) (kernel_phys_addr n) vm)) of
                     Inl err \<Rightarrow> Inl err
                   | Inr vm \<Rightarrow>
                       Inr (None, page_table_note_tlb_flush (pte_clear_cow_and_make_writable t l
                         (set_word t l ((kernel_phys_addr n AND PTE_ADDR_MASK) OR (e AND NOT PTE_ADDR_MASK)) vm)))))
         else Inr (None, page_table_note_tlb_flush (pte_clear_cow_flag (e AND PTE_ADDR_MASK) PTE_FLAG_COW
           (pte_clear_cow_and_make_writable t l vm)))))"

definition cow_fault :: "u64 \<Rightarrow> u64 \<Rightarrow> vm \<Rightarrow> (string option \<times> vm) kres" where
  "cow_fault l0 va vm =
     (if kw vm l0 (l0_index va) AND DESC_VALID = 0 then Inr (Some ''Data Abort COW: missing L0 entry'', vm)
      else
       (let l1 = kernel_direct_map_va (kw vm l0 (l0_index va) AND PTE_ADDR_MASK) in
        if kw vm l1 (l1_index va) AND DESC_VALID = 0 then Inr (Some ''Data Abort COW: missing L1 entry'', vm)
        else
         (let l2 = kernel_direct_map_va (kw vm l1 (l1_index va) AND PTE_ADDR_MASK) in
          if kw vm l2 (l2_index va) AND DESC_VALID = 0 then Inr (Some ''Data Abort COW: missing L2 entry'', vm)
          else
           (let l3 = kernel_direct_map_va (kw vm l2 (l2_index va) AND PTE_ADDR_MASK) in
            if kw vm l3 (l3_index va) AND DESC_VALID = 0 then Inr (Some ''Data Abort COW: missing L3 entry'', vm)
            else cow_entry l3 (l3_index va) (kw vm l3 (l3_index va)) vm))))"

subsection \<open>The invariant of all address spaces\<close>

text \<open>The entries that map a page.\<close>

definition owners :: "(u64 \<Rightarrow> u64 \<Rightarrow> u64) \<Rightarrow> u64 set \<Rightarrow> u64 \<Rightarrow> (u64 \<times> u64 list \<times> u64) set" where
  "owners m R q = {(r, p, l). slot p l \<and> (\<exists>e. leaf m R r p l = Some e \<and> child e = q)}"

definition pg :: "vm \<Rightarrow> u64 \<Rightarrow> page" where
  "pg vm q = the (pages vm) (pfn q)"

definition leaf_ok :: "vm \<Rightarrow> u64 list \<Rightarrow> u64 set \<Rightarrow> u64 \<times> u64 list \<times> u64 \<Rightarrow> u64 \<Rightarrow> bool" where
  "leaf_ok vm fl R s e \<longleftrightarrow>
     child e \<in> in_use vm fl \<and> child e \<notin> tabs (kw vm) R \<and>
     unat (refcount (pg vm (child e))) = card (owners (kw vm) R (child e)) \<and>
     (pte_is_writable e \<longrightarrow> owners (kw vm) R (child e) = {s})"

definition as_ok :: "vm \<Rightarrow> u64 list \<Rightarrow> u64 set \<Rightarrow> bool" where
  "as_ok vm fl R \<longleftrightarrow>
     pa_inv vm fl \<and> tree (kw vm) R (in_use vm fl) \<and> finite R \<and> card R < 2 ^ 16 - 1 \<and> pages vm \<noteq> None \<and>
     (\<forall>r p l e. slot p l \<longrightarrow> leaf (kw vm) R r p l = Some e \<longrightarrow> leaf_ok vm fl R (r, p, l) e) \<and>
     (\<forall>q r p l r' p' l'. (r, p, l) \<in> owners (kw vm) R q \<longrightarrow> (r', p', l') \<in> owners (kw vm) R q \<longrightarrow> p' = p \<and> l' = l)"

lemma as_okD:
  assumes "as_ok vm fl R"
  shows "pa_inv vm fl" "tree (kw vm) R (in_use vm fl)" "finite R" "card R < 2 ^ 16 - 1" "pages vm \<noteq> None"
    "slot p l \<Longrightarrow> leaf (kw vm) R r p l = Some e \<Longrightarrow> leaf_ok vm fl R (r, p, l) e"
    "(r, p, l) \<in> owners (kw vm) R q \<Longrightarrow> (r', p', l') \<in> owners (kw vm) R q \<Longrightarrow> p' = p \<and> l' = l"
  using assms unfolding as_ok_def by (elim conjE; simp; fail)+

lemma owners_root: "(r, p, l) \<in> owners m R q \<Longrightarrow> r \<in> R"
  using walk_root [of m R r p] by (auto simp: owners_def leaf_def split: option.splits)

lemma owners_bound:
  assumes "as_ok vm fl R"
  shows "finite (owners (kw vm) R q)" "card (owners (kw vm) R q) \<le> card R"
proof -
  have i: "inj_on fst (owners (kw vm) R q)"
    using as_okD(7) [OF assms] by (auto simp: inj_on_def)
  have s: "fst ` owners (kw vm) R q \<subseteq> R" using owners_root by fastforce
  show "finite (owners (kw vm) R q)" using finite_subset [OF s as_okD(3) [OF assms]] i by (rule finite_imageD)
  show "card (owners (kw vm) R q) \<le> card R" using card_mono [OF as_okD(3) [OF assms] s] card_image [OF i] by simp
qed

lemma ownersI: "slot p l \<Longrightarrow> leaf m R r p l = Some e \<Longrightarrow> (r, p, l) \<in> owners m R (child e)"
  by (auto simp: owners_def)

lemma ownersE: "(r, p, l) \<in> owners m R q \<Longrightarrow> \<exists>e. slot p l \<and> leaf m R r p l = Some e \<and> child e = q"
  by (auto simp: owners_def)

subsection \<open>Rewiring one entry\<close>

lemma owners_rewire:
  assumes "\<And>r' p' l'. slot p' l' \<Longrightarrow> leaf m' R r' p' l' = (if (r', p', l') = (r, p, l) then Some e' else leaf m R r' p' l')" "slot p l"
  shows "owners m' R x = (owners m R x - {(r, p, l)}) \<union> (if child e' = x then {(r, p, l)} else {})"
proof (intro set_eqI)
  fix y :: "u64 \<times> u64 list \<times> u64"
  obtain r1 p1 l1 where y: "y = (r1, p1, l1)" by (cases y)
  show "y \<in> owners m' R x \<longleftrightarrow> y \<in> (owners m R x - {(r, p, l)}) \<union> (if child e' = x then {(r, p, l)} else {})"
  proof (cases "(r1, p1, l1) = (r, p, l)")
    case True
    then show ?thesis using assms(1) [OF assms(2), of r] assms(2) unfolding y by (simp add: owners_def)
  next
    case False
    then have "leaf m' R r1 p1 l1 = leaf m R r1 p1 l1" if "slot p1 l1" using assms(1) [OF that, of r1] by (simp only: False if_False)
    then have "(r1, p1, l1) \<in> owners m' R x \<longleftrightarrow> (r1, p1, l1) \<in> owners m R x" by (simp add: owners_def cong: conj_cong)
    then show ?thesis using False unfolding y by (auto simp only: Un_iff Diff_iff singleton_iff empty_iff simp_thms split: if_split)
  qed
qed

lemma as_ok_rewire:
  assumes ok: "as_ok vm fl R" and s: "slot p l"
    and inv': "pa_inv vm' fl'" "tree (kw vm') R (in_use vm' fl')" "pages vm' \<noteq> None"
    and leaf': "\<And>r' p' l'. slot p' l' \<Longrightarrow> leaf (kw vm') R r' p' l' = (if (r', p', l') = (r, p, l) then Some e' else leaf (kw vm) R r' p' l')"
    and use': "in_use vm fl \<subseteq> in_use vm' fl'" "tabs (kw vm') R \<inter> in_use vm fl \<subseteq> tabs (kw vm) R"
    and q': "child e' \<in> in_use vm' fl'" "child e' \<notin> tabs (kw vm') R"
    and va: "\<And>r1 p1 l1. (r1, p1, l1) \<in> owners (kw vm) R (child e') \<Longrightarrow> p1 = p \<and> l1 = l"
    and count: "unat (refcount (pg vm' (child e'))) = card (insert (r, p, l) (owners (kw vm) R (child e')))"
      "\<And>x. x \<noteq> child e' \<Longrightarrow> x \<in> in_use vm fl \<Longrightarrow> owners (kw vm) R x - {(r, p, l)} \<noteq> {} \<Longrightarrow>
         unat (refcount (pg vm' x)) = card (owners (kw vm) R x - {(r, p, l)})"
    and wr: "pte_is_writable e' \<Longrightarrow> owners (kw vm) R (child e') \<subseteq> {(r, p, l)}"
      "\<And>r1 p1 l1 e1. slot p1 l1 \<Longrightarrow> leaf (kw vm) R r1 p1 l1 = Some e1 \<Longrightarrow> child e1 = child e' \<Longrightarrow> (r1, p1, l1) \<noteq> (r, p, l) \<Longrightarrow> \<not> pte_is_writable e1"
  shows "as_ok vm' fl' R"
proof -
  have O: "owners (kw vm') R x = (owners (kw vm) R x - {(r, p, l)}) \<union> (if child e' = x then {(r, p, l)} else {})" for x
    by (rule owners_rewire [OF _ s]) (rule leaf')
  have lo: "leaf_ok vm' fl' R (r1, p1, l1) e1" if s1: "slot p1 l1" and l1: "leaf (kw vm') R r1 p1 l1 = Some e1" for r1 p1 l1 e1
  proof (cases "(r1, p1, l1) = (r, p, l)")
    case True
    then have e: "e1 = e'" using leaf' [OF s1, of r1] l1 by simp
    have "owners (kw vm') R (child e') = insert (r, p, l) (owners (kw vm) R (child e'))" unfolding O by auto
    then show ?thesis using q' count(1) wr(1) True unfolding e leaf_ok_def by auto
  next
    case False
    then have l0: "leaf (kw vm) R r1 p1 l1 = Some e1" using leaf' [OF s1, of r1] l1 by (simp only: if_False)
    have L: "child e1 \<in> in_use vm fl" "child e1 \<notin> tabs (kw vm) R" "pte_is_writable e1 \<Longrightarrow> owners (kw vm) R (child e1) = {(r1, p1, l1)}"
      using as_okD(6) [OF ok s1 l0] by (auto simp: leaf_ok_def)
    have o1: "(r1, p1, l1) \<in> owners (kw vm) R (child e1) - {(r, p, l)}" using ownersI [OF s1 l0] False by simp
    show ?thesis
    proof (cases "child e1 = child e'")
      case True
      have "owners (kw vm') R (child e1) = insert (r, p, l) (owners (kw vm) R (child e'))" unfolding O True by auto
      then show ?thesis using q' count(1) wr(2) [OF s1 l0 True False] True by (simp add: leaf_ok_def)
    next
      case ne: False
      have "owners (kw vm') R (child e1) = owners (kw vm) R (child e1) - {(r, p, l)}" unfolding O using ne by auto
      moreover have "unat (refcount (pg vm' (child e1))) = card (owners (kw vm) R (child e1) - {(r, p, l)})"
        using count(2) [OF ne L(1)] o1 by blast
      ultimately show ?thesis using L use' o1 by (auto simp: leaf_ok_def)
    qed
  qed
  have at: "p1 = p \<and> l1 = l" if "(r1, p1, l1) \<in> owners (kw vm') R (child e')" for r1 p1 l1
    using that va [of r1 p1 l1] unfolding O if_P [OF refl] by blast
  have sv: "p2 = p1 \<and> l2 = l1" if "(r1, p1, l1) \<in> owners (kw vm') R x" "(r2, p2, l2) \<in> owners (kw vm') R x" for x r1 p1 l1 r2 p2 l2
  proof (cases "x = child e'")
    case True
    then show ?thesis using at [of r1 p1 l1] at [of r2 p2 l2] that by simp
  next
    case False
    then have "(r1, p1, l1) \<in> owners (kw vm) R x" "(r2, p2, l2) \<in> owners (kw vm) R x" using that unfolding O by auto
    then show ?thesis by (rule as_okD(7) [OF ok])
  qed
  show ?thesis
    unfolding as_ok_def using inv' as_okD(3,4) [OF ok] lo sv by blast
qed

subsection \<open>Access bits of an entry\<close>

lemma valid_bit: "valid e \<longleftrightarrow> bit e 0"
  by (simp add: and_one_eq bit_0 odd_iff_mod_2_eq_one)

lemma ap_mask_bits: "(0xc0 :: u64) = mask 8 AND NOT (mask 6)" "(0x40 :: u64) = 2 ^ 6"
  by (simp_all add: mask_eq_exp_minus_1)

lemma bit_ap_rw: "bit (0x40 :: u64) n \<longleftrightarrow> n = 6"
  by (simp only: ap_mask_bits(2) bit_exp_iff) auto

lemma bit_ap_ro: "bit (0xc0 :: u64) n \<longleftrightarrow> n = 6 \<or> n = 7"
  unfolding ap_mask_bits(1) by (auto simp: bit_simps)

lemma access_bits: "drop_bit 6 (e AND PTE_AP_MASK) = (if bit e 7 then 2 else 0) OR (if bit e 6 then 1 else (0 :: u64))"
proof -
  have small: "n + 6 < 8 \<longleftrightarrow> n = 0 \<or> n = 1" for n :: nat by auto
  show ?thesis
    unfolding ap_mask_bits by (intro bit_word_eqI) (auto simp: bit_simps bit_1_iff bit_2_iff small add.commute intro!: gr0I split: if_splits)
qed

lemma pte_access: "pte_is_writable e \<longleftrightarrow> \<not> bit e 7" "pte_is_user e \<longleftrightarrow> bit e 6"
  unfolding pte_is_writable_def pte_is_user_def Let_def access_bits by (auto split: if_splits)

lemma child_cong: "e' AND PTE_ADDR_MASK = e AND PTE_ADDR_MASK \<Longrightarrow> child e' = child e"
  by (simp add: child_def)

lemma set_access:
  fixes e :: u64
  assumes "v = PTE_AP_EL0_RW \<or> v = PTE_AP_EL0_RO"
  defines "e' \<equiv> (e AND NOT PTE_AP_MASK) OR v"
  shows "child e' = child e" "e' AND PTE_ADDR_MASK = e AND PTE_ADDR_MASK" "valid e' \<longleftrightarrow> valid e"
    "pte_is_writable e' \<longleftrightarrow> v = PTE_AP_EL0_RW" "pte_is_user e'"
proof -
  have b: "6 \<le> n \<and> n < 8" if "bit v n" for n using assms(1) that bit_ap_rw [of n] bit_ap_ro [of n] by auto
  show m: "e' AND PTE_ADDR_MASK = e AND PTE_ADDR_MASK"
    unfolding e'_def mask_values ap_mask_bits(1) by (rule bit_word_eqI) (auto simp: bit_simps dest!: b)
  then show "child e' = child e" by (rule child_cong)
  have "bit e' 0 = bit e 0" unfolding e'_def ap_mask_bits(1) by (auto simp: bit_simps dest!: b)
  then show "valid e' \<longleftrightarrow> valid e" by (simp add: valid_bit)
  have "bit e' 7 \<longleftrightarrow> bit v 7" "bit e' 6 \<longleftrightarrow> bit v 6" unfolding e'_def ap_mask_bits(1) by (auto simp: bit_simps)
  then show "pte_is_writable e' \<longleftrightarrow> v = PTE_AP_EL0_RW" "pte_is_user e'"
    using assms(1) by (auto simp: pte_access bit_ap_rw bit_ap_ro)
qed

lemma set_frame:
  fixes e :: u64
  assumes "kpage n"
  defines "e' \<equiv> (kernel_phys_addr n AND PTE_ADDR_MASK) OR (e AND NOT PTE_ADDR_MASK)"
  shows "child e' = n" "valid e' \<longleftrightarrow> valid e"
proof -
  have "e' AND PTE_ADDR_MASK = n AND PTE_ADDR_MASK"
    unfolding e'_def kernel_phys_addr_def mask_values by (rule bit_word_eqI) (auto simp: bit_simps)
  then show "child e' = n" using direct_map_masked [OF assms(1)] by (simp add: child_def)
  have "bit e' 0 = bit e 0" unfolding e'_def mask_values by (auto simp: bit_simps)
  then show "valid e' \<longleftrightarrow> valid e" by (simp add: valid_bit)
qed

lemma pfn_child: "pfn (e AND PTE_ADDR_MASK) = pfn (child e)"
  unfolding child_def kernel_direct_map_va_def kernel_phys_addr_def mask_values
  by (rule bit_word_eqI) (auto simp: bit_simps)

subsection \<open>Effects on the page structs\<close>

definition same_core :: "vm \<Rightarrow> vm \<Rightarrow> bool" where
  "same_core vm vm' \<longleftrightarrow>
     kw vm' = kw vm \<and> pool_start vm' = pool_start vm \<and> next_free_page vm' = next_free_page vm \<and> free_list vm' = free_list vm"

lemma same_core_facts:
  assumes "same_core vm vm'"
  shows "kw vm' = kw vm" "pool_end vm' = pool_end vm" "in_use vm' fl = in_use vm fl" "pa_inv vm' fl = pa_inv vm fl"
proof -
  show k: "kw vm' = kw vm" and pe: "pool_end vm' = pool_end vm"
    using assms by (simp_all add: same_core_def pool_end_def page_allocator_init_def)
  show "in_use vm' fl = in_use vm fl" "pa_inv vm' fl = pa_inv vm fl"
    using assms pe unfolding in_use_def pa_inv_def by (simp_all add: same_core_def)
qed

lemma same_core_trans: "same_core a b \<Longrightarrow> same_core b c \<Longrightarrow> same_core a c"
  by (simp add: same_core_def)

text \<open>\<open>upd_pg q f\<close>: nothing but the page struct of \<open>q\<close> (and statistics) changes.\<close>

definition upd_pg :: "u64 \<Rightarrow> (page \<Rightarrow> page) \<Rightarrow> vm \<Rightarrow> vm \<Rightarrow> bool" where
  "upd_pg q f vm vm' \<longleftrightarrow> same_core vm vm' \<and> (\<exists>a. pages vm = Some a \<and> pages vm' = Some (a(pfn q := f (a (pfn q)))))"

lemma upd_pg_pg:
  assumes "upd_pg q f vm vm'"
  shows "pg vm' q = f (pg vm q)" "kpage q \<Longrightarrow> kpage x \<Longrightarrow> x \<noteq> q \<Longrightarrow> pg vm' x = pg vm x" "pages vm' \<noteq> None" "same_core vm vm'"
  using assms pfn_inj [of x q] by (auto simp: upd_pg_def pg_def)

lemma pfn_int: "pages vm \<noteq> None \<Longrightarrow> phys_pa_to_pfn a vm = uint (pfn a)"
  by (simp only: phys_pa_to_pfn_def if_False)

lemma page_of_pfn: "pages vm \<noteq> None \<Longrightarrow> page_of (phys_pa_to_pfn (e AND PTE_ADDR_MASK) vm) vm = pg vm (child e)"
  by (simp add: page_of_def pg_def word_of_pfn pfn_child)

lemma set_page_upd:
  assumes "pages vm \<noteq> None" "f (pg vm (child e)) = p" "same_core (set_page (phys_pa_to_pfn (e AND PTE_ADDR_MASK) vm) p vm) vm'"
    "pages vm' = pages (set_page (phys_pa_to_pfn (e AND PTE_ADDR_MASK) vm) p vm)"
  shows "upd_pg (child e) f vm vm'"
  using assms by (auto simp: upd_pg_def same_core_def set_page_def word_of_pfn pfn_child pg_def)

lemma inc_upd: "pages vm \<noteq> None \<Longrightarrow> upd_pg (child e) (\<lambda>p. p\<lparr>refcount := refcount p + 1\<rparr>) vm (inc_pte_refcount_pa (e AND PTE_ADDR_MASK) vm)"
  by (rule set_page_upd [OF _ refl]) (auto simp: inc_pte_refcount_pa_def Let_def page_of_pfn same_core_def)

lemma set_cow_upd: "pages vm \<noteq> None \<Longrightarrow> upd_pg (child e) (\<lambda>p. p\<lparr>pflags := pflags p OR 1\<rparr>) vm (pte_set_cow_flag (e AND PTE_ADDR_MASK) 1 vm)"
  by (rule set_page_upd [OF _ refl]) (auto simp: pte_set_cow_flag_def Let_def page_of_pfn same_core_def)

lemma clear_cow_upd: "pages vm \<noteq> None \<Longrightarrow> upd_pg (child e) (\<lambda>p. p\<lparr>pflags := pflags p AND NOT 1\<rparr>) vm (pte_clear_cow_flag (e AND PTE_ADDR_MASK) 1 vm)"
  by (rule set_page_upd [OF _ refl]) (auto simp: pte_clear_cow_flag_def Let_def page_of_pfn same_core_def)

lemma dec_upd:
  assumes "pages vm \<noteq> None" "1 < unat (refcount (pg vm (child e)))"
  obtains vm' where "dec_pte_refcount_pa (e AND PTE_ADDR_MASK) vm = Inr vm'" "upd_pg (child e) (\<lambda>p. p\<lparr>refcount := refcount p - 1\<rparr>) vm vm'"
proof -
  let ?n = "phys_pa_to_pfn (e AND PTE_ADDR_MASK) vm" and ?vm = "drop_owner (phys_pa_to_pfn (e AND PTE_ADDR_MASK) vm) vm"
  have u: "upd_pg (child e) (\<lambda>p. p\<lparr>refcount := refcount p - 1\<rparr>) vm ?vm"
    by (rule set_page_upd [OF assms(1) refl]) (auto simp: drop_owner_def Let_def page_of_pfn [OF assms(1)] same_core_def)
  have n: "phys_pa_to_pfn (e AND PTE_ADDR_MASK) ?vm = ?n" using pfn_int [OF assms(1)] pfn_int [OF upd_pg_pg(3) [OF u]] by metis
  have "page_of ?n ?vm = pg ?vm (child e)" using page_of_pfn [OF upd_pg_pg(3) [OF u], of e] unfolding n .
  then have r: "refcount (page_of ?n ?vm) = refcount (pg vm (child e)) - 1" using upd_pg_pg(1) [OF u] by simp
  have "refcount (pg vm (child e)) \<noteq> 0" "refcount (pg vm (child e)) - 1 \<noteq> 0"
    using assms(2) by (auto simp: unat_eq_0 eq_iff_diff_eq_0 [symmetric])
  then have "dec_pte_refcount_pa (e AND PTE_ADDR_MASK) vm = Inr ?vm"
    using assms(1) r page_of_pfn [OF assms(1), of e] by (auto simp: dec_pte_refcount_pa_def Let_def)
  then show thesis using u that by blast
qed

subsection \<open>What a process reads\<close>

definition peek :: "vm \<Rightarrow> u64 \<Rightarrow> u64 \<Rightarrow> u64 \<Rightarrow> u64 option" where
  "peek vm r va i = (let page = pt_get_mapped_page r (align_down va) vm in if page = 0 then None else Some (kw vm page i))"

lemma align_down_slot: "vpath (align_down va) = vpath va" "l3_index (align_down va) = l3_index va" "align_down va AND PAGE_MASK = 0"
proof -
  have "align_down va AND PTE_ADDR_MASK = va AND PTE_ADDR_MASK"
    unfolding align_down_def mask_values by (rule bit_word_eqI) (auto simp: bit_simps)
  then show "vpath (align_down va) = vpath va" "l3_index (align_down va) = l3_index va" using same_slot [of "align_down va" va] by auto
  show "align_down va AND PAGE_MASK = 0" unfolding align_down_def mask_values by (rule bit_word_eqI) (auto simp: bit_simps)
qed

lemma child_not_0: "child e \<noteq> 0"
proof
  assume z: "child e = 0"
  have "bit (child e) 63" unfolding child_def kernel_direct_map_va_def mask_values by (simp add: bit_simps)
  then show False unfolding z by simp
qed

lemma mapped_page_aligned:
  assumes "r \<in> R" "r \<noteq> 0"
  shows "pt_get_mapped_page r (align_down va) vm = (case leaf (kw vm) R r (vpath va) (l3_index va) of None \<Rightarrow> 0 | Some e \<Rightarrow> child e)"
  using assms align_down_slot [of va] by (simp add: mapped_page_leaf [OF assms] child_def split: option.split)

lemma peek_leaf:
  assumes "r \<in> R" "r \<noteq> 0"
  shows "peek vm r va i = map_option (\<lambda>e. kw vm (child e) i) (leaf (kw vm) R r (vpath va) (l3_index va))"
  by (simp add: peek_def Let_def mapped_page_aligned [OF assms] child_not_0 split: option.split)

lemma root_not_0: "as_ok vm fl R \<Longrightarrow> r \<in> R \<Longrightarrow> r \<noteq> 0"
  using treeD(1) [OF as_okD(2), of vm fl R r "[]" r] in_use_kpage [of r vm fl] by auto

lemma tables_same:
  assumes "\<forall>t \<in> tabs m R. m' t = m t"
  shows "okp p \<Longrightarrow> walk m' R r p = walk m R r p" "slot p l \<Longrightarrow> leaf m' R r p l = leaf m R r p l"
    "tree m R U \<Longrightarrow> tree m' R U" "tabs m' R = tabs m R"
proof -
  have tm: "m' t = m t" if "okp p" "walk m R r p = Some t" for r p t using assms that unfolding tabs_def by blast
  have W: "walk m' R r p = walk m R r p" if "okp p" for r p by (rule walk_keep [OF _ that]) (simp add: tm)
  then show "okp p \<Longrightarrow> walk m' R r p = walk m R r p" .
  show "slot p l \<Longrightarrow> leaf m' R r p l = leaf m R r p l"
    using W [OF slot_okp(1), of p l r] tm [OF slot_okp(1), of p l r] by (simp add: leaf_def split: option.split)
  show t: "tabs m' R = tabs m R" using W unfolding tabs_def by metis
  show "tree m R U \<Longrightarrow> tree m' R U" using tree_same_walk(1) [of m R U m' U] W by blast
qed

lemma copy_page_entry:
  assumes "kpage n" "child e \<noteq> n"
  shows "copy_phys_page (e AND PTE_ADDR_MASK) (kernel_phys_addr n) vm =
    vm\<lparr>kw := (kw vm)(n := \<lambda>i. if i < 512 then kw vm (child e) i else kw vm n i)\<rparr>"
  using assms unfolding child_def by (simp add: copy_phys_page_def Let_def direct_map_phys fold_page_copy)

lemma cow_fault_entry:
  assumes "r \<in> R"
  shows "cow_fault r va vm =
     (case walk (kw vm) R r (vpath va) of
        Some t \<Rightarrow> if valid (kw vm t (l3_index va)) then cow_entry t (l3_index va) (kw vm t (l3_index va)) vm
          else Inr (Some ''Data Abort COW: missing L3 entry'', vm)
      | None \<Rightarrow> cow_fault r va vm)" "walk (kw vm) R r (vpath va) = None \<Longrightarrow> \<exists>msg. cow_fault r va vm = Inr (Some msg, vm)"
  using assms by (simp_all add: cow_fault_def Let_def child_def split: if_splits)

subsection \<open>The write fault keeps the invariant\<close>

lemma pa_inv_write:
  assumes "pa_inv vm fl" "\<And>p. p \<in> set fl \<Longrightarrow> kw vm' p = kw vm p" "pool_start vm' = pool_start vm"
    "next_free_page vm' = next_free_page vm" "free_list vm' = free_list vm"
  shows "pa_inv vm' fl" "in_use vm' fl = in_use vm fl"
proof -
  have pe: "pool_end vm' = pool_end vm" using assms(3,4) by (rule pool_end_keep [rotated])
  have "fchain (kw vm') h fl = fchain (kw vm) h fl" for h by (rule fchain_cong) (simp add: assms(2))
  then show "pa_inv vm' fl" using assms(1,3,5) pe unfolding pa_inv_def by simp
  show "in_use vm' fl = in_use vm fl" using assms(3) pe by (simp add: in_use_def)
qed

lemma as_ok_cong:
  assumes "as_ok vm fl R" "kw vm' = kw vm" "pages vm' = pages vm" "pa_inv vm' fl" "in_use vm' fl = in_use vm fl"
  shows "as_ok vm' fl R"
  using assms unfolding as_ok_def leaf_ok_def pg_def by simp

lemma as_ok_core: "as_ok vm fl R \<Longrightarrow> same_core vm vm' \<Longrightarrow> pages vm' = pages vm \<Longrightarrow> as_ok vm' fl R"
  by (rule as_ok_cong) (auto simp: same_core_facts dest: as_okD(1))

lemma as_ok_init: "as_ok vm fl R \<Longrightarrow> as_ok (page_allocator_init vm) fl R"
  using as_okD(1) [of vm fl R] by (rule_tac as_ok_cong) (auto simp: init_keeps in_use_init pa_inv_def [of vm])

lemma notes_core [simp]:
  "same_core vm (page_table_note_cow_fault vm)" "same_core vm (page_table_note_cow_copy vm)"
  "same_core vm (page_table_note_tlb_flush vm)" "same_core vm (page_table_note_invalid_fault vm)"
  "same_core vm (page_table_note_anon_fault h st vm)"
  "pages (page_table_note_cow_fault vm) = pages vm" "pages (page_table_note_cow_copy vm) = pages vm"
  "pages (page_table_note_tlb_flush vm) = pages vm" "pages (page_table_note_invalid_fault vm) = pages vm"
  "pages (page_table_note_anon_fault h st vm) = pages vm"
  by (simp_all add: same_core_def page_table_note_cow_fault_def page_table_note_cow_copy_def page_table_note_tlb_flush_def
      page_table_note_invalid_fault_def page_table_note_anon_fault_def Let_def)

definition reads_same :: "vm \<Rightarrow> vm \<Rightarrow> u64 set \<Rightarrow> bool" where
  "reads_same vm vm' R \<longleftrightarrow> (\<forall>r p l i. slot p l \<longrightarrow> i < 512 \<longrightarrow>
     map_option (\<lambda>e. kw vm' (child e) i) (leaf (kw vm') R r p l) = map_option (\<lambda>e. kw vm (child e) i) (leaf (kw vm) R r p l))"

lemma reads_same_kw: "kw vm' = kw vm \<Longrightarrow> reads_same vm vm' R"
  by (simp add: reads_same_def)

text \<open>One entry changed to another page with the same words, all other mapped pages kept.\<close>

lemma reads_same_rewire:
  assumes lf: "\<And>r' p' l'. slot p' l' \<Longrightarrow> leaf (kw vm') R r' p' l' = (if (r', p', l') = (r, p, l) then Some e' else leaf (kw vm) R r' p' l')"
    and e: "leaf (kw vm) R r p l = Some e" "\<And>i. i < 512 \<Longrightarrow> kw vm' (child e') i = kw vm (child e) i"
    and others: "\<And>r1 p1 l1 e1. slot p1 l1 \<Longrightarrow> leaf (kw vm) R r1 p1 l1 = Some e1 \<Longrightarrow> kw vm' (child e1) = kw vm (child e1)"
  shows "reads_same vm vm' R"
  unfolding reads_same_def
proof (intro allI impI)
  fix r1 p1 l1 i assume s1: "slot p1 l1" and i: "i < (512 :: u64)"
  show "map_option (\<lambda>e. kw vm' (child e) i) (leaf (kw vm') R r1 p1 l1) = map_option (\<lambda>e. kw vm (child e) i) (leaf (kw vm) R r1 p1 l1)"
  proof (cases "(r1, p1, l1) = (r, p, l)")
    case True
    then show ?thesis using lf [OF s1, of r1] e(1) e(2) [OF i] by simp
  next
    case False
    then have eq: "leaf (kw vm') R r1 p1 l1 = leaf (kw vm) R r1 p1 l1" using lf [OF s1, of r1] by (simp only: if_False)
    show ?thesis unfolding eq by (cases "leaf (kw vm) R r1 p1 l1") (simp_all add: others [OF s1])
  qed
qed

text \<open>Rewriting the access bits of an entry, with a page struct update that keeps the count.\<close>

lemma retouch_entry:
  assumes ok: "as_ok vm fl R" and w: "walk (kw vm) R r p = Some t" and s: "slot p l" and e: "leaf (kw vm) R r p l = Some e"
    and e': "child e' = child e" "valid e'" and sole: "pte_is_writable e' \<Longrightarrow> owners (kw vm) R (child e) = {(r, p, l)}"
    and u: "upd_pg (child e) f vm vm1" "\<And>x. refcount (f x) = refcount x"
  shows "as_ok (set_word t l e' vm1) fl R" "reads_same vm (set_word t l e' vm1) R"
    "slot p' l' \<Longrightarrow> leaf (kw (set_word t l e' vm1)) R r' p' l' = (if (r', p', l') = (r, p, l) then Some e' else leaf (kw vm) R r' p' l')"
proof -
  note D = as_okD [OF ok]
  have k: "kw vm1 = kw vm" "in_use vm1 fl = in_use vm fl" "pa_inv vm1 fl" "pages vm1 \<noteq> None"
    using same_core_facts [OF upd_pg_pg(4) [OF u(1)]] D(1) upd_pg_pg(3) [OF u(1)] by simp_all
  let ?v = "set_word t l e' vm1"
  have tU: "t \<in> in_use vm fl" "t \<in> tabs (kw vm) R" using treeD(1,2) [OF D(2) w slot_okp(1) [OF s]] .
  note L = leaf_write [OF D(2) w s, where e = e']
  have lf: "leaf (kw ?v) R r' p' l' = (if (r', p', l') = (r, p, l) then Some e' else leaf (kw vm) R r' p' l')" if "slot p' l'" for r' p' l'
    using L(4) [OF that, where r' = r'] e'(2) k(1) by simp
  then show "slot p' l' \<Longrightarrow> leaf (kw ?v) R r' p' l' = (if (r', p', l') = (r, p, l) then Some e' else leaf (kw vm) R r' p' l')" .
  have lo: "leaf_ok vm fl R (r, p, l) e" by (rule D(6) [OF s e])
  have cU: "child e \<in> in_use vm fl" "child e \<notin> tabs (kw vm) R" using lo by (auto simp: leaf_ok_def)
  have own: "(r, p, l) \<in> owners (kw vm) R (child e)" by (rule ownersI [OF s e])
  have rc: "refcount (pg ?v x) = refcount (pg vm x)" if "x \<in> in_use vm fl" for x
  proof -
    have "pg ?v x = pg vm1 x" by (simp add: pg_def)
    then show ?thesis using upd_pg_pg(1,2) [OF u(1)] u(2) in_use_kpage [OF that] in_use_kpage [OF cU(1)] by (cases "x = child e") auto
  qed
  show "as_ok ?v fl R"
  proof (rule as_ok_rewire [OF ok s, where e' = e' and r = r])
    show "pa_inv ?v fl" using set_word_inv [OF k(3)] tU(1) k(2) by simp
    show "tree (kw ?v) R (in_use ?v fl)" using L(2) k(1,2) by simp
    show "pages ?v \<noteq> None" using k(4) by simp
    show "in_use vm fl \<subseteq> in_use ?v fl" "child e' \<in> in_use ?v fl" using k(2) cU(1) e'(1) by simp_all
    show "tabs (kw ?v) R \<inter> in_use vm fl \<subseteq> tabs (kw vm) R" "child e' \<notin> tabs (kw ?v) R"
      using L(3) k(1) cU(2) e'(1) by auto
    show "p1 = p \<and> l1 = l" if "(r1, p1, l1) \<in> owners (kw vm) R (child e')" for r1 p1 l1
      using D(7) [OF own] that e'(1) by simp
    show "unat (refcount (pg ?v (child e'))) = card (insert (r, p, l) (owners (kw vm) R (child e')))"
      using lo rc [OF cU(1)] own e'(1) by (simp add: leaf_ok_def insert_absorb)
    show "unat (refcount (pg ?v x)) = card (owners (kw vm) R x - {(r, p, l)})"
      if x: "x \<noteq> child e'" "x \<in> in_use vm fl" "owners (kw vm) R x - {(r, p, l)} \<noteq> {}" for x
    proof -
      have ns: "(r, p, l) \<notin> owners (kw vm) R x" using x(1) e e'(1) by (auto simp: owners_def)
      obtain r1 p1 l1 where "(r1, p1, l1) \<in> owners (kw vm) R x" using x(3) by auto
      then obtain e1 where "slot p1 l1" "leaf (kw vm) R r1 p1 l1 = Some e1" "child e1 = x" using ownersE by blast
      then have "unat (refcount (pg vm x)) = card (owners (kw vm) R x)" using D(6) by (auto simp: leaf_ok_def)
      then show ?thesis using ns rc [OF x(2)] by simp
    qed
    show "owners (kw vm) R (child e') \<subseteq> {(r, p, l)}" if "pte_is_writable e'" using sole [OF that] e'(1) by simp
    show "\<not> pte_is_writable e1"
      if "slot p1 l1" "leaf (kw vm) R r1 p1 l1 = Some e1" "child e1 = child e'" "(r1, p1, l1) \<noteq> (r, p, l)" for r1 p1 l1 e1
    proof
      assume "pte_is_writable e1"
      then have "owners (kw vm) R (child e) = {(r1, p1, l1)}" using D(6) [OF that(1,2)] that(3) e'(1) by (simp add: leaf_ok_def)
      then show False using own that(4) by auto
    qed
  qed (rule lf)
  have kx: "kw ?v x = kw vm x" if "x \<notin> tabs (kw vm) R" for x using that tU(2) k(1) by auto
  show "reads_same vm ?v R"
  proof (rule reads_same_rewire [where r = r and p = p and l = l and e = e and e' = e'])
    show "kw ?v (child e') i = kw vm (child e) i" for i using kx [OF cU(2)] e'(1) by simp
    show "kw ?v (child e1) = kw vm (child e1)" if "slot p1 l1" "leaf (kw vm) R r1 p1 l1 = Some e1" for r1 p1 l1 e1
      by (rule kx) (use D(6) [OF that] in \<open>simp add: leaf_ok_def\<close>)
    show "leaf (kw vm) R r p l = Some e" by (rule e)
  qed (rule lf)
qed

lemma as_ok_flags:
  assumes ok: "as_ok vm fl R" and u: "upd_pg q f vm vm'" "\<And>x. refcount (f x) = refcount x"
  shows "as_ok vm' fl R"
proof -
  note c = same_core_facts [OF upd_pg_pg(4) [OF u(1)]]
  have rc: "refcount (pg vm' x) = refcount (pg vm x)" for x
    using u by (cases "pfn x = pfn q") (auto simp: upd_pg_def pg_def)
  show ?thesis using ok upd_pg_pg(3) [OF u(1)] unfolding as_ok_def leaf_ok_def c rc by simp
qed

lemma cow_sole_owner:
  assumes ok: "as_ok vm fl R" and w: "walk (kw vm) R r p = Some t" and s: "slot p l" and v: "valid (kw vm t l)"
    and sole: "owners (kw vm) R (child (kw vm t l)) = {(r, p, l)}"
  defines "vm' \<equiv> pte_clear_cow_flag (kw vm t l AND PTE_ADDR_MASK) PTE_FLAG_COW (pte_clear_cow_and_make_writable t l vm)"
  shows "as_ok vm' fl R" "reads_same vm vm' R" "\<exists>e'. leaf (kw vm') R r p l = Some e' \<and> pte_is_writable e' \<and> pte_is_user e'"
proof -
  let ?e = "kw vm t l" and ?e' = "(kw vm t l AND NOT PTE_AP_MASK) OR PTE_AP_EL0_RW"
  note A = set_access [OF disjI1 [OF refl], of ?e]
  have e: "leaf (kw vm) R r p l = Some ?e" using w v by (simp add: leaf_def)
  have pn: "pages vm \<noteq> None" by (rule as_okD(5) [OF ok])
  let ?v1 = "pte_clear_cow_flag (?e AND PTE_ADDR_MASK) PTE_FLAG_COW vm"
  have u1: "upd_pg (child ?e) (\<lambda>p. p\<lparr>pflags := pflags p AND NOT 1\<rparr>) vm ?v1" by (rule clear_cow_upd [OF pn])
  let ?v2 = "set_word t l ?e' ?v1"
  note T = retouch_entry [OF ok w s e A(1) _ _ u1]
  have T1: "as_ok ?v2 fl R" "reads_same vm ?v2 R" "leaf (kw ?v2) R r p l = Some ?e'"
    using T(1,2) T(3) [OF _ _ _ s] A(3) v sole by simp_all
  have pn2: "pages ?v2 \<noteq> None" using as_okD(5) [OF T1(1)] .
  have u2: "upd_pg (child ?e) (\<lambda>p. p\<lparr>pflags := pflags p AND NOT 1\<rparr>) ?v2 vm'"
    using clear_cow_upd [OF pn2, of ?e] by (simp add: vm'_def pte_clear_cow_and_make_writable_def Let_def)
  have k: "kw vm' = kw ?v2" using same_core_facts(1) [OF upd_pg_pg(4) [OF u2]] .
  show "as_ok vm' fl R" by (rule as_ok_flags [OF T1(1) u2]) simp
  show "reads_same vm vm' R" using T1(2) unfolding reads_same_def k .
  show "\<exists>e'. leaf (kw vm') R r p l = Some e' \<and> pte_is_writable e' \<and> pte_is_user e'" unfolding k using T1(3) A(4,5) by (intro exI [of _ ?e'] conjI) (simp_all only: simp_thms)
qed

lemma owned_count:
  assumes "as_ok vm fl R" "owners (kw vm) R x \<noteq> {}"
  shows "unat (refcount (pg vm x)) = card (owners (kw vm) R x)" "x \<in> in_use vm fl" "x \<notin> tabs (kw vm) R"
proof -
  obtain r1 p1 l1 where "(r1, p1, l1) \<in> owners (kw vm) R x" using assms(2) by auto
  then obtain e1 where "slot p1 l1" "leaf (kw vm) R r1 p1 l1 = Some e1" "child e1 = x" using ownersE by blast
  then have "leaf_ok vm fl R (r1, p1, l1) e1" "child e1 = x" using as_okD(6) [OF assms(1)] by auto
  then show "unat (refcount (pg vm x)) = card (owners (kw vm) R x)" "x \<in> in_use vm fl" "x \<notin> tabs (kw vm) R"
    by (auto simp: leaf_ok_def)
qed

text \<open>An entry that pointed nowhere or to a shared page now points to a fresh page.\<close>

lemma as_ok_fresh_page:
  assumes ok: "as_ok vm fl R" and w: "walk (kw vm) R r p = Some t" and s: "slot p l"
    and f: "fresh vm fl n vm1 fl1"
    and e': "child e' = n" "valid e'"
    and kw': "kw vm' = m(t := (m t)(l := e'))" "\<And>x. x \<noteq> n \<Longrightarrow> m x = kw vm x"
    and core: "pool_start vm' = pool_start vm1" "next_free_page vm' = next_free_page vm1" "free_list vm' = free_list vm1" "pages vm' \<noteq> None"
    and rc: "refcount (pg vm' n) = 1"
      "\<And>x. x \<in> in_use vm fl \<Longrightarrow> (r, p, l) \<in> owners (kw vm) R x \<Longrightarrow> owners (kw vm) R x \<noteq> {(r, p, l)} \<Longrightarrow>
         unat (refcount (pg vm' x)) = unat (refcount (pg vm x)) - 1"
      "\<And>x. x \<in> in_use vm fl \<Longrightarrow> (r, p, l) \<notin> owners (kw vm) R x \<Longrightarrow> refcount (pg vm' x) = refcount (pg vm x)"
  shows "as_ok vm' fl1 R"
    "\<And>r' p' l'. slot p' l' \<Longrightarrow> leaf (kw vm') R r' p' l' = (if (r', p', l') = (r, p, l) then Some e' else leaf (kw vm) R r' p' l')"
    "\<And>x. x \<in> in_use vm fl \<Longrightarrow> x \<notin> tabs (kw vm) R \<Longrightarrow> kw vm' x = kw vm x" "kw vm' n = m n"
    "in_use vm' fl1 = insert n (in_use vm fl)" "tabs (kw vm') R = tabs (kw vm) R"
proof -
  note D = as_okD [OF ok]
  have F: "pa_inv vm1 fl1" "kpage n" "n \<notin> in_use vm fl" "in_use vm1 fl1 = insert n (in_use vm fl)" "\<And>q. q \<noteq> n \<Longrightarrow> kw vm1 q = kw vm q"
    using f by (auto simp: fresh_def)
  have tU: "t \<in> in_use vm fl" "t \<in> tabs (kw vm) R" using treeD(1,2) [OF D(2) w slot_okp(1) [OF s]] .
  have nt: "n \<notin> tabs (kw vm) R" "n \<noteq> t" using F(3) D(2) tU by (auto simp: tree_def)
  have fl1: "p \<noteq> n \<and> p \<noteq> t" if "p \<in> set fl1" for p using that F(4) tU(1) by (auto simp: in_use_def)
  have I: "pa_inv vm' fl1" "in_use vm' fl1 = in_use vm1 fl1"
    using pa_inv_write [OF F(1), of vm'] fl1 kw' F(5) core by auto
  then show use': "in_use vm' fl1 = insert n (in_use vm fl)" using F(4) by simp
  have same: "\<forall>x \<in> tabs (kw vm) R. m x = kw vm x" using kw'(2) nt(1) by metis
  note S = tables_same [OF same]
  have wm: "walk m R r p = Some t" using S(1) [OF slot_okp(1) [OF s]] w by simp
  note L = leaf_write [OF S(3) [OF D(2)] wm s, where e = e', folded kw'(1)]
  show tabs': "tabs (kw vm') R = tabs (kw vm) R" using L(3) S(4) by simp
  show lf: "leaf (kw vm') R r' p' l' = (if (r', p', l') = (r, p, l) then Some e' else leaf (kw vm) R r' p' l')" if "slot p' l'" for r' p' l'
    using L(4) [OF that, where r' = r'] S(2) [OF that, of r'] e'(2) by simp
  show "kw vm' n = m n" using kw'(1) nt(2) by simp
  show "kw vm' x = kw vm x" if "x \<in> in_use vm fl" "x \<notin> tabs (kw vm) R" for x
  proof -
    have "x \<noteq> t" "x \<noteq> n" using that tU(2) F(3) by auto
    then show ?thesis using kw' by simp
  qed
  have no: "owners (kw vm) R n = {}" using owned_count(2) [OF ok, of n] F(3) by blast
  show "as_ok vm' fl1 R"
  proof (rule as_ok_rewire [OF ok s, where e' = e' and r = r])
    have "tree (kw vm') R (in_use vm fl)" by (rule L(2))
    then show "tree (kw vm') R (in_use vm' fl1)" using use' by (auto simp: tree_def)
    show "in_use vm fl \<subseteq> in_use vm' fl1" "child e' \<in> in_use vm' fl1" "child e' \<notin> tabs (kw vm') R"
      using use' e'(1) nt(1) tabs' by auto
    show "unat (refcount (pg vm' (child e'))) = card (insert (r, p, l) (owners (kw vm) R (child e')))" using rc(1) no e'(1) by simp
    show "unat (refcount (pg vm' x)) = card (owners (kw vm) R x - {(r, p, l)})"
      if x: "x \<noteq> child e'" "x \<in> in_use vm fl" "owners (kw vm) R x - {(r, p, l)} \<noteq> {}" for x
    proof -
      have ne: "owners (kw vm) R x \<noteq> {}" using x(3) by auto
      note c = owned_count(1) [OF ok ne]
      show ?thesis
      proof (cases "(r, p, l) \<in> owners (kw vm) R x")
        case True
        then have "owners (kw vm) R x \<noteq> {(r, p, l)}" using x(3) by auto
        then show ?thesis using rc(2) [OF x(2) True] c True by (simp add: card_Diff_singleton)
      qed (use rc(3) [OF x(2)] c in simp)
    qed
    show "\<not> pte_is_writable e1"
      if "slot p1 l1" "leaf (kw vm) R r1 p1 l1 = Some e1" "child e1 = child e'" "(r1, p1, l1) \<noteq> (r, p, l)" for r1 p1 l1 e1
      using ownersI [OF that(1,2)] that(3) no e'(1) by simp
    show "tabs (kw vm') R \<inter> in_use vm fl \<subseteq> tabs (kw vm) R" using tabs' by auto
    show "owners (kw vm) R (child e') \<subseteq> {(r, p, l)}" "(r1, p1, l1) \<in> owners (kw vm) R (child e') \<Longrightarrow> p1 = p \<and> l1 = l" for r1 p1 l1
      using no e'(1) by auto
  qed (rule I core lf)+
qed

lemma fresh_pg:
  assumes f: "fresh vm fl n vm1 fl1" and pn: "pages vm \<noteq> None"
  shows "pg vm1 n = \<lparr>refcount = 1, pflags = 0\<rparr>" "x \<in> in_use vm fl \<Longrightarrow> pg vm1 x = pg vm x" "pages vm1 \<noteq> None"
proof -
  show "pg vm1 n = \<lparr>refcount = 1, pflags = 0\<rparr>" "pages vm1 \<noteq> None" using f pn by (auto simp: fresh_def pg_def)
  show "x \<in> in_use vm fl \<Longrightarrow> pg vm1 x = pg vm x"
    using fresh_pinfo [OF f, of x] f pn by (auto simp: pinfo_def pg_def fresh_def)
qed

lemma unat_pred: "1 < unat c \<Longrightarrow> unat (c - 1 :: u16) = unat c - 1"
  by (metis less_zeroE unat_minus_one unat_0)

lemma cow_shared:
  assumes ok: "as_ok vm fl R" and w: "walk (kw vm) R r p = Some t" and s: "slot p l" and v: "valid (kw vm t l)"
    and many: "1 < unat (refcount (pg vm (child (kw vm t l))))"
    and f: "fresh vm fl n vm1 fl1"
  defines "e \<equiv> kw vm t l"
  defines "vm2 \<equiv> page_table_note_cow_copy (copy_phys_page (e AND PTE_ADDR_MASK) (kernel_phys_addr n) vm1)"
  shows "\<exists>vm3. dec_pte_refcount_pa (e AND PTE_ADDR_MASK) vm2 = Inr vm3 \<and>
    (let vm' = pte_clear_cow_and_make_writable t l (set_word t l ((kernel_phys_addr n AND PTE_ADDR_MASK) OR (e AND NOT PTE_ADDR_MASK)) vm3)
     in as_ok vm' fl1 R \<and> reads_same vm vm' R \<and> (\<exists>e'. leaf (kw vm') R r p l = Some e' \<and> pte_is_writable e' \<and> pte_is_user e'))"
proof -
  note D = as_okD [OF ok]
  have lf: "leaf (kw vm) R r p l = Some e" using w v by (simp add: leaf_def e_def)
  have own: "(r, p, l) \<in> owners (kw vm) R (child e)" by (rule ownersI [OF s lf])
  have q: "child e \<in> in_use vm fl" "child e \<notin> tabs (kw vm) R" using D(6) [OF s lf] by (auto simp: leaf_ok_def)
  have F: "kpage n" "n \<notin> in_use vm fl" "\<And>x. x \<noteq> n \<Longrightarrow> kw vm1 x = kw vm x" using f by (auto simp: fresh_def)
  have qn: "child e \<noteq> n" "kpage (child e)" using q(1) F(2) in_use_kpage by auto
  define m where "m = (kw vm1)(n := \<lambda>i. if i < 512 then kw vm1 (child e) i else kw vm1 n i)"
  have k2: "kw vm2 = m" "pages vm2 = pages vm1" "same_core (vm1\<lparr>kw := m\<rparr>) vm2"
    by (simp_all add: vm2_def copy_page_entry [OF F(1) qn(1)] m_def page_table_note_cow_copy_def same_core_def)
  have pg2: "pg vm2 x = pg vm1 x" for x using k2(2) by (simp add: pg_def)
  have pn: "pages vm2 \<noteq> None" using fresh_pg(3) [OF f D(5)] k2(2) by simp
  have many2: "1 < unat (refcount (pg vm2 (child e)))" using many pg2 fresh_pg(2) [OF f D(5) q(1)] by (simp add: e_def)
  obtain vm3 where d: "dec_pte_refcount_pa (e AND PTE_ADDR_MASK) vm2 = Inr vm3" "upd_pg (child e) (\<lambda>p. p\<lparr>refcount := refcount p - 1\<rparr>) vm2 vm3"
    by (rule dec_upd [OF pn many2])
  define e2 where "e2 = (kernel_phys_addr n AND PTE_ADDR_MASK) OR (e AND NOT PTE_ADDR_MASK)"
  define e3 where "e3 = (e2 AND NOT PTE_AP_MASK) OR PTE_AP_EL0_RW"
  have c2: "child e2 = n" "valid e2" using set_frame [OF F(1), of e] v by (simp_all add: e2_def e_def)
  note A = set_access [OF disjI1 [OF refl], of e2, folded e3_def]
  let ?v4 = "set_word t l e2 vm3"
  have pn4: "pages ?v4 \<noteq> None" using upd_pg_pg(3) [OF d(2)] by simp
  have u5: "upd_pg n (\<lambda>p. p\<lparr>pflags := pflags p AND NOT 1\<rparr>) ?v4 (pte_clear_cow_flag (e2 AND PTE_ADDR_MASK) PTE_FLAG_COW ?v4)"
    using clear_cow_upd [OF pn4, of e2] unfolding c2(1) .
  define vm' where "vm' = pte_clear_cow_and_make_writable t l ?v4"
  have vm': "vm' = set_word t l e3 (pte_clear_cow_flag (e2 AND PTE_ADDR_MASK) PTE_FLAG_COW ?v4)"
    by (simp add: vm'_def pte_clear_cow_and_make_writable_def Let_def e3_def)
  note c5 = upd_pg_pg(4) [OF u5] and c3 = upd_pg_pg(4) [OF d(2)]
  have kw': "kw vm' = m(t := (m t)(l := e3))" using c5 c3 k2(1) by (simp add: vm' same_core_def)
  have core: "pool_start vm' = pool_start vm1" "next_free_page vm' = next_free_page vm1" "free_list vm' = free_list vm1" "pages vm' \<noteq> None"
    using c5 c3 k2(3) upd_pg_pg(3) [OF u5] by (simp_all add: vm' same_core_def)
  have pgx: "refcount (pg vm' x) = refcount (pg vm3 x)" if "kpage x" for x
  proof -
    have "pg vm' x = pg (pte_clear_cow_flag (e2 AND PTE_ADDR_MASK) PTE_FLAG_COW ?v4) x" "pg ?v4 x = pg vm3 x" by (simp_all add: vm' pg_def)
    then show ?thesis using upd_pg_pg(1,2) [OF u5] F(1) that by (cases "x = n") auto
  qed
  have pg3: "refcount (pg vm3 x) = (if x = child e then refcount (pg vm x) - 1 else refcount (pg vm x))" if "x \<in> in_use vm fl" for x
    using upd_pg_pg(1,2) [OF d(2)] qn(2) in_use_kpage [OF that] pg2 fresh_pg(2) [OF f D(5) that] by auto
  have rn: "refcount (pg vm' n) = 1"
    using pgx [OF F(1)] upd_pg_pg(2) [OF d(2) qn(2) F(1)] qn(1) pg2 fresh_pg(1) [OF f D(5)] by simp
  have oq: "(r, p, l) \<in> owners (kw vm) R x \<longleftrightarrow> x = child e" for x using own lf by (auto simp: owners_def)
  have rq: "unat (refcount (pg vm' x)) = unat (refcount (pg vm x)) - 1" if "x \<in> in_use vm fl" "(r, p, l) \<in> owners (kw vm) R x" for x
    using that pgx [OF in_use_kpage [OF that(1)]] pg3 [OF that(1)] many unat_pred [OF many] oq [of x] by (simp add: e_def)
  have ro: "refcount (pg vm' x) = refcount (pg vm x)" if "x \<in> in_use vm fl" "(r, p, l) \<notin> owners (kw vm) R x" for x
    using that pgx [OF in_use_kpage [OF that(1)]] pg3 [OF that(1)] oq [of x] by simp
  have mx: "m x = kw vm x" if "x \<noteq> n" for x using that F(3) by (simp add: m_def)
  note N = as_ok_fresh_page [OF ok w s f, where e' = e3 and m = m and vm' = vm']
  have c3: "child e3 = n" "valid e3" using A(1,3) c2 by simp_all
  have fin: "as_ok vm' fl1 R" "\<And>r' p' l'. slot p' l' \<Longrightarrow> leaf (kw vm') R r' p' l' = (if (r', p', l') = (r, p, l) then Some e3 else leaf (kw vm) R r' p' l')"
      "\<And>x. x \<in> in_use vm fl \<Longrightarrow> x \<notin> tabs (kw vm) R \<Longrightarrow> kw vm' x = kw vm x" "kw vm' n = m n"
    using N(1) [OF c3 kw' mx core rn rq ro] N(2) [OF c3 kw' mx core rn rq ro] N(3) [OF c3 kw' mx core rn rq ro] N(4) [OF c3 kw' mx core rn rq ro]
    by blast+
  have "reads_same vm vm' R"
  proof (rule reads_same_rewire [where r = r and p = p and l = l and e = e and e' = e3])
    show "leaf (kw vm) R r p l = Some e" by (rule lf)
    show "kw vm' (child e3) i = kw vm (child e) i" if "i < 512" for i using fin(4) that c3(1) F(3) qn(1) by (simp add: m_def)
    show "kw vm' (child e1) = kw vm (child e1)" if "slot p1 l1" "leaf (kw vm) R r1 p1 l1 = Some e1" for r1 p1 l1 e1
      using D(6) [OF that] by (intro fin(3)) (auto simp: leaf_ok_def)
  qed (rule fin(2))
  moreover have "leaf (kw vm') R r p l = Some e3" using fin(2) [OF s, of r] by simp
  moreover have "pte_is_writable e3" "pte_is_user e3" using A(4,5) by simp_all
  ultimately show ?thesis using d(1) fin(1) unfolding vm'_def e2_def Let_def by blast
qed

lemma cow_entry_outcome:
  assumes ok: "as_ok vm fl R" and w: "walk (kw vm) R r p = Some t" and s: "slot p l" and v: "valid (kw vm t l)"
  shows "\<exists>res vm' fl'. cow_entry t l (kw vm t l) vm = Inr (res, vm') \<and> as_ok vm' fl' R \<and> reads_same vm vm' R \<and>
    (res = None \<longrightarrow> (\<exists>e'. leaf (kw vm') R r p l = Some e' \<and> pte_is_writable e' \<and> pte_is_user e'))"
proof -
  let ?e = "kw vm t l"
  let ?a = "?e AND PTE_ADDR_MASK"
  let ?v = "page_table_note_cow_fault vm"
  have fatal: ?thesis if "cow_entry t l ?e vm = Inr (Some msg, vm')" "same_core vm vm'" "pages vm' = pages vm" for msg vm'
    using that as_ok_core [OF ok that(2,3)] reads_same_kw [OF same_core_facts(1) [OF that(2)]] by auto
  have okv: "as_ok ?v fl R" by (rule as_ok_core [OF ok]) simp_all
  have kv: "kw ?v = kw vm" by (rule same_core_facts(1)) simp
  have lf: "leaf (kw vm) R r p l = Some ?e" using w v by (simp add: leaf_def)
  have own: "(r, p, l) \<in> owners (kw vm) R (child ?e)" by (rule ownersI [OF s lf])
  have pn: "pages ?v \<noteq> None" by (rule as_okD(5) [OF okv])
  have flush: "as_ok (page_table_note_tlb_flush x) f R" "reads_same vm (page_table_note_tlb_flush x) R" "kw (page_table_note_tlb_flush x) = kw x"
    if "as_ok x f R" "reads_same vm x R" for x f
    using that as_ok_core [OF that(1)] same_core_facts(1) [of x "page_table_note_tlb_flush x"] by (simp_all add: reads_same_def)
  show ?thesis
  proof (cases "pte_is_user ?e \<and> pte_test_cow_flag ?a PTE_FLAG_COW vm")
    case False
    then show ?thesis
    proof (cases "pte_is_user ?e")
      case True
      then show ?thesis using False fatal [of _ "page_table_note_invalid_fault vm"] by (simp add: cow_entry_def)
    qed (use fatal [of _ vm] in \<open>simp add: cow_entry_def same_core_def\<close>)
  next
    case True
    have rc: "get_pte_refcount_pa ?a ?v = refcount (pg ?v (child ?e))"
      using pn page_of_pfn [OF pn, of ?e] by (auto simp: get_pte_refcount_pa_def Let_def)
    have pgv: "pg ?v x = pg vm x" for x by (simp add: pg_def)
    show ?thesis
    proof (cases "get_pte_refcount_pa ?a ?v > 1")
      case many: True
      then have m1: "1 < unat (refcount (pg ?v (child (kw ?v t l))))" unfolding rc kv by (simp add: word_less_nat_alt)
      have wv: "walk (kw ?v) R r p = Some t" "valid (kw ?v t l)" using w v kv by simp_all
      from alloc_page_outcome [OF as_okD(1) [OF okv]] show ?thesis
      proof (elim disjE exE conjE)
        assume a: "alloc_page ?v = (0, page_allocator_init ?v)"
        have "as_ok (page_allocator_init ?v) fl R" by (rule as_ok_init [OF okv])
        moreover have "reads_same vm (page_allocator_init ?v) R" by (rule reads_same_kw) (simp add: kv)
        ultimately show ?thesis using a True many by (auto simp: cow_entry_def Let_def)
      next
        fix n vm1 fl1 assume a: "alloc_page ?v = (n, vm1)" "n \<noteq> 0" "fresh ?v fl n vm1 fl1"
        note C = cow_shared [OF okv wv(1) s wv(2) m1 a(3), unfolded kv]
        let ?W = "\<lambda>vm3. pte_clear_cow_and_make_writable t l
            (set_word t l ((kernel_phys_addr n AND PTE_ADDR_MASK) OR (?e AND NOT PTE_ADDR_MASK)) vm3)"
        obtain vm3 where d: "dec_pte_refcount_pa ?a (page_table_note_cow_copy (copy_phys_page ?a (kernel_phys_addr n) vm1)) = Inr vm3"
            "as_ok (?W vm3) fl1 R" "reads_same ?v (?W vm3) R"
            "\<exists>e'. leaf (kw (?W vm3)) R r p l = Some e' \<and> pte_is_writable e' \<and> pte_is_user e'"
          using C
          unfolding Let_def by blast
        let ?w = "?W vm3"
        have "reads_same vm ?w R" using d(3) unfolding reads_same_def kv .
        note fw = flush [OF d(2) this]
        have run: "cow_entry t l ?e vm = Inr (None, page_table_note_tlb_flush ?w)"
          using a(1,2) d(1) True many by (simp add: cow_entry_def Let_def)
        show ?thesis
          by (rule exI [of _ None], rule exI [of _ "page_table_note_tlb_flush ?w"], rule exI [of _ fl1])
             (intro conjI impI run fw, unfold fw(3), rule d(4))
      qed
    next
      case few: False
      have fin: "finite (owners (kw vm) R (child ?e))" by (rule owners_bound [OF ok])
      have "card (owners (kw vm) R (child ?e)) \<le> 1"
        using few owned_count(1) [OF ok, of "child ?e"] empty_iff own unfolding rc pgv
        by (metis One_nat_def linorder_not_less unat_1 word_less_nat_alt)
      then have sole: "owners (kw vm) R (child ?e) = {(r, p, l)}"
        using own fin by (metis card_1_singletonE card_gt_0_iff empty_iff le_less_linear less_one nat_less_le singletonD)
      let ?w = "pte_clear_cow_flag ?a PTE_FLAG_COW (pte_clear_cow_and_make_writable t l ?v)"
      have C: "as_ok ?w fl R" "reads_same ?v ?w R" "\<exists>e'. leaf (kw ?w) R r p l = Some e' \<and> pte_is_writable e' \<and> pte_is_user e'"
        using cow_sole_owner [OF okv, of r p t l] w s v sole unfolding kv by blast+
      have "reads_same vm ?w R" using C(2) unfolding reads_same_def kv .
      note fw = flush [OF C(1) this]
      have run: "cow_entry t l ?e vm = Inr (None, page_table_note_tlb_flush ?w)"
        using True few by (simp add: cow_entry_def Let_def)
      show ?thesis
        by (rule exI [of _ None], rule exI [of _ "page_table_note_tlb_flush ?w"], rule exI [of _ fl])
           (intro conjI impI run fw, unfold fw(3), rule C(3))
    qed
  qed
qed

text \<open>C7. Copy on write is invisible and exclusive. The handler of a write fault in any address space keeps the
  invariant and never finds a reference count at zero. No address of any address space reads
  differently afterwards. When the handler lets the write proceed, the faulting page is writable
  and no other address of any address space maps the same physical page.\<close>

theorem cow_fault_isolates:
  assumes "as_ok vm fl R" "r \<in> R"
  shows "\<exists>res vm' fl'. cow_fault r va vm = Inr (res, vm') \<and> as_ok vm' fl' R \<and>
    (\<forall>r' \<in> R. \<forall>va' i. i < 512 \<longrightarrow> peek vm' r' va' i = peek vm r' va' i) \<and>
    (res = None \<longrightarrow> (\<exists>e. leaf (kw vm') R r (vpath va) (l3_index va) = Some e \<and> pte_is_writable e \<and> pte_is_user e) \<and>
       (\<forall>r' \<in> R. \<forall>va'. pt_get_mapped_page r' (align_down va') vm' = pt_get_mapped_page r (align_down va) vm' \<longrightarrow>
          r' = r \<and> align_down va' AND PTE_ADDR_MASK = align_down va AND PTE_ADDR_MASK))"
proof -
  have "\<exists>res vm' fl'. cow_fault r va vm = Inr (res, vm') \<and> as_ok vm' fl' R \<and> reads_same vm vm' R \<and>
      (res = None \<longrightarrow> (\<exists>e. leaf (kw vm') R r (vpath va) (l3_index va) = Some e \<and> pte_is_writable e \<and> pte_is_user e))"
  proof (cases "walk (kw vm) R r (vpath va)")
    case None
    then obtain msg where "cow_fault r va vm = Inr (Some msg, vm)" using cow_fault_entry(2) [OF assms(2)] by blast
    then show ?thesis using assms(1) reads_same_kw [OF refl] by blast
  next
    case (Some t)
    have c: "cow_fault r va vm = (if valid (kw vm t (l3_index va)) then cow_entry t (l3_index va) (kw vm t (l3_index va)) vm
          else Inr (Some ''Data Abort COW: missing L3 entry'', vm))"
      using cow_fault_entry(1) [OF assms(2), of va vm] unfolding Some by simp
    show ?thesis
    proof (cases "valid (kw vm t (l3_index va))")
      case True
      then show ?thesis using c cow_entry_outcome [OF assms(1) Some slot_of_va True] by (simp only: if_True simp_thms)
    next
      case False
      then show ?thesis using c assms(1) reads_same_kw [OF refl] by (simp only: if_False) blast
    qed
  qed
  then obtain res vm' fl' where o: "cow_fault r va vm = Inr (res, vm')" "as_ok vm' fl' R" "reads_same vm vm' R"
      "res = None \<longrightarrow> (\<exists>e. leaf (kw vm') R r (vpath va) (l3_index va) = Some e \<and> pte_is_writable e \<and> pte_is_user e)"
    by blast
  have same: "peek vm' r' va' i = peek vm r' va' i" if "r' \<in> R" "i < 512" for r' va' i
    using that o(3) root_not_0 [OF assms(1) that(1)] unfolding reads_same_def by (simp add: peek_leaf)
  have sole: "r' = r \<and> align_down va' AND PTE_ADDR_MASK = align_down va AND PTE_ADDR_MASK"
    if res: "res = None" and r': "r' \<in> R" and same: "pt_get_mapped_page r' (align_down va') vm' = pt_get_mapped_page r (align_down va) vm'" for r' va'
  proof -
    obtain e where e: "leaf (kw vm') R r (vpath va) (l3_index va) = Some e" "pte_is_writable e" using o(4) res by blast
    have own: "owners (kw vm') R (child e) = {(r, vpath va, l3_index va)}"
      using as_okD(6) [OF o(2) slot_of_va e(1)] e(2) by (simp add: leaf_ok_def)
    have "pt_get_mapped_page r (align_down va) vm' = child e"
      using e(1) by (simp add: mapped_page_aligned [OF assms(2) root_not_0 [OF assms]])
    then obtain e1 where e1: "leaf (kw vm') R r' (vpath va') (l3_index va') = Some e1" "child e1 = child e"
      using same child_not_0 [of e] by (auto simp: mapped_page_aligned [OF r' root_not_0 [OF assms(1) r']] split: option.splits)
    have "(r', vpath va', l3_index va') \<in> owners (kw vm') R (child e)" using ownersI [OF slot_of_va e1(1)] e1(2) by simp
    then show ?thesis
      using own same_slot [of "align_down va'" "align_down va"] align_down_slot [of va] align_down_slot [of va'] by auto
  qed
  show ?thesis
    by (intro exI [of _ res] exI [of _ vm'] exI [of _ fl'] conjI o(1,2) ballI allI impI)
       (rule same, assumption+, rule o(4) [rule_format], assumption, (rule sole [THEN conjunct1] sole [THEN conjunct2], assumption+)+)
qed

lemma as_ok_boot: "as_ok boot_vm [] {}"
proof -
  have "walk m {} r p = None" for m r p using walk_root [of m "{}" r p] by blast
  then have "leaf m {} r p l = None" for m r p l by (simp add: leaf_def)
  then show ?thesis using boot_vm_inv(1) tree_no_roots by (simp add: as_ok_def owners_def boot_vm_def)
qed

lemma as_ok_fresh_root:
  assumes ok: "as_ok vm fl R" and f: "fresh vm fl p vm' fl'" and c: "card R < 2 ^ 16 - 2"
  shows "as_ok vm' fl' (insert p R)" "p \<notin> R"
    "slot q l \<Longrightarrow> leaf (kw vm') (insert p R) r q l = (if r = p then None else leaf (kw vm) R r q l)"
    "slot q l \<Longrightarrow> leaf (kw vm) R r q l = Some e \<Longrightarrow> kw vm' (child e) = kw vm (child e)"
proof -
  have F: "pa_inv vm' fl'" "p \<notin> in_use vm fl" "in_use vm' fl' = insert p (in_use vm fl)" "\<And>i. i < 512 \<Longrightarrow> kw vm' p i = 0"
      "\<And>q. q \<noteq> p \<Longrightarrow> kw vm' q = kw vm q"
    using f by (simp_all add: fresh_def)
  have T: "okp q \<Longrightarrow> walk (kw vm') (insert p R) r q = (if r = p then (if q = [] then Some p else None) else walk (kw vm) R r q)"
      "tree (kw vm') (insert p R) (insert p (in_use vm fl))" "tabs (kw vm') (insert p R) = insert p (tabs (kw vm) R)"
      "slot q l \<Longrightarrow> leaf (kw vm') (insert p R) r q l = (if r = p then None else leaf (kw vm) R r q l)" for r q l
    using tree_add_root [OF as_okD(2) [OF ok] F(2), of "kw vm'"] F(4,5) by simp_all
  show lf: "leaf (kw vm') (insert p R) r q l = (if r = p then None else leaf (kw vm) R r q l)" if "slot q l" for r q l
    using T(4) that .
  have "x \<in> tabs (kw vm) R" if "x \<in> R" for x using treeD(2) [OF as_okD(2) [OF ok], of x "[]" x] that by simp
  then show p: "p \<notin> R" using F(2) as_okD(2) [OF ok] by (auto simp: tree_def)
  have p0: "leaf (kw vm) R p q l = None" for q l using p walk_root [of "kw vm" R p q] by (auto simp: leaf_def split: option.splits)
  have use: "child e \<in> in_use vm fl" "child e \<notin> tabs (kw vm) R" if "slot q l" "leaf (kw vm) R r q l = Some e" for r q l e
    using as_okD(6) [OF ok that] by (simp_all add: leaf_ok_def)
  show "kw vm' (child e) = kw vm (child e)" if "slot q l" "leaf (kw vm) R r q l = Some e" for r q l e
    using F(5) F(2) use(1) [OF that] by metis
  have lf': "leaf (kw vm') (insert p R) r q l = leaf (kw vm) R r q l" if "slot q l" for r q l using lf [OF that] p0 by simp
  have own: "owners (kw vm') (insert p R) x = owners (kw vm) R x" for x
    by (simp add: owners_def lf' cong: conj_cong)
  have "leaf_ok vm' fl' (insert p R) (r, q, l) e" if s: "slot q l" and e: "leaf (kw vm) R r q l = Some e" for r q l e
  proof -
    have "pg vm' (child e) = pg vm (child e)"
      by (rule fresh_pg(2) [OF f as_okD(5) [OF ok] use(1) [OF s e]])
    then show ?thesis using as_okD(6) [OF ok s e] use [OF s e] F(2) unfolding leaf_ok_def own T(3) F(3) by auto
  qed
  then show "as_ok vm' fl' (insert p R)"
    using F(1) T(2) as_okD(3,5,7) [OF ok] c p F(3) f by (auto simp: as_ok_def own lf fresh_def split: if_splits)
qed

lemma boot_address_space:
  "\<exists>p vm fl. alloc_page boot_vm = (p, vm) \<and> as_ok vm fl {p}"
proof -
  from alloc_page_outcome [OF boot_vm_inv(1)] obtain p vm fl where a: "alloc_page boot_vm = (p, vm)" "fresh boot_vm [] p vm fl"
    by (auto simp: boot_vm_inv(3))
  then show ?thesis using as_ok_fresh_root(1) [OF as_ok_boot a(2)] by auto
qed

theorem cow_fault_isolates_witness:
  "\<exists>p vm res vm'. alloc_page boot_vm = (p, vm) \<and> cow_fault p 0x400000 vm = Inr (res, vm') \<and>
     peek vm' p 0x400000 0 = peek vm p 0x400000 0"
proof -
  obtain p vm fl where b: "alloc_page boot_vm = (p, vm)" "as_ok vm fl {p}" using boot_address_space by blast
  obtain res vm' where "cow_fault p 0x400000 vm = Inr (res, vm')" "peek vm' p 0x400000 0 = peek vm p 0x400000 0"
    using cow_fault_isolates [OF b(2), of p "0x400000"] by auto
  then show ?thesis using b(1) by blast
qed

end
