(* ===== verification/Vm_Regions.thy ===== *)
theory Vm_Regions
  imports Cow "HOL-Library.AList"
begin

section \<open>Memory regions of an address space\<close>

text \<open>
  The second half of \<^verbatim>\<open>src/kernel/memory/page_table/page_table.c\<close>: for each top-level table a sorted
  vector of regions (\<open>mem_segment_t\<close>), created by \<open>mmap\<close> and the program loader, consulted by the page
  fault handler, which fills a missing page from the file behind its region.

  \<^item> \<open>mm\<close> is the state: the page tables, the regions by top-level table, and whether
    \<open>page_table_metadata_lock\<close> is held. The lock is not reentrant: taking it while it is held never
    returns, the outcome \<open>Spins\<close>. Other holders release it, so only the caller's own hold matters.
  \<^item> The hash map \<open>page_table_structs\<close> is an association list and a vector of regions a list; the
    theories \<open>Hash_Map\<close> and \<open>Vec\<close> show that their operations behave like that.
  \<^item> \<open>ko n\<close> says whether the \<open>n\<close>-th allocation of the call succeeds (or was not needed).
  \<^item> \<open>file_view\<close> holds what the file system answers during the call.
\<close>

datatype 'a run = Spins | Panics string | Returns 'a

record mem_segment =
  seg_start :: u64
  seg_length :: u64
  seg_ino :: u32
  seg_file_offset :: u64
  seg_file_size :: u64
  seg_prot :: u32
  seg_flags :: u32

record mm =
  mvm :: vm
  page_table_structs :: "(u64 \<times> mem_segment list) list"
  md_locked :: bool

record file_view =
  get_file_size_by_id :: "u32 \<Rightarrow> int"
  get_ith_block_of_file_by_id :: "u32 \<Rightarrow> u32 \<Rightarrow> u32"
  read_block :: "u32 \<Rightarrow> err_t \<times> (u64 \<Rightarrow> byte)"
  get_bytes_per_block :: int

abbreviation (input) MMAP_PROT_EXEC :: u32 where "MMAP_PROT_EXEC \<equiv> 1"
abbreviation (input) MMAP_PROT_WRITE :: u32 where "MMAP_PROT_WRITE \<equiv> 2"
abbreviation (input) MMAP_PROT_READ :: u32 where "MMAP_PROT_READ \<equiv> 4"
abbreviation (input) INVALID_INO :: u32 where "INVALID_INO \<equiv> 0"
abbreviation (input) PAGE_FAULT_NOT_HANDLED :: int where "PAGE_FAULT_NOT_HANDLED \<equiv> 0"
abbreviation (input) PAGE_FAULT_HANDLED :: int where "PAGE_FAULT_HANDLED \<equiv> 1"
abbreviation (input) PAGE_FAULT_PERMISSION :: int where "PAGE_FAULT_PERMISSION \<equiv> - 1"
abbreviation (input) PAGE_FAULT_ERROR :: int where "PAGE_FAULT_ERROR \<equiv> - 2"

definition md_lock :: "(mm \<Rightarrow> 'a run) \<Rightarrow> mm \<Rightarrow> 'a run" where
  "md_lock f mm = (if md_locked mm then Spins else f (mm\<lparr>md_locked := True\<rparr>))"

definition md_unlock :: "mm \<Rightarrow> mm" where
  "md_unlock mm = mm\<lparr>md_locked := False\<rparr>"

definition get_page_table_struct_locked :: "u64 \<Rightarrow> mm \<Rightarrow> mem_segment list option" where
  "get_page_table_struct_locked table mm = map_of (page_table_structs mm) table"

definition put_segments :: "u64 \<Rightarrow> mem_segment list \<Rightarrow> mm \<Rightarrow> mm" where
  "put_segments table segs mm = mm\<lparr>page_table_structs := AList.update table segs (page_table_structs mm)\<rparr>"

definition upd_stats :: "(vmstat \<Rightarrow> vmstat) \<Rightarrow> mm \<Rightarrow> mm" where
  "upd_stats f mm = mm\<lparr>mvm := (mvm mm)\<lparr>vms := f (vms (mvm mm))\<rparr>\<rparr>"

subsection \<open>The record of an address space\<close>

text \<open>\<open>ko 0\<close> is the \<open>page_table_t\<close>, \<open>ko 1\<close> the buffer of its vector, \<open>ko 2\<close> the entry of the hash map.\<close>

definition add_page_table_struct :: "(nat \<Rightarrow> bool) \<Rightarrow> u64 \<Rightarrow> mm \<Rightarrow> (int \<times> mm) run" where
  "add_page_table_struct ko table mm =
     (if table = 0 then Returns (0, mm)
      else
        md_lock (\<lambda>mm.
          if get_page_table_struct_locked table mm \<noteq> None then Returns (1, md_unlock mm)
          else if \<not> ko 0 then Returns (0, md_unlock mm)
          else if \<not> ko 1 then Panics ''Failed to allocate memory.''
          else if \<not> ko 2 then Returns (0, md_unlock mm)
          else Returns (1, md_unlock (put_segments table [] mm))) mm)"

definition free_page_table_struct :: "u64 \<Rightarrow> mm \<Rightarrow> mm run" where
  "free_page_table_struct table mm =
     md_lock (\<lambda>mm.
       if table = 0 then Returns (md_unlock mm)
       else Returns (md_unlock (mm\<lparr>page_table_structs := AList.delete table (page_table_structs mm)\<rparr>))) mm"

definition destroy_page_table :: "u64 \<Rightarrow> mm \<Rightarrow> mm run" where
  "destroy_page_table table mm =
     (if table = 0 then Returns mm
      else
        (case free_page_table_struct table mm of
           Spins \<Rightarrow> Spins
         | Panics e \<Rightarrow> Panics e
         | Returns mm \<Rightarrow>
             (case destroy_page_table_level 3 table (mvm mm) of
                Inl e \<Rightarrow> Panics e
              | Inr vm \<Rightarrow> Returns (mm\<lparr>mvm := vm\<rparr>))))"

text \<open>The loop that copies the regions: two allocations per region, the region and the growth of the
  vector.\<close>

fun copy_segments :: "(nat \<Rightarrow> bool) \<Rightarrow> nat \<Rightarrow> mem_segment list \<Rightarrow> u64 \<Rightarrow> mem_segment list \<Rightarrow> mm \<Rightarrow> (int \<times> mm) run" where
  "copy_segments ko k [] dst acc mm = Returns (SUCCESS, md_unlock mm)"
| "copy_segments ko k (s # segs) dst acc mm =
     (if \<not> ko k then Returns (INVALID_ARGS, md_unlock mm)
      else if \<not> ko (k + 1) then Panics ''Failed to allocate memory.''
      else copy_segments ko (k + 2) segs dst (acc @ [s]) (put_segments dst (acc @ [s]) mm))"

definition copy_page_table_struct :: "(nat \<Rightarrow> bool) \<Rightarrow> u64 \<Rightarrow> u64 \<Rightarrow> mm \<Rightarrow> (int \<times> mm) run" where
  "copy_page_table_struct ko src_table dst_table mm =
     md_lock (\<lambda>mm.
       case get_page_table_struct_locked src_table mm of
         None \<Rightarrow> Returns (INVALID_ARGS, md_unlock mm)
       | Some src \<Rightarrow>
           (let mm = (if dst_table \<noteq> 0 then mm\<lparr>page_table_structs := AList.delete dst_table (page_table_structs mm)\<rparr> else mm)
            in if \<not> ko 0 then Returns (INVALID_ARGS, md_unlock mm)
               else if \<not> ko 1 then Panics ''Failed to allocate memory.''
               else if \<not> ko 2 then Returns (INVALID_ARGS, md_unlock mm)
               else copy_segments ko 3 src dst_table [] (put_segments dst_table [] mm))) mm"

definition initialize_user_page_table :: "(nat \<Rightarrow> bool) \<Rightarrow> mm \<Rightarrow> (u64 \<times> mm) run" where
  "initialize_user_page_table ko mm =
     (case alloc_page (mvm mm) of
        (l0, vm) \<Rightarrow>
          (let mm = mm\<lparr>mvm := vm\<rparr> in
           if l0 = 0 then Returns (0, mm)
           else
             (case add_page_table_struct ko l0 mm of
                Spins \<Rightarrow> Spins
              | Panics e \<Rightarrow> Panics e
              | Returns (r, mm) \<Rightarrow> Returns (if r = 0 then 0 else l0, mm))))"

subsection \<open>Filling a page from a file\<close>

definition user_segment_attrs :: "u32 \<Rightarrow> u64" where
  "user_segment_attrs flags =
     (if flags AND MMAP_PROT_EXEC \<noteq> 0 \<and> flags AND MMAP_PROT_WRITE \<noteq> 0 then ATTR_USER_RWX
      else if flags AND MMAP_PROT_EXEC \<noteq> 0 then ATTR_USER_RX
      else if flags AND MMAP_PROT_WRITE \<noteq> 0 then ATTR_USER_RW
      else ATTR_USER_RO)"

text \<open>A byte store into a page kept as words, little-endian.\<close>

definition put_byte :: "u64 \<Rightarrow> u64 \<Rightarrow> byte \<Rightarrow> vm \<Rightarrow> vm" where
  "put_byte page off b vm =
     (let i = drop_bit 3 off; s = 8 * unat (off AND 7); w = kw vm page i
      in set_word page i ((w AND NOT (push_bit s 0xff)) OR push_bit s (ucast b)) vm)"

definition copy_bytes :: "u64 \<Rightarrow> u64 \<Rightarrow> (u64 \<Rightarrow> byte) \<Rightarrow> u64 \<Rightarrow> u64 \<Rightarrow> vm \<Rightarrow> vm" where
  "copy_bytes page off data src n vm = fold (\<lambda>i. put_byte page (off + of_nat i) (data (src + of_nat i))) [0..<unat n] vm"

partial_function (option) read_loop ::
  "file_view \<Rightarrow> u32 \<Rightarrow> u64 \<Rightarrow> u64 \<Rightarrow> u64 \<Rightarrow> u64 \<Rightarrow> vm \<Rightarrow> (err_t \<times> vm) option" where
  "read_loop fv ino page page_offset file_offset bytes_to_read vm =
     (if bytes_to_read = 0 then Some (SUCCESS, vm)
      else
        (let bs = word_of_int (get_bytes_per_block fv);
             block_offset = file_offset mod bs;
             block_no = get_ith_block_of_file_by_id fv ino (ucast (file_offset div bs))
         in if block_no = 0 then Some (FILE_READ_ERROR, vm)
            else
              (case read_block fv block_no of
                 (err, data) \<Rightarrow>
                   if err \<noteq> SUCCESS then Some (err, vm)
                   else
                     (let n = min bytes_to_read (bs - block_offset)
                      in read_loop fv ino page (page_offset + n) (file_offset + n) (bytes_to_read - n)
                           (copy_bytes page page_offset data block_offset n vm)))))"

definition read_segment_page :: "bool \<Rightarrow> file_view \<Rightarrow> mem_segment \<Rightarrow> u64 \<Rightarrow> u64 \<Rightarrow> vm \<Rightarrow> (err_t \<times> vm) option" where
  "read_segment_page ko fv seg page_va page vm =
     (let copy_start = max page_va (seg_start seg);
          copy_end = min (page_va + PAGE_SIZE) (seg_start seg + seg_length seg)
      in if copy_end \<le> copy_start then Some (INVALID_ARGS, vm)
         else
           (let file_copy_end = min copy_end (seg_start seg + seg_file_size seg)
            in if file_copy_end \<le> copy_start then Some (SUCCESS, vm)
               else if seg_ino seg = INVALID_INO then Some (SUCCESS, zero_page page vm)
               else
                 (let file_offset = seg_file_offset seg + copy_start - seg_start seg;
                      size = get_file_size_by_id fv (seg_ino seg)
                  in if size < 0 then Some (size, vm)
                     else if file_offset \<ge> word_of_int size then Some (SUCCESS, vm)
                     else if \<not> ko then Some (INVALID_ARGS, vm)
                     else read_loop fv (seg_ino seg) page (copy_start - page_va) file_offset
                            (min (file_copy_end - copy_start) (word_of_int size - file_offset)) vm)))"

datatype segment_lookup = Unmapped | Denied | Found mem_segment

fun find_segment :: "u64 \<Rightarrow> u32 \<Rightarrow> mem_segment list \<Rightarrow> segment_lookup" where
  "find_segment va access [] = Unmapped"
| "find_segment va access (s # segs) =
     (if va < seg_start s \<or> va \<ge> seg_start s + seg_length s then find_segment va access segs
      else if seg_prot s AND access = 0 then Denied
      else Found s)"

text \<open>The part after the region has been found, with the lock released in between.\<close>

definition load_found_page :: "bool \<Rightarrow> file_view \<Rightarrow> u64 \<Rightarrow> u64 \<Rightarrow> mem_segment \<Rightarrow> mm \<Rightarrow> (int \<times> mm) run" where
  "load_found_page ko fv table fault_va seg mm =
     (let page_va = fault_va AND NOT PAGE_MASK;
          fault_error = md_lock (\<lambda>mm. Returns (PAGE_FAULT_ERROR,
            md_unlock (upd_stats (\<lambda>s. s\<lparr>vs_faults_error := vs_faults_error s + 1\<rparr>) mm)))
      in case alloc_page (mvm mm) of
           (page, vm) \<Rightarrow>
             if page = 0 then fault_error (mm\<lparr>mvm := vm\<rparr>)
             else
               (case read_segment_page ko fv seg page_va page vm of
                  None \<Rightarrow> Spins
                | Some (err, vm) \<Rightarrow>
                    if err \<noteq> SUCCESS then fault_error (mm\<lparr>mvm := free_page page vm\<rparr>)
                    else
                      md_lock (\<lambda>mm.
                        case pt_map_page table page_va (kernel_phys_addr page) (user_segment_attrs (seg_prot seg)) (mvm mm) of
                          (False, vm) \<Rightarrow> fault_error (md_unlock (mm\<lparr>mvm := free_page page vm\<rparr>))
                        | (True, vm) \<Rightarrow>
                            Returns (PAGE_FAULT_HANDLED, md_unlock (upd_stats (\<lambda>s. s\<lparr>vs_file_faults := vs_file_faults s + 1,
                              vs_faults_handled := vs_faults_handled s + 1\<rparr>) (mm\<lparr>mvm := vm\<rparr>)))) (mm\<lparr>mvm := vm\<rparr>)))"

definition load_segment_page_for_fault :: "bool \<Rightarrow> file_view \<Rightarrow> u64 \<Rightarrow> u64 \<Rightarrow> u32 \<Rightarrow> mm \<Rightarrow> (int \<times> mm) run" where
  "load_segment_page_for_fault ko fv table fault_va access =
     md_lock (\<lambda>mm.
       let mm = upd_stats (\<lambda>s. s\<lparr>vs_page_faults := vs_page_faults s + 1\<rparr>) mm;
           mm = (if access = MMAP_PROT_EXEC
                 then upd_stats (\<lambda>s. s\<lparr>vs_instruction_faults := vs_instruction_faults s + 1\<rparr>) mm
                 else upd_stats (\<lambda>s. s\<lparr>vs_data_faults := vs_data_faults s + 1\<rparr>) mm);
           unmapped = upd_stats (\<lambda>s. s\<lparr>vs_faults_unmapped := vs_faults_unmapped s + 1, vs_faults_invalid := vs_faults_invalid s + 1\<rparr>)
       in case get_page_table_struct_locked table mm of
            None \<Rightarrow> Returns (PAGE_FAULT_NOT_HANDLED, md_unlock (unmapped mm))
          | Some segs \<Rightarrow>
              (case find_segment fault_va access segs of
                 Unmapped \<Rightarrow> Returns (PAGE_FAULT_NOT_HANDLED, md_unlock (unmapped mm))
               | Denied \<Rightarrow> Returns (PAGE_FAULT_PERMISSION,
                   md_unlock (upd_stats (\<lambda>s. s\<lparr>vs_faults_permission := vs_faults_permission s + 1\<rparr>) mm))
               | Found seg \<Rightarrow> load_found_page ko fv table fault_va seg (md_unlock mm)))"

subsection \<open>Adding and removing regions\<close>

text \<open>The loop of \<open>add_vm_region\<close>: \<open>None\<close> is its \<open>return INVALID_ARGS\<close>.\<close>

fun region_insert :: "mem_segment \<Rightarrow> mem_segment list \<Rightarrow> mem_segment list option" where
  "region_insert s [] = Some [s]"
| "region_insert s (x # xs) =
     (if seg_start x > seg_start s then Some (s # x # xs)
      else if seg_start x + seg_length x \<ge> seg_start s then None
      else map_option ((#) x) (region_insert s xs))"

text \<open>The second half, once the record of the address space exists; the early return of the loop leaves
  the lock held.\<close>

definition add_segment :: "(nat \<Rightarrow> bool) \<Rightarrow> u64 \<Rightarrow> mem_segment list \<Rightarrow> mem_segment \<Rightarrow> mm \<Rightarrow> (int \<times> mm) run" where
  "add_segment ko table segs s mm =
     (if \<not> ko 3 then Returns (INVALID_ARGS, md_unlock mm)
      else
        (case region_insert s segs of
           None \<Rightarrow> Returns (INVALID_ARGS, mm)
         | Some segs' \<Rightarrow>
             if \<not> ko 4 then Panics ''Failed to allocate memory.''
             else Returns (SUCCESS, md_unlock (put_segments table segs' mm))))"

definition add_vm_region :: "(nat \<Rightarrow> bool) \<Rightarrow> u64 \<Rightarrow> mem_segment \<Rightarrow> mm \<Rightarrow> (int \<times> mm) run" where
  "add_vm_region ko table s =
     md_lock (\<lambda>mm.
       case get_page_table_struct_locked table mm of
         Some segs \<Rightarrow> add_segment ko table segs s mm
       | None \<Rightarrow>
           if \<not> ko 0 then Returns (INVALID_ARGS, md_unlock mm)
           else if \<not> ko 1 then Panics ''Failed to allocate memory.''
           else if \<not> ko 2 then Returns (INVALID_ARGS, md_unlock mm)
           else add_segment ko table [] s (put_segments table [] mm))"

text \<open>\<open>oft fd\<close> is the inode number and file size of the open file. The list in the result holds the
  inode references \<open>mmap\<close> drops.\<close>

abbreviation (input) MAP_PRIVATE :: int where "MAP_PRIVATE \<equiv> 1"
abbreviation (input) MAP_SHARED :: int where "MAP_SHARED \<equiv> 2"
abbreviation (input) MAP_ANONYMOUS :: int where "MAP_ANONYMOUS \<equiv> 4"
abbreviation (input) MAP_FIXED :: int where "MAP_FIXED \<equiv> 8"

definition mmap_region :: "(nat \<Rightarrow> bool) \<Rightarrow> u64 \<Rightarrow> u64 \<Rightarrow> u64 \<Rightarrow> int \<Rightarrow> int \<Rightarrow> u32 \<Rightarrow> u32 \<Rightarrow> u64 \<Rightarrow> mm \<Rightarrow> (u64 \<times> mm) run" where
  "mmap_region ko table addr len prot flags offset ino fsize mm =
     (let (addr, mm) =
        (if addr = 0 then (curr_mmap_va (mvm mm), mm\<lparr>mvm := (mvm mm)\<lparr>curr_mmap_va := align_up (curr_mmap_va (mvm mm) + len)\<rparr>\<rparr>)
         else (addr, mm))
      in case add_vm_region ko table \<lparr>seg_start = addr, seg_length = len, seg_ino = ino, seg_file_offset = ucast offset,
             seg_file_size = fsize, seg_prot = word_of_int prot, seg_flags = word_of_int flags\<rparr> mm of
           Spins \<Rightarrow> Spins
         | Panics e \<Rightarrow> Panics e
         | Returns (err, mm) \<Rightarrow> Returns (if err \<noteq> SUCCESS then 0 else addr, mm))"

definition mmap ::
  "(nat \<Rightarrow> bool) \<Rightarrow> (int \<Rightarrow> (u32 \<times> u64) option) \<Rightarrow> u64 \<Rightarrow> u64 \<Rightarrow> u64 \<Rightarrow> int \<Rightarrow> int \<Rightarrow> int \<Rightarrow> u32 \<Rightarrow> mm \<Rightarrow> (u64 \<times> u32 list \<times> mm) run" where
  "mmap ko oft table addr len prot flags fd offset mm =
     (if addr \<noteq> 0 \<and> flags AND MAP_FIXED = 0 then Returns (0, [], mm)
      else if len = 0 then Returns (0, [], mm)
      else
        (let len = align_up len;
             region = (\<lambda>ino fsize.
               case mmap_region ko table addr len prot flags offset ino fsize mm of
                 Spins \<Rightarrow> Spins
               | Panics e \<Rightarrow> Panics e
               | Returns (addr, mm) \<Rightarrow> Returns (addr, [], mm))
         in if (ucast offset :: u64) AND PAGE_MASK \<noteq> 0 then Returns (0, [], mm)
            else if prot > 7 \<or> prot < 0 then Returns (0, [], mm)
            else if flags AND MAP_PRIVATE \<noteq> 0 \<and> flags AND MAP_SHARED \<noteq> 0 then Returns (0, [], mm)
            else if flags AND (MAP_PRIVATE OR MAP_SHARED) = 0 then Returns (0, [], mm)
            else if flags AND MAP_ANONYMOUS = 0 then
              (case oft fd of
                 None \<Rightarrow> Returns (0, [], mm)
               | Some (ino, fsize) \<Rightarrow>
                   if ucast offset > fsize then Returns (0, [ino], mm)
                   else region ino (min len (fsize - ucast offset)))
            else if fd \<noteq> - 1 \<or> offset \<noteq> 0 then Returns (0, [], mm)
            else region INVALID_INO 0))"

lemma put_get [simp]: "get_page_table_struct_locked table (put_segments table segs mm) = Some segs"
  by (simp add: get_page_table_struct_locked_def put_segments_def update_conv')

lemma put_get_other [simp]: "table' \<noteq> table \<Longrightarrow> get_page_table_struct_locked table' (put_segments table segs mm) = get_page_table_struct_locked table' mm"
  by (simp add: get_page_table_struct_locked_def put_segments_def update_conv')

text \<open>The loop of \<open>munmap\<close> at index \<open>i\<close>, with the lock held. A split calls \<open>add_vm_region\<close>, which takes
  the lock again.\<close>

function munmap_loop :: "(nat \<Rightarrow> bool) \<Rightarrow> u64 \<Rightarrow> u64 \<Rightarrow> u64 \<Rightarrow> nat \<Rightarrow> mm \<Rightarrow> mm run" where
  "munmap_loop ko table rem_start len i mm =
     (let segs = the (get_page_table_struct_locked table mm) in
      if i \<ge> length segs then Returns (md_unlock mm)
      else
        (let seg = segs ! i; rem_end = rem_start + len; seg_end = seg_start seg + seg_length seg in
         if rem_start \<le> seg_start seg \<and> rem_end \<ge> seg_end then
           munmap_loop ko table rem_start len i (put_segments table (take i segs @ drop (Suc i) segs) mm)
         else if rem_start \<le> seg_start seg \<and> rem_end > seg_start seg then
           munmap_loop ko table rem_start len (Suc i) (put_segments table (segs[i := seg\<lparr>
             seg_length := seg_length seg - (rem_start - seg_start seg),
             seg_file_offset := seg_file_offset seg + (rem_start - seg_start seg), seg_start := rem_start\<rparr>]) mm)
         else if rem_end \<ge> seg_end \<and> rem_start < seg_end then
           munmap_loop ko table rem_start len (Suc i)
             (put_segments table (segs[i := seg\<lparr>seg_length := seg_length seg - (seg_end - rem_start)\<rparr>]) mm)
         else if rem_start > seg_start seg \<and> rem_end < seg_end then
           (case add_vm_region ko table \<lparr>seg_start = rem_end, seg_length = seg_length seg - len, seg_ino = seg_ino seg,
               seg_file_offset = seg_file_offset seg + (rem_end - seg_start seg), seg_file_size = seg_file_size seg - len,
               seg_prot = seg_prot seg, seg_flags = seg_flags seg\<rparr> (mm\<lparr>md_locked := True\<rparr>) of
              Spins \<Rightarrow> Spins
            | Panics e \<Rightarrow> Panics e
            | Returns (_, mm) \<Rightarrow>
                munmap_loop ko table rem_start len (Suc i) (put_segments table
                  ((the (get_page_table_struct_locked table mm))[i := seg\<lparr>seg_length := seg_length seg - (seg_end - rem_start)\<rparr>]) mm))
         else munmap_loop ko table rem_start len (Suc i) mm))"
  by pat_completeness auto

termination
  by (relation "measure (\<lambda>(ko, table, s, l, i, mm). length (the (get_page_table_struct_locked table mm)) - i)")
     (auto simp: add_vm_region_def md_lock_def)

declare munmap_loop.simps [simp del]

definition munmap :: "(nat \<Rightarrow> bool) \<Rightarrow> u64 \<Rightarrow> u64 \<Rightarrow> u64 \<Rightarrow> mm \<Rightarrow> (int \<times> mm) run" where
  "munmap ko table addr len =
     md_lock (\<lambda>mm.
       if get_page_table_struct_locked table mm = None then Returns (- 1, md_unlock mm)
       else
         (case munmap_loop ko table addr len 0 mm of
            Spins \<Rightarrow> Spins
          | Panics e \<Rightarrow> Panics e
          | Returns mm \<Rightarrow> Returns (0, mm)))"

subsection \<open>Counting\<close>

definition page_table_count_mmap_regions :: "mm \<Rightarrow> u32" where
  "page_table_count_mmap_regions mm = fold (\<lambda>(table, segs) n. n + of_nat (length segs)) (page_table_structs mm) 0"

definition page_table_total_managed_pages :: "vm \<Rightarrow> u32" where
  "page_table_total_managed_pages vm =
     (let start = align_up (pool_start vm) in if RAM_end \<le> start then 0 else ucast ((RAM_end - start) div PAGE_SIZE))"

partial_function (option) count_free_list :: "vm \<Rightarrow> u64 \<Rightarrow> u32 \<Rightarrow> u32 option" where
  "count_free_list vm p n = (if p = 0 then Some n else count_free_list vm (kw vm p 0) (n + 1))"

definition page_table_count_free_list_pages :: "vm \<Rightarrow> u32 option" where
  "page_table_count_free_list_pages vm = count_free_list vm (free_list vm) 0"

definition page_table_free_managed_pages :: "vm \<Rightarrow> (u32 \<times> vm) option" where
  "page_table_free_managed_pages vm =
     (let vm = page_allocator_init vm;
          never_used = (if RAM_end > next_free_page vm then ucast ((RAM_end - next_free_page vm) div PAGE_SIZE) else 0)
      in case page_table_count_free_list_pages vm of None \<Rightarrow> None | Some n \<Rightarrow> Some (never_used + n, vm))"

subsection \<open>Reading a page touches that page only\<close>

definition only_page :: "u64 \<Rightarrow> vm \<Rightarrow> vm \<Rightarrow> bool" where
  "only_page page vm vm' \<longleftrightarrow> (\<exists>w. vm' = vm\<lparr>kw := (kw vm)(page := w)\<rparr>)"

lemma only_page_refl: "only_page page vm vm"
  unfolding only_page_def by (rule exI [of _ "kw vm page"]) simp

lemma only_page_trans: "only_page page a b \<Longrightarrow> only_page page b c \<Longrightarrow> only_page page a c"
  by (auto simp: only_page_def)

lemma only_page_set_word: "only_page page vm (set_word page i w vm)"
  by (auto simp: only_page_def set_word_def)

lemma only_page_copy: "only_page page vm (copy_bytes page off data src n vm)"
proof -
  have "only_page page vm (fold (\<lambda>i. put_byte page (off + of_nat i) (data (src + of_nat i))) xs vm)" for xs
    by (induction xs arbitrary: vm)
       (auto simp: only_page_refl put_byte_def Let_def intro: only_page_trans [OF only_page_set_word])
  then show ?thesis by (simp add: copy_bytes_def)
qed

lemma only_page_zero: "only_page page vm (zero_page page vm)"
  by (auto simp: only_page_def zero_page_eq)

text \<open>With a positive block size every round of the loop makes progress.\<close>

lemma block_progress:
  fixes n :: u64
  assumes "0 < s" "s < 2 ^ 31" "n \<noteq> 0"
  defines "bs \<equiv> (word_of_int s :: u64)"
  shows "0 < min n (bs - off mod bs)" "unat (n - min n (bs - off mod bs)) < unat n"
proof -
  have bs: "bs \<noteq> 0" using assms(1,2) by (auto simp: bs_def word_of_int_eq_0_iff dest: zdvd_imp_le)
  then have "off mod bs < bs" by (simp add: word_mod_less_divisor word_neq_0_conv [symmetric])
  then have "0 < bs - off mod bs" by (metis cancel_comm_monoid_add_class.diff_cancel right_minus_eq word_neq_0_conv order_less_irrefl)
  then show "0 < min n (bs - off mod bs)" using assms(3) by (simp add: word_neq_0_conv [symmetric])
  then show "unat (n - min n (bs - off mod bs)) < unat n"
    using unat_sub [of "min n (bs - off mod bs)" n] assms(3) by (simp add: word_less_nat_alt unat_gt_0)
qed

lemma read_loop_returns:
  assumes "0 < get_bytes_per_block fv" "get_bytes_per_block fv < 2 ^ 31"
  shows "\<exists>err vm'. read_loop fv ino page po fo n vm = Some (err, vm') \<and> only_page page vm vm'"
proof (induction "unat n" arbitrary: po fo n vm rule: less_induct)
  case less
  show ?case
  proof (cases "n = 0")
    case True
    then show ?thesis using only_page_refl by (subst read_loop.simps) auto
  next
    case False
    let ?bs = "word_of_int (get_bytes_per_block fv) :: u64"
    let ?n = "min n (?bs - fo mod ?bs)" and ?b = "get_ith_block_of_file_by_id fv ino (ucast (fo div ?bs))"
    obtain err data where rb: "read_block fv ?b = (err, data)" by fastforce
    let ?c = "copy_bytes page po data (fo mod ?bs) ?n vm"
    have step: "read_loop fv ino page po fo n vm =
        (if ?b = 0 then Some (FILE_READ_ERROR, vm) else if err \<noteq> SUCCESS then Some (err, vm)
         else read_loop fv ino page (po + ?n) (fo + ?n) (n - ?n) ?c)"
      by (subst read_loop.simps) (simp add: False Let_def rb)
    obtain err' vm' where "read_loop fv ino page (po + ?n) (fo + ?n) (n - ?n) ?c = Some (err', vm')" "only_page page ?c vm'"
      using less [OF block_progress(2) [OF assms False]] by blast
    then show ?thesis unfolding step using only_page_refl only_page_trans [OF only_page_copy] by auto
  qed
qed

lemma read_segment_page_returns:
  assumes "0 < get_bytes_per_block fv" "get_bytes_per_block fv < 2 ^ 31"
  shows "\<exists>err vm'. read_segment_page ko fv seg page_va page vm = Some (err, vm') \<and> only_page page vm vm'"
  using read_loop_returns [OF assms] only_page_refl only_page_zero by (auto simp: read_segment_page_def Let_def)

definition get_byte :: "u64 \<Rightarrow> u64 \<Rightarrow> vm \<Rightarrow> byte" where
  "get_byte page off vm = ucast (drop_bit (8 * unat (off AND 7)) (kw vm page (drop_bit 3 off)))"

lemma byte_lane:
  fixes w :: u64 and b :: byte
  assumes "i < 8" "j < 8"
  shows "(ucast (drop_bit (8 * j) ((w AND NOT (push_bit (8 * i) 0xff)) OR push_bit (8 * i) (ucast b))) :: byte) =
    (if j = i then b else ucast (drop_bit (8 * j) w))"
proof -
  have m: "(0xff :: u64) = mask 8" by (simp add: mask_eq_exp_minus_1)
  show ?thesis
    unfolding m by (rule bit_word_eqI) (use assms in \<open>auto simp: bit_simps dest: bit_imp_le_length [of b]\<close>)
qed

lemma offset_lane: "(off :: u64) = off' \<longleftrightarrow> drop_bit 3 off = drop_bit 3 off' \<and> off AND 7 = off' AND 7"
proof
  assume a: "drop_bit 3 off = drop_bit 3 off' \<and> off AND 7 = off' AND 7"
  have "x = push_bit 3 (drop_bit 3 x) OR (x AND 7)" for x :: u64
  proof -
    have m: "(7 :: u64) = mask 3" by (simp add: mask_eq_exp_minus_1)
    show ?thesis unfolding m by (rule bit_word_eqI) (auto simp: bit_simps)
  qed
  then show "off = off'" using a by metis
qed simp

lemma lane_small: "unat ((off :: u64) AND 7) < 8"
  using word_and_le1 [of off 7] by (simp add: word_le_nat_alt)

lemma get_put_byte: "get_byte page off' (put_byte page off b vm) = (if off' = off then b else get_byte page off' vm)"
proof (cases "drop_bit 3 off' = drop_bit 3 off")
  case True
  then show ?thesis
    using byte_lane [OF lane_small lane_small, of off' "kw vm page (drop_bit 3 off)" off b] offset_lane [of off' off]
    unfolding word_unat_eq_iff [symmetric] by (simp add: get_byte_def put_byte_def Let_def)
next
  case False
  then show ?thesis by (auto simp: get_byte_def put_byte_def Let_def)
qed

lemma get_byte_other: "only_page page vm vm' \<Longrightarrow> q \<noteq> page \<Longrightarrow> get_byte q off vm' = get_byte q off vm"
  by (auto simp: only_page_def get_byte_def)

lemma get_copy_bytes:
  assumes "unat n \<le> 2 ^ 32"
  shows "get_byte page x (copy_bytes page off data src n vm) =
    (if x - off < n then data (src + (x - off)) else get_byte page x vm)"
proof -
  have "get_byte page x (fold (\<lambda>i. put_byte page (off + of_nat i) (data (src + of_nat i))) [0..<m] vm) =
      (if unat (x - off) < m then data (src + (x - off)) else get_byte page x vm)" if "m \<le> 2 ^ 32" for m
    using that
  proof (induction m)
    case (Suc m)
    have m: "unat (of_nat m :: u64) = m" using Suc.prems by (simp add: unsigned_of_nat take_bit_nat_eq_self)
    have "x = off + of_nat m \<longleftrightarrow> x - off = of_nat m" by (auto simp: algebra_simps)
    also have "\<dots> \<longleftrightarrow> unat (x - off) = m" unfolding word_unat_eq_iff m ..
    finally have "x = off + of_nat m \<longleftrightarrow> unat (x - off) = m" .
    then show ?case using Suc by (auto simp: get_put_byte less_Suc_eq)
  qed simp
  then show ?thesis using assms by (simp add: copy_bytes_def word_less_nat_alt)
qed

subsection \<open>What a page read from a file holds\<close>

definition file_byte :: "file_view \<Rightarrow> u32 \<Rightarrow> u64 \<Rightarrow> byte" where
  "file_byte fv ino x =
     (let bs = word_of_int (get_bytes_per_block fv)
      in snd (read_block fv (get_ith_block_of_file_by_id fv ino (ucast (x div bs)))) (x mod bs))"

lemma window: "k \<le> n \<Longrightarrow> (d :: u64) - k < n - k \<longleftrightarrow> k \<le> d \<and> d < n"
  by uint_arith

lemma nat_within_block:
  fixes a b d :: nat
  assumes "a mod b + d < b"
  shows "(a + d) div b = a div b" "(a + d) mod b = a mod b + d"
proof -
  have s: "a + d = (a mod b + d) + a div b * b" using div_mult_mod_eq [of a b] by linarith
  have "(r + q * b) div b = q" "(r + q * b) mod b = r" if "r < b" for r q :: nat using that by simp_all
  from this [OF assms, of "a div b"]
  show "(a + d) div b = a div b" "(a + d) mod b = a mod b + d" using s by metis+
qed

lemma within_block:
  fixes fo bs d :: u64
  assumes "bs \<noteq> 0" "d < bs - fo mod bs" "unat fo + unat d < 2 ^ 64"
  shows "(fo + d) div bs = fo div bs" "(fo + d) mod bs = fo mod bs + d"
proof -
  have m: "unat (fo mod bs) = unat fo mod unat bs" by (simp add: unat_mod)
  have lt: "unat (fo mod bs) < unat bs" using assms(1) by (simp add: m unat_gt_0)
  have "unat d < unat bs - unat fo mod unat bs"
    using assms(2) lt m unat_sub [of "fo mod bs" bs] by (simp add: word_less_nat_alt word_le_nat_alt)
  then have small: "unat fo mod unat bs + unat d < unat bs" by linarith
  have s: "unat (fo + d) = unat fo + unat d" using assms(3) by (simp add: unat_word_ariths)
  note D = nat_within_block [OF small]
  have "unat (fo mod bs + d) = unat fo mod unat bs + unat d"
    using small m unsigned_less [of bs, where 'a = nat] by (simp add: unat_word_ariths mod_less)
  then show "(fo + d) div bs = fo div bs" "(fo + d) mod bs = fo mod bs + d"
    using D by (simp_all add: word_unat_eq_iff unat_div unat_mod s)
qed

lemma read_loop_contents:
  assumes "0 < get_bytes_per_block fv" "get_bytes_per_block fv < 2 ^ 31"
    and "read_loop fv ino page po fo n vm = Some (SUCCESS, vm')" "unat n \<le> 2 ^ 32" "unat fo + unat n < 2 ^ 64"
  shows "get_byte page x vm' = (if x - po < n then file_byte fv ino (fo + (x - po)) else get_byte page x vm)"
  using assms(3-)
proof (induction "unat n" arbitrary: po fo n vm rule: less_induct)
  case less
  show ?case
  proof (cases "n = 0")
    case True
    then show ?thesis using less(2) by (simp add: read_loop.simps)
  next
    case False
    let ?bs = "word_of_int (get_bytes_per_block fv) :: u64"
    let ?n = "min n (?bs - fo mod ?bs)" and ?b = "get_ith_block_of_file_by_id fv ino (ucast (fo div ?bs))"
    obtain err data where rb: "read_block fv ?b = (err, data)" by fastforce
    let ?c = "copy_bytes page po data (fo mod ?bs) ?n vm"
    have step: "read_loop fv ino page (po + ?n) (fo + ?n) (n - ?n) ?c = Some (SUCCESS, vm')" "err = SUCCESS"
      using less(2) by (subst (asm) read_loop.simps, simp add: False Let_def rb split: if_splits)+
    have bs: "?bs \<noteq> 0" using assms(1,2) by (auto simp: word_of_int_eq_0_iff dest: zdvd_imp_le)
    have k: "unat ?n \<le> unat n" "unat (n - ?n) = unat n - unat ?n" using unat_sub [of ?n n] by (simp_all add: word_le_nat_alt [symmetric])
    have f: "unat (fo + ?n) = unat fo + unat ?n" using less(4) k(1) by (simp add: unat_word_ariths)
    have IH: "get_byte page x vm' = (if x - (po + ?n) < n - ?n then file_byte fv ino (fo + ?n + (x - (po + ?n))) else get_byte page x ?c)"
      by (rule less(1) [OF block_progress(2) [OF assms(1,2) False] step(1)]) (use less(3,4) k f in linarith)+
    let ?d = "x - po"
    have w: "x - (po + ?n) < n - ?n \<longleftrightarrow> ?n \<le> ?d \<and> ?d < n" using window [of ?n n ?d] by (simp add: algebra_simps)
    have c: "get_byte page x ?c = (if ?d < ?n then data (fo mod ?bs + ?d) else get_byte page x vm)"
      by (rule get_copy_bytes) (use less(3) k(1) in linarith)
    have b: "data (fo mod ?bs + ?d) = file_byte fv ino (fo + ?d)" if "?d < ?n"
    proof -
      have "unat ?d < unat n" using that k(1) unfolding word_less_nat_alt by linarith
      then have "(fo + ?d) div ?bs = fo div ?bs" "(fo + ?d) mod ?bs = fo mod ?bs + ?d"
        using within_block [OF bs, of ?d fo] that less(4) by simp_all
      then show ?thesis by (simp add: file_byte_def rb)
    qed
    have "fo + ?n + (x - (po + ?n)) = fo + ?d" by simp
    then show ?thesis unfolding IH w c using b by (auto simp: not_le not_less)
  qed
qed

text \<open>The byte of a region at address \<open>va\<close>.\<close>

definition segment_byte :: "file_view \<Rightarrow> mem_segment \<Rightarrow> u64 \<Rightarrow> byte" where
  "segment_byte fv seg va =
     (let x = seg_file_offset seg + (va - seg_start seg)
      in if seg_ino seg \<noteq> INVALID_INO \<and> seg_start seg \<le> va \<and> va - seg_start seg < min (seg_length seg) (seg_file_size seg) \<and>
            x < word_of_int (get_file_size_by_id fv (seg_ino seg))
         then file_byte fv (seg_ino seg) x else 0)"

lemma unat_plus: "unat a + unat b < 2 ^ 64 \<Longrightarrow> unat (a + b :: u64) = unat a + unat b"
  by (simp add: unat_word_ariths)

lemma unat_minus: "b \<le> a \<Longrightarrow> unat (a - b :: u64) = unat a - unat b"
  by (simp add: unat_sub)

lemma unat_min: "unat (min a b :: u64) = min (unat a) (unat b)"
  by (auto simp: min_def word_le_nat_alt)

lemma unat_max: "unat (max a b :: u64) = max (unat a) (unat b)"
  by (auto simp: max_def word_le_nat_alt)

lemma zero_page_byte: "off < 4096 \<Longrightarrow> get_byte page off (zero_page page vm) = 0"
proof -
  assume "off < 4096"
  then have "unat (drop_bit 3 off) < 512" by (simp add: drop_bit_eq_div unat_div word_less_nat_alt)
  then have i: "drop_bit 3 off < 512" by (simp add: word_less_nat_alt)
  show ?thesis using i by (simp add: get_byte_def zero_page_eq)
qed

text \<open>The arithmetic of one page: \<open>cs\<close> to \<open>ce\<close> is the part of the page inside the region, \<open>cs\<close> to \<open>fe\<close> the part
  the file backs, \<open>bk\<close> says that the file backs the byte at \<open>va\<close>.\<close>

lemma page_window:
  fixes page_va st ln fs fo x :: u64
  assumes nw: "unat page_va + 4096 < 2 ^ 64" "unat st + unat ln < 2 ^ 64" "unat st + unat fs < 2 ^ 64" "unat fo + unat ln < 2 ^ 64"
    and x: "x < 4096"
  defines "cs \<equiv> max page_va st" and "ce \<equiv> min (page_va + 4096) (st + ln)" and "va \<equiv> page_va + x"
  defines "fe \<equiv> min ce (st + fs)" and "bk \<equiv> st \<le> va \<and> va - st < min ln fs"
  shows "bk \<longleftrightarrow> unat cs \<le> unat va \<and> unat va < unat fe"
    "\<not> ce \<le> cs \<Longrightarrow> unat (fo + cs - st) = unat fo + (unat cs - unat st)"
    "bk \<Longrightarrow> unat (fo + (va - st)) = unat fo + (unat va - unat st)"
    "unat va = unat page_va + unat x" "unat cs = max (unat page_va) (unat st)"
    "unat ce = min (unat page_va + 4096) (unat st + unat ln)" "unat fe \<le> unat page_va + 4096"
proof -
  have X: "unat x < 4096" using x by (simp add: word_less_nat_alt)
  show va: "unat va = unat page_va + unat x" unfolding va_def using X nw(1) by (intro unat_plus) simp
  show cs: "unat cs = max (unat page_va) (unat st)" unfolding cs_def by (rule unat_max)
  have sums: "unat (page_va + 4096) = unat page_va + 4096" "unat (st + ln) = unat st + unat ln" "unat (st + fs) = unat st + unat fs"
    using nw unat_plus [of page_va 4096] unat_plus [of st ln] unat_plus [of st fs] by simp_all
  show ce: "unat ce = min (unat page_va + 4096) (unat st + unat ln)" unfolding ce_def unat_min sums ..
  have fe: "unat fe = min (min (unat page_va + 4096) (unat st + unat ln)) (unat st + unat fs)" unfolding fe_def ce_def unat_min sums ..
  then show "unat fe \<le> unat page_va + 4096" by simp
  show "bk \<longleftrightarrow> unat cs \<le> unat va \<and> unat va < unat fe"
    using X unat_minus [of st va] unfolding bk_def fe cs va word_less_nat_alt word_le_nat_alt unat_min by auto
  show "unat (fo + cs - st) = unat fo + (unat cs - unat st)" if "\<not> ce \<le> cs"
  proof -
    have "unat fo + (unat cs - unat st) < 2 ^ 64" using that nw(4) unfolding word_le_nat_alt ce cs by auto
    then show ?thesis using unat_plus [of fo "cs - st"] unat_minus [of st cs] by (simp add: add_diff_eq cs_def)
  qed
  show "unat (fo + (va - st)) = unat fo + (unat va - unat st)" if bk
  proof -
    have "st \<le> va" "unat va - unat st < unat ln" using that unat_minus [of st va] by (auto simp: bk_def word_less_nat_alt unat_min)
    then show ?thesis using unat_plus [of fo "va - st"] unat_minus [of st va] nw(4) by simp
  qed
qed

lemma file_window:
  fixes page_va st ln fs fo x sz :: u64
  assumes nw: "unat page_va + 4096 < 2 ^ 64" "unat st + unat ln < 2 ^ 64" "unat st + unat fs < 2 ^ 64" "unat fo + unat ln < 2 ^ 64"
    and x: "x < 4096"
  defines "cs \<equiv> max page_va st" and "ce \<equiv> min (page_va + 4096) (st + ln)" and "va \<equiv> page_va + x"
  defines "fe \<equiv> min ce (st + fs)" and "bk \<equiv> st \<le> va \<and> va - st < min ln fs"
  assumes c: "\<not> ce \<le> cs" and f: "\<not> fe \<le> cs" and o: "\<not> sz \<le> fo + cs - st"
  defines "n \<equiv> min (fe - cs) (sz - (fo + cs - st))"
  shows "unat n \<le> 2 ^ 32" "unat (fo + cs - st) + unat n < 2 ^ 64" "x - (cs - page_va) < n \<longleftrightarrow> bk \<and> fo + (va - st) < sz"
proof -
  note W = page_window [OF nw x, folded cs_def va_def ce_def, folded fe_def bk_def]
  let ?o = "fo + cs - st"
  have n: "unat n = min (unat fe - unat cs) (unat sz - unat ?o)"
    unfolding n_def using unat_min [of "fe - cs" "sz - ?o"] unat_minus [of cs fe] unat_minus [of ?o sz] f o by (auto simp only: not_le dest: less_imp_le)
  have b: "unat fe - unat cs \<le> 4096" "unat ?o \<le> unat sz" "unat sz < 2 ^ 64"
    using W(5,7) o unsigned_less [of sz, where 'a = nat] unfolding word_le_nat_alt by simp_all
  have "min u (v - w) \<le> 2 ^ 32 \<and> w + min u (v - w) < 2 ^ 64" if "u \<le> 4096" "w \<le> v" "v < 2 ^ 64" for u v w :: nat
    using that by (auto simp: min_def)
  from this [OF b] show "unat n \<le> 2 ^ 32" "unat ?o + unat n < 2 ^ 64" unfolding n by blast+
  have d: "x - (cs - page_va) = va - cs" by (simp add: va_def)
  show "x - (cs - page_va) < n \<longleftrightarrow> bk \<and> fo + (va - st) < sz"
  proof (cases "cs \<le> va")
    case le: True
    have le': "unat cs \<le> unat va" "unat st \<le> unat cs" using le W(5) by (simp_all add: word_le_nat_alt)
    have "v - k < min (f - k) (z - (w + (k - t))) \<longleftrightarrow> v < f \<and> w + (v - t) < z" if "k \<le> v" "t \<le> k" for v k f z w t :: nat
      using that by auto
    from this [OF le'] have "va - cs < n \<longleftrightarrow> unat va < unat fe \<and> unat fo + (unat va - unat st) < unat sz"
      unfolding word_less_nat_alt unat_minus [OF le] n W(2) [OF c] .
    then show ?thesis unfolding d using W(1,3) le'(1) word_less_nat_alt [of "fo + (va - st)" sz] by metis
  next
    case gt: False
    let ?a = "cs - page_va"
    have a: "unat ?a = unat cs - unat page_va" by (rule unat_minus) (simp add: cs_def)
    have "unat cs - unat page_va \<le> 4096" using c unfolding word_le_nat_alt W(5,6) by auto
    then have a4: "?a \<le> 4096" unfolding word_le_nat_alt a by simp
    have "min (f - k) w \<le> 4096 - (k - q)" if "f \<le> q + 4096" "q \<le> k" for f k w q :: nat using that by auto
    from this [OF W(7)] have "n \<le> 4096 - ?a" unfolding word_le_nat_alt [of n] n unat_minus [OF a4] a by (simp add: W(5))
    moreover have "\<not> ?a \<le> x" using gt W(4) unfolding word_le_nat_alt a by linarith
    ultimately have "\<not> x - ?a < n" using window [OF a4, of x] by (meson order.strict_trans2)
    moreover have "\<not> bk" using gt W(1) unfolding word_le_nat_alt by simp
    ultimately show ?thesis by simp
  qed
qed

text \<open>C18. Demand paging. When \<^verbatim>\<open>read_segment_page\<close> reports success on a zeroed page, every byte of the
  page is the byte the region has at that address: the byte of the file when the address is inside
  the part of the region that the file backs, and zero elsewhere. The regions and the page must not
  wrap around the end of the address space.\<close>

theorem read_segment_page_correct:
  assumes "read_segment_page ko fv seg page_va page vm = Some (SUCCESS, vm')"
    and "0 < get_bytes_per_block fv" "get_bytes_per_block fv < 2 ^ 31"
    and "\<forall>x < 4096. get_byte page x vm = 0"
    and "unat page_va + 4096 < 2 ^ 64" "unat (seg_start seg) + unat (seg_length seg) < 2 ^ 64"
    and "unat (seg_start seg) + unat (seg_file_size seg) < 2 ^ 64" "unat (seg_file_offset seg) + unat (seg_length seg) < 2 ^ 64"
    and "x < 4096"
  shows "get_byte page x vm' = segment_byte fv seg (page_va + x)"
proof -
  let ?st = "seg_start seg" and ?ln = "seg_length seg" and ?fs = "seg_file_size seg" and ?fo = "seg_file_offset seg"
  let ?cs = "max page_va ?st" and ?ce = "min (page_va + PAGE_SIZE) (?st + ?ln)" and ?va = "page_va + x"
  let ?fe = "min ?ce (?st + ?fs)" and ?bk = "?st \<le> page_va + x \<and> page_va + x - ?st < min ?ln ?fs"
  let ?o = "?fo + ?cs - ?st" and ?sz = "word_of_int (get_file_size_by_id fv (seg_ino seg)) :: u64"
  note W = page_window [OF assms(5-9)] and run = assms(1) [unfolded read_segment_page_def Let_def]
  have sb: "segment_byte fv seg ?va = (if seg_ino seg \<noteq> 0 \<and> ?bk \<and> ?fo + (?va - ?st) < ?sz then file_byte fv (seg_ino seg) (?fo + (?va - ?st)) else 0)"
    unfolding segment_byte_def Let_def by (simp only: conj_assoc)
  have zero: "get_byte page x vm = 0" using assms(4,9) by simp
  have c: "\<not> ?ce \<le> ?cs" using run by (auto split: if_splits)
  show ?thesis
  proof (cases "?fe \<le> ?cs \<or> seg_ino seg = 0 \<or> ?o \<ge> ?sz")
    case True
    have g: "get_byte page x vm' = 0"
      using run True zero zero_page_byte [OF assms(9)] by (auto split: if_splits)
    have "\<not> (seg_ino seg \<noteq> 0 \<and> ?bk \<and> ?fo + (?va - ?st) < ?sz)"
    proof
      assume a: "seg_ino seg \<noteq> 0 \<and> ?bk \<and> ?fo + (?va - ?st) < ?sz"
      then have "unat ?cs \<le> unat ?va" "unat ?va < unat ?fe" "unat ?fo + (unat ?va - unat ?st) < unat ?sz"
        using W(1,3) by (simp_all only: word_less_nat_alt simp_thms)
      then show False using a True W(2) [OF c] unfolding word_le_nat_alt by linarith
    qed
    then show ?thesis unfolding g sb by (rule if_not_P [symmetric])
  next
    case False
    let ?n = "min (?fe - ?cs) (?sz - ?o)"
    have f: "\<not> ?fe \<le> ?cs" "\<not> ?sz \<le> ?o" "seg_ino seg \<noteq> 0" using False by auto
    note F = file_window [OF assms(5-9) c f(1,2)]
    have rl: "read_loop fv (seg_ino seg) page (?cs - page_va) ?o ?n vm = Some (SUCCESS, vm')"
      using run f c by (auto split: if_splits)
    have o: "?o + (x - (?cs - page_va)) = ?fo + (?va - ?st)" by simp
    show ?thesis using read_loop_contents [OF assms(2,3) rl F(1,2), of x] F(3) f(3) zero unfolding sb o by (simp only: simp_thms)
  qed
qed

text \<open>A one-byte file mapped at \<open>0x10000\<close>.\<close>

definition tiny_file :: file_view where
  "tiny_file = \<lparr>get_file_size_by_id = \<lambda>_. 1, get_ith_block_of_file_by_id = \<lambda>_ _. 7, read_block = \<lambda>_. (SUCCESS, \<lambda>_. 0x7f),
     get_bytes_per_block = 4096\<rparr>"

definition tiny_segment :: mem_segment where
  "tiny_segment = \<lparr>seg_start = 0x10000, seg_length = 0x1000, seg_ino = 3, seg_file_offset = 0, seg_file_size = 0x1000,
     seg_prot = MMAP_PROT_READ, seg_flags = 1\<rparr>"

theorem read_segment_page_correct_witness:
  "\<exists>vm'. read_segment_page True tiny_file tiny_segment 0x10000 0xffff000000200000 (zero_page 0xffff000000200000 boot_vm) = Some (SUCCESS, vm') \<and>
     get_byte 0xffff000000200000 0 vm' = 0x7f \<and> get_byte 0xffff000000200000 1 vm' = 0"
proof -
  let ?p = "0xffff000000200000" let ?z = "zero_page ?p boot_vm"
  let ?v = "copy_bytes ?p 0 (\<lambda>_. 0x7f) 0 1 ?z"
  have run: "read_segment_page True tiny_file tiny_segment 0x10000 ?p ?z = Some (SUCCESS, ?v)"
    by (simp add: read_segment_page_def tiny_file_def tiny_segment_def read_loop.simps Let_def)
  have z: "\<forall>x < 4096. get_byte ?p x ?z = 0" by (simp add: zero_page_byte)
  have "get_byte ?p x ?v = segment_byte tiny_file tiny_segment (0x10000 + x)" if "x < 4096" for x
    by (rule read_segment_page_correct [OF run _ _ z _ _ _ _ that]) (simp_all add: tiny_file_def tiny_segment_def)
  from this [of 0] this [of 1] run show ?thesis
    by (simp add: segment_byte_def tiny_file_def tiny_segment_def file_byte_def Let_def)
qed

end
