(* ===== verification/Fork.thy ===== *)
theory Fork
  imports Vm_Regions "HOL-Library.Sublist"
begin

section \<open>Copying an address space\<close>

text \<open>
  \<open>cpy_address_space\<close> of \<^verbatim>\<open>src/kernel/scheduler/process.c\<close>, the heart of \<open>fork\<close>: four nested loops build a
  second tree of tables. Kernel pages are copied; user pages are shared, and a writable one becomes
  read-only in both address spaces and is marked for copying on the first write (theory \<open>Cow\<close>).
  A loop that runs out of memory returns from the function: \<open>False\<close>.
\<close>

definition cpy_entry :: "u64 \<Rightarrow> u64 \<Rightarrow> u64 \<Rightarrow> vm \<Rightarrow> bool \<times> vm" where
  "cpy_entry src_l3 dst_l3 l vm =
     (let e = kw vm src_l3 l in
      if e AND DESC_VALID = 0 then (True, vm)
      else
        (let src_pa = e AND PTE_ADDR_MASK; src_attrs = e AND NOT PTE_ADDR_MASK in
         if \<not> pte_is_user e then
           (case alloc_page vm of
              (dst_page, vm) \<Rightarrow>
                if dst_page = 0 then (False, vm)
                else
                  (let dst_pa = kernel_phys_addr dst_page
                   in (True, set_word dst_l3 l ((dst_pa AND PTE_ADDR_MASK) OR src_attrs OR DESC_VALID OR DESC_PAGE)
                         (copy_phys_page src_pa dst_pa vm))))
         else if pte_is_writable e then
           (let vm = pte_make_readonly_and_mark_cow src_l3 l vm;
                child_pte = (src_pa AND PTE_ADDR_MASK) OR (kw vm src_l3 l AND NOT PTE_ADDR_MASK);
                child_pte = (child_pte AND NOT (PTE_AP_EL0_RW OR PTE_AP_EL1_RW)) OR PTE_AP_EL0_RO
            in (True, inc_pte_refcount_pa src_pa (set_word dst_l3 l (child_pte OR DESC_VALID OR DESC_PAGE) vm)))
         else (True, inc_pte_refcount_pa src_pa (set_word dst_l3 l e vm))))"

fun for_entries :: "(u64 \<Rightarrow> vm \<Rightarrow> bool \<times> vm) \<Rightarrow> u64 list \<Rightarrow> vm \<Rightarrow> bool \<times> vm" where
  "for_entries f [] vm = (True, vm)"
| "for_entries f (i # is) vm = (case f i vm of (False, vm) \<Rightarrow> (False, vm) | (True, vm) \<Rightarrow> for_entries f is vm)"

text \<open>The three outer loops have the same body; the first argument counts the levels below.\<close>

primrec cpy_level :: "nat \<Rightarrow> u64 \<Rightarrow> u64 \<Rightarrow> vm \<Rightarrow> bool \<times> vm" where
  "cpy_level 0 src dst vm = for_entries (cpy_entry src dst) page_words vm"
| "cpy_level (Suc d) src dst vm =
     for_entries (\<lambda>i vm.
       if kw vm src i AND DESC_VALID = 0 then (True, vm)
       else
         (let src_next = kernel_direct_map_va (kw vm src i AND PTE_ADDR_MASK) in
          case alloc_page vm of
            (dst_next, vm) \<Rightarrow>
              if dst_next = 0 then (False, vm)
              else cpy_level d src_next dst_next (set_word dst i (table_desc dst_next) vm))) page_words vm"

text \<open>The fields of the child's \<open>pcb_t\<close> that change: \<open>(ttbr0_el1, ttbr0_el1_va)\<close>.\<close>

definition cpy_address_space :: "(nat \<Rightarrow> bool) \<Rightarrow> u64 \<Rightarrow> u64 \<times> u64 \<Rightarrow> mm \<Rightarrow> ((u64 \<times> u64) \<times> mm) run" where
  "cpy_address_space ko src_l0 dst mm =
     (case alloc_page (mvm mm) of
        (dst_l0, vm) \<Rightarrow>
          (let mm = mm\<lparr>mvm := vm\<rparr> in
           if dst_l0 = 0 then Returns (dst, mm)
           else
             (case copy_page_table_struct ko src_l0 dst_l0 mm of
                Spins \<Rightarrow> Spins
              | Panics e \<Rightarrow> Panics e
              | Returns (err, mm) \<Rightarrow>
                  if err \<noteq> SUCCESS then Returns (dst, mm)
                  else
                    (case destroy_page_table (snd dst) mm of
                       Spins \<Rightarrow> Spins
                     | Panics e \<Rightarrow> Panics e
                     | Returns mm \<Rightarrow>
                         (case cpy_level 3 src_l0 dst_l0 (mvm mm) of
                            (ok, vm) \<Rightarrow> Returns ((kernel_phys_addr dst_l0, dst_l0),
                              mm\<lparr>mvm := if ok then page_table_note_tlb_flush vm else vm\<rparr>))))))"

subsection \<open>What a slot of an address space holds\<close>

definition page_at :: "vm \<Rightarrow> u64 set \<Rightarrow> u64 \<Rightarrow> u64 list \<Rightarrow> u64 \<Rightarrow> (u64 \<Rightarrow> u64) option" where
  "page_at vm R r p l = map_option (\<lambda>e i. if i < 512 then kw vm (child e) i else 0) (leaf (kw vm) R r p l)"

lemma page_at_eqI:
  assumes "leaf (kw vm') R r p l = None \<longleftrightarrow> leaf (kw vm) R' r' p' l' = None"
    "\<And>e e' i. leaf (kw vm') R r p l = Some e' \<Longrightarrow> leaf (kw vm) R' r' p' l' = Some e \<Longrightarrow> i < 512 \<Longrightarrow> kw vm' (child e') i = kw vm (child e) i"
  shows "page_at vm' R r p l = page_at vm R' r' p' l'"
  using assms unfolding page_at_def
  by (cases "leaf (kw vm') R r p l"; cases "leaf (kw vm) R' r' p' l'") (simp_all add: fun_eq_iff)

lemma reads_same_page_at:
  assumes "reads_same vm vm' R" "slot p l"
  shows "page_at vm' R r p l = page_at vm R r p l"
proof (rule page_at_eqI)
  have r: "map_option (\<lambda>e. kw vm' (child e) i) (leaf (kw vm') R r p l) = map_option (\<lambda>e. kw vm (child e) i) (leaf (kw vm) R r p l)"
    if "i < 512" for i using assms that by (simp add: reads_same_def)
  show "leaf (kw vm') R r p l = None \<longleftrightarrow> leaf (kw vm) R r p l = None" 
    using r [of 0] by (cases "leaf (kw vm') R r p l"; cases "leaf (kw vm) R r p l") simp_all
  show "kw vm' (child e') i = kw vm (child e) i" if "leaf (kw vm') R r p l = Some e'" "leaf (kw vm) R r p l = Some e" "i < 512" for e e' i
    using r [OF that(3)] that by simp
qed

text \<open>The state \<open>(vm', fl')\<close> comes from \<open>vm\<close> by copying from \<open>src\<close> to \<open>dst\<close> the slots under the paths \<open>A\<close>.
  Only when \<open>ok\<close> is false some of them may still be empty.\<close>

definition under :: "u64 list set \<Rightarrow> u64 list \<Rightarrow> bool" where
  "under A p \<longleftrightarrow> (\<exists>a \<in> A. suffix a p)"

definition copies :: "u64 set \<Rightarrow> u64 \<Rightarrow> u64 \<Rightarrow> u64 list set \<Rightarrow> bool \<Rightarrow> vm \<Rightarrow> vm \<Rightarrow> u64 list \<Rightarrow> bool" where
  "copies R src dst A ok vm vm' fl' \<longleftrightarrow>
     as_ok vm' fl' R \<and>
     (\<forall>r p t. okp p \<longrightarrow> walk (kw vm) R r p = Some t \<longrightarrow> walk (kw vm') R r p = Some t) \<and>
     (\<forall>r p. okp p \<longrightarrow> (r = dst \<longrightarrow> \<not> under A p) \<longrightarrow> walk (kw vm') R r p = walk (kw vm) R r p) \<and>
     (\<forall>r p l. slot p l \<longrightarrow> (r = dst \<longrightarrow> \<not> under A (l # p)) \<longrightarrow> page_at vm' R r p l = page_at vm R r p l) \<and>
     (\<forall>p l. slot p l \<longrightarrow> under A (l # p) \<longrightarrow>
        page_at vm' R dst p l = page_at vm R src p l \<or> \<not> ok \<and> page_at vm' R dst p l = None)"

lemma copiesD:
  assumes "copies R src dst A ok vm vm' fl'"
  shows "as_ok vm' fl' R" "okp p \<Longrightarrow> walk (kw vm) R r p = Some t \<Longrightarrow> walk (kw vm') R r p = Some t"
    "okp p \<Longrightarrow> (r = dst \<Longrightarrow> \<not> under A p) \<Longrightarrow> walk (kw vm') R r p = walk (kw vm) R r p"
    "slot p l \<Longrightarrow> (r = dst \<Longrightarrow> \<not> under A (l # p)) \<Longrightarrow> page_at vm' R r p l = page_at vm R r p l"
    "slot p l \<Longrightarrow> under A (l # p) \<Longrightarrow> page_at vm' R dst p l = page_at vm R src p l \<or> \<not> ok \<and> page_at vm' R dst p l = None"
  using assms unfolding copies_def by simp_all

lemma copiesI:
  assumes "as_ok vm' fl' R" "\<And>r p t. okp p \<Longrightarrow> walk (kw vm) R r p = Some t \<Longrightarrow> walk (kw vm') R r p = Some t"
    "\<And>r p. okp p \<Longrightarrow> (r = dst \<Longrightarrow> \<not> under A p) \<Longrightarrow> walk (kw vm') R r p = walk (kw vm) R r p"
    "\<And>r p l. slot p l \<Longrightarrow> (r = dst \<Longrightarrow> \<not> under A (l # p)) \<Longrightarrow> page_at vm' R r p l = page_at vm R r p l"
    "\<And>p l. slot p l \<Longrightarrow> under A (l # p) \<Longrightarrow> page_at vm' R dst p l = page_at vm R src p l \<or> \<not> ok \<and> page_at vm' R dst p l = None"
  shows "copies R src dst A ok vm vm' fl'"
  using assms unfolding copies_def by simp

lemma under_simps [simp]: "\<not> under {} p" "under (A \<union> B) p \<longleftrightarrow> under A p \<or> under B p" "under (insert a A) p \<longleftrightarrow> suffix a p \<or> under A p"
  by (auto simp: under_def)

lemma copies_trans:
  assumes a: "copies R src dst A True vm vm1 fl1" and b: "copies R src dst B ok vm1 vm2 fl2" and ne: "src \<noteq> dst"
  shows "copies R src dst (A \<union> B) ok vm vm2 fl2"
proof (rule copiesI)
  show "as_ok vm2 fl2 R" by (rule copiesD(1) [OF b])
  show "walk (kw vm2) R r p = Some t" if "okp p" "walk (kw vm) R r p = Some t" for r p t
    by (rule copiesD(2) [OF b that(1) copiesD(2) [OF a that]])
  show "walk (kw vm2) R r p = walk (kw vm) R r p" if "okp p" "r = dst \<Longrightarrow> \<not> under (A \<union> B) p" for r p
    using copiesD(3) [OF a that(1), of r] copiesD(3) [OF b that(1), of r] that(2) by auto
  show "page_at vm2 R r p l = page_at vm R r p l" if "slot p l" "r = dst \<Longrightarrow> \<not> under (A \<union> B) (l # p)" for r p l
    using copiesD(4) [OF a that(1), of r] copiesD(4) [OF b that(1), of r] that(2) by auto
  show "page_at vm2 R dst p l = page_at vm R src p l \<or> \<not> ok \<and> page_at vm2 R dst p l = None" if s: "slot p l" and u: "under (A \<union> B) (l # p)" for p l
  proof (cases "under B (l # p)")
    case True
    then show ?thesis using copiesD(5) [OF b s True] copiesD(4) [OF a s, of src] ne by auto
  next
    case False
    then show ?thesis using u copiesD(5) [OF a s] copiesD(4) [OF b s, of dst] by simp
  qed
qed

lemma copies_stopped:
  assumes a: "copies R src dst A False vm vm' fl'" and e: "\<And>p l. slot p l \<Longrightarrow> under B (l # p) \<Longrightarrow> page_at vm R dst p l = None"
  shows "copies R src dst (A \<union> B) False vm vm' fl'"
proof (rule copiesI)
  show "page_at vm' R dst p l = page_at vm R src p l \<or> \<not> False \<and> page_at vm' R dst p l = None" if s: "slot p l" and u: "under (A \<union> B) (l # p)" for p l
    using copiesD(5) [OF a s] copiesD(4) [OF a s, of dst] e [OF s] u by (cases "under A (l # p)") auto
qed (use copiesD(1-4) [OF a] in \<open>auto\<close>)

subsection \<open>One more table, one more mapping\<close>

lemma as_ok_grow:
  assumes ok: "as_ok vm fl R" and w: "walk (kw vm) R r p = Some t" and o: "okp (i # p)" and inv: "\<not> valid (kw vm t i)"
    and f: "fresh vm fl n vm1 fl1"
  defines "vm' \<equiv> set_word t i (table_desc n) vm1"
  shows "as_ok vm' fl1 R" "okp p' \<Longrightarrow> walk (kw vm') R r' p' = (if r' = r \<and> p' = i # p then Some n else walk (kw vm) R r' p')"
    "slot p' l' \<Longrightarrow> leaf (kw vm') R r' p' l' = leaf (kw vm) R r' p' l'" "slot p' l' \<Longrightarrow> page_at vm' R r' p' l' = page_at vm R r' p' l'"
    "\<And>j. j < 512 \<Longrightarrow> kw vm' n j = 0"
proof -
  note D = as_okD [OF ok]
  have F: "pa_inv vm1 fl1" "kpage n" "n \<notin> in_use vm fl" "in_use vm1 fl1 = insert n (in_use vm fl)" "\<And>j. j < 512 \<Longrightarrow> kw vm1 n j = 0"
      "\<And>q. q \<noteq> n \<Longrightarrow> kw vm1 q = kw vm q"
    using f by (simp_all add: fresh_def)
  have t: "t \<in> in_use vm fl" "t \<in> tabs (kw vm) R" using treeD(1,2) [OF D(2) w] o by simp_all
  have tn: "t \<noteq> n" using t(1) F(3) by auto
  have k: "kw vm' n j = 0" if "j < 512" for j using that tn F(5) by (simp add: vm'_def)
  have k': "kw vm' t = (kw vm t)(i := table_desc n)" "\<And>q. q \<noteq> n \<Longrightarrow> q \<noteq> t \<Longrightarrow> kw vm' q = kw vm q"
    using tn F(6) by (simp_all add: vm'_def)
  have G: "okp p' \<Longrightarrow> walk (kw vm') R r' p' = (if r' = r \<and> p' = i # p then Some n else walk (kw vm) R r' p')"
      "tree (kw vm') R (insert n (in_use vm fl))" "tabs (kw vm') R = insert n (tabs (kw vm) R)"
      "slot p' l' \<Longrightarrow> leaf (kw vm') R r' p' l' = leaf (kw vm) R r' p' l'" for r' p' l'
    using table_grow [OF D(2) w o inv F(3,2), of "kw vm'"] k k' by simp_all
  show "okp p' \<Longrightarrow> walk (kw vm') R r' p' = (if r' = r \<and> p' = i # p then Some n else walk (kw vm) R r' p')" by (rule G(1))
  show lf: "leaf (kw vm') R r' p' l' = leaf (kw vm) R r' p' l'" if "slot p' l'" for r' p' l' by (rule G(4) [OF that])
  have own: "owners (kw vm') R x = owners (kw vm) R x" for x by (simp add: owners_def lf cong: conj_cong)
  have iu: "in_use vm' fl1 = insert n (in_use vm fl)" using F(4) by (simp add: vm'_def)
  have use: "child e \<in> in_use vm fl" "child e \<notin> tabs (kw vm) R" if "slot q l" "leaf (kw vm) R r' q l = Some e" for r' q l e
    using D(6) [OF that] by (simp_all add: leaf_ok_def)
  have pgs: "pg vm' x = pg vm x" if "x \<in> in_use vm fl" for x using fresh_pg(2) [OF f D(5) that] by (simp add: pg_def vm'_def)
  have "leaf_ok vm' fl1 R (r', q, l) e" if "slot q l" "leaf (kw vm) R r' q l = Some e" for r' q l e
    using D(6) [OF that] use [OF that] pgs F(3) unfolding leaf_ok_def own G(3) iu by auto
  moreover have "pa_inv vm' fl1" unfolding vm'_def by (rule set_word_inv [OF F(1)]) (use t(1) F(4) in simp)
  moreover have "pages vm' \<noteq> None" using fresh_pg(3) [OF f D(5)] by (simp add: vm'_def)
  ultimately show "as_ok vm' fl1 R" using D(3,4,7) G(2) iu by (simp add: as_ok_def own lf)
  show "page_at vm' R r' p' l' = page_at vm R r' p' l'" if s: "slot p' l'"
    by (rule page_at_eqI) (use lf [OF s] use [OF s] F(3) t(2) k'(2) in \<open>auto, metis\<close>)
  show "\<And>j. j < 512 \<Longrightarrow> kw vm' n j = 0" by (rule k)
qed

lemma unat_succ: "unat c < 2 ^ 16 - 1 \<Longrightarrow> unat (c + 1 :: u16) = unat c + 1"
  by (simp add: unat_word_ariths)

lemma as_ok_share:
  assumes ok: "as_ok vm fl R" and e: "leaf (kw vm) R src p l = Some e" "\<not> pte_is_writable e"
    and w: "walk (kw vm) R dst p = Some t" and s: "slot p l" and new: "leaf (kw vm) R dst p l = None" and ne: "src \<noteq> dst"
    and e': "child e' = child e" "valid e'" "\<not> pte_is_writable e'"
  defines "vm' \<equiv> inc_pte_refcount_pa (e AND PTE_ADDR_MASK) (set_word t l e' vm)"
  shows "as_ok vm' fl R" "okp p' \<Longrightarrow> walk (kw vm') R r' p' = walk (kw vm) R r' p'"
    "slot p' l' \<Longrightarrow> leaf (kw vm') R r' p' l' = (if (r', p', l') = (dst, p, l) then Some e' else leaf (kw vm) R r' p' l')"
    "x \<in> in_use vm fl \<Longrightarrow> x \<notin> tabs (kw vm) R \<Longrightarrow> kw vm' x = kw vm x"
proof -
  note D = as_okD [OF ok]
  let ?v = "set_word t l e' vm"
  have u: "upd_pg (child e) (\<lambda>p. p\<lparr>refcount := refcount p + 1\<rparr>) ?v vm'"
    unfolding vm'_def by (rule inc_upd) (use D(5) in simp)
  note U = upd_pg_pg [OF u] and C = same_core_facts [OF upd_pg_pg(4) [OF u]]
  have t: "t \<in> in_use vm fl" "t \<in> tabs (kw vm) R" using treeD(1,2) [OF D(2) w] slot_okp(1) [OF s] by simp_all
  have kw': "kw vm' = (kw vm)(t := (kw vm t)(l := e'))" using C(1) by simp
  note L = leaf_write [OF D(2) w s, where e = e', folded kw']
  have lf: "leaf (kw vm') R r' p' l' = (if (r', p', l') = (dst, p, l) then Some e' else leaf (kw vm) R r' p' l')" if "slot p' l'" for r' p' l'
    using L(4) [OF that, where r' = r'] e'(2) by simp
  have own: "(src, p, l) \<in> owners (kw vm) R (child e)" by (rule ownersI [OF s e(1)])
  have nown: "(dst, p, l) \<notin> owners (kw vm) R x" for x using new by (auto simp: owners_def)
  have q: "child e \<in> in_use vm fl" "child e \<notin> tabs (kw vm) R" using D(6) [OF s e(1)] by (auto simp: leaf_ok_def)
  have iu: "in_use vm' fl = in_use vm fl" using C(3) by simp
  have pgv: "pg ?v x = pg vm x" for x by (simp add: pg_def)
  have rc: "unat (refcount (pg vm (child e))) = card (owners (kw vm) R (child e))" using owned_count(1) [OF ok] own by blast
  have b: "card (owners (kw vm) R (child e)) < 2 ^ 16 - 1" using owners_bound(2) [OF ok, of "child e"] D(4) by linarith
  show "as_ok vm' fl R"
  proof (rule as_ok_rewire [OF ok s, where r = dst and e' = e'])
    show "pa_inv vm' fl" using C(4) set_word_inv [OF D(1) t(1)] by simp
    show "tree (kw vm') R (in_use vm' fl)" using L(2) iu by simp
    show "leaf (kw vm') R r' p' l' = (if (r', p', l') = (dst, p, l) then Some e' else leaf (kw vm) R r' p' l')" if "slot p' l'" for r' p' l'
      by (rule lf [OF that])
    show "child e' \<in> in_use vm' fl" "child e' \<notin> tabs (kw vm') R" using q e'(1) L(3) iu by simp_all
    show "p1 = p \<and> l1 = l" if "(r1, p1, l1) \<in> owners (kw vm) R (child e')" for r1 p1 l1
      using D(7) [OF own that [unfolded e'(1)]] by simp
    show "unat (refcount (pg vm' (child e'))) = card (insert (dst, p, l) (owners (kw vm) R (child e')))"
      using U(1) pgv unat_succ [of "refcount (pg vm (child e))"] rc b nown owners_bound(1) [OF ok, of "child e"] unfolding e'(1) by simp
    show "unat (refcount (pg vm' x)) = card (owners (kw vm) R x - {(dst, p, l)})"
      if "x \<noteq> child e'" "x \<in> in_use vm fl" "owners (kw vm) R x - {(dst, p, l)} \<noteq> {}" for x
      using that U(2) [OF in_use_kpage [OF q(1)] in_use_kpage [OF that(2)]] pgv owned_count(1) [OF ok, of x] nown [of x] e'(1) by simp
    show "\<not> pte_is_writable e1" if "slot p1 l1" "leaf (kw vm) R r1 p1 l1 = Some e1" "child e1 = child e'" "(r1, p1, l1) \<noteq> (dst, p, l)" for r1 p1 l1 e1
    proof
      assume "pte_is_writable e1"
      then have "owners (kw vm) R (child e) = {(r1, p1, l1)}" using D(6) [OF that(1,2)] that(3) e'(1) by (simp add: leaf_ok_def)
      then have "(r1, p1, l1) = (src, p, l)" using own by simp
      then show False using that(2) e \<open>pte_is_writable e1\<close> by simp
    qed
  qed (use U(3) L(3) iu e'(3) in simp_all)
  show "okp p' \<Longrightarrow> walk (kw vm') R r' p' = walk (kw vm) R r' p'" by (rule L(1))
  show "slot p' l' \<Longrightarrow> leaf (kw vm') R r' p' l' = (if (r', p', l') = (dst, p, l) then Some e' else leaf (kw vm) R r' p' l')" by (rule lf)
  show "x \<in> in_use vm fl \<Longrightarrow> x \<notin> tabs (kw vm) R \<Longrightarrow> kw vm' x = kw vm x" using t(2) kw' by auto
qed

lemma low_flags:
  fixes e :: u64
  shows "child (e OR DESC_VALID OR DESC_PAGE) = child e" "valid (e OR DESC_VALID OR DESC_PAGE)"
    "pte_is_writable (e OR DESC_VALID OR DESC_PAGE) = pte_is_writable e"
proof -
  have m: "(1 OR 2 :: u64) = mask 2" by (simp add: mask_eq_exp_minus_1)
  have "(e OR mask 2) AND PTE_ADDR_MASK = e AND PTE_ADDR_MASK"
    unfolding mask_values by (rule bit_word_eqI) (auto simp: bit_simps)
  then show "child (e OR 1 OR 2) = child e" unfolding m by (rule child_cong)
  show "valid (e OR 1 OR 2)" unfolding m by (simp add: valid_bit bit_simps)
  show "pte_is_writable (e OR 1 OR 2) = pte_is_writable e" unfolding m by (simp add: pte_access bit_simps)
qed

text \<open>The entry of the child after a writable page has been made read-only.\<close>

lemma child_entry:
  fixes e :: u64
  defines "e1 \<equiv> (e AND NOT PTE_AP_MASK) OR PTE_AP_EL0_RO"
  defines "c \<equiv> (((e AND PTE_ADDR_MASK) AND PTE_ADDR_MASK) OR (e1 AND NOT PTE_ADDR_MASK)) AND NOT (PTE_AP_EL0_RW OR PTE_AP_EL1_RW) OR PTE_AP_EL0_RO"
  shows "child c = child e" "\<not> pte_is_writable c"
proof -
  have i: "n = 6" if "bit (64 :: int) n" for n using that bit_exp_iff [where 'a = int, of 6 n] by simp
  have "c AND PTE_ADDR_MASK = e AND PTE_ADDR_MASK"
    unfolding c_def e1_def mask_values ap_mask_bits(1) by (rule bit_word_eqI) (auto simp: bit_simps dest: i)
  then show "child c = child e" by (rule child_cong)
  show "\<not> pte_is_writable c" by (simp add: pte_access c_def bit_or_iff bit_ap_ro)
qed

lemma suffix_length_eq: "length a = length b \<Longrightarrow> suffix a b \<Longrightarrow> a = b"
  by (metis append_Nil append_eq_append_conv suffix_def)

lemma slot_under: "slot p l \<Longrightarrow> slot p' l' \<Longrightarrow> under {l # p} (l' # p') \<longleftrightarrow> p' = p \<and> l' = l"
  using suffix_length_eq [of "l # p" "l' # p'"] by (auto simp: under_def slot_def)

lemma slot_not_under: "slot p l \<Longrightarrow> okp p' \<Longrightarrow> \<not> under {l # p} p'"
  using suffix_length_le [of "l # p" p'] by (auto simp: under_def slot_def okp_def)

lemma copies_skip:
  assumes "as_ok vm' fl' R" "kw vm' = kw vm" "\<And>p l. slot p l \<Longrightarrow> under A (l # p) \<Longrightarrow> page_at vm R dst p l = None"
    "ok \<Longrightarrow> (\<And>p l. slot p l \<Longrightarrow> under A (l # p) \<Longrightarrow> page_at vm R src p l = None)"
  shows "copies R src dst A ok vm vm' fl'"
proof (rule copiesI)
  have pa: "page_at vm' R r p l = page_at vm R r p l" for r p l unfolding page_at_def assms(2) ..
  show "page_at vm' R dst p l = page_at vm R src p l \<or> \<not> ok \<and> page_at vm' R dst p l = None" if "slot p l" "under A (l # p)" for p l
    using assms(4) [OF _ that] assms(3) [OF that] unfolding pa by (cases ok) auto
  show "page_at vm' R r p l = page_at vm R r p l" for r p l by (rule pa)
qed (use assms(1,2) in simp_all)

lemma copies_entry:
  assumes ok': "as_ok vm' fl' R" and s: "slot p l" and ne: "src \<noteq> dst" and e: "leaf (kw vm) R src p l = Some e"
    and wk: "\<And>r' p'. okp p' \<Longrightarrow> walk (kw vm') R r' p' = walk (kw vm) R r' p'"
    and lf: "\<And>r' p' l'. slot p' l' \<Longrightarrow> leaf (kw vm') R r' p' l' = (if (r', p', l') = (dst, p, l) then Some e' else leaf (kw vm) R r' p' l')"
    and new: "\<And>i. i < 512 \<Longrightarrow> kw vm' (child e') i = kw vm (child e) i"
    and old: "\<And>r1 p1 l1 e1. slot p1 l1 \<Longrightarrow> leaf (kw vm) R r1 p1 l1 = Some e1 \<Longrightarrow> kw vm' (child e1) = kw vm (child e1)"
  shows "copies R src dst {l # p} True vm vm' fl'"
proof (rule copiesI [OF ok'])
  show "page_at vm' R r p' l' = page_at vm R r p' l'" if "slot p' l'" "r = dst \<Longrightarrow> \<not> under {l # p} (l' # p')" for r p' l'
    by (rule page_at_eqI) (use lf [OF that(1), of r] old [OF that(1), of r] that(2) slot_under [OF s that(1)] in \<open>auto split: if_splits\<close>)
  show "page_at vm' R dst p' l' = page_at vm R src p' l' \<or> \<not> True \<and> page_at vm' R dst p' l' = None" if "slot p' l'" "under {l # p} (l' # p')" for p' l'
  proof -
    have "p' = p" "l' = l" using slot_under [OF s that(1)] that(2) by auto
    moreover have "page_at vm' R dst p l = page_at vm R src p l"
      by (rule page_at_eqI) (use lf [OF s, of dst] e new in auto)
    ultimately show ?thesis by simp
  qed
qed (use wk in simp_all)

lemma cpy_kernel_page:
  assumes ok: "as_ok vm fl R" and e: "leaf (kw vm) R src p l = Some e" and w: "walk (kw vm) R dst p = Some t" and s: "slot p l"
    and new: "leaf (kw vm) R dst p l = None" and ne: "src \<noteq> dst" and f: "fresh vm fl n vm1 fl1"
  shows "copies R src dst {l # p} True vm
    (set_word t l ((kernel_phys_addr n AND PTE_ADDR_MASK) OR (e AND NOT PTE_ADDR_MASK) OR DESC_VALID OR DESC_PAGE)
       (copy_phys_page (e AND PTE_ADDR_MASK) (kernel_phys_addr n) vm1)) fl1"
proof -
  note D = as_okD [OF ok]
  define e' where "e' = (kernel_phys_addr n AND PTE_ADDR_MASK) OR (e AND NOT PTE_ADDR_MASK) OR DESC_VALID OR DESC_PAGE"
  define vm' where "vm' = set_word t l e' (copy_phys_page (e AND PTE_ADDR_MASK) (kernel_phys_addr n) vm1)"
  have F: "kpage n" "n \<notin> in_use vm fl" "\<And>x. x \<noteq> n \<Longrightarrow> kw vm1 x = kw vm x" using f by (auto simp: fresh_def)
  have q: "child e \<in> in_use vm fl" "child e \<notin> tabs (kw vm) R" using D(6) [OF s e] by (auto simp: leaf_ok_def)
  have qn: "child e \<noteq> n" using q(1) F(2) by auto
  have c: "child e' = n" "valid e'"
    unfolding e'_def or.assoc [symmetric, of _ "e AND NOT PTE_ADDR_MASK"] by (simp_all only: low_flags set_frame [OF F(1)] simp_thms)
  define m where "m = (kw vm1)(n := \<lambda>i. if i < 512 then kw vm1 (child e) i else kw vm1 n i)"
  have kw': "kw vm' = m(t := (m t)(l := e'))" and pg': "pages vm' = pages vm1"
    and core: "pool_start vm' = pool_start vm1" "next_free_page vm' = next_free_page vm1" "free_list vm' = free_list vm1"
    by (simp_all add: vm'_def copy_page_entry [OF F(1) qn] m_def)
  have mx: "m x = kw vm x" if "x \<noteq> n" for x using that F(3) by (simp add: m_def)
  have pn: "pages vm' \<noteq> None" using fresh_pg(3) [OF f D(5)] pg' by simp
  have pgs: "pg vm' x = pg vm1 x" for x using pg' by (simp add: pg_def)
  have nown: "(dst, p, l) \<notin> owners (kw vm) R x" for x using new by (auto simp: owners_def)
  have rn: "refcount (pg vm' n) = 1" using fresh_pg(1) [OF f D(5)] pgs by simp
  have ro: "refcount (pg vm' x) = refcount (pg vm x)" if "x \<in> in_use vm fl" for x using fresh_pg(2) [OF f D(5) that] pgs by simp
  note N = as_ok_fresh_page [OF ok w s f c kw' mx core pn rn]
  have fin: "as_ok vm' fl1 R" "\<And>r' p' l'. slot p' l' \<Longrightarrow> leaf (kw vm') R r' p' l' = (if (r', p', l') = (dst, p, l) then Some e' else leaf (kw vm) R r' p' l')"
      "\<And>x. x \<in> in_use vm fl \<Longrightarrow> x \<notin> tabs (kw vm) R \<Longrightarrow> kw vm' x = kw vm x" "kw vm' n = m n"
    using N(1-4) nown ro by blast+
  have "\<forall>x \<in> tabs (kw vm) R. m x = kw vm x" using mx F(2) D(2) unfolding tree_def by (metis subsetD)
  note M = tables_same [OF this]
  have "walk m R dst p = Some t" using M(1) [OF slot_okp(1) [OF s]] w by simp
  from leaf_write(1) [OF M(3) [OF D(2)] this s, where e = e', folded kw']
  have wk: "walk (kw vm') R r' p' = walk (kw vm) R r' p'" if "okp p'" for r' p' using that M(1) by simp
  have "copies R src dst {l # p} True vm vm' fl1"
  proof (rule copies_entry [OF fin(1) s ne e wk fin(2)])
    show "kw vm' (child e') i = kw vm (child e) i" if "i < 512" for i using fin(4) that c(1) F(3) qn by (simp add: m_def)
    show "kw vm' (child e1) = kw vm (child e1)" if "slot p1 l1" "leaf (kw vm) R r1 p1 l1 = Some e1" for r1 p1 l1 e1
      using D(6) [OF that] by (intro fin(3)) (auto simp: leaf_ok_def)
  qed
  then show ?thesis unfolding vm'_def e'_def .
qed

lemma cpy_writable_page:
  assumes ok: "as_ok vm fl R" and ws: "walk (kw vm) R src p = Some sl" and wd: "walk (kw vm) R dst p = Some t" and s: "slot p l"
    and v: "valid (kw vm sl l)" and new: "leaf (kw vm) R dst p l = None" and ne: "src \<noteq> dst" and us: "pte_is_user (kw vm sl l)"
  defines "e \<equiv> kw vm sl l"
  defines "vm1 \<equiv> pte_make_readonly_and_mark_cow sl l vm"
  defines "c \<equiv> (((e AND PTE_ADDR_MASK) AND PTE_ADDR_MASK) OR (kw vm1 sl l AND NOT PTE_ADDR_MASK)) AND NOT (PTE_AP_EL0_RW OR PTE_AP_EL1_RW) OR PTE_AP_EL0_RO"
  shows "copies R src dst {l # p} True vm (inc_pte_refcount_pa (e AND PTE_ADDR_MASK) (set_word t l (c OR DESC_VALID OR DESC_PAGE) vm1)) fl"
proof -
  note D = as_okD [OF ok]
  define e1 where "e1 = (e AND NOT PTE_AP_MASK) OR PTE_AP_EL0_RO"
  note A = set_access [OF disjI2 [OF refl], of e, folded e1_def]
  have le: "leaf (kw vm) R src p l = Some e" using ws v by (simp add: leaf_def e_def)
  have nw: "\<not> pte_is_writable e1" using A(4) by simp
  have u0: "upd_pg (child e) (\<lambda>p. p) vm vm" using D(5) by (auto simp: upd_pg_def same_core_def)
  have ve1: "valid e1" using A(3) v by (simp add: e_def)
  note T = retouch_entry [OF ok ws s le A(1) ve1 _ u0 refl]
  let ?w = "set_word sl l e1 vm"
  have T1: "as_ok ?w fl R" "reads_same vm ?w R"
      "\<And>r' p' l'. slot p' l' \<Longrightarrow> leaf (kw ?w) R r' p' l' = (if (r', p', l') = (src, p, l) then Some e1 else leaf (kw vm) R r' p' l')"
    using T nw by blast+
  have vm1: "vm1 = pte_set_cow_flag (e AND PTE_ADDR_MASK) PTE_FLAG_COW ?w"
    using us by (simp add: vm1_def pte_make_readonly_and_mark_cow_def Let_def e_def e1_def)
  have u1: "upd_pg (child e) (\<lambda>p. p\<lparr>pflags := pflags p OR 1\<rparr>) ?w vm1" unfolding vm1 by (rule set_cow_upd) (use D(5) in simp)
  have ok1: "as_ok vm1 fl R" by (rule as_ok_flags [OF T1(1) u1]) simp
  have k1: "kw vm1 = kw ?w" by (rule same_core_facts(1) [OF upd_pg_pg(4) [OF u1]])
  have wk1: "walk (kw vm1) R r' p' = walk (kw vm) R r' p'" if "okp p'" for r' p'
    unfolding k1 set_word_simps by (rule leaf_write(1) [OF D(2) ws s that])
  have le1: "leaf (kw vm1) R src p l = Some e1" "leaf (kw vm1) R dst p l = None" using T1(3) [OF s] new ne unfolding k1 by simp_all
  have wd1: "walk (kw vm1) R dst p = Some t" using wk1 [OF slot_okp(1) [OF s]] wd by simp
  have c1: "kw vm1 sl l = e1" unfolding k1 by simp
  have C: "child (c OR DESC_VALID OR DESC_PAGE) = child e1" "valid (c OR DESC_VALID OR DESC_PAGE)" "\<not> pte_is_writable (c OR DESC_VALID OR DESC_PAGE)"
    using child_entry [of e] A(1) unfolding low_flags c_def c1 e1_def by (simp_all only: low_flags simp_thms)
  note S = as_ok_share [OF ok1 le1(1) nw wd1 s le1(2) ne C, unfolded A(2)]
  have use1: "child e2 \<in> in_use vm1 fl" "child e2 \<notin> tabs (kw vm1) R" if "slot p2 l2" "leaf (kw vm1) R r2 p2 l2 = Some e2" for r2 p2 l2 e2
    using as_okD(6) [OF ok1 that] by (simp_all add: leaf_ok_def)
  let ?v = "inc_pte_refcount_pa (e AND PTE_ADDR_MASK) (set_word t l (c OR DESC_VALID OR DESC_PAGE) vm1)"
  have cp: "copies R src dst {l # p} True vm1 ?v fl"
    by (rule copies_entry [OF S(1) s ne le1(1) S(2,3)]) (use S(4) use1 [OF s le1(1)] use1 C(1) in auto)
  have "page_at vm1 R r p' l' = page_at vm R r p' l'" if "slot p' l'" for r p' l'
    by (rule reads_same_page_at [OF _ that]) (use T1(2) in \<open>simp add: reads_same_def k1\<close>)
  then have "copies R src dst {} True vm vm1 fl" by (intro copiesI ok1) (simp_all add: wk1)
  from copies_trans [OF this cp ne] show ?thesis by simp
qed

lemma cpy_entry_outcome:
  assumes ok: "as_ok vm fl R" and ws: "walk (kw vm) R src p = Some s" and wd: "walk (kw vm) R dst p = Some t" and sl: "slot p l"
    and new: "\<not> valid (kw vm t l)" and ne: "src \<noteq> dst"
  shows "\<exists>b vm' fl'. cpy_entry s t l vm = (b, vm') \<and> copies R src dst {l # p} b vm vm' fl'"
proof -
  note D = as_okD [OF ok]
  let ?e = "kw vm s l"
  have ld: "leaf (kw vm) R dst p l = None" using wd new by (simp add: leaf_def)
  have dn: "page_at vm R dst p' l' = None" if "slot p' l'" "under {l # p} (l' # p')" for p' l'
    using slot_under [OF sl that(1)] that(2) ld by (auto simp: page_at_def)
  show ?thesis
  proof (cases "valid ?e")
    case False
    then have "page_at vm R src p' l' = None" if "slot p' l'" "under {l # p} (l' # p')" for p' l'
      using slot_under [OF sl that(1)] that(2) ws by (auto simp: page_at_def leaf_def)
    then have "copies R src dst {l # p} True vm vm fl" using copies_skip [OF ok refl] dn by blast
    then show ?thesis using False by (auto simp: cpy_entry_def)
  next
    case v: True
    have ls: "leaf (kw vm) R src p l = Some ?e" using ws v by (simp add: leaf_def)
    have use: "child e1 \<in> in_use vm fl" "child e1 \<notin> tabs (kw vm) R" if "slot p1 l1" "leaf (kw vm) R r1 p1 l1 = Some e1" for r1 p1 l1 e1
      using D(6) [OF that] by (simp_all add: leaf_ok_def)
    consider "\<not> pte_is_user ?e" | "pte_is_user ?e" "pte_is_writable ?e" | "pte_is_user ?e" "\<not> pte_is_writable ?e" by blast
    then show ?thesis
    proof cases
      case 1
      from alloc_page_outcome [OF D(1)] show ?thesis
      proof (elim disjE exE conjE)
        assume a: "alloc_page vm = (0, page_allocator_init vm)"
        have "copies R src dst {l # p} False vm (page_allocator_init vm) fl"
          by (rule copies_skip [OF as_ok_init [OF ok]]) (use dn in simp_all)
        then show ?thesis using a v 1 by (auto simp: cpy_entry_def Let_def)
      next
        fix n vm1 fl1 assume a: "alloc_page vm = (n, vm1)" "n \<noteq> 0" and f: "fresh vm fl n vm1 fl1"
        show ?thesis using cpy_kernel_page [OF ok ls wd sl ld ne f] a v 1 by (auto simp: cpy_entry_def Let_def)
      qed
    next
      case 2
      then show ?thesis using cpy_writable_page [OF ok ws wd sl v ld ne 2(1)] v by (auto simp: cpy_entry_def Let_def)
    next
      case 3
      let ?v = "inc_pte_refcount_pa (?e AND PTE_ADDR_MASK) (set_word t l ?e vm)"
      note S = as_ok_share [OF ok ls 3(2) wd sl ld ne refl v 3(2)]
      have "cpy_entry s t l vm = (True, ?v)" using v 3 by (simp add: cpy_entry_def Let_def)
      moreover have "copies R src dst {l # p} True vm ?v fl"
        by (rule copies_entry [OF S(1) sl ne ls S(2,3)]) (use S(4) use [OF sl ls] use in auto)
      ultimately show ?thesis by (intro exI conjI)
    qed
  qed
qed

subsection \<open>The loops\<close>

lemma walk_below_None: "walk m R r a = None \<Longrightarrow> walk m R r (zs @ a) = None"
  by (induction zs) simp_all

lemma empty_below:
  assumes w: "walk (kw vm) R r p = Some t" and n: "\<not> valid (kw vm t j)" and s: "slot q l" and u: "suffix (j # p) (l # q)"
  shows "page_at vm R r q l = None"
proof -
  obtain zs where zs: "l # q = zs @ j # p" using u by (auto simp: suffix_def)
  show ?thesis
  proof (cases zs)
    case Nil
    then show ?thesis using zs w n by (simp add: page_at_def leaf_def)
  next
    case (Cons z zs')
    have "walk (kw vm) R r (j # p) = None" using w n by simp
    then have "walk (kw vm) R r q = None" using zs Cons walk_below_None [of "kw vm" R r "j # p" zs'] by simp
    then show ?thesis by (simp add: page_at_def leaf_def)
  qed
qed

lemma copies_keeps_empty:
  assumes c: "copies R src dst A b vm vm' fl'" and w: "walk (kw vm) R dst p = Some t" and o: "okp p" and j: "j < 512"
    and u: "\<not> under A (j # p)" and n: "\<not> valid (kw vm t j)"
  shows "\<not> valid (kw vm' t j)"
proof -
  have w': "walk (kw vm') R dst p = Some t" by (rule copiesD(2) [OF c o w])
  show ?thesis
  proof (cases "length p < 3")
    case True
    then show ?thesis using copiesD(3) [OF c, of "j # p" dst] o j u w w' n by (auto split: if_splits)
  next
    case False
    then have "slot p j" using o j by (auto simp: slot_def okp_def)
    then show ?thesis using copiesD(4) [OF c, of p j dst] u w w' n by (auto simp: page_at_def leaf_def split: if_splits)
  qed
qed

lemma for_entries_copies:
  assumes step: "\<And>i vm fl. i < 512 \<Longrightarrow> as_ok vm fl R \<Longrightarrow> walk (kw vm) R src p = Some s \<Longrightarrow> walk (kw vm) R dst p = Some t \<Longrightarrow>
      \<not> valid (kw vm t i) \<Longrightarrow> \<exists>b vm' fl'. f i vm = (b, vm') \<and> copies R src dst {i # p} b vm vm' fl'"
    and ne: "src \<noteq> dst" and o: "okp p"
  shows "distinct xs \<Longrightarrow> \<forall>i \<in> set xs. i < 512 \<and> \<not> valid (kw vm t i) \<Longrightarrow> as_ok vm fl R \<Longrightarrow>
    walk (kw vm) R src p = Some s \<Longrightarrow> walk (kw vm) R dst p = Some t \<Longrightarrow>
    \<exists>b vm' fl'. for_entries f xs vm = (b, vm') \<and> copies R src dst ((\<lambda>i. i # p) ` set xs) b vm vm' fl'"
proof (induction xs arbitrary: vm fl)
  case Nil
  then show ?case using copies_skip [of vm fl R vm "{}" dst True src] by auto
next
  case (Cons i xs)
  have i: "i < 512" "\<not> valid (kw vm t i)" using Cons.prems(2) by auto
  let ?B = "(\<lambda>i. i # p) ` set xs"
  obtain b vm1 fl1 where st: "f i vm = (b, vm1)" "copies R src dst {i # p} b vm vm1 fl1"
    using step [OF i(1) Cons.prems(3,4,5) i(2)] by blast
  have eq: "(\<lambda>i. i # p) ` set (i # xs) = {i # p} \<union> ?B" by simp
  show ?case
  proof (cases b)
    case False
    have "page_at vm R dst q l = None" if "slot q l" "under ?B (l # q)" for q l
      using that Cons.prems(2) empty_below [OF Cons.prems(5) _ that(1)] by (auto simp: under_def)
    from copies_stopped [OF st(2) [unfolded False [THEN eq_False [THEN iffD2]]] this] show ?thesis unfolding eq using st(1) False by auto
  next
    case True
    have w: "walk (kw vm1) R src p = Some s" "walk (kw vm1) R dst p = Some t"
      using copiesD(2) [OF st(2) o] Cons.prems(4,5) by blast+
    have "\<forall>j \<in> set xs. j < 512 \<and> \<not> valid (kw vm1 t j)"
    proof
      fix j assume j: "j \<in> set xs"
      then have "j \<noteq> i" using Cons.prems(1) by auto
      then have "\<not> under {i # p} (j # p)" by (auto simp: under_def dest: suffix_length_eq [rotated])
      then show "j < 512 \<and> \<not> valid (kw vm1 t j)" using copies_keeps_empty [OF st(2) Cons.prems(5) o] j Cons.prems(2) by auto
    qed
    then obtain b2 vm2 fl2 where r: "for_entries f xs vm1 = (b2, vm2)" "copies R src dst ?B b2 vm1 vm2 fl2"
      using Cons.IH [OF _ _ copiesD(1) [OF st(2)] w] Cons.prems(1) by auto
    have "copies R src dst ({i # p} \<union> ?B) b2 vm vm2 fl2" by (rule copies_trans [OF _ r(2) ne]) (use st(2) True in simp)
    then show ?thesis unfolding eq using st(1) True r(1) by auto
  qed
qed

lemma copies_deepen:
  assumes a: "copies R src dst A False vm vm1 fl1" and b: "copies R src dst B ok vm1 vm2 fl2" and ne: "src \<noteq> dst"
    and sub: "\<And>p. under B p \<Longrightarrow> under A p" "\<And>p l. slot p l \<Longrightarrow> under A (l # p) \<Longrightarrow> under B (l # p)"
  shows "copies R src dst A ok vm vm2 fl2"
proof (rule copiesI)
  show "as_ok vm2 fl2 R" by (rule copiesD(1) [OF b])
  show "walk (kw vm2) R r p = Some t" if "okp p" "walk (kw vm) R r p = Some t" for r p t
    by (rule copiesD(2) [OF b that(1) copiesD(2) [OF a that]])
  show "walk (kw vm2) R r p = walk (kw vm) R r p" if "okp p" "r = dst \<Longrightarrow> \<not> under A p" for r p
    using copiesD(3) [OF a that(1), of r] copiesD(3) [OF b that(1), of r] that(2) sub(1) [of p] by auto
  show "page_at vm2 R r p l = page_at vm R r p l" if "slot p l" "r = dst \<Longrightarrow> \<not> under A (l # p)" for r p l
    using copiesD(4) [OF a that(1), of r] copiesD(4) [OF b that(1), of r] that(2) sub(1) [of "l # p"] by auto
  show "page_at vm2 R dst p l = page_at vm R src p l \<or> \<not> ok \<and> page_at vm2 R dst p l = None" if s: "slot p l" and u: "under A (l # p)" for p l
    using copiesD(5) [OF b s sub(2) [OF s u]] copiesD(4) [OF a s, of src] ne by auto
qed

lemma under_children:
  "under ((\<lambda>j. j # a) ` {j. j < 512}) p \<Longrightarrow> under {a} p"
  "length a \<le> 3 \<Longrightarrow> slot p l \<Longrightarrow> under {a} (l # p) \<Longrightarrow> under ((\<lambda>j. j # a) ` {j. j < 512}) (l # p)"
proof -
  show "under ((\<lambda>j. j # a) ` {j. j < 512}) p \<Longrightarrow> under {a} p" by (auto simp: under_def dest: suffix_ConsD)
  assume a: "length a \<le> 3" and s: "slot p l" and u: "under {a} (l # p)"
  then obtain zs where zs: "l # p = zs @ a" by (auto simp: under_def suffix_def)
  have "zs \<noteq> []" using zs a s by (auto simp: slot_def)
  then obtain ys j where ys: "zs = ys @ [j]" by (metis rev_exhaust)
  have "j \<in> set (l # p)" unfolding zs ys by simp
  then have "j < 512" using s by (auto simp: slot_def)
  moreover have "suffix (j # a) (l # p)" unfolding zs ys by (auto simp: suffix_def)
  ultimately show "under ((\<lambda>j. j # a) ` {j. j < 512}) (l # p)" by (auto simp: under_def)
qed

lemma cpy_level_copies:
  assumes ne: "src \<noteq> dst"
  shows "as_ok vm fl R \<Longrightarrow> walk (kw vm) R src p = Some s \<Longrightarrow> walk (kw vm) R dst p = Some t \<Longrightarrow> length p + d = 3 \<Longrightarrow> okp p \<Longrightarrow>
    \<forall>i < 512. \<not> valid (kw vm t i) \<Longrightarrow>
    \<exists>b vm' fl'. cpy_level d s t vm = (b, vm') \<and> copies R src dst ((\<lambda>i. i # p) ` {i. i < 512}) b vm vm' fl'"
proof (induction d arbitrary: vm fl p s t)
  case 0
  have sl: "slot p i" if "i < 512" for i using 0(4,5) that by (simp add: slot_def okp_def)
  show ?case unfolding cpy_level.simps page_words_set(1) [symmetric]
  proof (rule for_entries_copies [OF _ ne 0(5) page_words_set(2) _ 0(1-3)])
    show "\<exists>b vm' fl'. cpy_entry s t i vm = (b, vm') \<and> copies R src dst {i # p} b vm vm' fl'"
      if "i < 512" "as_ok vm fl R" "walk (kw vm) R src p = Some s" "walk (kw vm) R dst p = Some t" "\<not> valid (kw vm t i)" for i vm fl
      by (rule cpy_entry_outcome [OF that(2-4) sl [OF that(1)] that(5) ne])
  qed (use 0(6) in simp)
next
  case (Suc d)
  let ?f = "\<lambda>i vm. if kw vm s i AND DESC_VALID = 0 then (True, vm)
     else (let src_next = kernel_direct_map_va (kw vm s i AND PTE_ADDR_MASK) in
          case alloc_page vm of (dst_next, vm) \<Rightarrow> if dst_next = 0 then (False, vm)
              else cpy_level d src_next dst_next (set_word t i (table_desc dst_next) vm))"
  have step: "\<exists>b vm' fl'. ?f i vm = (b, vm') \<and> copies R src dst {i # p} b vm vm' fl'"
    if i: "i < 512" and ok: "as_ok vm fl R" and w: "walk (kw vm) R src p = Some s" "walk (kw vm) R dst p = Some t"
      and n: "\<not> valid (kw vm t i)" for i vm fl
  proof -
    have o: "okp (i # p)" using Suc.prems(4,5) i by simp
    have de: "page_at vm R dst q l = None" if "slot q l" "under {i # p} (l # q)" for q l
      using that empty_below [OF w(2) n that(1)] by (simp add: under_def)
    show ?thesis
    proof (cases "valid (kw vm s i)")
      case False
      have "page_at vm R src q l = None" if "slot q l" "under {i # p} (l # q)" for q l
        using that empty_below [OF w(1) False that(1)] by (simp add: under_def)
      then have "copies R src dst {i # p} True vm vm fl" using copies_skip [OF ok refl] de by blast
      then show ?thesis using False by auto
    next
      case v: True
      from alloc_page_outcome [OF as_okD(1) [OF ok]] show ?thesis
      proof (elim disjE exE conjE)
        assume a: "alloc_page vm = (0, page_allocator_init vm)"
        have "copies R src dst {i # p} False vm (page_allocator_init vm) fl"
          by (rule copies_skip [OF as_ok_init [OF ok]]) (use de in simp_all)
        then show ?thesis using a v by auto
      next
        fix k vm1 fl1 assume a: "alloc_page vm = (k, vm1)" "k \<noteq> 0" and f: "fresh vm fl k vm1 fl1"
        let ?w = "set_word t i (table_desc k) vm1"
        note G = as_ok_grow [OF ok w(2) o n f]
        have ws: "walk (kw ?w) R src (i # p) = Some (child (kw vm s i))" "walk (kw ?w) R dst (i # p) = Some k"
          using G(2) [OF o] ne w v by simp_all
        have c1: "copies R src dst {i # p} False vm ?w fl1"
        proof (rule copiesI [OF G(1)])
          show "walk (kw ?w) R r q = Some x" if "okp q" "walk (kw vm) R r q = Some x" for r q x
            using G(2) [OF that(1), of r] that(2) w(2) n by (auto split: if_splits)
          show "walk (kw ?w) R r q = walk (kw vm) R r q" if "okp q" "r = dst \<Longrightarrow> \<not> under {i # p} q" for r q
            using G(2) [OF that(1), of r] that(2) by (auto simp: under_def)
        qed (use G(4) de in auto)
        have z: "\<forall>j < 512. \<not> valid (kw ?w k j)" using G(5) by simp
        obtain b vm2 fl2 where r: "cpy_level d (child (kw vm s i)) k ?w = (b, vm2)"
            "copies R src dst ((\<lambda>j. j # i # p) ` {j. j < 512}) b ?w vm2 fl2"
          using Suc.IH [OF G(1) ws _ o z] Suc.prems(4) by auto
        have "copies R src dst {i # p} b vm vm2 fl2"
          by (rule copies_deepen [OF c1 r(2) ne]) (use under_children [of "i # p"] Suc.prems(4) in auto)
        then show ?thesis using r(1) a v by (auto simp: child_def Let_def)
      qed
    qed
  qed
  show ?case unfolding cpy_level.simps page_words_set(1) [symmetric]
    by (rule for_entries_copies [OF _ ne Suc.prems(5) page_words_set(2) _ Suc.prems(1-3)]) (rule step, assumption+, use Suc.prems(6) in simp)
qed

end
