(* ===== verification/Teardown.thy ===== *)
theory Teardown
  imports Fork
begin

section \<open>Taking an address space apart\<close>

text \<open>
  \<open>destroy_page_table\<close> drops one reference for every page an address space maps and frees its tables.
  It leaves the entries of the tables as they are, so while it runs the tables still point at freed
  pages. The proof follows a second memory in which every entry is cleared as soon as it has been
  dealt with: there the invariant of all address spaces holds after every step. \<open>K\<close> is the memory of
  the machine, \<open>vm\<close> the state with the cleared memory.
\<close>

subsection \<open>Removing mappings keeps the invariant\<close>

lemma as_ok_shrink:
  assumes ok: "as_ok vm fl R" and R': "R' \<subseteq> R"
    and inv': "pa_inv vm' fl'" "tree (kw vm') R' (in_use vm' fl')" "pages vm' \<noteq> None"
    and lf: "\<And>r p l e. slot p l \<Longrightarrow> leaf (kw vm') R' r p l = Some e \<Longrightarrow> leaf (kw vm) R r p l = Some e"
    and tb: "tabs (kw vm') R' \<subseteq> tabs (kw vm) R"
    and own: "\<And>x. owners (kw vm') R' x \<noteq> {} \<Longrightarrow> x \<in> in_use vm' fl' \<and> unat (refcount (pg vm' x)) = card (owners (kw vm') R' x)"
  shows "as_ok vm' fl' R'"
proof -
  note D = as_okD [OF ok]
  have sub: "owners (kw vm') R' x \<subseteq> owners (kw vm) R x" for x using lf by (force simp: owners_def)
  have c: "card R' \<le> card R" by (rule card_mono [OF D(3) R'])
  have "leaf_ok vm' fl' R' (r, p, l) e" if s: "slot p l" and e: "leaf (kw vm') R' r p l = Some e" for r p l e
  proof -
    have o: "(r, p, l) \<in> owners (kw vm') R' (child e)" by (rule ownersI [OF s e])
    have L: "child e \<notin> tabs (kw vm) R" "pte_is_writable e \<Longrightarrow> owners (kw vm) R (child e) = {(r, p, l)}"
      using D(6) [OF s lf [OF s e]] by (simp_all add: leaf_ok_def)
    show ?thesis using own [of "child e"] o L tb sub [of "child e"] by (auto simp: leaf_ok_def)
  qed
  moreover have "p' = p \<and> l' = l" if "(r, p, l) \<in> owners (kw vm') R' q" "(r', p', l') \<in> owners (kw vm') R' q" for q r p l r' p' l'
    using D(7) [of r p l q r' p' l'] that sub [of q] by blast
  ultimately show ?thesis unfolding as_ok_def using inv' c D(3,4) R' finite_subset [OF R' D(3)] by simp
qed

lemma owners_minus:
  assumes "\<And>r' p' l'. slot p' l' \<Longrightarrow> leaf m' R r' p' l' = (if P r' p' l' then None else leaf m R r' p' l')"
  shows "owners m' R x = owners m R x - {(r', p', l'). P r' p' l'}"
  unfolding owners_def using assms by (auto split: if_splits)

lemma as_ok_free:
  assumes ok: "as_ok vm fl R" and n: "n \<in> in_use vm fl" "n \<notin> tabs (kw vm) R" and o: "owners (kw vm) R n = {}"
  shows "as_ok (free_page n vm) (n # fl) R" "okp p \<Longrightarrow> walk (kw (free_page n vm)) R r p = walk (kw vm) R r p"
    "slot p l \<Longrightarrow> leaf (kw (free_page n vm)) R r p l = leaf (kw vm) R r p l"
proof -
  note D = as_okD [OF ok] and K = free_page_keeps [OF as_okD(1) [OF ok] n(1)]
  have same: "\<forall>t \<in> tabs (kw vm) R. kw (free_page n vm) t = kw vm t" using K(4) n(2) by metis
  note S = tables_same [OF same]
  show "okp p \<Longrightarrow> walk (kw (free_page n vm)) R r p = walk (kw vm) R r p" by (rule S(1))
  show lf: "leaf (kw (free_page n vm)) R r p l = leaf (kw vm) R r p l" if "slot p l" for r p l by (rule S(2) [OF that])
  have own: "owners (kw (free_page n vm)) R x = owners (kw vm) R x" for x by (simp add: owners_def lf cong: conj_cong)
  show "as_ok (free_page n vm) (n # fl) R"
  proof (rule as_ok_shrink [OF ok subset_refl K(1)])
    show "tree (kw (free_page n vm)) R (in_use (free_page n vm) (n # fl))"
      using S(3) [OF D(2)] n(2) unfolding tree_def S(4) K(2) by blast
    show "pages (free_page n vm) \<noteq> None" using K(3) D(5) by simp
    show "x \<in> in_use (free_page n vm) (n # fl) \<and> unat (refcount (pg (free_page n vm) x)) = card (owners (kw (free_page n vm)) R x)"
      if "owners (kw (free_page n vm)) R x \<noteq> {}" for x
    proof -
      have x: "x \<noteq> n" "x \<in> in_use vm fl" using that o owned_count(2) [OF ok, of x] unfolding own by auto
      have "pfn x \<noteq> pfn n" using pfn_inj [OF in_use_kpage [OF x(2)] in_use_kpage [OF n(1)]] x(1) by auto
      then have "pg (free_page n vm) x = pg vm x" using K(3) D(5) by (auto simp: pg_def)
      then show ?thesis using x owned_count(1) [OF ok, of x] that unfolding own K(2) by simp
    qed
  qed (use lf S(4) in simp_all)
qed

text \<open>Dropping one reference, on a state and on the same state with another memory.\<close>

lemma dec_run:
  assumes pn: "pages vm \<noteq> None" and rc: "refcount (pg vm (child e)) \<noteq> 0"
  shows "\<exists>vd. upd_pg (child e) (\<lambda>p. p\<lparr>refcount := refcount p - 1\<rparr>) vm vd \<and>
    (\<forall>K. dec_pte_refcount_pa (e AND PTE_ADDR_MASK) (vm\<lparr>kw := K\<rparr>) =
       Inr (if refcount (pg vm (child e)) = 1 then free_page (child e) (vd\<lparr>kw := K\<rparr>) else vd\<lparr>kw := K\<rparr>))"
proof (intro exI conjI allI)
  let ?n = "phys_pa_to_pfn (e AND PTE_ADDR_MASK) vm"
  let ?vd = "drop_owner ?n vm"
  show u: "upd_pg (child e) (\<lambda>p. p\<lparr>refcount := refcount p - 1\<rparr>) vm ?vd"
    by (rule set_page_upd [OF pn refl]) (auto simp: drop_owner_def Let_def page_of_pfn [OF pn] same_core_def)
  fix K
  have n: "phys_pa_to_pfn (e AND PTE_ADDR_MASK) (vm\<lparr>kw := K\<rparr>) = ?n" by (simp add: phys_pa_to_pfn_def)
  have p: "page_of ?n (vm\<lparr>kw := K\<rparr>) = pg vm (child e)" using page_of_pfn [OF pn, of e] by (simp add: page_of_def)
  have d: "drop_owner ?n (vm\<lparr>kw := K\<rparr>) = ?vd\<lparr>kw := K\<rparr>" by (simp add: drop_owner_def Let_def set_page_def page_of_def)
  have n': "phys_pa_to_pfn (e AND PTE_ADDR_MASK) ?vd = ?n" using pfn_int [OF pn] pfn_int [OF upd_pg_pg(3) [OF u]] by metis
  have r: "refcount (page_of ?n (?vd\<lparr>kw := K\<rparr>)) = refcount (pg vm (child e)) - 1"
    using page_of_pfn [OF upd_pg_pg(3) [OF u], of e] upd_pg_pg(1) [OF u] unfolding n' by (simp add: page_of_def)
  have c: "kernel_direct_map_va ((e AND PTE_ADDR_MASK) AND PA_MASK) = child e"
    unfolding child_def kernel_direct_map_va_def mask_values by (rule bit_word_eqI) (auto simp: bit_simps)
  show "dec_pte_refcount_pa (e AND PTE_ADDR_MASK) (vm\<lparr>kw := K\<rparr>) =
       Inr (if refcount (pg vm (child e)) = 1 then free_page (child e) (?vd\<lparr>kw := K\<rparr>) else ?vd\<lparr>kw := K\<rparr>)"
    using rc pn unfolding dec_pte_refcount_pa_def Let_def n p d r c by auto
qed

lemma free_page_memory:
  "n \<noteq> 0 \<Longrightarrow> free_page n (vm\<lparr>kw := K\<rparr>) = (free_page n vm)\<lparr>kw := K(n := (K n)(0 := free_list vm))\<rparr>"
  "n \<noteq> 0 \<Longrightarrow> kw (free_page n vm) = (kw vm)(n := (kw vm n)(0 := free_list vm))"
  by (simp_all add: free_page_def Let_def set_page_def phys_pa_to_pfn_def)

lemma clear_leaf:
  assumes ok: "as_ok vm fl R" and w: "walk (kw vm) R r p = Some t" and s: "slot p l" and v: "valid (kw vm t l)"
    and tr: "\<forall>x \<in> set fl. K x 0 = kw vm x 0"
  defines "e \<equiv> kw vm t l"
  shows "\<exists>vm' fl' K'. dec_pte_refcount_pa (e AND PTE_ADDR_MASK) (vm\<lparr>kw := K\<rparr>) = Inr (vm'\<lparr>kw := K'\<rparr>) \<and>
    as_ok vm' fl' R \<and> (\<forall>x \<in> set fl'. K' x 0 = kw vm' x 0) \<and>
    (\<forall>r' q. okp q \<longrightarrow> walk (kw vm') R r' q = walk (kw vm) R r' q) \<and>
    (\<forall>r' q l'. slot q l' \<longrightarrow> leaf (kw vm') R r' q l' = (if (r', q, l') = (r, p, l) then None else leaf (kw vm) R r' q l')) \<and>
    in_use vm' fl' = in_use vm fl - (if owners (kw vm) R (child e) = {(r, p, l)} then {child e} else {}) \<and>
    (\<forall>x \<in> in_use vm' fl'. K' x = K x) \<and>
    (\<forall>x \<in> in_use vm' fl'. \<forall>j. (x, j) \<noteq> (t, l) \<longrightarrow> kw vm' x j = kw vm x j)"
proof -
  note D = as_okD [OF ok]
  have le: "leaf (kw vm) R r p l = Some e" using w v by (simp add: leaf_def e_def)
  have own: "(r, p, l) \<in> owners (kw vm) R (child e)" by (rule ownersI [OF s le])
  have q: "child e \<in> in_use vm fl" "child e \<notin> tabs (kw vm) R" using D(6) [OF s le] by (auto simp: leaf_ok_def)
  have fo: "finite (owners (kw vm) R (child e))" by (rule owners_bound(1) [OF ok])
  have rc: "unat (refcount (pg vm (child e))) = card (owners (kw vm) R (child e))" using owned_count(1) [OF ok] own by blast
  have pos: "card (owners (kw vm) R (child e)) > 0" using own fo card_gt_0_iff by blast
  have one: "refcount (pg vm (child e)) = 1 \<longleftrightarrow> owners (kw vm) R (child e) = {(r, p, l)}"
    using rc own by (metis One_nat_def card_1_singletonE is_singletonI is_singleton_altdef singletonD unat_1 word_unat_eq_iff)
  have r0: "refcount (pg vm (child e)) \<noteq> 0" using rc pos by auto
  obtain vd where u: "upd_pg (child e) (\<lambda>p. p\<lparr>refcount := refcount p - 1\<rparr>) vm vd"
      and run: "\<And>K. dec_pte_refcount_pa (e AND PTE_ADDR_MASK) (vm\<lparr>kw := K\<rparr>) =
        Inr (if refcount (pg vm (child e)) = 1 then free_page (child e) (vd\<lparr>kw := K\<rparr>) else vd\<lparr>kw := K\<rparr>)"
    using dec_run [OF D(5) r0] by blast
  note U = upd_pg_pg [OF u] and C = same_core_facts [OF upd_pg_pg(4) [OF u]]
  let ?w = "set_word t l 0 vd"
  have t: "t \<in> in_use vm fl" "t \<in> tabs (kw vm) R" using treeD(1,2) [OF D(2) w] slot_okp(1) [OF s] by simp_all
  have tfl: "x \<noteq> t" if "x \<in> set fl" for x using that t(1) by (auto simp: in_use_def)
  have kw': "kw ?w = (kw vm)(t := (kw vm t)(l := 0))" using C(1) by simp
  note L = leaf_write [OF D(2) w s, where e = 0, folded kw']
  have lf: "leaf (kw ?w) R r' q l' = (if (r', q, l') = (r, p, l) then None else leaf (kw vm) R r' q l')" if "slot q l'" for r' q l'
    using L(4) [OF that, where r' = r'] by simp
  have O: "owners (kw ?w) R x = owners (kw vm) R x - {(r, p, l)}" for x
    using owners_minus [of "kw ?w" R "\<lambda>r' p' l'. (r', p', l') = (r, p, l)" "kw vm" x] lf by auto
  have ok1: "as_ok ?w fl R"
  proof (rule as_ok_shrink [OF ok subset_refl])
    show "pa_inv ?w fl" by (rule set_word_inv) (use C(3,4) D(1) t(1) in simp_all)
    show "tree (kw ?w) R (in_use ?w fl)" using L(2) C(3) by simp
    show "x \<in> in_use ?w fl \<and> unat (refcount (pg ?w x)) = card (owners (kw ?w) R x)" if x: "owners (kw ?w) R x \<noteq> {}" for x
    proof -
      have ox: "owners (kw vm) R x \<noteq> {}" "x \<in> in_use vm fl" using x owned_count(2) [OF ok, of x] unfolding O by auto
      have "unat (refcount (pg vd x)) = card (owners (kw vm) R x - {(r, p, l)})"
      proof (cases "x = child e")
        case True
        have "card (owners (kw vm) R (child e)) \<noteq> 1" using x own unfolding O True by (metis card_1_singletonE Diff_cancel singletonD)
        then have "1 < unat (refcount (pg vm (child e)))" using rc pos by linarith
        then show ?thesis using U(1) unat_pred [of "refcount (pg vm (child e))"] rc own fo unfolding True by (simp add: card_Diff_singleton)
      next
        case False
        have "(r, p, l) \<notin> owners (kw vm) R x" using le False by (auto simp: owners_def)
        then show ?thesis
          using U(2) [OF in_use_kpage [OF q(1)] in_use_kpage [OF ox(2)] False] owned_count(1) [OF ok ox(1)] by simp
      qed
      then show ?thesis using ox(2) C(3) unfolding O by (simp add: pg_def)
    qed
  qed (use U(3) lf L(3) in \<open>auto split: if_splits\<close>)
  show ?thesis
  proof (cases "owners (kw vm) R (child e) = {(r, p, l)}")
    case False
    have "dec_pte_refcount_pa (e AND PTE_ADDR_MASK) (vm\<lparr>kw := K\<rparr>) = Inr (?w\<lparr>kw := K\<rparr>)"
      unfolding run using False one by (simp add: set_word_def)
    then show ?thesis
      by (intro exI [of _ ?w] exI [of _ fl] exI [of _ K] conjI) (use ok1 L(1) lf False C(1,3) tr tfl in auto)
  next
    case True
    let ?c = "child e" and ?v = "free_page (child e) ?w"
    have c: "?c \<in> in_use ?w fl" "?c \<notin> tabs (kw ?w) R" "owners (kw ?w) R ?c = {}" using q C(3) L(3) True unfolding O by simp_all
    note F = as_ok_free [OF ok1 c] and G = free_page_keeps [OF as_okD(1) [OF ok1] c(1)]
    let ?K = "K(?c := (K ?c)(0 := free_list ?w))"
    have c0: "?c \<noteq> 0" by (rule child_not_0)
    have fl: "free_list (vd\<lparr>kw := K\<rparr>) = free_list ?w" by simp
    have "free_page ?c (vd\<lparr>kw := K\<rparr>) = free_page ?c (?w\<lparr>kw := K\<rparr>)" by (simp add: set_word_def)
    then have "dec_pte_refcount_pa (e AND PTE_ADDR_MASK) (vm\<lparr>kw := K\<rparr>) = Inr (?v\<lparr>kw := ?K\<rparr>)"
      unfolding run using True one free_page_memory(1) [OF c0, of K ?w] by simp
    moreover have "\<forall>x \<in> set (?c # fl). ?K x 0 = kw ?v x 0"
      using tr tfl C(1) free_page_memory(2) [OF c0, of ?w] by auto
    moreover have "kw ?v x j = kw vm x j" if "x \<in> in_use ?v (?c # fl)" "(x, j) \<noteq> (t, l)" for x j
      using that G(2) G(4) [of x] C(1) by auto
    ultimately show ?thesis
      by (intro exI [of _ ?v] exI [of _ "?c # fl"] exI [of _ ?K] conjI) (use F L(1) lf True C(3) G(2) in auto)
  qed
qed

lemma walk_prune:
  assumes T: "tree m R U" and w: "walk m R r p = Some t" and o: "okp (i # p)" and v: "valid (m t i)"
    and e: "\<forall>j < 512. \<not> valid (m (child (m t i)) j)"
  defines "m' \<equiv> m(t := (m t)(i := 0))"
  shows "okp q \<Longrightarrow> walk m' R r' q = (if r' = r \<and> q = i # p then None else walk m R r' q)"
proof (induction q)
  case (Cons j q)
  have oq: "okp q" "j < 512" "length q < 3" using Cons.prems by simp_all
  show ?case
  proof (cases "r' = r \<and> q = i # p")
    case True
    then show ?thesis using Cons.IH [OF oq(1)] w v e oq(2) by simp
  next
    case False
    then have IH: "walk m' R r' q = walk m R r' q" using Cons.IH [OF oq(1)] by (simp only: if_False)
    show ?thesis
    proof (cases "walk m R r' q")
      case (Some x)
      have "x = t \<longleftrightarrow> r' = r \<and> q = p" using treeD(3) [OF T w, of r' q] Some w o oq(1) by auto
      moreover have "m' x j = (if x = t \<and> j = i then 0 else m x j)" by (simp add: m'_def)
      ultimately show ?thesis using IH Some by (auto split: if_splits)
    qed (use IH in auto)
  qed
qed simp

lemma prune_table:
  assumes ok: "as_ok vm fl R" and w: "walk (kw vm) R r p = Some t" and o: "okp (i # p)" and v: "valid (kw vm t i)"
    and e: "\<forall>j < 512. \<not> valid (kw vm (child (kw vm t i)) j)"
  defines "vm' \<equiv> set_word t i 0 vm" and "n \<equiv> child (kw vm t i)"
  shows "as_ok vm' fl R" "okp q \<Longrightarrow> walk (kw vm') R r' q = (if r' = r \<and> q = i # p then None else walk (kw vm) R r' q)"
    "slot q l \<Longrightarrow> leaf (kw vm') R r' q l = leaf (kw vm) R r' q l" "n \<in> in_use vm fl" "n \<notin> tabs (kw vm') R" "owners (kw vm') R n = {}" "n \<noteq> t"
proof -
  note D = as_okD [OF ok]
  have kw': "kw vm' = (kw vm)(t := (kw vm t)(i := 0))" by (simp add: vm'_def)
  have wk: "walk (kw vm') R r' q = (if r' = r \<and> q = i # p then None else walk (kw vm) R r' q)" if "okp q" for r' q
    unfolding kw' by (rule walk_prune [OF D(2) w o v e that])
  show "okp q \<Longrightarrow> walk (kw vm') R r' q = (if r' = r \<and> q = i # p then None else walk (kw vm) R r' q)" by (rule wk)
  have wn: "walk (kw vm) R r (i # p) = Some n" using w v by (simp add: n_def)
  have t: "t \<in> in_use vm fl" "t \<in> tabs (kw vm) R" and n: "n \<in> in_use vm fl" "n \<in> tabs (kw vm) R"
    using treeD(1,2) [OF D(2) w] treeD(1,2) [OF D(2) wn] o by simp_all
  show "n \<in> in_use vm fl" by (rule n(1))
  have "n \<noteq> t"
  proof
    assume "n = t"
    then have "i # p = p" using treeD(3) [OF D(2) w, of r "i # p"] wn o by auto
    then show False by simp
  qed
  then show "n \<noteq> t" .
  show lf: "leaf (kw vm') R r' q l = leaf (kw vm) R r' q l" if s: "slot q l" for r' q l
  proof (cases "walk (kw vm) R r' q")
    case None
    then show ?thesis using wk [OF slot_okp(1) [OF s], of r'] by (simp add: leaf_def)
  next
    case (Some x)
    have "l < 512" "length q = 3" using s by (simp_all add: slot_def)
    show ?thesis
    proof (cases "r' = r \<and> q = i # p")
      case True
      then have "\<not> valid (kw vm x l)" using Some wn e \<open>l < 512\<close> by (simp add: n_def)
      then show ?thesis using True wk [OF slot_okp(1) [OF s], of r'] Some by (simp add: leaf_def)
    next
      case False
      then have w': "walk (kw vm') R r' q = Some x" using wk [OF slot_okp(1) [OF s], of r'] Some by (simp only: if_False)
      have "x \<noteq> t" using treeD(3) [OF D(2) w, of r' q] Some o slot_okp(1) [OF s] \<open>length q = 3\<close> by auto
      then show ?thesis using w' Some kw' by (simp add: leaf_def)
    qed
  qed
  have own: "owners (kw vm') R x = owners (kw vm) R x" for x by (simp add: owners_def lf cong: conj_cong)
  have tb: "tabs (kw vm') R \<subseteq> tabs (kw vm) R" unfolding tabs_def using wk by (auto split: if_splits) blast+
  show nt: "n \<notin> tabs (kw vm') R"
  proof
    assume "n \<in> tabs (kw vm') R"
    then obtain r' q where a: "okp q" "walk (kw vm') R r' q = Some n" by (auto simp: tabs_def)
    then have "walk (kw vm) R r' q = Some n" "\<not> (r' = r \<and> q = i # p)" using wk [OF a(1), of r'] by (auto split: if_splits)
    then show False using treeD(3) [OF D(2) wn o] a(1) by blast
  qed
  show "owners (kw vm') R n = {}" unfolding own using owned_count(3) [OF ok, of n] n(2) by blast
  show "as_ok vm' fl R"
  proof (rule as_ok_shrink [OF ok subset_refl])
    show "pa_inv vm' fl" unfolding vm'_def by (rule set_word_inv [OF D(1) t(1)])
    have inj: "r1 = r2 \<and> q1 = q2" if "okp q1" "okp q2" "walk (kw vm') R r1 q1 = Some x" "walk (kw vm') R r2 q2 = Some x" for r1 r2 q1 q2 x
      using that wk [OF that(1), of r1] wk [OF that(2), of r2] treeD(3) [OF D(2), of r1 q1 x r2 q2] by (auto split: if_splits)
    show "tree (kw vm') R (in_use vm' fl)"
      unfolding tree_def using tb D(2) inj by (auto simp: tree_def vm'_def)
    show "x \<in> in_use vm' fl \<and> unat (refcount (pg vm' x)) = card (owners (kw vm') R x)" if "owners (kw vm') R x \<noteq> {}" for x
      using that owned_count(1,2) [OF ok, of x] unfolding own by (simp add: vm'_def pg_def)
  qed (use D(5) lf tb in \<open>simp_all add: vm'_def\<close>)
qed

lemma drop_root:
  assumes ok: "as_ok vm fl R" and e: "\<forall>i < 512. \<not> valid (kw vm r i)" and r: "r \<in> R"
  shows "as_ok vm fl (R - {r})" "walk m (R - {r}) r' q = (if r' = r then None else walk m R r' q)"
    "leaf m (R - {r}) r' q l = (if r' = r then None else leaf m R r' q l)"
    "r \<in> in_use vm fl" "r \<notin> tabs (kw vm) (R - {r})" "owners (kw vm) (R - {r}) r = {}"
    "slot q l \<Longrightarrow> leaf (kw vm) (R - {r}) r' q l = leaf (kw vm) R r' q l"
proof -
  note D = as_okD [OF ok]
  show wk: "walk m (R - {r}) r' q = (if r' = r then None else walk m R r' q)" for m r' q
    by (induction q) (auto split: option.splits)
  show lf: "leaf m (R - {r}) r' q l = (if r' = r then None else leaf m R r' q l)" for m r' q l
    by (simp add: leaf_def wk)
  have w0: "walk (kw vm) R r q = None" if "okp q" "q \<noteq> []" for q
    using that
  proof (induction q)
    case (Cons i q)
    then show ?case using e by (cases "q = []") (auto split: option.splits)
  qed simp
  show lf': "leaf (kw vm) (R - {r}) r' q l = leaf (kw vm) R r' q l" if "slot q l" for r' q l
  proof -
    have "q \<noteq> []" using that by (auto simp: slot_def)
    then show ?thesis using w0 [OF slot_okp(1) [OF that]] by (simp add: leaf_def wk)
  qed
  have own: "owners (kw vm) (R - {r}) x = owners (kw vm) R x" for x by (simp add: owners_def lf' cong: conj_cong)
  have tb: "tabs (kw vm) (R - {r}) \<subseteq> tabs (kw vm) R" by (auto simp: tabs_def wk split: if_splits)
  have wr: "walk (kw vm) R r [] = Some r" using r by simp
  show "r \<in> in_use vm fl" using treeD(1) [OF D(2) wr] by simp
  have rt: "r \<in> tabs (kw vm) R" using treeD(2) [OF D(2) wr] by simp
  then show "owners (kw vm) (R - {r}) r = {}" unfolding own using owned_count(3) [OF ok, of r] by blast
  show "r \<notin> tabs (kw vm) (R - {r})"
  proof
    assume "r \<in> tabs (kw vm) (R - {r})"
    then obtain r' q where "okp q" "walk (kw vm) R r' q = Some r" "r' \<noteq> r" by (auto simp: tabs_def wk split: if_splits)
    then show False using treeD(3) [OF D(2) wr, of r' q] by simp
  qed
  show "as_ok vm fl (R - {r})"
  proof (rule as_ok_shrink [OF ok Diff_subset D(1)])
    show "tree (kw vm) (R - {r}) (in_use vm fl)" using D(2) tb unfolding tree_def wk by (auto split: if_splits)
    show "x \<in> in_use vm fl \<and> unat (refcount (pg vm x)) = card (owners (kw vm) (R - {r}) x)" if "owners (kw vm) (R - {r}) x \<noteq> {}" for x
      using that owned_count(1,2) [OF ok, of x] unfolding own by simp
  qed (use D(5) lf' tb in simp_all)
qed

subsection \<open>The loops\<close>

text \<open>The entries under the paths \<open>A\<close> of the address space \<open>r\<close> are gone; a page is free when its last owner is.\<close>

definition torn :: "u64 set \<Rightarrow> u64 \<Rightarrow> u64 list set \<Rightarrow> vm \<Rightarrow> u64 list \<Rightarrow> (u64 \<Rightarrow> u64 \<Rightarrow> u64) \<Rightarrow> vm \<Rightarrow> u64 list \<Rightarrow> (u64 \<Rightarrow> u64 \<Rightarrow> u64) \<Rightarrow> bool" where
  "torn R r A vm fl K vm' fl' K' \<longleftrightarrow>
     as_ok vm' fl' R \<and> (\<forall>x \<in> set fl'. K' x 0 = kw vm' x 0) \<and>
     (\<forall>r' q. okp q \<longrightarrow> walk (kw vm') R r' q = (if r' = r \<and> under A q then None else walk (kw vm) R r' q)) \<and>
     (\<forall>r' q l. slot q l \<longrightarrow> leaf (kw vm') R r' q l = (if r' = r \<and> under A (l # q) then None else leaf (kw vm) R r' q l)) \<and>
     in_use vm' fl' = in_use vm fl - {x. \<exists>q. okp q \<and> under A q \<and> walk (kw vm) R r q = Some x} -
       {x. owners (kw vm) R x \<noteq> {} \<and> owners (kw vm') R x = {}} \<and>
     (\<forall>x \<in> in_use vm' fl'. K' x = K x) \<and>
     (\<forall>x \<in> in_use vm' fl' - tabs (kw vm) R. kw vm' x = kw vm x) \<and>
     (\<forall>r' q x j. okp q \<longrightarrow> walk (kw vm) R r' q = Some x \<longrightarrow> \<not> (r' = r \<and> under A (j # q)) \<longrightarrow> \<not> (r' = r \<and> under A q) \<longrightarrow> kw vm' x j = kw vm x j)"

lemma tornD:
  assumes "torn R r A vm fl K vm' fl' K'"
  shows "as_ok vm' fl' R" "\<forall>x \<in> set fl'. K' x 0 = kw vm' x 0"
    "okp q \<Longrightarrow> walk (kw vm') R r' q = (if r' = r \<and> under A q then None else walk (kw vm) R r' q)"
    "slot q l \<Longrightarrow> leaf (kw vm') R r' q l = (if r' = r \<and> under A (l # q) then None else leaf (kw vm) R r' q l)"
    "in_use vm' fl' = in_use vm fl - {x. \<exists>q. okp q \<and> under A q \<and> walk (kw vm) R r q = Some x} -
       {x. owners (kw vm) R x \<noteq> {} \<and> owners (kw vm') R x = {}}"
    "x \<in> in_use vm' fl' \<Longrightarrow> K' x = K x" "x \<in> in_use vm' fl' \<Longrightarrow> x \<notin> tabs (kw vm) R \<Longrightarrow> kw vm' x = kw vm x"
    "okp q \<Longrightarrow> walk (kw vm) R r' q = Some x \<Longrightarrow> \<not> (r' = r \<and> under A (j # q)) \<Longrightarrow> \<not> (r' = r \<and> under A q) \<Longrightarrow> kw vm' x j = kw vm x j"
  using assms unfolding torn_def by blast+

lemma torn_owners: "torn R r A vm fl K vm' fl' K' \<Longrightarrow> owners (kw vm') R x = owners (kw vm) R x - {(r', q, l). r' = r \<and> under A (l # q)}"
  by (rule owners_minus) (rule tornD(4))

lemma torn_none: "as_ok vm fl R \<Longrightarrow> \<forall>x \<in> set fl. K x 0 = kw vm x 0 \<Longrightarrow> torn R r {} vm fl K vm fl K"
  by (simp add: torn_def)

lemma torn_trans:
  assumes a: "torn R r A vm fl K vm1 fl1 K1" and b: "torn R r B vm1 fl1 K1 vm2 fl2 K2"
  shows "torn R r (A \<union> B) vm fl K vm2 fl2 K2"
proof -
  have iu: "in_use vm2 fl2 \<subseteq> in_use vm1 fl1" "in_use vm1 fl1 \<subseteq> in_use vm fl" using tornD(5) [OF a] tornD(5) [OF b] by auto
  have wk: "walk (kw vm2) R r' q = (if r' = r \<and> under (A \<union> B) q then None else walk (kw vm) R r' q)" if "okp q" for r' q
    using tornD(3) [OF a that, of r'] tornD(3) [OF b that, of r'] by auto
  have lf: "leaf (kw vm2) R r' q l = (if r' = r \<and> under (A \<union> B) (l # q) then None else leaf (kw vm) R r' q l)" if "slot q l" for r' q l
    using tornD(4) [OF a that, of r'] tornD(4) [OF b that, of r'] by auto
  have tabs1: "tabs (kw vm1) R \<subseteq> tabs (kw vm) R" unfolding tabs_def using tornD(3) [OF a] by (auto split: if_splits) blast+
  have use: "in_use vm2 fl2 = in_use vm fl - {x. \<exists>q. okp q \<and> under (A \<union> B) q \<and> walk (kw vm) R r q = Some x} -
       {x. owners (kw vm) R x \<noteq> {} \<and> owners (kw vm2) R x = {}}"
  proof -
    have w1: "(\<exists>q. okp q \<and> under (A \<union> B) q \<and> walk (kw vm) R r q = Some x) \<longleftrightarrow>
        (\<exists>q. okp q \<and> under A q \<and> walk (kw vm) R r q = Some x) \<or> (\<exists>q. okp q \<and> under B q \<and> walk (kw vm1) R r q = Some x)" for x
      using tornD(3) [OF a, of _ r] by (auto split: if_splits) metis+
    have "owners (kw vm2) R x \<subseteq> owners (kw vm1) R x" "owners (kw vm1) R x \<subseteq> owners (kw vm) R x" for x
      using torn_owners [OF a, of x] torn_owners [OF b, of x] by auto
    then show ?thesis unfolding tornD(5) [OF b] unfolding tornD(5) [OF a] w1 by blast
  qed
  show ?thesis unfolding torn_def
  proof (intro conjI)
    show "\<forall>x \<in> in_use vm2 fl2. K2 x = K x" using tornD(6) [OF a] tornD(6) [OF b] iu(1) by (metis subsetD)
    show "\<forall>x \<in> in_use vm2 fl2 - tabs (kw vm) R. kw vm2 x = kw vm x"
      using tornD(7) [OF a] tornD(7) [OF b] iu(1) tabs1 by (metis Diff_iff subsetD)
    show "\<forall>r' q x j. okp q \<longrightarrow> walk (kw vm) R r' q = Some x \<longrightarrow> \<not> (r' = r \<and> under (A \<union> B) (j # q)) \<longrightarrow> \<not> (r' = r \<and> under (A \<union> B) q) \<longrightarrow> kw vm2 x j = kw vm x j"
    proof (intro allI impI)
      fix r' q x j assume h: "okp q" "walk (kw vm) R r' q = Some x" "\<not> (r' = r \<and> under (A \<union> B) (j # q))" "\<not> (r' = r \<and> under (A \<union> B) q)"
      have "walk (kw vm1) R r' q = Some x" using tornD(3) [OF a h(1), of r'] h(2,4) by auto
      then show "kw vm2 x j = kw vm x j" using tornD(8) [OF a h(1,2), of j] tornD(8) [OF b h(1), of r' x j] h(3,4) by auto
    qed
  qed (use tornD(1,2) [OF b] wk lf use in simp_all)
qed

text \<open>The machine's memory agrees with the cleared one on all tables from the path \<open>p\<close> on, and every entry that
  leads to a table says so.\<close>

definition clean :: "u64 set \<Rightarrow> u64 \<Rightarrow> u64 list \<Rightarrow> vm \<Rightarrow> (u64 \<Rightarrow> u64 \<Rightarrow> u64) \<Rightarrow> bool" where
  "clean R r p vm K \<longleftrightarrow> (\<forall>q x j. okp q \<longrightarrow> suffix p q \<longrightarrow> walk (kw vm) R r q = Some x \<longrightarrow> j < 512 \<longrightarrow> K x j = kw vm x j)"

definition table_entries :: "u64 set \<Rightarrow> u64 \<Rightarrow> vm \<Rightarrow> bool" where
  "table_entries R r vm \<longleftrightarrow> (\<forall>q x j. okp (j # q) \<longrightarrow> walk (kw vm) R r q = Some x \<longrightarrow> valid (kw vm x j) \<longrightarrow> kw vm x j AND DESC_TABLE = DESC_TABLE)"

lemma torn_keeps:
  assumes a: "torn R r A vm fl K vm' fl' K'"
  shows "table_entries R r vm \<Longrightarrow> table_entries R r vm'"
    "clean R r p vm K \<Longrightarrow> (\<And>q. suffix p q \<Longrightarrow> \<not> under A q) \<Longrightarrow> clean R r p vm' K'"
    "okp p \<Longrightarrow> walk (kw vm) R r p = Some t \<Longrightarrow> \<not> under A p \<Longrightarrow> \<not> under A (j # p) \<Longrightarrow> K t j = kw vm t j \<Longrightarrow> K' t j = kw vm' t j"
proof -
  have old: "walk (kw vm) R r q = Some x" "\<not> under A q" "x \<in> in_use vm' fl'" if "okp q" "walk (kw vm') R r q = Some x" for q x
    using tornD(3) [OF a that(1), of r] that treeD(1) [OF as_okD(2) [OF tornD(1) [OF a]] that(2,1)] by (auto split: if_splits)
  show "table_entries R r vm'" if t: "table_entries R r vm"
    unfolding table_entries_def
  proof (intro allI impI)
    fix q x j assume h: "okp (j # q)" "walk (kw vm') R r q = Some x" "valid (kw vm' x j)"
    have oq: "okp q" using h(1) by simp
    have "walk (kw vm') R r (j # q) \<noteq> None" using h(2,3) by simp
    then have "\<not> under A (j # q)" using tornD(3) [OF a h(1), of r] by auto
    then have "kw vm' x j = kw vm x j" using tornD(8) [OF a oq old(1) [OF oq h(2)], of j] old(2) [OF oq h(2)] by simp
    then show "kw vm' x j AND 2 = 2" using t h old(1) [OF oq h(2)] unfolding table_entries_def by metis
  qed
  show "clean R r p vm' K'" if c: "clean R r p vm K" and u: "\<And>q. suffix p q \<Longrightarrow> \<not> under A q"
    unfolding clean_def
  proof (intro allI impI)
    fix q x j assume h: "okp q" "suffix p q" "walk (kw vm') R r q = Some x" "(j :: u64) < 512"
    have "kw vm' x j = kw vm x j"
      using tornD(8) [OF a h(1) old(1) [OF h(1,3)], of j] u [OF h(2)] u [of "j # q"] h(2) by (auto intro: suffix_ConsI)
    then show "K' x j = kw vm' x j" using c h old [OF h(1,3)] tornD(6) [OF a] by (simp add: clean_def)
  qed
  show "K' t j = kw vm' t j" if "okp p" "walk (kw vm) R r p = Some t" "\<not> under A p" "\<not> under A (j # p)" "K t j = kw vm t j"
  proof -
    have "walk (kw vm') R r p = Some t" using tornD(3) [OF a that(1), of r] that(2,3) by simp
    then show ?thesis using tornD(8) [OF a that(1,2), of j] that old(3) [OF that(1)] tornD(6) [OF a] by simp
  qed
qed

lemma torn_skip:
  assumes ok: "as_ok vm fl R" and tr: "\<forall>x \<in> set fl. K x 0 = kw vm x 0"
    and e: "\<And>q. okp q \<Longrightarrow> under A q \<Longrightarrow> walk (kw vm) R r q = None" "\<And>q l. slot q l \<Longrightarrow> under A (l # q) \<Longrightarrow> leaf (kw vm) R r q l = None"
  shows "torn R r A vm fl K vm fl K"
  unfolding torn_def using assms by auto

lemma kfold_torn:
  assumes step: "\<And>i vm fl K. i < 512 \<Longrightarrow> as_ok vm fl R \<Longrightarrow> \<forall>x \<in> set fl. K x 0 = kw vm x 0 \<Longrightarrow> walk (kw vm) R r p = Some t \<Longrightarrow>
      clean R r (i # p) vm K \<Longrightarrow> K t i = kw vm t i \<Longrightarrow> table_entries R r vm \<Longrightarrow>
      \<exists>vm' fl' K'. f i (vm\<lparr>kw := K\<rparr>) = Inr (vm'\<lparr>kw := K'\<rparr>) \<and> torn R r {i # p} vm fl K vm' fl' K'"
    and o: "okp p"
  shows "distinct xs \<Longrightarrow> \<forall>i \<in> set xs. i < 512 \<and> clean R r (i # p) vm K \<and> K t i = kw vm t i \<Longrightarrow> as_ok vm fl R \<Longrightarrow>
    \<forall>x \<in> set fl. K x 0 = kw vm x 0 \<Longrightarrow> walk (kw vm) R r p = Some t \<Longrightarrow> table_entries R r vm \<Longrightarrow>
    \<exists>vm' fl' K'. kfold f xs (vm\<lparr>kw := K\<rparr>) = Inr (vm'\<lparr>kw := K'\<rparr>) \<and> torn R r ((\<lambda>i. i # p) ` set xs) vm fl K vm' fl' K'"
proof (induction xs arbitrary: vm fl K)
  case Nil
  then show ?case using torn_none [of vm fl R K r] by auto
next
  case (Cons i xs)
  obtain vm1 fl1 K1 where s: "f i (vm\<lparr>kw := K\<rparr>) = Inr (vm1\<lparr>kw := K1\<rparr>)" "torn R r {i # p} vm fl K vm1 fl1 K1"
    using step [of i vm fl K] Cons.prems by auto
  have np: "\<not> under {i # p} p" using suffix_length_le [of "i # p" p] by (auto simp: under_def)
  have nj: "\<not> under {i # p} (j # p)" if "j \<in> set xs" for j
    using that Cons.prems(1) by (auto simp: under_def dest: suffix_length_eq [rotated])
  have "\<forall>j \<in> set xs. j < 512 \<and> clean R r (j # p) vm1 K1 \<and> K1 t j = kw vm1 t j"
  proof
    fix j assume j: "j \<in> set xs"
    have "\<not> under {i # p} q" if "suffix (j # p) q" for q
    proof
      assume "under {i # p} q"
      then have "suffix (i # p) q" by (simp add: under_def)
      then have "i = j" using that by (auto simp: suffix_def append_eq_append_conv2 Cons_eq_append_conv)
      then show False using j Cons.prems(1) by simp
    qed
    then have "clean R r (j # p) vm1 K1" using torn_keeps(2) [OF s(2), of "j # p"] Cons.prems(2) j by auto
    moreover have "K1 t j = kw vm1 t j" using torn_keeps(3) [OF s(2) o Cons.prems(5) np nj [OF j]] Cons.prems(2) j by auto
    ultimately show "j < 512 \<and> clean R r (j # p) vm1 K1 \<and> K1 t j = kw vm1 t j" using Cons.prems(2) j by auto
  qed
  moreover have "walk (kw vm1) R r p = Some t" using tornD(3) [OF s(2) o, of r] np Cons.prems(5) by simp
  ultimately obtain vm2 fl2 K2 where r: "kfold f xs (vm1\<lparr>kw := K1\<rparr>) = Inr (vm2\<lparr>kw := K2\<rparr>)" "torn R r ((\<lambda>i. i # p) ` set xs) vm1 fl1 K1 vm2 fl2 K2"
    using Cons.IH [of vm1 K1 fl1] Cons.prems(1) tornD(1,2) [OF s(2)] torn_keeps(1) [OF s(2) Cons.prems(6)] by auto
  have "torn R r ({i # p} \<union> (\<lambda>i. i # p) ` set xs) vm fl K vm2 fl2 K2" by (rule torn_trans [OF s(2) r(2)])
  then show ?case using s(1) r(1) by auto
qed

lemma under_step: "okp q \<Longrightarrow> under {a} q \<longleftrightarrow> q = a \<or> under ((\<lambda>j. j # a) ` {j. j < 512}) q"
proof
  assume o: "okp q" and u: "under {a} q"
  then obtain zs where zs: "q = zs @ a" by (auto simp: under_def suffix_def)
  show "q = a \<or> under ((\<lambda>j. j # a) ` {j. j < 512}) q"
  proof (cases zs rule: rev_cases)
    case (snoc ys j)
    have "j < 512" using o zs snoc by (auto simp: okp_def)
    moreover have "suffix (j # a) q" using zs snoc by (auto simp: suffix_def)
    ultimately show ?thesis by (auto simp: under_def)
  qed (use zs in simp)
qed (auto simp: under_def dest: suffix_ConsD)

lemma torn_entry:
  assumes ok: "as_ok vm fl R" and tr: "\<forall>x \<in> set fl. K x 0 = kw vm x 0" and w: "walk (kw vm) R r p = Some t" and s: "slot p l"
    and k: "K t l = kw vm t l"
  shows "\<exists>vm' fl' K'. (let desc = kw (vm\<lparr>kw := K\<rparr>) t l in
      if desc AND DESC_VALID = 0 then Inr (vm\<lparr>kw := K\<rparr>) else dec_pte_refcount_pa (desc AND PTE_ADDR_MASK) (vm\<lparr>kw := K\<rparr>)) = Inr (vm'\<lparr>kw := K'\<rparr>) \<and>
    torn R r {l # p} vm fl K vm' fl' K'"
proof (cases "valid (kw vm t l)")
  case False
  have "torn R r {l # p} vm fl K vm fl K"
    by (rule torn_skip [where K = K, OF ok tr]) (use slot_not_under [OF s] slot_under [OF s] False w in \<open>auto simp: leaf_def\<close>)
  then show ?thesis using False k by auto
next
  case True
  note D = as_okD [OF ok]
  let ?e = "kw vm t l"
  obtain vm' fl' K' where c: "dec_pte_refcount_pa (?e AND PTE_ADDR_MASK) (vm\<lparr>kw := K\<rparr>) = Inr (vm'\<lparr>kw := K'\<rparr>)" "as_ok vm' fl' R"
      "\<forall>x \<in> set fl'. K' x 0 = kw vm' x 0" "\<And>r' q. okp q \<Longrightarrow> walk (kw vm') R r' q = walk (kw vm) R r' q"
      "\<And>r' q l'. slot q l' \<Longrightarrow> leaf (kw vm') R r' q l' = (if (r', q, l') = (r, p, l) then None else leaf (kw vm) R r' q l')"
      "in_use vm' fl' = in_use vm fl - (if owners (kw vm) R (child ?e) = {(r, p, l)} then {child ?e} else {})"
      "\<forall>x \<in> in_use vm' fl'. K' x = K x" "\<And>x j. x \<in> in_use vm' fl' \<Longrightarrow> (x, j) \<noteq> (t, l) \<Longrightarrow> kw vm' x j = kw vm x j"
    using clear_leaf [where K = K, OF ok w s True tr] by blast
  have le: "leaf (kw vm) R r p l = Some ?e" using w True by (simp add: leaf_def)
  have O: "owners (kw vm') R x = owners (kw vm) R x - {(r, p, l)}" for x
    using owners_minus [of "kw vm'" R "\<lambda>r' p' l'. (r', p', l') = (r, p, l)" "kw vm" x] c(5) by auto
  have oe: "(r, p, l) \<in> owners (kw vm) R x \<longleftrightarrow> x = child ?e" for x using le s by (auto simp: owners_def)
  have tt: "t \<in> tabs (kw vm) R" using treeD(2) [OF D(2) w] slot_okp(1) [OF s] by simp
  have last: "kw vm' x j = kw vm x j" if "okp q" "walk (kw vm) R r' q = Some x" "\<not> (r' = r \<and> under {l # p} (j # q))" for r' q x j
  proof (rule c(8))
    show "x \<in> in_use vm' fl'" using treeD(1) [OF as_okD(2) [OF c(2)], of r' q] c(4) [OF that(1)] that by simp
    show "(x, j) \<noteq> (t, l)" using treeD(3) [OF D(2) w, of r' q] slot_okp(1) [OF s] that by (auto simp: under_def)
  qed
  have "{x. owners (kw vm) R x \<noteq> {} \<and> owners (kw vm') R x = {}} = (if owners (kw vm) R (child ?e) = {(r, p, l)} then {child ?e} else {})"
  proof -
    have a: "owners (kw vm) R x \<noteq> {} \<and> owners (kw vm') R x = {} \<longleftrightarrow> owners (kw vm) R x = {(r, p, l)}" for x unfolding O by blast
    have b: "x = child ?e" if "owners (kw vm) R x = {(r, p, l)}" for x
      by (rule oe [THEN iffD1]) (simp add: that)
    have "{x. owners (kw vm) R x = {(r, p, l)}} = (if owners (kw vm) R (child ?e) = {(r, p, l)} then {child ?e} else {})"
    proof (rule set_eqI)
      fix x
      show "x \<in> {x. owners (kw vm) R x = {(r, p, l)}} \<longleftrightarrow> x \<in> (if owners (kw vm) R (child ?e) = {(r, p, l)} then {child ?e} else {})"
        using b [of x] by (cases "x = child ?e") (simp_all, blast)
    qed
    then show ?thesis unfolding a .
  qed
  moreover have no: "{x. \<exists>q. okp q \<and> under {l # p} q \<and> walk (kw vm) R r q = Some x} = {}" using slot_not_under [OF s] by blast
  ultimately have use: "in_use vm' fl' = in_use vm fl - {x. \<exists>q. okp q \<and> under {l # p} q \<and> walk (kw vm) R r q = Some x} -
      {x. owners (kw vm) R x \<noteq> {} \<and> owners (kw vm') R x = {}}"
    using c(6) no by (simp only: Diff_empty)
  have "torn R r {l # p} vm fl K vm' fl' K'"
    unfolding torn_def
  proof (intro conjI)
    show "\<forall>r' q. okp q \<longrightarrow> walk (kw vm') R r' q = (if r' = r \<and> under {l # p} q then None else walk (kw vm) R r' q)"
      using c(4) slot_not_under [OF s] by simp
    show "\<forall>r' q l'. slot q l' \<longrightarrow> leaf (kw vm') R r' q l' = (if r' = r \<and> under {l # p} (l' # q) then None else leaf (kw vm) R r' q l')"
      using c(5) slot_under [OF s] by simp
    show "\<forall>x \<in> in_use vm' fl' - tabs (kw vm) R. kw vm' x = kw vm x" using c(8) tt by (metis DiffD1 DiffD2 Pair_inject ext)
  qed (use c(2,3,7) use last in blast)+
  then show ?thesis using True k c(1) by auto
qed

lemma torn_table:
  assumes a: "torn R r ((\<lambda>j. j # i # p) ` {j. j < 512}) vm fl K vm1 fl1 K1" and ok: "as_ok vm fl R"
    and w: "walk (kw vm) R r p = Some t" and o: "okp (i # p)" and v: "valid (kw vm t i)"
  defines "n \<equiv> child (kw vm t i)"
  shows "\<exists>vm' fl' K'. free_page n (vm1\<lparr>kw := K1\<rparr>) = vm'\<lparr>kw := K'\<rparr> \<and> torn R r {i # p} vm fl K vm' fl' K'"
proof -
  note D = as_okD [OF ok]
  let ?B = "(\<lambda>j. j # i # p) ` {j. j < 512}"
  have op: "okp p" using o by simp
  have no: "\<not> under ?B p" "\<not> under ?B (i # p)"
    using suffix_length_le [of _ p] suffix_length_le [of _ "i # p"] by (force simp: under_def)+
  have w1: "walk (kw vm1) R r p = Some t" "kw vm1 t i = kw vm t i"
    using tornD(3) [OF a op, of r] tornD(8) [OF a op w, of i] w no by simp_all
  have wn: "walk (kw vm) R r (i # p) = Some n" using w v by (simp add: n_def)
  have wn1: "walk (kw vm1) R r (i # p) = Some n" using tornD(3) [OF a o, of r] wn no by simp
  have e: "\<forall>j < 512. \<not> valid (kw vm1 (child (kw vm1 t i)) j)"
  proof (intro allI impI)
    fix j :: u64 assume j: "j < 512"
    have u: "under ?B (j # i # p)" using j by (auto simp: under_def)
    show "\<not> valid (kw vm1 (child (kw vm1 t i)) j)"
    proof (cases "length p < 2")
      case True
      then have "okp (j # i # p)" using o j by simp
      then show ?thesis using tornD(3) [OF a, of "j # i # p" r] u wn1 w1(2) by (auto simp: n_def split: if_splits)
    next
      case False
      then have "slot (i # p) j" using o j by (auto simp: slot_def okp_def)
      then show ?thesis using tornD(4) [OF a, of "i # p" j r] u wn1 w1(2) by (auto simp: leaf_def n_def split: if_splits)
    qed
  qed
  note P = prune_table [OF tornD(1) [OF a] w1(1) o _ e, unfolded w1(2), OF v, folded n_def]
  let ?w = "set_word t i 0 vm1"
  let ?v = "free_page n ?w" and ?K = "K1(n := (K1 n)(0 := free_list ?w))"
  have n: "n \<in> in_use ?w fl1" using P(4) by simp
  note F = as_ok_free [OF P(1) n P(5,6)] and G = free_page_keeps [OF as_okD(1) [OF P(1)] n]
  have n0: "n \<noteq> 0" unfolding n_def by (rule child_not_0)
  have run: "free_page n (vm1\<lparr>kw := K1\<rparr>) = ?v\<lparr>kw := ?K\<rparr>"
    using free_page_memory(1) [OF n0, of K1 vm1] free_page_memory(1) [OF n0, of K1 ?w] by (simp add: set_word_def)
  have tt: "t \<in> tabs (kw vm) R" "t \<in> in_use vm1 fl1" using treeD(2) [OF D(2) w op] treeD(1) [OF as_okD(2) [OF tornD(1) [OF a]] w1(1) op] by simp_all
  have wk: "walk (kw ?v) R r' q = (if r' = r \<and> under {i # p} q then None else walk (kw vm) R r' q)" if "okp q" for r' q
    using F(2) [OF that, of r'] P(2) [OF that, of r'] tornD(3) [OF a that, of r'] under_step [OF that, of "i # p"] by auto
  have lf1: "leaf (kw ?v) R r' q l = leaf (kw vm1) R r' q l" if "slot q l" for r' q l using F(3) [OF that] P(3) [OF that] by simp
  have lf: "leaf (kw ?v) R r' q l = (if r' = r \<and> under {i # p} (l # q) then None else leaf (kw vm) R r' q l)" if s: "slot q l" for r' q l
  proof -
    have "under {i # p} (l # q) \<longleftrightarrow> under ?B (l # q)" using under_children [of "i # p"] o s by auto
    then show ?thesis using lf1 [OF s] tornD(4) [OF a s, of r'] by simp
  qed
  have own: "owners (kw ?v) R x = owners (kw vm1) R x" for x by (simp add: owners_def lf1 cong: conj_cong)
  have iv: "in_use ?v (n # fl1) = in_use vm1 fl1 - {n}" using G(2) by simp
  have tabs: "(\<exists>q. okp q \<and> under {i # p} q \<and> walk (kw vm) R r q = Some x) \<longleftrightarrow>
      x = n \<or> (\<exists>q. okp q \<and> under ?B q \<and> walk (kw vm) R r q = Some x)" for x
    using under_step [of _ "i # p"] wn o by (metis option.inject)
  have use: "in_use ?v (n # fl1) = in_use vm fl - {x. \<exists>q. okp q \<and> under {i # p} q \<and> walk (kw vm) R r q = Some x} -
      {x. owners (kw vm) R x \<noteq> {} \<and> owners (kw ?v) R x = {}}"
    unfolding iv tabs own tornD(5) [OF a] by blast
  have kv: "kw ?v x j = kw vm1 x j" if "x \<noteq> n" "(x, j) \<noteq> (t, i)" for x j using that G(4) [of x] by auto
  have "torn R r {i # p} vm fl K ?v (n # fl1) ?K"
    unfolding torn_def
  proof (intro conjI)
    show "\<forall>x \<in> set (n # fl1). ?K x 0 = kw ?v x 0"
    proof
      fix x assume "x \<in> set (n # fl1)"
      moreover have "x \<noteq> t" "x \<noteq> n" if "x \<in> set fl1" using that tt(2) P(4) by (auto simp: in_use_def)
      ultimately show "?K x 0 = kw ?v x 0" using tornD(2) [OF a] kv [of x 0] free_page_memory(2) [OF n0, of ?w] by (cases "x = n") auto
    qed
    show "\<forall>x \<in> in_use ?v (n # fl1). ?K x = K x" using iv tornD(6) [OF a] by simp
    show "\<forall>x \<in> in_use ?v (n # fl1) - tabs (kw vm) R. kw ?v x = kw vm x"
    proof
      fix x assume x: "x \<in> in_use ?v (n # fl1) - tabs (kw vm) R"
      then have "x \<noteq> t" "x \<noteq> n" "x \<in> in_use vm1 fl1" using tt(1) iv by auto
      then show "kw ?v x = kw vm x" using kv [of x] tornD(7) [OF a, of x] x by auto
    qed
    show "\<forall>r' q x j. okp q \<longrightarrow> walk (kw vm) R r' q = Some x \<longrightarrow> \<not> (r' = r \<and> under {i # p} (j # q)) \<longrightarrow> \<not> (r' = r \<and> under {i # p} q) \<longrightarrow> kw ?v x j = kw vm x j"
    proof (intro allI impI)
      fix r' q x j assume h: "okp q" "walk (kw vm) R r' q = Some x" "\<not> (r' = r \<and> under {i # p} (j # q))" "\<not> (r' = r \<and> under {i # p} q)"
      have "x \<noteq> n" using treeD(3) [OF D(2) wn o, of r' q] h by (auto simp: under_def)
      moreover have "(x, j) \<noteq> (t, i)" using treeD(3) [OF D(2) w op, of r' q] h by (auto simp: under_def)
      ultimately have "kw ?v x j = kw vm1 x j" by (rule kv)
      also have "\<dots> = kw vm x j" using tornD(8) [OF a h(1,2), of j] h(3,4) under_children(1) [of "i # p"] by blast
      finally show "kw ?v x j = kw vm x j" .
    qed
  qed (use F(1) wk lf use in simp_all)
  then show ?thesis using run by blast
qed

subsection \<open>The levels of a page table\<close>

lemma destroy_level_torn:
  assumes "as_ok vm fl R" "\<forall>x \<in> set fl. K x 0 = kw vm x 0" "walk (kw vm) R r p = Some t" "t \<noteq> 0"
    "clean R r p vm K" "table_entries R r vm" "length p + d = 3" "okp p"
  shows "\<exists>vm' fl' K'. destroy_page_table_level d t (vm\<lparr>kw := K\<rparr>) = Inr (free_page t (vm'\<lparr>kw := K'\<rparr>)) \<and>
    torn R r ((\<lambda>i. i # p) ` {i. i < 512}) vm fl K vm' fl' K'"
  using assms
proof (induction d arbitrary: vm fl K p t)
  case 0
  have sl: "slot p i" if "i < 512" for i using 0(7,8) that by (simp add: slot_def okp_def)
  let ?f = "\<lambda>i vm. let desc = kw vm t i in if desc AND DESC_VALID = 0 then Inr vm else dec_pte_refcount_pa (desc AND PTE_ADDR_MASK) vm"
  have all: "\<forall>i \<in> set page_words. i < 512 \<and> clean R r (i # p) vm K \<and> K t i = kw vm t i"
    using 0(3,5,8) unfolding page_words_set(1) clean_def by (auto dest: suffix_ConsD)
  have "\<exists>vm' fl' K'. kfold ?f page_words (vm\<lparr>kw := K\<rparr>) = Inr (vm'\<lparr>kw := K'\<rparr>) \<and> torn R r ((\<lambda>i. i # p) ` set page_words) vm fl K vm' fl' K'"
    by (rule kfold_torn [OF torn_entry [OF _ _ _ sl] 0(8) page_words_set(2) all 0(1-3,6)])
  then obtain vm' fl' K' where k: "kfold ?f page_words (vm\<lparr>kw := K\<rparr>) = Inr (vm'\<lparr>kw := K'\<rparr>)"
      "torn R r ((\<lambda>i. i # p) ` {i. i < 512}) vm fl K vm' fl' K'" unfolding page_words_set(1) by blast
  have "destroy_page_table_level (0) t (vm\<lparr>kw := K\<rparr>) = Inr (free_page t (vm'\<lparr>kw := K'\<rparr>))"
    using k(1) 0(4) by simp
  then show ?case using k(2) by blast
next
  case (Suc d)
  let ?f = "\<lambda>i vm. let desc = kw vm t i in if desc AND DESC_VALID = 0 then Inr vm
     else if desc AND DESC_TABLE = DESC_TABLE then destroy_page_table_level d (kernel_direct_map_va (desc AND PTE_ADDR_MASK)) vm else Inr vm"
  have step: "\<exists>vm' fl' K'. ?f i (vm\<lparr>kw := K\<rparr>) = Inr (vm'\<lparr>kw := K'\<rparr>) \<and> torn R r {i # p} vm fl K vm' fl' K'"
    if i: "i < 512" and ok: "as_ok vm fl R" and tr: "\<forall>x \<in> set fl. K x 0 = kw vm x 0" and w: "walk (kw vm) R r p = Some t"
      and c: "clean R r (i # p) vm K" and k: "K t i = kw vm t i" and te: "table_entries R r vm" for i vm fl K
  proof -
    have o: "okp (i # p)" using Suc.prems(7,8) i by simp
    show ?thesis
    proof (cases "valid (kw vm t i)")
      case False
      have no: "walk (kw vm) R r q = None" if sq: "suffix (i # p) q" for q
      proof -
        obtain zs where "q = zs @ i # p" using sq by (auto simp: suffix_def)
        then show ?thesis using w False by (induction zs arbitrary: q) auto
      qed
      have lf: "leaf (kw vm) R r q l = None" if "slot q l" "suffix (i # p) (l # q)" for q l
        using that no [of q] Suc.prems(7) by (auto simp: leaf_def suffix_Cons slot_def)
      have "torn R r {i # p} vm fl K vm fl K"
        by (rule torn_skip [where K = K, OF ok tr]) (use no lf in \<open>auto simp: under_def\<close>)
      then show ?thesis using False k by auto
    next
      case True
      let ?n = "child (kw vm t i)"
      have dt: "kw vm t i AND DESC_TABLE = DESC_TABLE" using te o w True unfolding table_entries_def by blast
      have wn: "walk (kw vm) R r (i # p) = Some ?n" using w True by simp
      have len: "length (i # p) + d = 3" using Suc.prems(7) by simp
      obtain vm1 fl1 K1 where r: "destroy_page_table_level d ?n (vm\<lparr>kw := K\<rparr>) = Inr (free_page ?n (vm1\<lparr>kw := K1\<rparr>))"
          "torn R r ((\<lambda>j. j # i # p) ` {j. j < 512}) vm fl K vm1 fl1 K1"
        using Suc.IH [OF ok tr wn child_not_0 c te len o] by blast
      obtain vm2 fl2 K2 where f: "free_page ?n (vm1\<lparr>kw := K1\<rparr>) = vm2\<lparr>kw := K2\<rparr>" "torn R r {i # p} vm fl K vm2 fl2 K2"
        using torn_table [OF r(2) ok w o True] by blast
      have "?f i (vm\<lparr>kw := K\<rparr>) = Inr (vm2\<lparr>kw := K2\<rparr>)"
        using r(1) f(1) True dt k by (simp add: child_def Let_def)
      then show ?thesis using f(2) by blast
    qed
  qed
  have all: "\<forall>i \<in> set page_words. i < 512 \<and> clean R r (i # p) vm K \<and> K t i = kw vm t i"
    using Suc.prems(3,5,8) unfolding page_words_set(1) clean_def by (auto dest: suffix_ConsD)
  have "\<exists>vm' fl' K'. kfold ?f page_words (vm\<lparr>kw := K\<rparr>) = Inr (vm'\<lparr>kw := K'\<rparr>) \<and> torn R r ((\<lambda>i. i # p) ` set page_words) vm fl K vm' fl' K'"
    by (rule kfold_torn [OF step Suc.prems(8) page_words_set(2) all Suc.prems(1-3,6)])
  then obtain vm' fl' K' where k: "kfold ?f page_words (vm\<lparr>kw := K\<rparr>) = Inr (vm'\<lparr>kw := K'\<rparr>)"
      "torn R r ((\<lambda>i. i # p) ` {i. i < 512}) vm fl K vm' fl' K'" unfolding page_words_set(1) by blast
  have "destroy_page_table_level (Suc d) t (vm\<lparr>kw := K\<rparr>) = Inr (free_page t (vm'\<lparr>kw := K'\<rparr>))"
    using k(1) Suc.prems(4) by simp
  then show ?case using k(2) by blast
qed

subsection \<open>The whole page table\<close>

lemma as_ok_memory:
  assumes ok: "as_ok vm fl R" and t: "\<forall>t \<in> tabs (kw vm) R. K t = kw vm t" and f: "\<forall>x \<in> set fl. K x 0 = kw vm x 0"
  shows "as_ok (vm\<lparr>kw := K\<rparr>) fl R" "slot p l \<Longrightarrow> leaf K R r p l = leaf (kw vm) R r p l" "in_use (vm\<lparr>kw := K\<rparr>) fl = in_use vm fl"
proof -
  note D = as_okD [OF ok] and S = tables_same [OF t]
  show "slot p l \<Longrightarrow> leaf K R r p l = leaf (kw vm) R r p l" by (rule S(2))
  have pe: "pool_end (vm\<lparr>kw := K\<rparr>) = pool_end vm" by (rule pool_end_keep) simp_all
  show iu: "in_use (vm\<lparr>kw := K\<rparr>) fl = in_use vm fl" using pe by (simp add: in_use_def)
  have own: "owners K R x = owners (kw vm) R x" for x by (simp add: owners_def S(2) cong: conj_cong)
  have "fchain K h fl = fchain (kw vm) h fl" for h by (rule fchain_cong) (simp add: f)
  then have pa: "pa_inv (vm\<lparr>kw := K\<rparr>) fl" using D(1) pe unfolding pa_inv_def by simp
  have own_ok: "x \<in> in_use vm fl \<and> unat (refcount (pg vm x)) = card (owners (kw vm) R x)" if "owners (kw vm) R x \<noteq> {}" for x
  proof -
    from that obtain r p l e where "slot p l" "leaf (kw vm) R r p l = Some e" "child e = x" by (auto simp: owners_def)
    then show ?thesis using D(6) [of p l r e] by (simp add: leaf_ok_def)
  qed
  have pg: "pg (vm\<lparr>kw := K\<rparr>) x = pg vm x" for x by (simp add: pg_def)
  show "as_ok (vm\<lparr>kw := K\<rparr>) fl R"
  proof (rule as_ok_shrink [OF ok subset_refl pa])
    show "tree (kw (vm\<lparr>kw := K\<rparr>)) R (in_use (vm\<lparr>kw := K\<rparr>) fl)" using S(3) [OF D(2)] iu by simp
    show "pages (vm\<lparr>kw := K\<rparr>) \<noteq> None" using D(5) by simp
  qed (use S(2,4) own_ok own iu pg in simp_all)
qed

lemma under_root: "okp q \<Longrightarrow> under ((\<lambda>i. [i]) ` {i. i < 512}) q \<longleftrightarrow> q \<noteq> []"
  using under_step [of q "[]"] by (auto simp: under_def)

lemma destroy_root:
  assumes ok: "as_ok vm fl R" and r: "r \<in> R" "r \<noteq> 0" and te: "table_entries R r vm"
  shows "\<exists>vm' fl'. destroy_page_table_level 3 r vm = Inr vm' \<and> as_ok vm' fl' (R - {r}) \<and>
    (\<forall>r' p l. slot p l \<longrightarrow> leaf (kw vm') (R - {r}) r' p l = (if r' = r then None else leaf (kw vm) R r' p l)) \<and>
    in_use vm' fl' = in_use vm fl - {x. \<exists>q. okp q \<and> walk (kw vm) R r q = Some x} -
      {x. owners (kw vm) R x \<noteq> {} \<and> owners (kw vm) R x \<subseteq> {r} \<times> UNIV} \<and>
    (\<forall>x \<in> in_use vm' fl'. kw vm' x = kw vm x)"
proof -
  let ?A = "(\<lambda>i. [i]) ` {i. i < (512 :: u64)}" and ?Q = "R - {r}"
  have wr: "walk (kw vm) R r [] = Some r" using r by simp
  obtain vm1 fl1 K1 where d: "destroy_page_table_level 3 r vm = Inr (free_page r (vm1\<lparr>kw := K1\<rparr>))" and T: "torn R r ?A vm fl (kw vm) vm1 fl1 K1"
    using destroy_level_torn [where K = "kw vm" and d = 3, OF ok _ wr r(2) _ te] by (auto simp: clean_def)
  note D1 = as_okD [OF tornD(1) [OF T]]
  have wr1: "walk (kw vm1) R r [] = Some r" using r by simp
  have e: "\<forall>i < 512. \<not> valid (kw vm1 r i)"
  proof (intro allI impI)
    fix i :: u64 assume i: "i < 512"
    have "walk (kw vm1) R r [i] = None" using tornD(3) [OF T, of "[i]" r] under_root [of "[i]"] i by simp
    then show "\<not> valid (kw vm1 r i)" using r by (auto split: if_splits)
  qed
  note P = drop_root [OF tornD(1) [OF T] e r(1)]
  note F = as_ok_free [OF P(1,4-6)] and G = free_page_keeps [OF as_okD(1) [OF P(1)] P(4)]
  let ?v = "free_page r vm1" and ?K = "K1(r := (K1 r)(0 := free_list vm1))"
  have run: "free_page r (vm1\<lparr>kw := K1\<rparr>) = ?v\<lparr>kw := ?K\<rparr>" using free_page_memory(1) [OF r(2)] by simp
  have tabs: "?K t = kw ?v t" if tv: "t \<in> tabs (kw ?v) ?Q" for t
  proof -
    obtain r' q where q: "okp q" "walk (kw vm1) ?Q r' q = Some t" using tv F(2) by (auto simp: tabs_def)
    then have w1: "r' \<noteq> r" "walk (kw vm1) R r' q = Some t" using P(2) [of "kw vm1" r' q] by (auto split: if_splits)
    have "t \<noteq> r" using P(5) q by (auto simp: tabs_def)
    moreover have "walk (kw vm) R r' q = Some t" using tornD(3) [OF T q(1), of r'] w1 by simp
    then have "kw vm1 t = kw vm t" using tornD(8) [OF T q(1), of r' t] w1(1) by blast
    moreover have "K1 t = kw vm t" by (rule tornD(6) [OF T treeD(1) [OF D1(2) w1(2) q(1)]])
    ultimately show ?thesis using G(4) [of t] by simp
  qed
  have fr: "?K x 0 = kw ?v x 0" if "x \<in> set (r # fl1)" for x
    using that tornD(2) [OF T] free_page_memory(2) [OF r(2), of vm1] by auto
  have lf: "leaf (kw ?v) ?Q r' p l = (if r' = r then None else leaf (kw vm) R r' p l)" if s: "slot p l" for r' p l
    using F(3) [OF s, of r'] P(3) [of "kw vm1" r' p l] tornD(4) [OF T s, of r'] by simp
  have "owners (kw vm1) R x = owners (kw vm) R x - {r} \<times> UNIV" for x
  proof -
    have "under ?A (l # q)" if "slot q l" for q l using under_children(2) [of "[]" q l] that by (auto simp: under_def)
    then show ?thesis using torn_owners [OF T, of x] by (auto simp: owners_def)
  qed
  then have use1: "in_use vm1 fl1 = in_use vm fl - {x. \<exists>q. okp q \<and> under ?A q \<and> walk (kw vm) R r q = Some x} -
      {x. owners (kw vm) R x \<noteq> {} \<and> owners (kw vm) R x \<subseteq> {r} \<times> UNIV}" using tornD(5) [OF T] by auto
  have "(\<exists>q. okp q \<and> walk (kw vm) R r q = Some x) \<longleftrightarrow> x = r \<or> (\<exists>q. okp q \<and> under ?A q \<and> walk (kw vm) R r q = Some x)" for x
    using wr under_root by (metis okp_simps(1) option.inject)
  then have use: "in_use ?v (r # fl1) = in_use vm fl - {x. \<exists>q. okp q \<and> walk (kw vm) R r q = Some x} -
      {x. owners (kw vm) R x \<noteq> {} \<and> owners (kw vm) R x \<subseteq> {r} \<times> UNIV}" using G(2) use1 by auto
  have kw: "?K x = kw vm x" if "x \<in> in_use ?v (r # fl1)" for x using that G(2) tornD(6) [OF T, of x] by auto
  have tb: "\<forall>t \<in> tabs (kw ?v) ?Q. ?K t = kw ?v t" and fl: "\<forall>x \<in> set (r # fl1). ?K x 0 = kw ?v x 0" using tabs fr by blast+
  note M = as_ok_memory [where K = ?K, OF F(1) tb fl]
  have lfK: "\<forall>r' p l. slot p l \<longrightarrow> leaf ?K ?Q r' p l = (if r' = r then None else leaf (kw vm) R r' p l)" using M(2) lf by simp
  have mem: "\<forall>x \<in> in_use (?v\<lparr>kw := ?K\<rparr>) (r # fl1). ?K x = kw vm x" unfolding M(3) using kw by blast
  have kK: "kw (?v\<lparr>kw := ?K\<rparr>) = ?K" by simp
  show ?thesis
  proof (intro exI conjI)
    show "destroy_page_table_level 3 r vm = Inr (?v\<lparr>kw := ?K\<rparr>)" unfolding d run ..
    show "as_ok (?v\<lparr>kw := ?K\<rparr>) (r # fl1) ?Q" by (rule M(1))
  qed (use lfK mem use [folded M(3)] in \<open>simp_all only: kK\<close>)
qed

end
