(* ===== verification/Page_Fault.thy ===== *)
theory Page_Fault
  imports Vm_Regions
begin

section \<open>Filling missing pages and removing regions\<close>

text \<open>
  What \<open>load_segment_page_for_fault\<close> does to the page tables of all address spaces, on every branch, and
  what \<open>add_vm_region\<close> and \<open>munmap\<close> do to the regions.
\<close>

subsection \<open>A page allocated and filled, then mapped or given back\<close>

lemma alloc_and_fill:
  assumes inv: "pa_inv vm fl" and T: "tree (kw vm) R (in_use vm fl)" and f: "fresh vm fl n vm1 fl1" and o: "only_page n vm1 vm2"
  shows "pa_inv vm2 fl1" "tree (kw vm2) R (in_use vm2 fl1)" "in_use vm2 fl1 = insert n (in_use vm fl)" "tabs (kw vm2) R = tabs (kw vm) R"
    "x \<noteq> n \<Longrightarrow> kw vm2 x = kw vm x" "slot p l \<Longrightarrow> leaf (kw vm2) R r p l = leaf (kw vm) R r p l"
proof -
  have F: "pa_inv vm1 fl1" "n \<notin> in_use vm fl" "in_use vm1 fl1 = insert n (in_use vm fl)" "\<And>q. q \<noteq> n \<Longrightarrow> kw vm1 q = kw vm q"
    using f by (simp_all add: fresh_def)
  obtain w where w: "vm2 = vm1\<lparr>kw := (kw vm1)(n := w)\<rparr>" using o by (auto simp: only_page_def)
  have nfl: "n \<notin> set fl1" using F(3) by (auto simp: in_use_def)
  have W: "pa_inv vm2 fl1" "in_use vm2 fl1 = in_use vm1 fl1"
    by (rule pa_inv_write [OF F(1)]; use nfl in \<open>auto simp: w\<close>)+
  show "pa_inv vm2 fl1" "in_use vm2 fl1 = insert n (in_use vm fl)" using W F(3) by simp_all
  show kx: "kw vm2 x = kw vm x" if "x \<noteq> n" for x using that F(4) by (simp add: w)
  have sub: "tabs (kw vm) R \<subseteq> in_use vm fl" using T by (simp add: tree_def)
  have same: "\<forall>t \<in> tabs (kw vm) R. kw vm2 t = kw vm t" using kx sub F(2) by (metis subsetD)
  note S = tables_same [OF same]
  show "tabs (kw vm2) R = tabs (kw vm) R" by (rule S(4))
  show "slot p l \<Longrightarrow> leaf (kw vm2) R r p l = leaf (kw vm) R r p l" by (rule S(2))
  show "tree (kw vm2) R (in_use vm2 fl1)"
    using tree_same_walk(1) [OF T S(1), of "in_use vm2 fl1"] W(2) F(3) by auto
qed

lemma free_unmapped:
  assumes inv: "pa_inv vm fl" and T: "tree (kw vm) R (in_use vm fl)" and n: "n \<in> in_use vm fl" "n \<notin> tabs (kw vm) R"
  shows "pa_inv (free_page n vm) (n # fl)" "tree (kw (free_page n vm)) R (in_use (free_page n vm) (n # fl))"
    "slot p l \<Longrightarrow> leaf (kw (free_page n vm)) R r p l = leaf (kw vm) R r p l" "x \<noteq> n \<Longrightarrow> kw (free_page n vm) x = kw vm x"
proof -
  note K = free_page_keeps [OF inv n(1)]
  have same: "\<forall>t \<in> tabs (kw vm) R. kw (free_page n vm) t = kw vm t" using K(4) n(2) by metis
  note S = tables_same [OF same]
  show "pa_inv (free_page n vm) (n # fl)" by (rule K(1))
  show "slot p l \<Longrightarrow> leaf (kw (free_page n vm)) R r p l = leaf (kw vm) R r p l" by (rule S(2))
  show "x \<noteq> n \<Longrightarrow> kw (free_page n vm) x = kw vm x" by (rule K(4))
  have "tree (kw (free_page n vm)) R (in_use vm fl)" by (rule S(3) [OF T])
  then show "tree (kw (free_page n vm)) R (in_use (free_page n vm) (n # fl))"
    using n(2) unfolding tree_def S(4) K(2) by blast
qed

subsection \<open>The fault handler\<close>

lemma stats_simps [simp]:
  "md_locked (upd_stats f mm) = md_locked mm" "page_table_structs (upd_stats f mm) = page_table_structs mm"
  "kw (mvm (upd_stats f mm)) = kw (mvm mm)" "pa_inv (mvm (upd_stats f mm)) fl = pa_inv (mvm mm) fl"
  "in_use (mvm (upd_stats f mm)) fl = in_use (mvm mm) fl" "pt_get_mapped_page r a (mvm (upd_stats f mm)) = pt_get_mapped_page r a (mvm mm)"
  "get_page_table_struct_locked t (upd_stats f mm) = get_page_table_struct_locked t mm"
  by (simp_all add: upd_stats_def pa_inv_def in_use_def pool_end_def page_allocator_init_def get_page_table_struct_locked_def
    pt_get_mapped_page_def Let_def)

lemma unlock_simps [simp]:
  "\<not> md_locked (md_unlock mm)" "page_table_structs (md_unlock mm) = page_table_structs mm" "mvm (md_unlock mm) = mvm mm"
  by (simp_all add: md_unlock_def)

text \<open>The state of the tables after a fault: \<open>q\<close> is the new page when the result is \<open>PAGE_FAULT_HANDLED\<close>.\<close>

definition fault_effect :: "u64 \<Rightarrow> u64 \<Rightarrow> u64 \<Rightarrow> u64 \<Rightarrow> int \<Rightarrow> u64 set \<Rightarrow> u64 list \<Rightarrow> mm \<Rightarrow> u64 list \<Rightarrow> mm \<Rightarrow> bool" where
  "fault_effect table va attrs q res R fl mm fl' mm' \<longleftrightarrow>
     \<not> md_locked mm' \<and> page_table_structs mm' = page_table_structs mm \<and>
     pa_inv (mvm mm') fl' \<and> tree (kw (mvm mm')) R (in_use (mvm mm') fl') \<and>
     (\<forall>r \<in> R. \<forall>a. pt_get_mapped_page r a (mvm mm') =
        (if res = PAGE_FAULT_HANDLED \<and> r = table \<and> a AND PTE_ADDR_MASK = va AND PTE_ADDR_MASK then q OR (a AND PAGE_MASK)
         else pt_get_mapped_page r a (mvm mm))) \<and>
     (\<forall>x \<in> in_use (mvm mm) fl - tabs (kw (mvm mm)) R. kw (mvm mm') x = kw (mvm mm) x) \<and>
     (res = PAGE_FAULT_HANDLED \<longrightarrow> q \<notin> in_use (mvm mm) fl \<and>
        leaf (kw (mvm mm')) R table (vpath va) (l3_index va) = Some (page_entry (kernel_phys_addr q) attrs))"

lemma translation_same:
  assumes "tree (kw vm) R (in_use vm fl)" "\<And>r p l. slot p l \<Longrightarrow> leaf (kw vm') R r p l = leaf (kw vm) R r p l" "r \<in> R"
  shows "pt_get_mapped_page r a vm' = pt_get_mapped_page r a vm"
proof -
  have "r \<noteq> 0" using treeD(1) [OF assms(1), of r "[]" r] assms(3) in_use_kpage [of r] by auto
  then show ?thesis using assms(2) [OF slot_of_va] assms(3) by (simp add: mapped_page_leaf)
qed

lemma load_found_page_outcome:
  assumes lk: "\<not> md_locked mm" and inv: "pa_inv (mvm mm) fl" and T: "tree (kw (mvm mm)) R (in_use (mvm mm) fl)" and r: "table \<in> R"
    and bs: "0 < get_bytes_per_block fv" "get_bytes_per_block fv < 2 ^ 31"
  shows "\<exists>res mm' fl' q. load_found_page ko fv table va seg mm = Returns (res, mm') \<and> res \<in> {PAGE_FAULT_ERROR, PAGE_FAULT_HANDLED} \<and>
    fault_effect table va (user_segment_attrs (seg_prot seg)) q res R fl mm fl' mm'"
proof -
  let ?va = "va AND NOT PAGE_MASK" and ?at = "user_segment_attrs (seg_prot seg)"
  let ?err = "\<lambda>vm. md_unlock (upd_stats (\<lambda>s. s\<lparr>vs_faults_error := vs_faults_error s + 1\<rparr>) (mm\<lparr>mvm := vm, md_locked := True\<rparr>))"
  have E: ?thesis if "load_found_page ko fv table va seg mm = Returns (PAGE_FAULT_ERROR, ?err vm')" "pa_inv vm' fl'"
      "tree (kw vm') R (in_use vm' fl')" "\<And>r a. r \<in> R \<Longrightarrow> pt_get_mapped_page r a vm' = pt_get_mapped_page r a (mvm mm)"
      "\<And>x. x \<in> in_use (mvm mm) fl - tabs (kw (mvm mm)) R \<Longrightarrow> kw vm' x = kw (mvm mm) x" for vm' fl'
    by (intro exI [of _ PAGE_FAULT_ERROR] exI [of _ "?err vm'"] exI [of _ fl'] exI [of _ 0] conjI that(1))
       (use that(2-) in \<open>simp_all add: fault_effect_def\<close>)
  from alloc_page_outcome [OF inv] show ?thesis
  proof (elim disjE exE conjE)
    assume a: "alloc_page (mvm mm) = (0, page_allocator_init (mvm mm))"
    show ?thesis
      by (rule E [where vm' = "page_allocator_init (mvm mm)" and fl' = fl])
         (use a lk inv T init_keeps [OF inv] in_use_init [of "mvm mm" fl] in
           \<open>auto simp: load_found_page_def md_lock_def pa_inv_def [of "mvm mm"] intro: translation_same\<close>)
  next
    fix n vm1 fl1 assume a: "alloc_page (mvm mm) = (n, vm1)" "n \<noteq> 0" and f: "fresh (mvm mm) fl n vm1 fl1"
    obtain err vm2 where rd: "read_segment_page ko fv seg ?va n vm1 = Some (err, vm2)" and o: "only_page n vm1 vm2"
      using read_segment_page_returns [OF bs] by blast
    note A = alloc_and_fill [OF inv T f o]
    have n: "kpage n" "n \<notin> in_use (mvm mm) fl" using f by (auto simp: fresh_def)
    have nt: "n \<notin> tabs (kw vm2) R" using n(2) T A(4) by (auto simp: tree_def)
    show ?thesis
    proof (cases "err = SUCCESS")
      case False
      note G = free_unmapped [OF A(1,2) _ nt]
      have k: "kw (free_page n vm2) x = kw (mvm mm) x" if "x \<in> in_use (mvm mm) fl - tabs (kw (mvm mm)) R" for x
        using that G(4) [of x] A(3,5) n(2) by (metis DiffD1 insertI1)
      show ?thesis
        by (rule E [where vm' = "free_page n vm2" and fl' = "n # fl1"])
           (use a rd False lk G A k translation_same [OF T, of "free_page n vm2"] in \<open>auto simp: load_found_page_def md_lock_def Let_def\<close>)
    next
      case True
      have al: "?va AND PAGE_MASK = 0" by (rule bit_word_eqI) (auto simp: bit_simps mask_values)
      from pt_map_page_translates [OF A(1,2) r al n(1), of ?at] obtain ok vm3 fl3 where
          m: "pt_map_page table ?va (kernel_phys_addr n) ?at vm2 = (ok, vm3)" "pa_inv vm3 fl3" "tree (kw vm3) R (in_use vm3 fl3)"
            "\<And>r' va'. r' \<in> R \<Longrightarrow> pt_get_mapped_page r' va' vm3 =
               (if ok \<and> r' = table \<and> va' AND PTE_ADDR_MASK = ?va AND PTE_ADDR_MASK then n OR (va' AND PAGE_MASK)
                else pt_get_mapped_page r' va' vm2)"
            "\<And>x. x \<in> in_use vm2 fl1 - tabs (kw vm2) R \<Longrightarrow> kw vm3 x = kw vm2 x" "in_use vm2 fl1 \<subseteq> in_use vm3 fl3"
            "tabs (kw vm3) R \<inter> in_use vm2 fl1 \<subseteq> tabs (kw vm2) R"
            "ok \<longrightarrow> leaf (kw vm3) R table (vpath ?va) (l3_index ?va) = Some (page_entry (kernel_phys_addr n) ?at)"
        by blast
      have tr2: "pt_get_mapped_page r' a vm2 = pt_get_mapped_page r' a (mvm mm)" if "r' \<in> R" for r' a
        by (rule translation_same [OF T A(6) that])
      have k: "kw vm3 x = kw (mvm mm) x" if "x \<in> in_use (mvm mm) fl - tabs (kw (mvm mm)) R" for x
        using that m(5) [of x] A(3-5) n(2) by (metis DiffD1 DiffD2 DiffI insertCI)
      show ?thesis
      proof (cases ok)
        case ok: True
        have va: "vpath ?va = vpath va" "l3_index ?va = l3_index va" using align_down_slot [of va] by (simp_all add: align_down_def)
        have vm: "?va AND PTE_ADDR_MASK = va AND PTE_ADDR_MASK" by (rule bit_word_eqI) (auto simp: bit_simps mask_values)
        let ?mm = "md_unlock (upd_stats (\<lambda>s. s\<lparr>vs_file_faults := vs_file_faults s + 1, vs_faults_handled := vs_faults_handled s + 1\<rparr>)
          (mm\<lparr>md_locked := True, mvm := vm3\<rparr>))"
        have "load_found_page ko fv table va seg mm = Returns (PAGE_FAULT_HANDLED, ?mm)"
          using a rd True lk m(1) ok by (simp add: load_found_page_def md_lock_def Let_def)
        moreover have "fault_effect table va ?at n PAGE_FAULT_HANDLED R fl mm fl3 ?mm"
          unfolding fault_effect_def using m(2,3,4,8) tr2 k n(2) ok va vm by simp
        ultimately show ?thesis by blast
      next
        case False
        have n3: "n \<in> in_use vm3 fl3" "n \<notin> tabs (kw vm3) R" using m(6,7) A(3) nt by auto
        note G = free_unmapped [OF m(2,3) n3]
        have k': "kw (free_page n vm3) x = kw (mvm mm) x" if "x \<in> in_use (mvm mm) fl - tabs (kw (mvm mm)) R" for x
          using that G(4) [of x] k [OF that] n(2) by (metis DiffD1)
        have tr: "pt_get_mapped_page r' a (free_page n vm3) = pt_get_mapped_page r' a (mvm mm)" if "r' \<in> R" for r' a
          using translation_same [OF m(3) G(3) that] m(4) [OF that] tr2 [OF that] False by simp
        show ?thesis
          by (rule E [where vm' = "free_page n vm3" and fl' = "n # fl3"])
             (use a rd True lk m(1) False G(1,2) tr k' in \<open>simp_all add: load_found_page_def md_lock_def md_unlock_def Let_def\<close>)
      qed
    qed
  qed
qed

definition region_at :: "u64 \<Rightarrow> u64 \<Rightarrow> mm \<Rightarrow> mem_segment option" where
  "region_at table va mm =
     (case get_page_table_struct_locked table mm of
        None \<Rightarrow> None
      | Some segs \<Rightarrow> find (\<lambda>s. seg_start s \<le> va \<and> va < seg_start s + seg_length s) segs)"

lemma find_segment_region:
  "find_segment va access segs =
     (case find (\<lambda>s. seg_start s \<le> va \<and> va < seg_start s + seg_length s) segs of
        None \<Rightarrow> Unmapped | Some s \<Rightarrow> if seg_prot s AND access = 0 then Denied else Found s)"
  by (induction segs) (auto simp: not_le not_less)

lemma fault_effect_none:
  assumes "pa_inv (mvm mm) fl" "tree (kw (mvm mm)) R (in_use (mvm mm) fl)" "\<not> md_locked mm'" "page_table_structs mm' = page_table_structs mm"
    "kw (mvm mm') = kw (mvm mm)" "pa_inv (mvm mm') fl = pa_inv (mvm mm) fl" "in_use (mvm mm') fl = in_use (mvm mm) fl" "res \<noteq> PAGE_FAULT_HANDLED"
  shows "fault_effect table va attrs q res R fl mm fl mm'"
  unfolding fault_effect_def using assms translation_same [OF assms(2), of "mvm mm'"] by simp

lemma fault_effect_start:
  assumes "fault_effect table va attrs q res R fl mm1 fl' mm'" "page_table_structs mm1 = page_table_structs mm"
    "kw (mvm mm1) = kw (mvm mm)" "in_use (mvm mm1) fl = in_use (mvm mm) fl"
    "\<And>r a. pt_get_mapped_page r a (mvm mm1) = pt_get_mapped_page r a (mvm mm)"
  shows "fault_effect table va attrs q res R fl mm fl' mm'"
  using assms unfolding fault_effect_def by simp

text \<open>C10. Page faults. \<^verbatim>\<open>load_segment_page_for_fault\<close> always returns, with the lock released. It reports an unmapped
  address exactly when no region covers it, a permission error exactly when the first region that
  covers it forbids the access, and otherwise an error or success. On success the faulting page of
  this address space translates to a page that was not in use before, with the access rights of the
  region. Every other translation of every address space, and the contents of every page in use, stay
  as they were; on failure all translations do.\<close>

theorem page_fault_outcome:
  assumes "\<not> md_locked mm" "pa_inv (mvm mm) fl" "tree (kw (mvm mm)) R (in_use (mvm mm) fl)" "table \<in> R"
    and "0 < get_bytes_per_block fv" "get_bytes_per_block fv < 2 ^ 31"
  shows "\<exists>res mm' fl' q. load_segment_page_for_fault ko fv table va access mm = Returns (res, mm') \<and>
    (case region_at table va mm of
       None \<Rightarrow> res = PAGE_FAULT_NOT_HANDLED
     | Some s \<Rightarrow> if seg_prot s AND access = 0 then res = PAGE_FAULT_PERMISSION else res \<in> {PAGE_FAULT_ERROR, PAGE_FAULT_HANDLED}) \<and>
    fault_effect table va (user_segment_attrs (seg_prot (the (region_at table va mm)))) q res R fl mm fl' mm'"
proof -
  let ?f = "\<lambda>s. s\<lparr>vs_page_faults := vs_page_faults s + 1\<rparr>"
  let ?g = "if access = MMAP_PROT_EXEC then (\<lambda>s. s\<lparr>vs_instruction_faults := vs_instruction_faults s + 1\<rparr>)
    else (\<lambda>s. s\<lparr>vs_data_faults := vs_data_faults s + 1\<rparr>)"
  let ?u = "\<lambda>s. s\<lparr>vs_faults_unmapped := vs_faults_unmapped s + 1, vs_faults_invalid := vs_faults_invalid s + 1\<rparr>"
  define mm1 where "mm1 = upd_stats ?g (upd_stats ?f (mm\<lparr>md_locked := True\<rparr>))"
  have m1: "page_table_structs mm1 = page_table_structs mm" "kw (mvm mm1) = kw (mvm mm)" "pa_inv (mvm mm1) fl = pa_inv (mvm mm) fl"
      "in_use (mvm mm1) fl = in_use (mvm mm) fl" "\<And>r a. pt_get_mapped_page r a (mvm mm1) = pt_get_mapped_page r a (mvm mm)"
    by (simp_all add: mm1_def)
  have run: "load_segment_page_for_fault ko fv table va access mm =
      (case region_at table va mm of
         None \<Rightarrow> Returns (PAGE_FAULT_NOT_HANDLED, md_unlock (upd_stats ?u mm1))
       | Some s \<Rightarrow> if seg_prot s AND access = 0 then Returns (PAGE_FAULT_PERMISSION,
             md_unlock (upd_stats (\<lambda>s. s\<lparr>vs_faults_permission := vs_faults_permission s + 1\<rparr>) mm1))
           else load_found_page ko fv table va s (md_unlock mm1))"
    using assms(1) unfolding load_segment_page_for_fault_def md_lock_def Let_def region_at_def find_segment_region mm1_def
    by (cases "access = MMAP_PROT_EXEC") (auto simp: get_page_table_struct_locked_def upd_stats_def split: option.splits)
  have N: "fault_effect table va attrs 0 res R fl mm fl (md_unlock (upd_stats h mm1))" if "res \<noteq> PAGE_FAULT_HANDLED" for attrs res h
    by (rule fault_effect_none [OF assms(2,3)]) (simp_all add: m1 that)
  show ?thesis
  proof (cases "region_at table va mm")
    case None
    then show ?thesis unfolding run
      by (intro exI [of _ PAGE_FAULT_NOT_HANDLED] exI [of _ "md_unlock (upd_stats ?u mm1)"] exI [of _ fl] exI [of _ 0] conjI) (simp_all add: N)
  next
    case (Some s)
    show ?thesis
    proof (cases "seg_prot s AND access = 0")
      case True
      then show ?thesis unfolding run Some
        by (intro exI [of _ PAGE_FAULT_PERMISSION] exI [of _ fl] exI [of _ 0] exI conjI, simp) (simp_all add: N)
    next
      case False
      obtain res mm' fl' q where l: "load_found_page ko fv table va s (md_unlock mm1) = Returns (res, mm')" "res \<in> {PAGE_FAULT_ERROR, PAGE_FAULT_HANDLED}"
          "fault_effect table va (user_segment_attrs (seg_prot s)) q res R fl (md_unlock mm1) fl' mm'"
        using load_found_page_outcome [OF _ _ _ assms(4-6), of "md_unlock mm1" fl ko va s] assms(2,3) m1 by auto
      have "fault_effect table va (user_segment_attrs (seg_prot s)) q res R fl mm fl' mm'"
        by (rule fault_effect_start [OF l(3)]) (simp_all add: m1)
      then show ?thesis unfolding run Some using l(1,2) False by auto
    qed
  qed
qed

theorem page_fault_outcome_witness:
  "\<exists>p vm mm' q. alloc_page boot_vm = (p, vm) \<and>
     load_segment_page_for_fault True tiny_file p 0x10010 MMAP_PROT_WRITE
       \<lparr>mvm = vm, page_table_structs = [(p, [tiny_segment])], md_locked = False\<rparr> = Returns (PAGE_FAULT_PERMISSION, mm')"
proof -
  obtain p vm fl where b: "alloc_page boot_vm = (p, vm)" "pa_inv vm fl" "tree (kw vm) {p} (in_use vm fl)"
    using boot_space by blast
  let ?mm = "\<lparr>mvm = vm, page_table_structs = [(p, [tiny_segment])], md_locked = False\<rparr>"
  have r: "region_at p 0x10010 ?mm = Some tiny_segment"
    by (simp add: region_at_def get_page_table_struct_locked_def tiny_segment_def)
  obtain res mm' where "load_segment_page_for_fault True tiny_file p 0x10010 MMAP_PROT_WRITE ?mm = Returns (res, mm')" "res = PAGE_FAULT_PERMISSION"
    using page_fault_outcome [of ?mm fl "{p}" p tiny_file True "0x10010" MMAP_PROT_WRITE] b(2,3) r
    by (auto simp: tiny_segment_def tiny_file_def)
  then show ?thesis using b(1) by blast
qed

subsection \<open>Removing the front of a region\<close>

text \<open>C39. Unmapping the front of a region does not unmap it. Take an address space with one region, and a range
  that starts at or below the region and ends inside it. \<^verbatim>\<open>munmap\<close> on that range reports success, and
  afterwards every address from the start of the range to the end of the region is still covered by
  the region: the range has been added to the region instead of removed from it.\<close>

theorem munmap_front_keeps_region:
  assumes "\<not> md_locked mm" "get_page_table_struct_locked table mm = Some [s]"
    and "addr \<le> seg_start s" "seg_start s < addr + len" "addr + len < seg_start s + seg_length s"
  shows "\<exists>mm'. munmap ko table addr len mm = Returns (0, mm') \<and>
    (\<forall>va. addr \<le> va \<and> va < seg_start s + seg_length s \<longleftrightarrow> region_at table va mm' \<noteq> None)"
proof -
  let ?s = "s\<lparr>seg_length := seg_length s - (addr - seg_start s), seg_file_offset := seg_file_offset s + (addr - seg_start s), seg_start := addr\<rparr>"
  let ?m = "mm\<lparr>md_locked := True\<rparr>"
  have g: "get_page_table_struct_locked table ?m = Some [s]" using assms(2) by (simp add: get_page_table_struct_locked_def)
  have "munmap_loop ko table addr len 0 ?m = munmap_loop ko table addr len (Suc 0) (put_segments table [?s] ?m)"
    by (subst munmap_loop.simps) (use assms(3-5) in \<open>auto simp: g Let_def not_le\<close>)
  also have "\<dots> = Returns (md_unlock (put_segments table [?s] ?m))" by (subst munmap_loop.simps) simp
  finally have run: "munmap ko table addr len mm = Returns (0, md_unlock (put_segments table [?s] ?m))"
    using assms(1) g by (simp add: munmap_def md_lock_def)
  have e: "addr + (seg_length s - (addr - seg_start s)) = seg_start s + seg_length s" by simp
  have "region_at table va (md_unlock (put_segments table [?s] ?m)) \<noteq> None \<longleftrightarrow> addr \<le> va \<and> va < seg_start s + seg_length s" for va
    using put_get [of table "[?s]" ?m] e by (simp add: region_at_def get_page_table_struct_locked_def add.commute [of "seg_length s"])
  then show ?thesis using run by blast
qed

theorem munmap_front_keeps_region_witness:
  "\<exists>mm'. munmap (\<lambda>_. True) 0x9000 0x10000 0x800 \<lparr>mvm = boot_vm, page_table_structs = [(0x9000, [tiny_segment])], md_locked = False\<rparr> =
     Returns (0, mm') \<and> region_at 0x9000 0x10000 mm' \<noteq> None"
proof -
  let ?mm = "\<lparr>mvm = boot_vm, page_table_structs = [(0x9000, [tiny_segment])], md_locked = False\<rparr>"
  have "\<exists>mm'. munmap (\<lambda>_. True) 0x9000 0x10000 0x800 ?mm = Returns (0, mm') \<and>
      (\<forall>va. 0x10000 \<le> va \<and> va < seg_start tiny_segment + seg_length tiny_segment \<longleftrightarrow> region_at 0x9000 va mm' \<noteq> None)"
    by (rule munmap_front_keeps_region) (simp_all add: get_page_table_struct_locked_def tiny_segment_def)
  then obtain mm' where m: "munmap (\<lambda>_. True) 0x9000 0x10000 0x800 ?mm = Returns (0, mm')"
      "0x10000 \<le> va \<and> va < seg_start tiny_segment + seg_length tiny_segment \<longleftrightarrow> region_at 0x9000 va mm' \<noteq> None" for va
    by blast
  have "region_at 0x9000 0x10000 mm' \<noteq> None" using m(2) [of "0x10000"] by (simp add: tiny_segment_def)
  then show ?thesis using m(1) by blast
qed

text \<open>A split of a region takes the lock twice, and a request that touches the region below it leaves the
  lock held: no later fault of any process returns.\<close>

lemma munmap_split_spins:
  assumes "\<not> md_locked mm" "get_page_table_struct_locked table mm = Some (s # segs)"
    "seg_start s < addr" "addr + len < seg_start s + seg_length s" "addr < seg_start s + seg_length s"
  shows "munmap ko table addr len mm = Spins"
proof -
  have g: "get_page_table_struct_locked table (mm\<lparr>md_locked := True\<rparr>) = Some (s # segs)"
    using assms(2) by (simp add: get_page_table_struct_locked_def)
  have "munmap_loop ko table addr len 0 (mm\<lparr>md_locked := True\<rparr>) = Spins"
    by (subst munmap_loop.simps) (use assms(3-5) in \<open>auto simp: g Let_def add_vm_region_def md_lock_def\<close>)
  then show ?thesis using assms(1) g by (simp add: munmap_def md_lock_def)
qed

lemma overlap_leaves_lock:
  assumes "\<not> md_locked mm" "get_page_table_struct_locked table mm = Some segs" "region_insert s segs = None" "ko 3"
  shows "\<exists>mm'. add_vm_region ko table s mm = Returns (INVALID_ARGS, mm') \<and> load_segment_page_for_fault ko' fv table' va access mm' = Spins"
  using assms by (auto simp: add_vm_region_def add_segment_def md_lock_def load_segment_page_for_fault_def get_page_table_struct_locked_def)

end
