(* ===== verification/Address_Space.thy ===== *)
theory Address_Space
  imports Teardown Page_Fault
begin

section \<open>The life of an address space\<close>

text \<open>
  The operations of \<^verbatim>\<open>src/kernel/memory/page_table/page_table.c\<close> and \<^verbatim>\<open>src/kernel/scheduler/process.c\<close> on whole address
  spaces: \<open>destroy_page_table\<close> and \<open>cpy_address_space\<close> with the records of the regions, over all
  address spaces of the machine at once.
\<close>

lemma peek_page_at:
  assumes "as_ok vm fl R" "r \<in> R" "i < 512"
  shows "peek vm r va i = map_option (\<lambda>f. f i) (page_at vm R r (vpath va) (l3_index va))"
  using assms by (simp add: peek_leaf [OF assms(2) root_not_0 [OF assms(1,2)]] page_at_def option.map_comp comp_def)

lemma peeks_page_at:
  assumes "as_ok vm fl R" "r \<in> R" "as_ok vm' fl' R'" "r' \<in> R'" "\<And>p l. slot p l \<Longrightarrow> page_at vm' R' r' p l = page_at vm R r p l"
  shows "i < 512 \<Longrightarrow> peek vm' r' va i = peek vm r va i"
  by (simp add: peek_page_at [OF assms(1,2)] peek_page_at [OF assms(3,4)] assms(5))

subsection \<open>Destroying one address space\<close>

lemma free_page_table_struct_runs:
  assumes "\<not> md_locked mm" "r \<noteq> 0"
  shows "\<exists>mm'. free_page_table_struct r mm = Returns mm' \<and> mvm mm' = mvm mm \<and> \<not> md_locked mm' \<and>
    map_of (page_table_structs mm') = (map_of (page_table_structs mm))(r := None)"
  using assms by (simp add: free_page_table_struct_def md_lock_def md_unlock_def delete_conv')

lemma destroy_page_table_runs:
  assumes ok: "as_ok (mvm mm) fl R" and r: "r \<in> R" and te: "table_entries R r (mvm mm)" and l: "\<not> md_locked mm"
  shows "\<exists>mm' fl'. destroy_page_table r mm = Returns mm' \<and> \<not> md_locked mm' \<and> as_ok (mvm mm') fl' (R - {r}) \<and>
    (\<forall>r' \<in> R - {r}. \<forall>p l. slot p l \<longrightarrow> page_at (mvm mm') (R - {r}) r' p l = page_at (mvm mm) R r' p l) \<and>
    (\<forall>x \<in> in_use (mvm mm') fl'. kw (mvm mm') x = kw (mvm mm) x) \<and>
    in_use (mvm mm') fl' = in_use (mvm mm) fl - {x. \<exists>q. okp q \<and> walk (kw (mvm mm)) R r q = Some x} -
      {x. owners (kw (mvm mm)) R x \<noteq> {} \<and> owners (kw (mvm mm)) R x \<subseteq> {r} \<times> UNIV} \<and>
    map_of (page_table_structs mm') = (map_of (page_table_structs mm))(r := None)"
proof -
  have r0: "r \<noteq> 0" by (rule root_not_0 [OF ok r])
  obtain m1 where f: "free_page_table_struct r mm = Returns m1" "mvm m1 = mvm mm" "\<not> md_locked m1"
      "map_of (page_table_structs m1) = (map_of (page_table_structs mm))(r := None)" using free_page_table_struct_runs [OF l r0] by blast
  obtain vm' fl' where d: "destroy_page_table_level 3 r (mvm mm) = Inr vm'" "as_ok vm' fl' (R - {r})"
      "\<forall>r' p l. slot p l \<longrightarrow> leaf (kw vm') (R - {r}) r' p l = (if r' = r then None else leaf (kw (mvm mm)) R r' p l)"
      "in_use vm' fl' = in_use (mvm mm) fl - {x. \<exists>q. okp q \<and> walk (kw (mvm mm)) R r q = Some x} -
        {x. owners (kw (mvm mm)) R x \<noteq> {} \<and> owners (kw (mvm mm)) R x \<subseteq> {r} \<times> UNIV}"
      "\<forall>x \<in> in_use vm' fl'. kw vm' x = kw (mvm mm) x"
    using destroy_root [OF ok r r0 te] by blast
  have pg: "page_at vm' (R - {r}) r' p l = page_at (mvm mm) R r' p l" if r': "r' \<in> R - {r}" and s: "slot p l" for r' p l
  proof (rule page_at_eqI)
    have lf: "leaf (kw vm') (R - {r}) r' p l = leaf (kw (mvm mm)) R r' p l" using d(3) s r' by simp
    then show "leaf (kw vm') (R - {r}) r' p l = None \<longleftrightarrow> leaf (kw (mvm mm)) R r' p l = None" by simp
    show "kw vm' (child e') i = kw (mvm mm) (child e) i" if e: "leaf (kw vm') (R - {r}) r' p l = Some e'" "leaf (kw (mvm mm)) R r' p l = Some e" for e e' i
      using d(5) as_okD(6) [OF d(2) s e(1)] lf e by (simp add: leaf_ok_def)
  qed
  have "destroy_page_table r mm = Returns (m1\<lparr>mvm := vm'\<rparr>)" using r0 f(1,2) d(1) by (simp add: destroy_page_table_def)
  then show ?thesis using f(3,4) d(2,4,5) pg by (intro exI [of _ "m1\<lparr>mvm := vm'\<rparr>"] exI [of _ fl']) simp
qed

text \<open>C2. \<open>destroy_page_table\<close> releases exactly what the address space alone used. It never stops the kernel,
  keeps the invariant for the remaining address spaces, whose memory reads as before, removes the
  record of the regions, and the pages in use afterwards are those before except for the tables of
  the destroyed space and the pages that it alone mapped: nothing leaks and nothing shared is freed.\<close>

theorem destroy_releases_exactly:
  assumes "as_ok (mvm mm) fl R" "r \<in> R" "table_entries R r (mvm mm)" "\<not> md_locked mm"
  shows "\<exists>mm' fl'. destroy_page_table r mm = Returns mm' \<and> \<not> md_locked mm' \<and> as_ok (mvm mm') fl' (R - {r}) \<and>
    (\<forall>r' \<in> R - {r}. \<forall>va i. i < 512 \<longrightarrow> peek (mvm mm') r' va i = peek (mvm mm) r' va i) \<and>
    in_use (mvm mm') fl' = in_use (mvm mm) fl - {x. \<exists>q. okp q \<and> walk (kw (mvm mm)) R r q = Some x} -
      {x. owners (kw (mvm mm)) R x \<noteq> {} \<and> owners (kw (mvm mm)) R x \<subseteq> {r} \<times> UNIV} \<and>
    map_of (page_table_structs mm') = (map_of (page_table_structs mm))(r := None)"
proof -
  obtain mm' fl' where d: "destroy_page_table r mm = Returns mm'" "\<not> md_locked mm'" "as_ok (mvm mm') fl' (R - {r})"
      "\<forall>r' \<in> R - {r}. \<forall>p l. slot p l \<longrightarrow> page_at (mvm mm') (R - {r}) r' p l = page_at (mvm mm) R r' p l"
      "in_use (mvm mm') fl' = in_use (mvm mm) fl - {x. \<exists>q. okp q \<and> walk (kw (mvm mm)) R r q = Some x} -
        {x. owners (kw (mvm mm)) R x \<noteq> {} \<and> owners (kw (mvm mm)) R x \<subseteq> {r} \<times> UNIV}"
      "map_of (page_table_structs mm') = (map_of (page_table_structs mm))(r := None)"
    using destroy_page_table_runs [OF assms] by blast
  have "peek (mvm mm') r' va i = peek (mvm mm) r' va i" if "r' \<in> R - {r}" "i < 512" for r' va i
    by (rule peeks_page_at [OF assms(1) _ d(3) that(1) _ that(2)]) (use that d(4) in auto)
  then show ?thesis using d by blast
qed

lemma table_entries_empty:
  assumes "\<forall>i < 512. \<not> valid (kw vm r i)"
  shows "table_entries R r vm"
proof -
  have "walk (kw vm) R r q = (if q = [] \<and> r \<in> R then Some r else None)" if "okp q" for q
    using that by (induction q) (use assms in \<open>auto split: option.splits if_splits\<close>)
  then show ?thesis using assms by (auto simp: table_entries_def split: if_splits)
qed

theorem destroy_releases_exactly_witness:
  "\<exists>p vm mm'. alloc_page boot_vm = (p, vm) \<and>
     destroy_page_table p \<lparr>mvm = vm, page_table_structs = [(p, [])], md_locked = False\<rparr> = Returns mm' \<and> map_of (page_table_structs mm') p = None"
proof -
  from alloc_page_outcome [OF boot_vm_inv(1)] obtain p vm fl where a: "alloc_page boot_vm = (p, vm)" "fresh boot_vm [] p vm fl"
    by (auto simp: boot_vm_inv(3))
  let ?m = "\<lparr>mvm = vm, page_table_structs = [(p, [])], md_locked = False\<rparr>"
  have "as_ok (mvm ?m) fl {p}" using as_ok_fresh_root(1) [OF as_ok_boot a(2)] by simp
  moreover have "table_entries {p} p (mvm ?m)" by (rule table_entries_empty) (use a(2) in \<open>simp add: fresh_def\<close>)
  ultimately obtain mm' where "destroy_page_table p ?m = Returns mm'" "map_of (page_table_structs mm') = (map_of (page_table_structs ?m))(p := None)"
    using destroy_releases_exactly [of ?m fl "{p}" p] by auto
  then show ?thesis using a(1) by auto
qed

subsection \<open>The parts of \<open>cpy_address_space\<close>\<close>

lemma copy_segments_runs:
  assumes "copy_segments ko k segs dst acc mm = Returns (err, mm')"
  shows "mvm mm' = mvm mm \<and> \<not> md_locked mm' \<and>
    (err = SUCCESS \<longrightarrow> map_of (page_table_structs mm) dst = Some acc \<longrightarrow>
       map_of (page_table_structs mm') = (map_of (page_table_structs mm))(dst \<mapsto> acc @ segs))"
  using assms
proof (induction segs arbitrary: k acc mm)
  case Nil
  then show ?case by (auto simp: md_unlock_def fun_upd_idem)
next
  case (Cons s segs)
  then show ?case by (fastforce simp: md_unlock_def put_segments_def update_conv' split: if_splits)
qed

lemma copy_segments_no_spin: "copy_segments ko k segs dst acc mm \<noteq> Spins \<and> (copy_segments ko k segs dst acc mm = Panics e \<longrightarrow> e = ''Failed to allocate memory.'')"
  by (induction segs arbitrary: k acc mm) auto

lemma copy_page_table_struct_outcome:
  assumes l: "\<not> md_locked mm" and ne: "dst \<noteq> src"
  shows "copy_page_table_struct ko src dst mm = Panics ''Failed to allocate memory.'' \<or>
    (\<exists>err mm'. copy_page_table_struct ko src dst mm = Returns (err, mm') \<and> mvm mm' = mvm mm \<and> \<not> md_locked mm' \<and>
       (err = SUCCESS \<longrightarrow> map_of (page_table_structs mm') = (map_of (page_table_structs mm))(dst := map_of (page_table_structs mm) src)))"
proof (cases "copy_page_table_struct ko src dst mm")
  case Spins
  then show ?thesis using l copy_segments_no_spin by (auto simp: copy_page_table_struct_def md_lock_def Let_def split: option.splits if_splits)
next
  case (Panics e)
  then show ?thesis using copy_segments_no_spin by (auto simp: copy_page_table_struct_def md_lock_def Let_def split: option.splits if_splits)
next
  case (Returns x)
  obtain err mm' where x: "x = (err, mm')" by (cases x)
  let ?m = "mm\<lparr>md_locked := True\<rparr>"
  let ?m1 = "if dst \<noteq> 0 then ?m\<lparr>page_table_structs := AList.delete dst (page_table_structs ?m)\<rparr> else ?m"
  let ?m2 = "put_segments dst [] ?m1"
  have m1: "mvm ?m1 = mvm mm" "map_of (page_table_structs ?m2) = (map_of (page_table_structs mm))(dst \<mapsto> [])" "mvm ?m2 = mvm mm"
    by (auto simp: put_segments_def update_conv' delete_conv')
  show ?thesis
  proof (cases "ko 0 \<and> ko 1 \<and> ko 2")
    case True
    then show ?thesis
      using Returns l copy_segments_runs [of ko 3 _ dst "[]" ?m2 err mm'] m1
      by (auto simp: copy_page_table_struct_def md_lock_def md_unlock_def get_page_table_struct_locked_def Let_def x split: option.splits)
  next
    case False
    then show ?thesis using Returns l m1(1)
      by (auto simp: copy_page_table_struct_def md_lock_def md_unlock_def get_page_table_struct_locked_def Let_def x split: option.splits if_splits)
  qed
qed

text \<open>A loop that gives up has met an empty page pool.\<close>

lemma for_entries_exhausted:
  assumes "\<And>i vm vm'. f i vm = (False, vm') \<Longrightarrow> \<exists>v. alloc_page v = (0, vm')"
  shows "for_entries f is vm = (False, vm') \<Longrightarrow> \<exists>v. alloc_page v = (0, vm')"
  by (induction "is" arbitrary: vm) (use assms in \<open>auto split: prod.splits bool.splits\<close>)

lemma cpy_level_exhausted: "cpy_level d s t vm = (False, vm') \<Longrightarrow> \<exists>v. alloc_page v = (0, vm')"
proof (induction d arbitrary: s t vm vm')
  case 0
  have "cpy_entry s t i vm = (False, vm') \<Longrightarrow> \<exists>v. alloc_page v = (0, vm')" for i vm vm'
    by (auto simp: cpy_entry_def Let_def split: if_splits prod.splits)
  then show ?case using for_entries_exhausted [of "cpy_entry s t" page_words vm vm'] 0 by simp
next
  case (Suc d)
  let ?f = "\<lambda>i vm. if kw vm s i AND DESC_VALID = 0 then (True, vm)
     else (let src_next = kernel_direct_map_va (kw vm s i AND PTE_ADDR_MASK) in
          case alloc_page vm of (dst_next, vm) \<Rightarrow> if dst_next = 0 then (False, vm)
              else cpy_level d src_next dst_next (set_word t i (table_desc dst_next) vm))"
  have "\<exists>v. alloc_page v = (0, vm')" if "?f i vm = (False, vm')" for i vm vm'
    using that Suc.IH by (cases "alloc_page vm") (auto simp: Let_def split: if_splits)
  then show ?case using for_entries_exhausted [of ?f page_words vm vm'] Suc.prems by simp
qed

lemma still_exhausted:
  assumes a: "alloc_page v = (0, vm)" and inv: "pa_inv vm fl"
  shows "fst (alloc_page vm) = 0"
proof -
  have k: "kpage (pool_end vm)" using inv by (simp add: pa_inv_def)
  show ?thesis
  proof (cases "free_list (page_allocator_init v) = 0 \<and> \<not> next_free_page (page_allocator_init v) + PAGE_SIZE \<le> RAM_end")
    case True
    then show ?thesis using a by (auto simp: alloc_page_def Let_def page_allocator_init_def split: if_splits)
  next
    case False
    then have "next_free_page vm = PAGE_SIZE" using a by (auto simp: alloc_page_def Let_def split: if_splits prod.splits)
    then have "pool_end vm = PAGE_SIZE" by (simp add: pool_end_def page_allocator_init_def)
    then show ?thesis using k by (simp add: kpage_def)
  qed
qed

text \<open>A fresh root changes nothing in the other address spaces.\<close>

lemma walk_insert_root: "r \<noteq> d \<Longrightarrow> walk m (insert d R) r q = walk m R r q"
  by (induction q) auto

lemma fresh_root_others:
  assumes ok: "as_ok vm fl R" and f: "fresh vm fl d vm1 fl1" and c: "card R < 2 ^ 16 - 2" and r: "r \<in> R"
  shows "slot p l \<Longrightarrow> page_at vm1 (insert d R) r p l = page_at vm R r p l"
    "table_entries R r vm \<Longrightarrow> table_entries (insert d R) r vm1"
proof -
  note N = as_ok_fresh_root [OF ok f c]
  have ne: "r \<noteq> d" using r N(2) by blast
  show "page_at vm1 (insert d R) r p l = page_at vm R r p l" if s: "slot p l"
    by (rule page_at_eqI) (use N(3) [OF s, of r] N(4) [OF s, of r] ne in auto)
  have nd: "d \<notin> in_use vm fl" and keep: "\<And>q. q \<noteq> d \<Longrightarrow> kw vm1 q = kw vm q" using f by (auto simp: fresh_def)
  have td: "t \<noteq> d" if "t \<in> tabs (kw vm) R" for t using that as_okD(2) [OF ok] nd by (auto simp: tree_def)
  then have same: "\<forall>t \<in> tabs (kw vm) R. kw vm1 t = kw vm t" using keep by blast
  have w: "walk (kw vm1) (insert d R) r q = walk (kw vm) R r q" if "okp q" for q
    using walk_insert_root [OF ne] tables_same(1) [OF same that] by simp
  show "table_entries (insert d R) r vm1" if te: "table_entries R r vm"
    unfolding table_entries_def
  proof (intro allI impI)
    fix q x j assume h: "okp (j # q)" "walk (kw vm1) (insert d R) r q = Some x" "valid (kw vm1 x j)"
    then have x: "walk (kw vm) R r q = Some x" using w [of q] by simp
    then have "kw vm1 x = kw vm x" using same treeD(2) [OF as_okD(2) [OF ok] x] h(1) by simp
    then show "kw vm1 x j AND DESC_TABLE = DESC_TABLE" using te h x unfolding table_entries_def by metis
  qed
qed

text \<open>The copy itself, into an empty root.\<close>

lemma cpy_level_root:
  assumes ok: "as_ok vm fl R" and r: "src \<in> R" "d \<in> R" "src \<noteq> d" and e: "\<forall>i < 512. \<not> valid (kw vm d i)"
  shows "\<exists>b vm' fl'. cpy_level 3 src d vm = (b, vm') \<and> as_ok vm' fl' R \<and>
    (\<forall>r \<in> R - {d}. \<forall>p l. slot p l \<longrightarrow> page_at vm' R r p l = page_at vm R r p l) \<and>
    (\<forall>p l. slot p l \<longrightarrow> page_at vm' R d p l = page_at vm R src p l \<or> \<not> b \<and> page_at vm' R d p l = None) \<and>
    (b \<or> fst (alloc_page vm') = 0)"
proof -
  let ?A = "(\<lambda>i. [i]) ` {i. i < (512 :: u64)}"
  obtain b vm' fl' where c: "cpy_level 3 src d vm = (b, vm')" "copies R src d ?A b vm vm' fl'"
    using cpy_level_copies [OF r(3) ok, of "[]" src d 3] r e by auto
  have u: "under ?A (l # p)" if "slot p l" for p l using under_children(2) [of "[]" p l] that by (auto simp: under_def)
  have "b \<or> fst (alloc_page vm') = 0"
    using cpy_level_exhausted [of 3 src d vm vm'] still_exhausted [OF _ as_okD(1) [OF copiesD(1) [OF c(2)]]] c(1) by auto
  moreover have "page_at vm' R r p l = page_at vm R r p l" if "r \<in> R - {d}" "slot p l" for r p l
    using copiesD(4) [OF c(2) that(2), of r] that(1) by simp
  ultimately show ?thesis using c(1) copiesD(1) [OF c(2)] copiesD(5) [OF c(2) _ u] by blast
qed

lemma cpy_address_space_outcome:
  assumes ok: "as_ok (mvm mm) fl R" and s: "src \<in> R" and old: "old \<in> R" "old \<noteq> src" "table_entries R old (mvm mm)"
    and c: "card R < 2 ^ 16 - 2" and l: "\<not> md_locked mm"
    and P: "\<not> (\<exists>d vm. alloc_page (mvm mm) = (d, vm) \<and> d \<noteq> 0 \<and>
      copy_page_table_struct ko src d (mm\<lparr>mvm := vm\<rparr>) = Panics ''Failed to allocate memory.'')"
  shows "\<exists>res mm' fl'. cpy_address_space ko src (pa, old) mm = Returns (res, mm') \<and> \<not> md_locked mm' \<and>
    (res = (pa, old) \<and> as_ok (mvm mm') fl' R \<and> (\<forall>r \<in> R. \<forall>p l. slot p l \<longrightarrow> page_at (mvm mm') R r p l = page_at (mvm mm) R r p l) \<or>
     (\<exists>d R'. res = (kernel_phys_addr d, d) \<and> d \<notin> R \<and> R' = insert d (R - {old}) \<and> as_ok (mvm mm') fl' R' \<and>
       map_of (page_table_structs mm') = (map_of (page_table_structs mm))(d := map_of (page_table_structs mm) src, old := None) \<and>
       (\<forall>r \<in> R - {old}. \<forall>p l. slot p l \<longrightarrow> page_at (mvm mm') R' r p l = page_at (mvm mm) R r p l) \<and>
       (\<exists>b. (\<forall>p l. slot p l \<longrightarrow> page_at (mvm mm') R' d p l = page_at (mvm mm) R src p l \<or> \<not> b \<and> page_at (mvm mm') R' d p l = None) \<and>
          (\<not> b \<longrightarrow> fst (alloc_page (mvm mm')) = 0))))"
  using alloc_page_outcome [OF as_okD(1) [OF ok]]
proof (elim disjE exE conjE)
  assume a: "alloc_page (mvm mm) = (0, page_allocator_init (mvm mm))"
  have "as_ok (page_allocator_init (mvm mm)) fl R" by (rule as_ok_init [OF ok])
  moreover have "kw (page_allocator_init (mvm mm)) = kw (mvm mm)" by (simp add: page_allocator_init_def)
  then have "page_at (page_allocator_init (mvm mm)) R r p l = page_at (mvm mm) R r p l" for r p l by (simp only: page_at_def)
  ultimately show ?thesis using a l by (auto simp: cpy_address_space_def)
next
  fix d vm1 fl1 assume a: "alloc_page (mvm mm) = (d, vm1)" "d \<noteq> 0" "fresh (mvm mm) fl d vm1 fl1"
  note N = as_ok_fresh_root [OF ok a(3) c] and O = fresh_root_others [OF ok a(3) c]
  let ?m = "mm\<lparr>mvm := vm1\<rparr>" and ?R1 = "insert d R" and ?R' = "insert d (R - {old})"
  have dn: "d \<notin> R" and ds: "d \<noteq> src" "d \<noteq> old" using N(2) s old by auto
  have R': "?R1 - {old} = ?R'" "?R1 - {d} = R" using dn ds by auto
  have zero: "\<forall>i < 512. \<not> valid (kw vm1 d i)" using a(3) by (simp add: fresh_def)
  have lm: "\<not> md_locked ?m" using l by simp
  from copy_page_table_struct_outcome [OF lm ds(1), of ko] obtain err m2 where
      m2: "copy_page_table_struct ko src d ?m = Returns (err, m2)" "mvm m2 = vm1" "\<not> md_locked m2"
        "err = SUCCESS \<Longrightarrow> map_of (page_table_structs m2) = (map_of (page_table_structs mm))(d := map_of (page_table_structs mm) src)"
    using a(1,2) P by auto
  show ?thesis
  proof (cases "err = SUCCESS")
    case False
    have ok1: "as_ok vm1 fl1 R" using drop_root(1) [OF N(1) zero] R'(2) by simp
    have "page_at vm1 R r p l = page_at (mvm mm) R r p l" if "slot p l" "r \<in> R" for r p l
    proof -
      have "r \<noteq> d" using that(2) dn by auto
      then have "leaf (kw vm1) (insert d R) r p l = leaf (kw vm1) R r p l" by (simp add: leaf_def walk_insert_root)
      then show ?thesis using O(1) [OF that(2,1)] by (simp only: page_at_def)
    qed
    then show ?thesis using False a(1,2) m2(1-3) ok1 by (intro exI [of _ "(pa, old)"] exI [of _ m2] exI [of _ fl1]) (simp add: cpy_address_space_def)
  next
    case True
    have "table_entries ?R1 old (mvm m2)" "as_ok (mvm m2) fl1 ?R1" "old \<in> ?R1" using O(2) [OF old(1,3)] N(1) m2(2) old by simp_all
    from destroy_page_table_runs [OF this(2,3,1) m2(3), unfolded R' m2(2)] obtain m3 fl3 where
        d3: "destroy_page_table old m2 = Returns m3" "\<not> md_locked m3" "as_ok (mvm m3) fl3 ?R'"
          "\<forall>r \<in> ?R'. \<forall>p l. slot p l \<longrightarrow> page_at (mvm m3) ?R' r p l = page_at vm1 ?R1 r p l"
          "\<forall>x \<in> in_use (mvm m3) fl3. kw (mvm m3) x = kw vm1 x"
          "map_of (page_table_structs m3) = (map_of (page_table_structs m2))(old := None)" by blast
    have "d \<in> in_use (mvm m3) fl3" using treeD(1) [OF as_okD(2) [OF d3(3)], of d "[]" d] by simp
    then have zero3: "\<forall>i < 512. \<not> valid (kw (mvm m3) d i)" using d3(5) zero by simp
    from cpy_level_root [OF d3(3), of src d] zero3 s old(2) ds obtain b vm4 fl4 where
        c4: "cpy_level 3 src d (mvm m3) = (b, vm4)" "as_ok vm4 fl4 ?R'"
          "\<forall>r \<in> ?R' - {d}. \<forall>p l. slot p l \<longrightarrow> page_at vm4 ?R' r p l = page_at (mvm m3) ?R' r p l"
          "\<forall>p l. slot p l \<longrightarrow> page_at vm4 ?R' d p l = page_at (mvm m3) ?R' src p l \<or> \<not> b \<and> page_at vm4 ?R' d p l = None"
          "b \<or> fst (alloc_page vm4) = 0" by auto
    let ?vm5 = "if b then page_table_note_tlb_flush vm4 else vm4"
    let ?m5 = "m3\<lparr>mvm := ?vm5\<rparr>"
    have core: "same_core vm4 ?vm5" "pages ?vm5 = pages vm4" by (simp_all add: same_core_def page_table_note_tlb_flush_def)
    have ok5: "as_ok ?vm5 fl4 ?R'"
      by (rule as_ok_cong [OF c4(2)]) (use same_core_facts [OF core(1)] core(2) as_okD(1) [OF c4(2)] in simp_all)
    have pg5: "page_at ?vm5 ?R' r p l = page_at vm4 ?R' r p l" for r p l
      by (simp only: page_at_def same_core_facts(1) [OF core(1)])
    have keep: "page_at (mvm m3) ?R' r p l = page_at (mvm mm) R r p l" if "r \<in> R - {old}" "slot p l" for r p l
      using d3(4) O(1) [of r p l] that by simp
    have run: "cpy_address_space ko src (pa, old) mm = Returns ((kernel_phys_addr d, d), ?m5)"
      using a(1,2) m2(1) True d3(1) c4(1) by (simp add: cpy_address_space_def)
    have others: "\<forall>r \<in> R - {old}. \<forall>p l. slot p l \<longrightarrow> page_at ?vm5 ?R' r p l = page_at (mvm mm) R r p l"
      unfolding pg5 using c4(3) keep dn by auto
    have child: "\<forall>p l. slot p l \<longrightarrow> page_at ?vm5 ?R' d p l = page_at (mvm mm) R src p l \<or> \<not> b \<and> page_at ?vm5 ?R' d p l = None"
      unfolding pg5 using c4(4) keep [of src] s old(2) by simp
    have full: "\<not> b \<longrightarrow> fst (alloc_page ?vm5) = 0" using c4(5) by auto
    have "map_of (page_table_structs ?m5) = (map_of (page_table_structs mm))(d := map_of (page_table_structs mm) src, old := None)"
      using d3(6) m2(4) True by simp
    moreover have "mvm ?m5 = ?vm5" "\<not> md_locked ?m5" using d3(2) by simp_all
    ultimately show ?thesis using run ok5 others child full dn
      by (intro exI [of _ "(kernel_phys_addr d, d)"] exI [of _ ?m5] exI [of _ fl4] conjI disjI2 exI [of _ d] exI [of _ ?R'] exI [of _ b])
         (simp_all only: not_False_eq_True)
  qed
qed

lemma copy_struct_panics:
  "copy_page_table_struct ko src dst mm = Panics e \<Longrightarrow> \<exists>n. \<not> ko n"
proof -
  have "copy_segments ko k segs dst acc mm = Panics e \<Longrightarrow> \<exists>n. \<not> ko n" for k segs acc mm
    by (induction segs arbitrary: k acc mm) (auto split: if_splits)
  then show "copy_page_table_struct ko src dst mm = Panics e \<Longrightarrow> \<exists>n. \<not> ko n"
    by (auto simp: copy_page_table_struct_def md_lock_def Let_def split: option.splits if_splits)
qed


lemma boot_two_spaces:
  "\<exists>p vm1 q vm2 fl. alloc_page boot_vm = (p, vm1) \<and> alloc_page vm1 = (q, vm2) \<and> p \<noteq> q \<and> as_ok vm2 fl {p, q} \<and> table_entries {p, q} q vm2"
proof -
  from alloc_page_outcome [OF boot_vm_inv(1)] obtain p vm1 fl1 where a: "alloc_page boot_vm = (p, vm1)" "fresh boot_vm [] p vm1 fl1"
    by (auto simp: boot_vm_inv(3))
  have ok1: "as_ok vm1 fl1 {p}" using as_ok_fresh_root(1) [OF as_ok_boot a(2)] by simp
  have "next_free_page vm1 = 0xffff000000201000"
    using a(1) by (auto simp: alloc_page_def boot_vm_def page_allocator_init_def align_up_def Let_def zero_page_def set_page_def)
  then have "pool_end vm1 = 0xffff000000201000" by (simp add: pool_end_def page_allocator_init_def)
  then obtain q vm2 fl2 where b: "alloc_page vm1 = (q, vm2)" "fresh vm1 fl1 q vm2 fl2"
    using alloc_page_outcome [OF as_okD(1) [OF ok1]] by auto
  note N = as_ok_fresh_root [OF ok1 b(2)]
  have "table_entries {p, q} q vm2" by (rule table_entries_empty) (use b(2) in \<open>simp add: fresh_def\<close>)
  then show ?thesis using a(1) b(1) N(1,2) by (auto simp: insert_commute)
qed


end
