(* ===== verification/Threads.thy ===== *)
theory Threads
  imports Kernel_Prelude
begin

unbundle bit_operations_syntax

section \<open>Threads, processes, the scheduler and signals\<close>

text \<open>
  \<^verbatim>\<open>src/kernel/threading/thread.c\<close>, \<^verbatim>\<open>src/kernel/scheduler/scheduler.c\<close>, \<^verbatim>\<open>src/kernel/signals/signals.c\<close> and the process
  table of \<^verbatim>\<open>src/kernel/scheduler/process.c\<close>.

  \<^item> A pointer to a \<open>tcb_t\<close> is its index in the vector \<open>threads\<close>, a pointer to a \<open>pcb_t\<close> its index in the
    array \<open>processes\<close>; both indices are also the tid and the pid. A vector is the list of its elements.
  \<^item> \<open>get_curr_thread\<close> reads the field of the CPU that runs the code, so operations that use it take the
    number \<open>c\<close> of the CPU.
  \<^item> Saved registers, stacks and names are left out: they belong to the context switch. The calls into
    the terminal driver are recorded in \<open>tty_calls\<close>.
  \<^item> \<open>schedule_yield\<close> is \<open>scheduler_tick\<close> at that point; what other threads do until the caller runs again is a
    sequence of further operations. The code behind the context switch, \<open>scheduler_handle_pending_signals\<close>, runs when the old
    thread comes back and calls handlers in user memory; it is not modelled.
  \<^item> \<open>pcb_thread_change_state\<close>, \<open>send_sigchld\<close> and \<open>unblock_thread\<close> call each other along the parents of a process. The
    first argument bounds the depth; \<open>None\<close> is a kernel stack that is used up.
\<close>

datatype thread_state = THREAD_UNUSED | THREAD_READY | THREAD_RUNNING | THREAD_STOPPED | THREAD_ZOMBIE
  | THREAD_BLOCKED_INTERRUPTABLE | THREAD_BLOCKED_UNINTERUPTABLE | THREAD_BLOCKED_KILLABLE

datatype process_state = PROC_UNUSED_STATE | PROC_RUNNING_STATE | PROC_BLOCKED_STATE | PROC_STOPPED_STATE | PROC_ZOMBIE_STATE

datatype sig_handler = SIG_DFL | SIG_IGN | SIG_STOP | SIG_CONT | SIG_TERM | SIG_NOT_IMPLEMENTED | User_handler u64

record sigaction =
  sa_handler :: sig_handler
  sa_mask :: u32
  sa_flags :: u32

record tcb =
  tstate :: thread_state
  stopped_state :: thread_state
  t_pcb :: nat
  return_value :: u64
  is_joinable :: bool
  waiting_on_this :: "int list"
  t_pending :: u32
  tmask :: u32
  priority :: nat
  blocked_until :: u32
  waiting_for_pid :: int
  waiting_for_flags :: u32

record pcb =
  ppid :: int
  pgid :: int
  pstate :: process_state
  exit_code :: int
  tids :: "int list"
  wait_stop_pending :: bool
  wait_cont_pending :: bool
  children :: "int list"
  sigactions :: "nat \<Rightarrow> sigaction"
  p_pending :: u32
  child_waitq :: "int list"
  num_blocked_threads :: int
  num_stopped_threads :: int
  num_zombie_threads :: int
  num_running_threads :: int

record pgrp =
  pids :: "int list"
  pg_refcount :: int

datatype tty_call = Session_stop nat | Session_exit nat | Session_continue nat

record ks =
  threads :: "tcb list"
  processes :: "pcb list"
  thread_ready_queues :: "nat \<Rightarrow> nat list"
  pri_counters :: "nat \<Rightarrow> nat"
  curr_pri :: nat
  curr_thread :: "nat \<Rightarrow> nat option"
  scheduler_ticks :: "nat \<Rightarrow> u64"
  pgrps :: "int \<Rightarrow> pgrp option"
  tty_calls :: "tty_call list"

abbreviation (input) MAX_PROCESS_COUNT :: nat where "MAX_PROCESS_COUNT \<equiv> 256"
abbreviation (input) WNOHANG :: u32 where "WNOHANG \<equiv> 1"
abbreviation (input) WUNTRACED :: u32 where "WUNTRACED \<equiv> 2"
abbreviation (input) WCONTINUED :: u32 where "WCONTINUED \<equiv> 4"
abbreviation (input) BLOCK_UNTIL_SIGNAL :: u32 where "BLOCK_UNTIL_SIGNAL \<equiv> 2"
abbreviation (input) SIGINT :: nat where "SIGINT \<equiv> 2"
abbreviation (input) SIGTTOU :: nat where "SIGTTOU \<equiv> 6"
abbreviation (input) SIGTTIN :: nat where "SIGTTIN \<equiv> 7"
abbreviation (input) SIGTSTP :: nat where "SIGTSTP \<equiv> 8"
abbreviation (input) SIGKILL :: nat where "SIGKILL \<equiv> 9"
abbreviation (input) SIGSTOP :: nat where "SIGSTOP \<equiv> 10"
abbreviation (input) SIGCONT :: nat where "SIGCONT \<equiv> 11"
abbreviation (input) SIGCHLD :: nat where "SIGCHLD \<equiv> 12"
abbreviation (input) SIGTERM :: nat where "SIGTERM \<equiv> 15"

definition thd :: "ks \<Rightarrow> nat \<Rightarrow> tcb" where
  "thd s t = threads s ! t"

definition upd_thread :: "nat \<Rightarrow> (tcb \<Rightarrow> tcb) \<Rightarrow> ks \<Rightarrow> ks" where
  "upd_thread t f s = s\<lparr>threads := (threads s)[t := f (threads s ! t)]\<rparr>"

definition proc :: "ks \<Rightarrow> nat \<Rightarrow> pcb" where
  "proc s p = processes s ! p"

definition upd_proc :: "nat \<Rightarrow> (pcb \<Rightarrow> pcb) \<Rightarrow> ks \<Rightarrow> ks" where
  "upd_proc p f s = s\<lparr>processes := (processes s)[p := f (processes s ! p)]\<rparr>"

definition thread_get_by_tid :: "int \<Rightarrow> ks \<Rightarrow> nat option" where
  "thread_get_by_tid tid s =
     (if tid < 0 \<or> tid \<ge> int (length (threads s)) then None
      else if tstate (thd s (nat tid)) = THREAD_UNUSED then None else Some (nat tid))"

definition get_pcb_by_pid :: "int \<Rightarrow> ks \<Rightarrow> nat option" where
  "get_pcb_by_pid pid s =
     (if pid \<ge> int MAX_PROCESS_COUNT \<or> pid < 0 \<or> pstate (proc s (nat pid)) = PROC_UNUSED_STATE then None else Some (nat pid))"

subsection \<open>The ready queues\<close>

definition MAX_PRI_CNTRS :: "nat \<Rightarrow> nat" where
  "MAX_PRI_CNTRS p = [9, 6, 4] ! p"

definition add_thread_to_scheduler :: "nat \<Rightarrow> ks \<Rightarrow> ks" where
  "add_thread_to_scheduler t s =
     (if tstate (thd s t) \<noteq> THREAD_READY then s
      else if \<exists>priority \<in> {0, 1, 2}. t \<in> set (thread_ready_queues s priority) then s
      else (let p = priority (thd s t)
            in s\<lparr>thread_ready_queues := (thread_ready_queues s)(p := t # thread_ready_queues s p)\<rparr>))"

definition remove_thread_from_scheduler :: "nat \<Rightarrow> ks \<Rightarrow> ks" where
  "remove_thread_from_scheduler t s =
     s\<lparr>thread_ready_queues := (\<lambda>p. if p < 3 then filter (\<lambda>x. x \<noteq> t) (thread_ready_queues s p) else thread_ready_queues s p)\<rparr>"

text \<open>The inner loop pops from the back until it finds a thread that is ready; the list is given from the
  back.\<close>

fun pop_ready :: "ks \<Rightarrow> nat list \<Rightarrow> nat option \<times> nat list" where
  "pop_ready s [] = (None, [])"
| "pop_ready s (t # ts) = (if tstate (thd s t) \<noteq> THREAD_READY then pop_ready s ts else (Some t, ts))"

primrec next_thread :: "nat \<Rightarrow> ks \<Rightarrow> nat option \<times> ks" where
  "next_thread 0 s = (None, s)"
| "next_thread (Suc n) s =
     (let p = curr_pri s in
      case pop_ready s (rev (thread_ready_queues s p)) of
        (Some t, rest) \<Rightarrow>
          (let s = s\<lparr>thread_ready_queues := (thread_ready_queues s)(p := rev rest)\<rparr>;
               s = s\<lparr>pri_counters := (pri_counters s)(p := pri_counters s p + 1)\<rparr>
           in (Some t,
               if pri_counters s p > MAX_PRI_CNTRS p
               then s\<lparr>pri_counters := (pri_counters s)(p := 0), curr_pri := (p + 1) mod 3\<rparr> else s))
      | (None, rest) \<Rightarrow>
          next_thread n (s\<lparr>thread_ready_queues := (thread_ready_queues s)(p := rev rest), curr_pri := (p + 1) mod 3\<rparr>))"

definition get_next_thread :: "ks \<Rightarrow> nat option \<times> ks" where
  "get_next_thread s = next_thread 3 s"

definition scheduler_tick :: "nat \<Rightarrow> ks \<Rightarrow> ks" where
  "scheduler_tick c s =
     (let s = s\<lparr>scheduler_ticks := (scheduler_ticks s)(c := scheduler_ticks s c + 1)\<rparr>;
          s = (case curr_thread s c of
                 None \<Rightarrow> s
               | Some t \<Rightarrow>
                   if tstate (thd s t) = THREAD_RUNNING
                   then add_thread_to_scheduler t (upd_thread t (\<lambda>x. x\<lparr>tstate := THREAD_READY\<rparr>) s) else s)
      in case get_next_thread s of
           (None, s) \<Rightarrow> s\<lparr>curr_thread := (curr_thread s)(c := None)\<rparr>
         | (Some t, s) \<Rightarrow> upd_thread t (\<lambda>x. x\<lparr>tstate := THREAD_RUNNING\<rparr>) (s\<lparr>curr_thread := (curr_thread s)(c := Some t)\<rparr>))"

subsection \<open>Thread states and the state of the process\<close>

definition leave_state :: "thread_state \<Rightarrow> pcb \<Rightarrow> pcb" where
  "leave_state old p =
     (case old of
        THREAD_READY \<Rightarrow> p\<lparr>num_running_threads := num_running_threads p - 1\<rparr>
      | THREAD_RUNNING \<Rightarrow> p\<lparr>num_running_threads := num_running_threads p - 1\<rparr>
      | THREAD_STOPPED \<Rightarrow> p\<lparr>num_stopped_threads := num_stopped_threads p - 1\<rparr>
      | THREAD_ZOMBIE \<Rightarrow> p\<lparr>num_zombie_threads := num_zombie_threads p - 1\<rparr>
      | THREAD_BLOCKED_INTERRUPTABLE \<Rightarrow> p\<lparr>num_blocked_threads := num_blocked_threads p - 1\<rparr>
      | THREAD_BLOCKED_KILLABLE \<Rightarrow> p\<lparr>num_blocked_threads := num_blocked_threads p - 1\<rparr>
      | THREAD_BLOCKED_UNINTERUPTABLE \<Rightarrow> p\<lparr>num_blocked_threads := num_blocked_threads p - 1\<rparr>
      | THREAD_UNUSED \<Rightarrow> p)"

definition enter_state :: "thread_state \<Rightarrow> pcb \<Rightarrow> pcb" where
  "enter_state new p =
     (case new of
        THREAD_READY \<Rightarrow> p\<lparr>num_running_threads := num_running_threads p + 1\<rparr>
      | THREAD_RUNNING \<Rightarrow> p\<lparr>num_running_threads := num_running_threads p + 1\<rparr>
      | THREAD_STOPPED \<Rightarrow> p\<lparr>num_stopped_threads := num_stopped_threads p + 1\<rparr>
      | THREAD_ZOMBIE \<Rightarrow> p\<lparr>num_zombie_threads := num_zombie_threads p + 1\<rparr>
      | THREAD_BLOCKED_INTERRUPTABLE \<Rightarrow> p\<lparr>num_blocked_threads := num_blocked_threads p + 1\<rparr>
      | THREAD_BLOCKED_KILLABLE \<Rightarrow> p\<lparr>num_blocked_threads := num_blocked_threads p + 1\<rparr>
      | THREAD_BLOCKED_UNINTERUPTABLE \<Rightarrow> p\<lparr>num_blocked_threads := num_blocked_threads p + 1\<rparr>
      | THREAD_UNUSED \<Rightarrow> p)"

definition is_blocked :: "thread_state \<Rightarrow> bool" where
  "is_blocked st \<longleftrightarrow> st = THREAD_BLOCKED_INTERRUPTABLE \<or> st = THREAD_BLOCKED_UNINTERUPTABLE \<or> st = THREAD_BLOCKED_KILLABLE"

definition unblock_with :: "(nat \<Rightarrow> thread_state \<Rightarrow> thread_state \<Rightarrow> ks \<Rightarrow> ks option) \<Rightarrow> nat \<Rightarrow> ks \<Rightarrow> ks option" where
  "unblock_with change t s =
     (if \<not> is_blocked (tstate (thd s t)) then Some s
      else
        (case change (t_pcb (thd s t)) (tstate (thd s t)) THREAD_READY s of
           None \<Rightarrow> None
         | Some s \<Rightarrow> Some (add_thread_to_scheduler t
             (upd_thread t (\<lambda>x. x\<lparr>tstate := THREAD_READY, blocked_until := 0\<rparr>) s))))"

definition waits_for :: "tcb \<Rightarrow> nat \<Rightarrow> pcb \<Rightarrow> bool" where
  "waits_for t child c \<longleftrightarrow> waiting_for_pid t = - 1 \<or> waiting_for_pid t = int child \<or> (waiting_for_pid t < - 1 \<and> pgid c = - waiting_for_pid t)"

definition wakes :: "tcb \<Rightarrow> pcb \<Rightarrow> bool" where
  "wakes t c \<longleftrightarrow>
     pstate c = PROC_ZOMBIE_STATE \<or>
     (pstate c = PROC_STOPPED_STATE \<and> waiting_for_flags t AND WUNTRACED \<noteq> 0) \<or>
     (pstate c = PROC_RUNNING_STATE \<and> waiting_for_flags t AND WCONTINUED \<noteq> 0)"

fun wake_waiter :: "(nat \<Rightarrow> ks \<Rightarrow> ks option) \<Rightarrow> nat \<Rightarrow> int list \<Rightarrow> ks \<Rightarrow> ks option" where
  "wake_waiter unblock child [] s = Some s"
| "wake_waiter unblock child (tid # q) s =
     (case thread_get_by_tid tid s of
        None \<Rightarrow> wake_waiter unblock child q s
      | Some t \<Rightarrow>
          if waits_for (thd s t) child (proc s child)
          then (if wakes (thd s t) (proc s child) then unblock t s else Some s)
          else wake_waiter unblock child q s)"

definition note_child :: "nat \<Rightarrow> ks \<Rightarrow> ks" where
  "note_child c s =
     (if pstate (proc s c) = PROC_STOPPED_STATE then upd_proc c (\<lambda>x. x\<lparr>wait_stop_pending := True\<rparr>) s
      else if pstate (proc s c) = PROC_RUNNING_STATE then upd_proc c (\<lambda>x. x\<lparr>wait_cont_pending := True\<rparr>) s
      else s)"

definition sigchld_with :: "(nat \<Rightarrow> ks \<Rightarrow> ks option) \<Rightarrow> int \<Rightarrow> ks \<Rightarrow> (int \<times> ks) option" where
  "sigchld_with unblock child s =
     (case get_pcb_by_pid child s of
        None \<Rightarrow> Some (SYS_ESRCH, s)
      | Some c \<Rightarrow>
          (let s = note_child c s
           in case get_pcb_by_pid (ppid (proc s c)) s of
                None \<Rightarrow> Some (SYS_ESRCH, s)
              | Some parent \<Rightarrow> map_option (\<lambda>s. (0, s)) (wake_waiter unblock c (child_waitq (proc s parent)) s)))"

definition count_change :: "nat \<Rightarrow> thread_state \<Rightarrow> thread_state \<Rightarrow> ks \<Rightarrow> ks" where
  "count_change p old new s =
     (let s = upd_proc p (\<lambda>x. enter_state new (leave_state old x)) s in
      if num_running_threads (proc s p) > 0 then upd_proc p (\<lambda>x. x\<lparr>pstate := PROC_RUNNING_STATE\<rparr>) s
      else if num_blocked_threads (proc s p) > 0 then upd_proc p (\<lambda>x. x\<lparr>pstate := PROC_BLOCKED_STATE\<rparr>) s
      else if num_stopped_threads (proc s p) > 0 then upd_proc p (\<lambda>x. x\<lparr>pstate := PROC_STOPPED_STATE\<rparr>) s
      else upd_proc p (\<lambda>x. x\<lparr>pstate := PROC_ZOMBIE_STATE\<rparr>) s)"

primrec pcb_thread_change_state :: "nat \<Rightarrow> nat \<Rightarrow> thread_state \<Rightarrow> thread_state \<Rightarrow> ks \<Rightarrow> ks option" where
  "pcb_thread_change_state 0 p old new s = None"
| "pcb_thread_change_state (Suc d) p old new s =
     (let s = count_change p old new s in
      if pstate (proc s p) = PROC_BLOCKED_STATE then Some s
      else map_option snd (sigchld_with (unblock_with (pcb_thread_change_state d)) (int p) s))"

definition unblock_thread :: "nat \<Rightarrow> nat \<Rightarrow> ks \<Rightarrow> ks option" where
  "unblock_thread d = unblock_with (pcb_thread_change_state d)"

definition send_sigchld :: "nat \<Rightarrow> int \<Rightarrow> ks \<Rightarrow> (int \<times> ks) option" where
  "send_sigchld d = sigchld_with (unblock_thread d)"

text \<open>The yield at the end of an operation on the running thread.\<close>

definition yield_if_current :: "nat \<Rightarrow> nat \<Rightarrow> ks \<Rightarrow> ks" where
  "yield_if_current c t s = (if curr_thread s c = Some t then scheduler_tick c s else s)"

definition enter_thread_state :: "nat \<Rightarrow> nat \<Rightarrow> thread_state \<Rightarrow> ks \<Rightarrow> ks option" where
  "enter_thread_state d t new s =
     map_option (upd_thread t (\<lambda>x. x\<lparr>tstate := new\<rparr>)) (pcb_thread_change_state d (t_pcb (thd s t)) (tstate (thd s t)) new s)"

definition log_tty :: "tty_call \<Rightarrow> ks \<Rightarrow> ks" where
  "log_tty e s = s\<lparr>tty_calls := tty_calls s @ [e]\<rparr>"

definition stop_thread :: "nat \<Rightarrow> nat \<Rightarrow> nat \<Rightarrow> ks \<Rightarrow> ks option" where
  "stop_thread d c t s =
     (if tstate (thd s t) = THREAD_STOPPED then Some s
      else
        (let s = log_tty (Session_stop (t_pcb (thd s t))) s;
             s = upd_thread t (\<lambda>x. x\<lparr>stopped_state := tstate x\<rparr>) s
         in map_option (yield_if_current c t) (enter_thread_state d t THREAD_STOPPED s)))"

definition terminate_thread :: "nat \<Rightarrow> nat \<Rightarrow> nat \<Rightarrow> ks \<Rightarrow> ks option" where
  "terminate_thread d c t s =
     (if tstate (thd s t) = THREAD_ZOMBIE then Some s
      else map_option (yield_if_current c t)
             (enter_thread_state d t THREAD_ZOMBIE (log_tty (Session_exit (t_pcb (thd s t))) s)))"

definition block_thread :: "nat \<Rightarrow> nat \<Rightarrow> nat \<Rightarrow> thread_state \<Rightarrow> ks \<Rightarrow> ks option" where
  "block_thread d c t blocked s =
     (if \<not> is_blocked blocked then Some s
      else map_option (yield_if_current c t) (enter_thread_state d t blocked s))"

definition continue_thread :: "nat \<Rightarrow> nat \<Rightarrow> ks \<Rightarrow> ks option" where
  "continue_thread d t s =
     (if tstate (thd s t) \<noteq> THREAD_STOPPED then Some s
      else
        (let next_state = stopped_state (thd s t);
             next_state = (if next_state = THREAD_RUNNING then THREAD_READY else next_state);
             next_state = (if is_blocked next_state \<and> blocked_until (thd s t) = 0 then THREAD_READY else next_state);
             s = log_tty (Session_continue (t_pcb (thd s t))) s
         in map_option (\<lambda>s.
              let s = upd_thread t (\<lambda>x. x\<lparr>stopped_state := THREAD_READY\<rparr>) s
              in if next_state = THREAD_READY then add_thread_to_scheduler t s else s)
              (enter_thread_state d t next_state s)))"

definition send_unblock_event :: "nat \<Rightarrow> int \<Rightarrow> u32 \<Rightarrow> ks \<Rightarrow> (bool \<times> ks) option" where
  "send_unblock_event d tid event s =
     (case thread_get_by_tid tid s of
        None \<Rightarrow> Some (False, s)
      | Some t \<Rightarrow>
          if \<not> is_blocked (tstate (thd s t)) then Some (False, s)
          else if blocked_until (thd s t) AND event \<noteq> 0 then map_option (\<lambda>s. (True, s)) (unblock_thread d t s)
          else Some (False, s))"

definition thread_change_priority :: "int \<Rightarrow> int \<Rightarrow> ks \<Rightarrow> ks" where
  "thread_change_priority tid new_priority s =
     (case thread_get_by_tid tid s of
        None \<Rightarrow> s
      | Some t \<Rightarrow>
          if new_priority < 0 \<or> new_priority > 2 then s
          else upd_thread t (\<lambda>x. x\<lparr>priority := nat new_priority\<rparr>) s)"

definition process_change_priority :: "nat \<Rightarrow> int \<Rightarrow> int \<Rightarrow> ks \<Rightarrow> ks" where
  "process_change_priority c pid new_priority s =
     (case (if pid = 0 then map_option (\<lambda>t. t_pcb (thd s t)) (curr_thread s c) else get_pcb_by_pid pid s) of
        None \<Rightarrow> s
      | Some p \<Rightarrow>
          if new_priority < 0 \<or> new_priority > 2 then s
          else fold (\<lambda>tid. thread_change_priority tid new_priority) (tids (proc s p)) s)"

end
