(* ===== verification/Signals.thy ===== *)
theory Signals
  imports Threads
begin

section \<open>Signals\<close>

text \<open>
  \<^verbatim>\<open>src/kernel/signals/signals.c\<close>. A set of signals is a \<open>signed int\<close>: 32 bits, and \<open>>>\<close> keeps the sign. A loop
  \<open>while (set >> curr)\<close> on a set with bit 31 shifts by 32 in the end, which C leaves undefined: \<open>None\<close>.
\<close>

definition sigbit :: "nat \<Rightarrow> u32" where
  "sigbit n = push_bit n 1"

definition def_signal_handlers :: "nat \<Rightarrow> sig_handler" where
  "def_signal_handlers n =
     (if n = SIGCONT then SIG_CONT
      else if n = SIGSTOP \<or> n = SIGTSTP \<or> n = SIGTTIN \<or> n = SIGTTOU then SIG_STOP
      else if n = SIGINT \<or> n = SIGKILL \<or> n = SIGTERM then SIG_TERM
      else if n = SIGCHLD then SIG_IGN
      else SIG_NOT_IMPLEMENTED)"

definition default_handler :: "pcb \<Rightarrow> nat \<Rightarrow> sig_handler" where
  "default_handler p signum =
     (let handler = sa_handler (sigactions p signum) in if handler = SIG_DFL then def_signal_handlers signum else handler)"

definition clear_pending :: "nat \<Rightarrow> nat \<Rightarrow> ks \<Rightarrow> ks" where
  "clear_pending t signum = upd_thread t (\<lambda>x. x\<lparr>t_pending := t_pending x AND NOT (sigbit signum)\<rparr>)"

definition handle_interruptable_signal :: "nat \<Rightarrow> nat \<Rightarrow> nat \<Rightarrow> nat \<Rightarrow> ks \<Rightarrow> ks option" where
  "handle_interruptable_signal d c t signum s =
     (let handler = default_handler (proc s (t_pcb (thd s t))) signum; st = tstate (thd s t) in
      if signum = SIGKILL then terminate_thread d c t (clear_pending t signum s)
      else if st = THREAD_BLOCKED_INTERRUPTABLE then
        (if handler = SIG_TERM then terminate_thread d c t (clear_pending t signum s)
         else if handler = SIG_STOP then stop_thread d c t (clear_pending t signum s)
         else if handler \<noteq> SIG_CONT then unblock_thread d t s
         else Some s)
      else if st = THREAD_BLOCKED_KILLABLE then
        (if handler = SIG_TERM then terminate_thread d c t (clear_pending t signum s) else Some s)
      else if st = THREAD_STOPPED then
        (if handler = SIG_CONT then continue_thread d t (clear_pending t signum s) else Some s)
      else Some s)"

text \<open>The loop of \<open>pthread_kill\<close> for \<open>SIGCONT\<close>, from bit \<open>k\<close> on; the first argument is \<open>32 - k\<close>.\<close>

fun drop_stops :: "nat \<Rightarrow> nat \<Rightarrow> nat \<Rightarrow> ks \<Rightarrow> ks option" where
  "drop_stops 0 k p s = None"
| "drop_stops (Suc n) k p s =
     (if signed_drop_bit k (p_pending (proc s p)) = 0 then Some s
      else drop_stops n (k + 1) p
        (if p_pending (proc s p) AND sigbit k \<noteq> 0 \<and> sa_handler (sigactions (proc s p) k) = SIG_STOP
         then upd_proc p (\<lambda>x. x\<lparr>p_pending := p_pending x AND NOT (sigbit k)\<rparr>) s else s))"

definition pthread_kill :: "nat \<Rightarrow> nat \<Rightarrow> int \<Rightarrow> nat \<Rightarrow> ks \<Rightarrow> (int \<times> ks) option" where
  "pthread_kill d c tid signal s =
     (case thread_get_by_tid tid s of
        None \<Rightarrow> Some (SYS_EINVAL, s)
      | Some t \<Rightarrow>
          (case (if signal = SIGCONT then drop_stops 32 0 (t_pcb (thd s t)) s else Some s) of
             None \<Rightarrow> None
           | Some s \<Rightarrow>
               (let s = upd_thread t (\<lambda>x. x\<lparr>t_pending := t_pending x OR sigbit signal\<rparr>) s in
                if tmask (thd s t) AND sigbit signal \<noteq> 0 then Some (0, s)
                else
                  (case send_unblock_event d (int t) BLOCK_UNTIL_SIGNAL s of
                     None \<Rightarrow> None
                   | Some (unblocked, s) \<Rightarrow>
                       if \<not> unblocked \<or> tstate (thd s t) = THREAD_BLOCKED_INTERRUPTABLE \<or>
                          tstate (thd s t) = THREAD_BLOCKED_KILLABLE \<or> tstate (thd s t) = THREAD_STOPPED
                       then map_option (\<lambda>s. (0, s)) (handle_interruptable_signal d c t signal s)
                       else Some (0, s)))))"

fun kill_each :: "nat \<Rightarrow> nat \<Rightarrow> nat \<Rightarrow> int list \<Rightarrow> bool \<Rightarrow> ks \<Rightarrow> (bool \<times> ks) option" where
  "kill_each d c signal [] sent s = Some (sent, s)"
| "kill_each d c signal (tid # q) sent s =
     (case pthread_kill d c tid signal s of
        None \<Rightarrow> None
      | Some (r, s) \<Rightarrow> kill_each d c signal q (sent \<or> r = 0) s)"

text \<open>The loop that looks for one thread that does not mask the signal.\<close>

fun kill_one :: "nat \<Rightarrow> nat \<Rightarrow> nat \<Rightarrow> nat \<Rightarrow> int list \<Rightarrow> ks \<Rightarrow> (int \<times> ks) option" where
  "kill_one d c p signal [] s = Some (0, upd_proc p (\<lambda>x. x\<lparr>p_pending := p_pending x OR sigbit signal\<rparr>) s)"
| "kill_one d c p signal (tid # q) s =
     (case thread_get_by_tid tid s of
        None \<Rightarrow> kill_one d c p signal q s
      | Some t \<Rightarrow>
          if tmask (thd s t) AND sigbit signal \<noteq> 0 then kill_one d c p signal q s
          else map_option (\<lambda>s. (0, s))
                 (handle_interruptable_signal d c t signal (upd_thread t (\<lambda>x. x\<lparr>t_pending := t_pending x OR sigbit signal\<rparr>) s)))"

definition s_kill_process :: "nat \<Rightarrow> nat \<Rightarrow> int \<Rightarrow> nat \<Rightarrow> ks \<Rightarrow> (int \<times> ks) option" where
  "s_kill_process d c pid signal s =
     (case get_pcb_by_pid pid s of
        None \<Rightarrow> Some (SYS_ESRCH, s)
      | Some p \<Rightarrow>
          (let handler = default_handler (proc s p) signal in
           if handler = SIG_STOP \<or> handler = SIG_CONT \<or> handler = SIG_TERM then
             map_option (\<lambda>(sent, s). (if sent then 0 else SYS_ESRCH, s)) (kill_each d c signal (tids (proc s p)) False s)
           else if handler = SIG_IGN then Some (0, s)
           else kill_one d c p signal (tids (proc s p)) s))"

fun kill_group :: "nat \<Rightarrow> nat \<Rightarrow> nat \<Rightarrow> int list \<Rightarrow> bool \<Rightarrow> ks \<Rightarrow> (bool \<times> ks) option" where
  "kill_group d c signal [] sent s = Some (sent, s)"
| "kill_group d c signal (pid # q) sent s =
     (case s_kill_process d c pid signal s of
        None \<Rightarrow> None
      | Some (r, s) \<Rightarrow> kill_group d c signal q (sent \<or> r = 0) s)"

definition s_kill :: "nat \<Rightarrow> nat \<Rightarrow> int \<Rightarrow> int \<Rightarrow> ks \<Rightarrow> (int \<times> ks) option" where
  "s_kill d c pid signal s =
     (if signal < 0 \<or> signal \<ge> 32 then Some (SYS_EINVAL, s)
      else if pid < 0 then
        (case pgrps s (- pid) of
           None \<Rightarrow> Some (SYS_ESRCH, s)
         | Some g \<Rightarrow> map_option (\<lambda>(sent, s). (if sent then 0 else SYS_ESRCH, s)) (kill_group d c (nat signal) (pids g) False s))
      else s_kill_process d c pid (nat signal) s)"

abbreviation (input) SIG_BLOCK :: int where "SIG_BLOCK \<equiv> 0"
abbreviation (input) SIG_UNBLOCK :: int where "SIG_UNBLOCK \<equiv> 1"
abbreviation (input) SIG_SETMASK :: int where "SIG_SETMASK \<equiv> 2"

text \<open>The second component of the result is \<open>*oldset\<close>.\<close>

definition sigprocmask :: "nat \<Rightarrow> int \<Rightarrow> u32 option \<Rightarrow> ks \<Rightarrow> int \<times> u32 \<times> ks" where
  "sigprocmask c how ss s =
     (case ss of
        None \<Rightarrow> (SYS_EFAULT, 0, s)
      | Some m \<Rightarrow>
          (case curr_thread s c of
             None \<Rightarrow> (SYS_ESRCH, 0, s)
           | Some t \<Rightarrow>
               (let old = tmask (thd s t) in
                if how = SIG_BLOCK then (0, old, upd_thread t (\<lambda>x. x\<lparr>tmask := tmask x OR m\<rparr>) s)
                else if how = SIG_UNBLOCK then (0, old, upd_thread t (\<lambda>x. x\<lparr>tmask := tmask x AND NOT m\<rparr>) s)
                else if how = SIG_SETMASK then (0, old, upd_thread t (\<lambda>x. x\<lparr>tmask := m\<rparr>) s)
                else (SYS_EINVAL, old, s))))"

definition sigaddset :: "u32 \<Rightarrow> int \<Rightarrow> int \<times> u32" where
  "sigaddset ss signum = (if signum < 0 \<or> signum \<ge> 32 then (SYS_EINVAL, ss) else (0, ss OR sigbit (nat signum)))"

text \<open>\<open>sigsuspend\<close> up to its yield: the mask it replaces and the state it leaves the CPU with.\<close>

definition sigsuspend :: "nat \<Rightarrow> nat \<Rightarrow> u32 \<Rightarrow> ks \<Rightarrow> (u32 \<times> ks) option" where
  "sigsuspend d c m s =
     (case curr_thread s c of
        None \<Rightarrow> Some (0, s)
      | Some t \<Rightarrow>
          (case sigprocmask c SIG_SETMASK (Some m) s of
             (_, old, s) \<Rightarrow>
               map_option (\<lambda>s. (old, s))
                 (block_thread d c t THREAD_BLOCKED_INTERRUPTABLE
                    (upd_thread t (\<lambda>x. x\<lparr>blocked_until := blocked_until x OR push_bit (unat BLOCK_UNTIL_SIGNAL) 1\<rparr>) s))))"

text \<open>\<open>User_handler 0\<close> is \<open>USER_SIG_DFL\<close>, \<open>User_handler 1\<close> is \<open>USER_SIG_IGN\<close>. The second component is \<open>*old\<close>.\<close>

definition sigaction_set :: "nat \<Rightarrow> int \<Rightarrow> sigaction \<Rightarrow> ks \<Rightarrow> int \<times> sigaction option \<times> ks" where
  "sigaction_set c signum sa s =
     (case curr_thread s c of
        None \<Rightarrow> (SYS_ESRCH, None, s)
      | Some t \<Rightarrow>
          if signum < 0 \<or> signum \<ge> 32 then (SYS_EINVAL, None, s)
          else
            (let p = t_pcb (thd s t); n = nat signum; old = sigactions (proc s p) n in
             if (n = SIGKILL \<or> n = SIGSTOP) \<and> sa_handler sa \<noteq> User_handler 0 \<and> sa_handler sa \<noteq> SIG_DFL
             then (SYS_EINVAL, Some old, s)
             else
               (let h = (if sa_handler sa = User_handler 0 then SIG_DFL
                         else if sa_handler sa = User_handler 1 then SIG_IGN else sa_handler sa)
                in (0, Some old, upd_proc p (\<lambda>x. x\<lparr>sigactions := (sigactions x)(n := sa\<lparr>sa_handler := h\<rparr>)\<rparr>) s))))"

end
