(* ===== verification/Sched_Fair.thy ===== *)
theory Sched_Fair
  imports Threads
begin

section \<open>No thread starves\<close>

text \<open>
  The scheduler serves three queues in turn, at most ten, seven and five times in a row. A thread that is
  ready and queued is dispatched after a number of ticks that depends only on the threads queued before
  it, whatever the other threads do in the meantime: run, become ready, block, stop, end or change
  their priority.
\<close>

text \<open>The threads that leave the queue \<open>p\<close> before \<open>t\<close>.\<close>

definition ahead :: "nat \<Rightarrow> nat \<Rightarrow> ks \<Rightarrow> nat" where
  "ahead p t s = length (takeWhile (\<lambda>x. x \<noteq> t) (rev (thread_ready_queues s p)))"

text \<open>How often the scheduler can still serve another queue before it turns to \<open>p\<close>.\<close>

definition quota :: "ks \<Rightarrow> nat \<Rightarrow> nat" where
  "quota s q = MAX_PRI_CNTRS q + 1 - pri_counters s q"

definition wait_turn :: "nat \<Rightarrow> ks \<Rightarrow> nat" where
  "wait_turn p s =
     (let q = curr_pri s; q' = (q + 1) mod 3 in
      if q = p then 0 else if q' = p then quota s q else quota s q + quota s q')"

definition counters_ok :: "ks \<Rightarrow> bool" where
  "counters_ok s \<longleftrightarrow> curr_pri s < 3 \<and> (\<forall>q < 3. pri_counters s q \<le> MAX_PRI_CNTRS q)"

definition waiting :: "nat \<Rightarrow> nat \<Rightarrow> ks \<Rightarrow> bool" where
  "waiting p t s \<longleftrightarrow> p < 3 \<and> t \<in> set (thread_ready_queues s p) \<and> tstate (thd s t) = THREAD_READY \<and> t < length (threads s)"

lemma less_3: "(q :: nat) < 3 \<longleftrightarrow> q = 0 \<or> q = 1 \<or> q = 2" by auto

lemma quota_bounds:
  assumes "counters_ok s" "q < 3"
  shows "1 \<le> quota s q" "quota s q \<le> MAX_PRI_CNTRS q + 1"
  using assms by (auto simp: quota_def counters_ok_def)

lemma max_counters: "MAX_PRI_CNTRS 0 = 9" "MAX_PRI_CNTRS (Suc 0) = 6" "MAX_PRI_CNTRS 2 = 4"
  by (simp_all add: MAX_PRI_CNTRS_def)

lemma wait_turn_bound:
  assumes "counters_ok s" "p < 3"
  shows "wait_turn p s \<le> 17"
proof -
  have Q: "quota s 0 \<le> 10" "quota s (Suc 0) \<le> 7" "quota s 2 \<le> 5" by (simp_all add: quota_def max_counters)
  have "curr_pri s = 0 \<or> curr_pri s = 1 \<or> curr_pri s = 2" using assms(1) by (auto simp: counters_ok_def)
  then show ?thesis using Q by (elim disjE) (simp_all add: wait_turn_def Let_def numeral_2_eq_2 [symmetric])
qed

lemma pop_ready_waiting:
  assumes "t \<in> set xs" "tstate (thd s t) = THREAD_READY"
  shows "\<exists>x rest. pop_ready s xs = (Some x, rest) \<and>
    (x = t \<or> t \<in> set rest \<and> length (takeWhile (\<lambda>x. x \<noteq> t) rest) < length (takeWhile (\<lambda>x. x \<noteq> t) xs))"
  using assms by (induction xs) (auto simp: less_Suc_eq)

lemma pop_ready_cong: "(\<And>t. t \<in> set xs \<Longrightarrow> tstate (thd s' t) = tstate (thd s t)) \<Longrightarrow> pop_ready s' xs = pop_ready s xs"
  by (induction xs) auto

text \<open>One turn of the scheduler either takes \<open>t\<close> or brings it closer.\<close>

definition closeness :: "nat \<Rightarrow> nat \<Rightarrow> ks \<Rightarrow> nat" where
  "closeness p t s = 18 * ahead p t s + wait_turn p s"

lemma hops:
  assumes "p < 3" "q < 3" "q \<noteq> p" "(p + 3 - q) mod 3 < Suc n"
  shows "(p + 3 - (q + 1) mod 3) mod 3 < (n :: nat)"
proof -
  have "p = 0 \<or> p = 1 \<or> p = 2" "q = 0 \<or> q = 1 \<or> q = 2" using assms by auto
  then show ?thesis using assms(3,4) by (elim disjE) simp_all
qed

lemma turn_passes:
  assumes "p < 3" "q < 3" "q \<noteq> p" "curr_pri s = q" "curr_pri s' = (q + 1) mod 3" "\<And>x. x < 3 \<Longrightarrow> x \<noteq> q \<Longrightarrow> quota s' x = quota s x"
  shows "wait_turn p s' + quota s q = wait_turn p s"
proof -
  have "p = 0 \<or> p = 1 \<or> p = 2" "q = 0 \<or> q = 1 \<or> q = 2" using assms by auto
  then show ?thesis using assms(3-5) assms(6) [of 0] assms(6) [of 1] assms(6) [of 2]
    by (elim disjE) (simp_all add: wait_turn_def Let_def numeral_2_eq_2 [symmetric])
qed

lemma next_thread_progress:
  assumes "counters_ok s" "waiting p t s" "(p + 3 - curr_pri s) mod 3 < n"
  shows "\<exists>x s'. next_thread n s = (Some x, s') \<and> threads s' = threads s \<and> curr_thread s' = curr_thread s \<and> counters_ok s' \<and>
    (x = t \<or> x \<noteq> t \<and> t \<in> set (thread_ready_queues s' p) \<and> closeness p t s' < closeness p t s)"
  using assms
proof (induction n arbitrary: s)
  case (Suc n)
  let ?q = "curr_pri s" and ?xs = "rev (thread_ready_queues s (curr_pri s))"
  have p: "p < 3" and q: "?q < 3" using Suc.prems by (auto simp: waiting_def counters_ok_def)
  show ?case
  proof (cases "pop_ready s ?xs")
    case (Pair r rest)
    show ?thesis
    proof (cases r)
      case None
      have "?q \<noteq> p" using Pair None pop_ready_waiting [of t ?xs s] Suc.prems(2) by (auto simp: waiting_def)
      let ?s = "s\<lparr>thread_ready_queues := (thread_ready_queues s)(?q := rev rest), curr_pri := (?q + 1) mod 3\<rparr>"
      have c: "counters_ok ?s" "waiting p t ?s" "(p + 3 - curr_pri ?s) mod 3 < n"
        using Suc.prems(1,2) \<open>?q \<noteq> p\<close> hops [OF p q \<open>?q \<noteq> p\<close> Suc.prems(3)] by (simp_all add: counters_ok_def waiting_def thd_def)
      have "wait_turn p ?s + quota s ?q = wait_turn p s"
        by (rule turn_passes [OF p q \<open>?q \<noteq> p\<close> refl]) (simp_all add: quota_def)
      then have "closeness p t ?s \<le> closeness p t s" using \<open>?q \<noteq> p\<close> by (simp add: closeness_def ahead_def)
      then show ?thesis using Suc.IH [OF c] Pair None by (fastforce simp: Let_def)
    next
      case (Some x)
      let ?s1 = "s\<lparr>thread_ready_queues := (thread_ready_queues s)(?q := rev rest), pri_counters := (pri_counters s)(?q := pri_counters s ?q + 1)\<rparr>"
      let ?s2 = "if pri_counters ?s1 ?q > MAX_PRI_CNTRS ?q then ?s1\<lparr>pri_counters := (pri_counters ?s1)(?q := 0), curr_pri := (?q + 1) mod 3\<rparr> else ?s1"
      have run: "next_thread (Suc n) s = (Some x, ?s2)" using Pair Some by (simp add: Let_def)
      have ok: "counters_ok ?s2" using Suc.prems(1) by (auto simp: counters_ok_def)
      have "x = t \<or> x \<noteq> t \<and> t \<in> set (thread_ready_queues ?s2 p) \<and> closeness p t ?s2 < closeness p t s"
      proof (cases "?q = p")
        case True
        have "x = t \<or> t \<in> set rest \<and> length (takeWhile (\<lambda>x. x \<noteq> t) rest) < ahead p t s"
          using pop_ready_waiting [of t ?xs s] Pair Some Suc.prems(2) True by (auto simp: waiting_def ahead_def)
        then show ?thesis
        proof
          assume a: "t \<in> set rest \<and> length (takeWhile (\<lambda>x. x \<noteq> t) rest) < ahead p t s"
          have "thread_ready_queues ?s2 p = rev rest" using True by simp
          then have "ahead p t ?s2 < ahead p t s" "t \<in> set (thread_ready_queues ?s2 p)" using a by (simp_all add: ahead_def)
          then show ?thesis using wait_turn_bound [OF ok p] by (auto simp: closeness_def)
        qed simp
      next
        case False
        have t: "t \<in> set (thread_ready_queues ?s2 p)" "ahead p t ?s2 = ahead p t s"
          using Suc.prems(2) False by (auto simp: waiting_def ahead_def)
        have "wait_turn p ?s2 < wait_turn p s"
        proof (cases "pri_counters ?s1 ?q > MAX_PRI_CNTRS ?q")
          case adv: True
          have "wait_turn p ?s2 + quota s ?q = wait_turn p s"
            by (rule turn_passes [OF p q False refl]) (use adv in \<open>simp_all add: quota_def\<close>)
          then show ?thesis using quota_bounds(1) [OF Suc.prems(1) q] by simp
        next
          case stay: False
          have "curr_pri ?s2 = ?q" "quota ?s2 ?q + 1 = quota s ?q" "\<And>x. x \<noteq> ?q \<Longrightarrow> quota ?s2 x = quota s x"
            using stay by (simp_all add: quota_def)
          moreover have "(?q + 1) mod 3 \<noteq> ?q" using q by presburger
          ultimately show ?thesis using False unfolding wait_turn_def Let_def by simp
        qed
        then show ?thesis using t by (simp add: closeness_def)
      qed
      then show ?thesis using run ok by auto
    qed
  qed
qed simp

lemma get_next_progress:
  assumes "counters_ok s" "waiting p t s"
  shows "\<exists>x s'. get_next_thread s = (Some x, s') \<and> threads s' = threads s \<and> curr_thread s' = curr_thread s \<and> counters_ok s' \<and>
    (x = t \<or> x \<noteq> t \<and> t \<in> set (thread_ready_queues s' p) \<and> closeness p t s' < closeness p t s)"
proof -
  have "(p + 3 - curr_pri s) mod 3 < 3" by simp
  from next_thread_progress [OF assms this] show ?thesis unfolding get_next_thread_def .
qed

text \<open>What the machine does while \<open>t\<close> waits: ticks of the CPUs, and operations on other threads.\<close>

datatype sched_op =
    Tick nat
  | Add nat
  | Remove nat
  | Set_state nat thread_state
  | Set_priority int int

fun sched_step :: "sched_op \<Rightarrow> ks \<Rightarrow> ks" where
  "sched_step (Tick c) s = scheduler_tick c s"
| "sched_step (Add t) s = add_thread_to_scheduler t s"
| "sched_step (Remove t) s = remove_thread_from_scheduler t s"
| "sched_step (Set_state t st) s = upd_thread t (\<lambda>x. x\<lparr>tstate := st\<rparr>) s"
| "sched_step (Set_priority tid n) s = thread_change_priority tid n s"

fun leaves_alone :: "nat \<Rightarrow> sched_op \<Rightarrow> bool" where
  "leaves_alone t (Remove x) = (x \<noteq> t)"
| "leaves_alone t (Set_state x st) = (x \<noteq> t)"
| "leaves_alone t op = True"

fun is_tick :: "sched_op \<Rightarrow> bool" where
  "is_tick (Tick c) = True"
| "is_tick op = False"

lemma thd_upd: "thd (upd_thread t f s) x = (if x = t \<and> t < length (threads s) then f (thd s t) else thd s x)"
  by (cases "t < length (threads s)") (auto simp: thd_def upd_thread_def nth_list_update list_update_beyond)

lemma upd_thread_simps [simp]:
  "thread_ready_queues (upd_thread t f s) = thread_ready_queues s" "pri_counters (upd_thread t f s) = pri_counters s"
  "curr_pri (upd_thread t f s) = curr_pri s" "curr_thread (upd_thread t f s) = curr_thread s"
  "length (threads (upd_thread t f s)) = length (threads s)" "processes (upd_thread t f s) = processes s"
  "pgrps (upd_thread t f s) = pgrps s"
  by (simp_all add: upd_thread_def)

lemma closeness_cong:
  assumes "curr_pri s' = curr_pri s" "pri_counters s' = pri_counters s" "ahead p t s' = ahead p t s"
  shows "closeness p t s' = closeness p t s"
  using assms by (simp add: closeness_def wait_turn_def quota_def Let_def)

lemma add_keeps:
  "threads (add_thread_to_scheduler x s) = threads s" "pri_counters (add_thread_to_scheduler x s) = pri_counters s"
  "curr_pri (add_thread_to_scheduler x s) = curr_pri s" "curr_thread (add_thread_to_scheduler x s) = curr_thread s"
  "t \<in> set (thread_ready_queues s p) \<Longrightarrow> t \<in> set (thread_ready_queues (add_thread_to_scheduler x s) p)"
  "t \<in> set (thread_ready_queues s p) \<Longrightarrow> ahead p t (add_thread_to_scheduler x s) = ahead p t s"
  by (auto simp: add_thread_to_scheduler_def ahead_def Let_def takeWhile_append)

text \<open>A tick dispatches \<open>t\<close> or brings it closer; any other operation keeps its place.\<close>

lemma tick_progress:
  assumes ok: "counters_ok s" and w: "waiting p t s"
  shows "counters_ok (scheduler_tick c s) \<and>
    (curr_thread (scheduler_tick c s) c = Some t \<and> tstate (thd (scheduler_tick c s) t) = THREAD_RUNNING \<or>
     waiting p t (scheduler_tick c s) \<and> closeness p t (scheduler_tick c s) < closeness p t s)"
proof -
  let ?s1 = "s\<lparr>scheduler_ticks := (scheduler_ticks s)(c := scheduler_ticks s c + 1)\<rparr>"
  let ?s2 = "case curr_thread ?s1 c of None \<Rightarrow> ?s1 | Some x \<Rightarrow>
    if tstate (thd ?s1 x) = THREAD_RUNNING then add_thread_to_scheduler x (upd_thread x (\<lambda>y. y\<lparr>tstate := THREAD_READY\<rparr>) ?s1) else ?s1"
  have w1: "p < 3" "t \<in> set (thread_ready_queues s p)" "tstate (thd s t) = THREAD_READY" "t < length (threads s)"
    using w by (auto simp: waiting_def)
  have s2: "counters_ok ?s2" "waiting p t ?s2" "closeness p t ?s2 = closeness p t s"
  proof -
    have k: "counters_ok ?s1" "waiting p t ?s1" "closeness p t ?s1 = closeness p t s"
      using ok w by (simp_all add: counters_ok_def waiting_def thd_def closeness_def ahead_def wait_turn_def quota_def Let_def)
    have "counters_ok ?s2 \<and> waiting p t ?s2 \<and> closeness p t ?s2 = closeness p t s"
    proof (cases "curr_thread ?s1 c")
      case (Some x)
      let ?u = "upd_thread x (\<lambda>y. y\<lparr>tstate := THREAD_READY\<rparr>) ?s1"
      have "waiting p t (add_thread_to_scheduler x ?u)" using k(2) add_keeps(5) [of t ?u p x]
        by (cases "x = t") (simp_all add: waiting_def add_keeps(1) thd_def upd_thread_def)
      moreover have "closeness p t (add_thread_to_scheduler x ?u) = closeness p t ?s1"
        using k(2) add_keeps(6) [of t ?u p x] by (intro closeness_cong) (simp_all add: add_keeps waiting_def ahead_def)
      moreover have "counters_ok (add_thread_to_scheduler x ?u)" using k(1) by (simp add: counters_ok_def add_keeps)
      ultimately show ?thesis using k Some by simp
    qed (use k in simp)
    then show "counters_ok ?s2" "waiting p t ?s2" "closeness p t ?s2 = closeness p t s" by simp_all
  qed
  obtain x s3 where g: "get_next_thread ?s2 = (Some x, s3)" "threads s3 = threads ?s2" "counters_ok s3"
      "x = t \<or> x \<noteq> t \<and> t \<in> set (thread_ready_queues s3 p) \<and> closeness p t s3 < closeness p t ?s2"
    using get_next_progress [OF s2(1,2)] by blast
  let ?s4 = "upd_thread x (\<lambda>y. y\<lparr>tstate := THREAD_RUNNING\<rparr>) (s3\<lparr>curr_thread := (curr_thread s3)(c := Some x)\<rparr>)"
  have run: "scheduler_tick c s = ?s4" using g(1) by (simp add: scheduler_tick_def Let_def)
  have t3: "tstate (thd s3 t) = THREAD_READY" "t < length (threads s3)" using s2(2) g(2) by (auto simp: waiting_def thd_def)
  have "counters_ok ?s4" using g(3) by (simp add: counters_ok_def)
  moreover have "x = t \<Longrightarrow> curr_thread ?s4 c = Some t \<and> tstate (thd ?s4 t) = THREAD_RUNNING" using t3(2) by (simp add: thd_upd)
  moreover have "x \<noteq> t \<Longrightarrow> waiting p t ?s4 \<and> closeness p t ?s4 < closeness p t s"
  proof -
    assume "x \<noteq> t"
    then have "t \<in> set (thread_ready_queues s3 p)" "closeness p t s3 < closeness p t s" using g(4) s2(3) by auto
    moreover have "closeness p t ?s4 = closeness p t s3" by (rule closeness_cong) (simp_all add: ahead_def)
    moreover have "thd ?s4 t = thd s3 t" using \<open>x \<noteq> t\<close> by (simp add: thd_def upd_thread_def)
    ultimately show ?thesis using t3 w1(1) by (simp add: waiting_def)
  qed
  ultimately show ?thesis unfolding run by blast
qed

lemma other_progress:
  assumes ok: "counters_ok s" and w: "waiting p t s" and l: "leaves_alone t op" "\<not> is_tick op"
  shows "counters_ok (sched_step op s) \<and> waiting p t (sched_step op s) \<and> closeness p t (sched_step op s) \<le> closeness p t s"
proof (cases op)
  case (Add x)
  then show ?thesis using ok w add_keeps(5) [of t s p x] closeness_cong [of "add_thread_to_scheduler x s" s p t] add_keeps(6) [of t s p x]
    by (simp add: waiting_def counters_ok_def add_keeps(1-4) thd_def)
next
  case (Remove x)
  have "length (takeWhile (\<lambda>y. y \<noteq> t) (filter (\<lambda>y. y \<noteq> x) ys)) \<le> length (takeWhile (\<lambda>y. y \<noteq> t) ys)" for ys
    using l(1) Remove by (induction ys) auto
  then have "ahead p t (sched_step op s) \<le> ahead p t s" using Remove by (simp add: ahead_def remove_thread_from_scheduler_def rev_filter)
  then show ?thesis using ok w l Remove
    by (simp add: closeness_def wait_turn_def quota_def Let_def waiting_def counters_ok_def remove_thread_from_scheduler_def thd_def)
next
  case (Set_state x st)
  then show ?thesis using ok w l closeness_cong [of "sched_step op s" s p t] by (simp add: waiting_def counters_ok_def thd_upd ahead_def)
next
  case (Set_priority tid n)
  have "waiting p t (upd_thread x (\<lambda>y. y\<lparr>priority := m\<rparr>) s) \<and> counters_ok (upd_thread x (\<lambda>y. y\<lparr>priority := m\<rparr>) s) \<and>
      closeness p t (upd_thread x (\<lambda>y. y\<lparr>priority := m\<rparr>) s) = closeness p t s" for x m
    using ok w by (intro conjI closeness_cong) (auto simp: waiting_def counters_ok_def thd_upd ahead_def)
  then show ?thesis using Set_priority ok w by (simp add: thread_change_priority_def split: option.split)
qed (use l in simp)

text \<open>C4. No ready thread starves. Let \<open>t\<close> be ready and queued with \<open>n\<close> threads ahead of it in its queue. Whatever
  the CPUs and the other threads do, as long as nobody changes the state of \<open>t\<close> or removes it, \<open>t\<close> is
  running on some CPU after at most \<open>18 * (n + 1)\<close> ticks.\<close>

theorem no_starvation:
  assumes "counters_ok s" "waiting p t s" "\<forall>op \<in> set ops. leaves_alone t op"
    and "length (filter is_tick ops) \<ge> 18 * (ahead p t s + 1)"
  shows "\<exists>ops1 c ops2. ops = ops1 @ Tick c # ops2 \<and> curr_thread (fold sched_step (ops1 @ [Tick c]) s) c = Some t \<and>
    tstate (thd (fold sched_step (ops1 @ [Tick c]) s) t) = THREAD_RUNNING"
proof -
  have "length (filter is_tick ops) > closeness p t s"
    using assms(4) wait_turn_bound [OF assms(1)] assms(2) by (fastforce simp: closeness_def waiting_def)
  with assms(1-3) show ?thesis
  proof (induction ops arbitrary: s)
    case (Cons op ops)
    show ?case
    proof (cases "is_tick op")
      case True
      then obtain c where op: "op = Tick c" by (cases op) auto
      from tick_progress [OF Cons.prems(1,2), of c] show ?thesis
      proof (elim conjE disjE)
        assume "curr_thread (scheduler_tick c s) c = Some t" "tstate (thd (scheduler_tick c s) t) = THREAD_RUNNING"
        then show ?thesis using op by (intro exI [of _ "[]"] exI [of _ c] exI [of _ ops]) simp
      next
        assume n: "counters_ok (scheduler_tick c s)" "waiting p t (scheduler_tick c s)" "closeness p t (scheduler_tick c s) < closeness p t s"
        then have "length (filter is_tick ops) > closeness p t (scheduler_tick c s)" using Cons.prems(4) op by simp
        from Cons.IH [OF n(1,2) _ this] Cons.prems(3) obtain ops1 c' ops2 where
            i: "ops = ops1 @ Tick c' # ops2" "curr_thread (fold sched_step (ops1 @ [Tick c']) (scheduler_tick c s)) c' = Some t"
              "tstate (thd (fold sched_step (ops1 @ [Tick c']) (scheduler_tick c s)) t) = THREAD_RUNNING" by auto
        then show ?thesis using op by (intro exI [of _ "op # ops1"] exI [of _ c'] exI [of _ ops2]) simp
      qed
    next
      case False
      note n = other_progress [OF Cons.prems(1,2) _ False]
      have l: "leaves_alone t op" using Cons.prems(3) by simp
      have "length (filter is_tick ops) > closeness p t (sched_step op s)" using Cons.prems(4) False n [OF l] by simp
      with Cons.IH [of "sched_step op s"] n [OF l] Cons.prems(3) obtain ops1 c' ops2 where
          i: "ops = ops1 @ Tick c' # ops2" "curr_thread (fold sched_step (ops1 @ [Tick c']) (sched_step op s)) c' = Some t"
            "tstate (thd (fold sched_step (ops1 @ [Tick c']) (sched_step op s)) t) = THREAD_RUNNING" by auto
      then show ?thesis by (intro exI [of _ "op # ops1"] exI [of _ c'] exI [of _ ops2]) simp
    qed
  qed simp
qed

definition idle_tcb :: "nat \<Rightarrow> tcb" where
  "idle_tcb p = \<lparr>tstate = THREAD_READY, stopped_state = THREAD_READY, t_pcb = p, return_value = 0, is_joinable = True,
     waiting_on_this = [], t_pending = 0, tmask = 0, priority = 1, blocked_until = 0, waiting_for_pid = - 2, waiting_for_flags = 0\<rparr>"

definition two_threads :: ks where
  "two_threads = \<lparr>threads = [idle_tcb 0, idle_tcb 0], processes = [], thread_ready_queues = (\<lambda>p. if p = 1 then [1, 0] else []),
     pri_counters = (\<lambda>_. 0), curr_pri = 0, curr_thread = (\<lambda>_. None), scheduler_ticks = (\<lambda>_. 0), pgrps = (\<lambda>_. None), tty_calls = []\<rparr>"

theorem no_starvation_witness:
  "\<exists>ops1 c ops2. replicate 36 (Tick 0) = ops1 @ Tick c # ops2 \<and> curr_thread (fold sched_step (ops1 @ [Tick c]) two_threads) c = Some 1"
proof -
  have "counters_ok two_threads" "waiting 1 1 two_threads" "ahead 1 1 two_threads = 1"
    by (simp_all add: counters_ok_def waiting_def two_threads_def thd_def idle_tcb_def ahead_def)
  then show ?thesis using no_starvation [of two_threads 1 1 "replicate 36 (Tick 0)"] by (auto simp: filter_replicate)
qed

end
