(* ===== verification/Thread_Inv.thy ===== *)
theory Thread_Inv
  imports Signals Sched_Fair
begin

section \<open>The books of the process table\<close>

text \<open>
  Every process counts its threads by the class of their state, and the state of the process follows from
  these counters: \<open>waitpid\<close> reads it to find a zombie, stopped or continued child. The counters are
  changed before the state of the thread, and in between the change is reported up the process tree, where
  it may unblock other threads. \<open>books s D\<close> says that the counters are off by \<open>D\<close>.
\<close>

datatype tclass = Running | Blocked | Stopped | Zombie

definition cls :: "thread_state \<Rightarrow> tclass option" where
  "cls st =
     (case st of
        THREAD_UNUSED \<Rightarrow> None
      | THREAD_READY \<Rightarrow> Some Running
      | THREAD_RUNNING \<Rightarrow> Some Running
      | THREAD_STOPPED \<Rightarrow> Some Stopped
      | THREAD_ZOMBIE \<Rightarrow> Some Zombie
      | _ \<Rightarrow> Some Blocked)"

fun counter :: "tclass \<Rightarrow> pcb \<Rightarrow> int" where
  "counter Running p = num_running_threads p"
| "counter Blocked p = num_blocked_threads p"
| "counter Stopped p = num_stopped_threads p"
| "counter Zombie p = num_zombie_threads p"

definition threads_in :: "ks \<Rightarrow> nat \<Rightarrow> tclass \<Rightarrow> int" where
  "threads_in s p k = int (length (filter (\<lambda>x. t_pcb x = p \<and> cls (tstate x) = Some k) (threads s)))"

definition delta :: "thread_state \<Rightarrow> thread_state \<Rightarrow> tclass \<Rightarrow> int" where
  "delta old new k = of_bool (cls new = Some k) - of_bool (cls old = Some k)"

definition books :: "ks \<Rightarrow> (nat \<Rightarrow> tclass \<Rightarrow> int) \<Rightarrow> bool" where
  "books s D \<longleftrightarrow> (\<forall>p < MAX_PROCESS_COUNT. \<forall>k. counter k (proc s p) = threads_in s p k + D p k)"

definition derived_state :: "pcb \<Rightarrow> process_state" where
  "derived_state p =
     (if num_running_threads p > 0 then PROC_RUNNING_STATE
      else if num_blocked_threads p > 0 then PROC_BLOCKED_STATE
      else if num_stopped_threads p > 0 then PROC_STOPPED_STATE else PROC_ZOMBIE_STATE)"

text \<open>The parts of the tables that none of the operations here changes. A process of smaller rank is closer to the
  root of the process tree; \<open>init\<close> is its own parent and never waits in \<open>waitpid\<close>.\<close>

definition tables_ok :: "(nat \<Rightarrow> nat) \<Rightarrow> ks \<Rightarrow> bool" where
  "tables_ok rk s \<longleftrightarrow>
     length (processes s) = MAX_PROCESS_COUNT \<and>
     (\<forall>t < length (threads s). t_pcb (thd s t) < MAX_PROCESS_COUNT \<and> priority (thd s t) < 3) \<and>
     (\<forall>q < MAX_PROCESS_COUNT. \<forall>tid \<in> set (child_waitq (proc s q)). \<forall>t. tid = int t \<longrightarrow> t < length (threads s) \<longrightarrow> t_pcb (thd s t) = q) \<and>
     (\<forall>p q. p < MAX_PROCESS_COUNT \<longrightarrow> q < MAX_PROCESS_COUNT \<longrightarrow> ppid (proc s p) = int q \<longrightarrow> rk q < rk p \<or> child_waitq (proc s q) = [])"

definition states_ok :: "ks \<Rightarrow> bool" where
  "states_ok s \<longleftrightarrow> (\<forall>p < MAX_PROCESS_COUNT. pstate (proc s p) \<noteq> PROC_UNUSED_STATE \<longrightarrow> pstate (proc s p) = derived_state (proc s p))"

definition queues_ok :: "ks \<Rightarrow> bool" where
  "queues_ok s \<longleftrightarrow>
     counters_ok s \<and> distinct (thread_ready_queues s 0 @ thread_ready_queues s 1 @ thread_ready_queues s 2) \<and>
     (\<forall>t < length (threads s). tstate (thd s t) = THREAD_READY \<longrightarrow> (\<exists>p < 3. t \<in> set (thread_ready_queues s p)))"

lemma tables_okD:
  assumes "tables_ok rk s"
  shows "length (processes s) = MAX_PROCESS_COUNT" "t < length (threads s) \<Longrightarrow> t_pcb (thd s t) < MAX_PROCESS_COUNT"
    "t < length (threads s) \<Longrightarrow> priority (thd s t) < 3"
    "q < MAX_PROCESS_COUNT \<Longrightarrow> int t \<in> set (child_waitq (proc s q)) \<Longrightarrow> t < length (threads s) \<Longrightarrow> t_pcb (thd s t) = q"
    "p < MAX_PROCESS_COUNT \<Longrightarrow> q < MAX_PROCESS_COUNT \<Longrightarrow> ppid (proc s p) = int q \<Longrightarrow> tid \<in> set (child_waitq (proc s q)) \<Longrightarrow> rk q < rk p"
proof -
  have "rk q < rk p \<or> child_waitq (proc s q) = []" if "p < MAX_PROCESS_COUNT" "q < MAX_PROCESS_COUNT" "ppid (proc s p) = int q"
    using assms that unfolding tables_ok_def by blast
  then show "p < MAX_PROCESS_COUNT \<Longrightarrow> q < MAX_PROCESS_COUNT \<Longrightarrow> ppid (proc s p) = int q \<Longrightarrow> tid \<in> set (child_waitq (proc s q)) \<Longrightarrow> rk q < rk p"
    by fastforce
qed (use assms in \<open>unfold tables_ok_def, blast+\<close>)

subsection \<open>Counting\<close>

lemma count_update:
  "i < length xs \<Longrightarrow> int (length (filter P (xs[i := y]))) = int (length (filter P xs)) + of_bool (P y) - of_bool (P (xs ! i))"
proof (induction xs arbitrary: i)
  case (Cons a xs)
  show ?case
  proof (cases i)
    case (Suc j)
    then show ?thesis using Cons.IH [of j] Cons.prems by (simp split: if_splits)
  qed simp
qed simp

lemma threads_in_upd:
  assumes "t < length (threads s)" "\<And>x. t_pcb (f x) = t_pcb x"
  shows "threads_in (upd_thread t f s) p k =
    threads_in s p k + (if t_pcb (thd s t) = p then delta (tstate (thd s t)) (tstate (f (thd s t))) k else 0)"
  using assms by (auto simp: threads_in_def upd_thread_def count_update thd_def delta_def)

lemma counter_change: "counter k (enter_state new (leave_state old p)) = counter k p + delta old new k"
  by (cases k; cases old; cases new) (simp_all add: enter_state_def leave_state_def delta_def cls_def)

lemma proc_upd: "proc (upd_proc p f s) q = (if q = p \<and> p < length (processes s) then f (proc s p) else proc s q)"
  by (cases "p < length (processes s)") (auto simp: proc_def upd_proc_def nth_list_update list_update_beyond)

lemma upd_proc_simps [simp]:
  "threads (upd_proc p f s) = threads s" "thread_ready_queues (upd_proc p f s) = thread_ready_queues s"
  "pri_counters (upd_proc p f s) = pri_counters s" "curr_pri (upd_proc p f s) = curr_pri s"
  "curr_thread (upd_proc p f s) = curr_thread s" "length (processes (upd_proc p f s)) = length (processes s)"
  "thd (upd_proc p f s) = thd s" "pgrps (upd_proc p f s) = pgrps s" "threads_in (upd_proc p f s) = threads_in s"
  by (simp_all add: upd_proc_def thd_def fun_eq_iff threads_in_def)

lemma proc_upd_thread [simp]: "proc (upd_thread t f s) = proc s" by (simp add: proc_def fun_eq_iff)

text \<open>What an operation may change of the tables.\<close>

definition static :: "ks \<Rightarrow> ks \<Rightarrow> bool" where
  "static s s' \<longleftrightarrow>
     length (threads s') = length (threads s) \<and> length (processes s') = length (processes s) \<and> pgrps s' = pgrps s \<and>
     (\<forall>t < length (threads s). t_pcb (thd s' t) = t_pcb (thd s t) \<and> priority (thd s' t) = priority (thd s t)) \<and>
     (\<forall>p. ppid (proc s' p) = ppid (proc s p) \<and> pgid (proc s' p) = pgid (proc s p) \<and> tids (proc s' p) = tids (proc s p) \<and>
        child_waitq (proc s' p) = child_waitq (proc s p) \<and> sigactions (proc s' p) = sigactions (proc s p) \<and>
        p_pending (proc s' p) = p_pending (proc s p))"

lemma static_refl [simp]: "static s s" by (simp add: static_def)

lemma static_trans: "static s s' \<Longrightarrow> static s' s'' \<Longrightarrow> static s s''" by (simp add: static_def)

lemma tables_ok_static: "static s s' \<Longrightarrow> tables_ok rk s \<Longrightarrow> tables_ok rk s'"
  by (simp add: static_def tables_ok_def)

lemma static_upd_thread:
  assumes "\<And>x. t_pcb (f x) = t_pcb x" "\<And>x. priority (f x) = priority x"
  shows "static s (upd_thread t f s)"
  using assms by (auto simp: static_def thd_upd)

lemma static_add [simp]: "static s (add_thread_to_scheduler t s)"
  by (simp add: static_def add_thread_to_scheduler_def thd_def proc_def Let_def)

subsection \<open>Reporting a change up the process tree\<close>

text \<open>A step that keeps all invariants and changes only states of threads of processes of rank below \<open>r\<close>.\<close>

definition quiet :: "(nat \<Rightarrow> nat) \<Rightarrow> nat \<Rightarrow> ks \<Rightarrow> ks \<Rightarrow> bool" where
  "quiet rk r s s' \<longleftrightarrow>
     static s s' \<and> (\<forall>t < length (threads s). tstate (thd s' t) \<noteq> tstate (thd s t) \<longrightarrow> rk (t_pcb (thd s t)) < r) \<and>
     (\<forall>D. books s D \<longrightarrow> books s' D) \<and> (states_ok s \<longrightarrow> states_ok s') \<and> (queues_ok s \<longrightarrow> queues_ok s')"

lemma quiet_refl [simp]: "quiet rk r s s" by (simp add: quiet_def)

lemma quiet_steps:
  assumes a: "quiet rk r s s'" and b: "quiet rk r s' s''"
  shows "quiet rk r s s''"
proof -
  have st: "static s s'" "static s' s''" using a b by (simp_all add: quiet_def)
  have "rk (t_pcb (thd s t)) < r" if "t < length (threads s)" "tstate (thd s'' t) \<noteq> tstate (thd s t)" for t
  proof (cases "tstate (thd s' t) = tstate (thd s t)")
    case True
    then have "rk (t_pcb (thd s' t)) < r" using b that st(1) by (simp add: quiet_def static_def)
    then show ?thesis using st(1) that(1) by (simp add: static_def)
  qed (use a that(1) in \<open>simp add: quiet_def\<close>)
  then show ?thesis using a b static_trans [OF st] by (simp add: quiet_def)
qed

lemma quiet_mono: "quiet rk r s s' \<Longrightarrow> r \<le> r' \<Longrightarrow> quiet rk r' s s'" by (fastforce simp: quiet_def)

text \<open>The same, but the counters of one process have moved for a thread that goes from \<open>old\<close> to \<open>new\<close>.\<close>

definition reported :: "(nat \<Rightarrow> nat) \<Rightarrow> nat \<Rightarrow> thread_state \<Rightarrow> thread_state \<Rightarrow> ks \<Rightarrow> ks \<Rightarrow> bool" where
  "reported rk p old new s s' \<longleftrightarrow>
     static s s' \<and> (\<forall>t < length (threads s). tstate (thd s' t) \<noteq> tstate (thd s t) \<longrightarrow> rk (t_pcb (thd s t)) < rk p) \<and>
     (\<forall>D. books s D \<longrightarrow> books s' (D(p := \<lambda>k. D p k + delta old new k))) \<and>
     (states_ok s \<longrightarrow> states_ok s') \<and> (queues_ok s \<longrightarrow> queues_ok s')"

lemma reported_quiet:
  assumes a: "reported rk p old new s s'" and b: "quiet rk (rk p) s' s''"
  shows "reported rk p old new s s''"
proof -
  have st: "static s s'" "static s' s''" using a b by (simp_all add: reported_def quiet_def)
  have "rk (t_pcb (thd s t)) < rk p" if "t < length (threads s)" "tstate (thd s'' t) \<noteq> tstate (thd s t)" for t
  proof (cases "tstate (thd s' t) = tstate (thd s t)")
    case True
    then have "rk (t_pcb (thd s' t)) < rk p" using b that st(1) by (simp add: quiet_def static_def)
    then show ?thesis using st(1) that(1) by (simp add: static_def)
  qed (use a that(1) in \<open>simp add: reported_def\<close>)
  then show ?thesis using a b static_trans [OF st] by (simp add: reported_def quiet_def)
qed

lemma queues_ok_proc: "queues_ok (upd_proc p f s) = queues_ok s"
  by (simp add: queues_ok_def counters_ok_def)

lemma count_change_reported:
  assumes "length (processes s) = MAX_PROCESS_COUNT" "p < MAX_PROCESS_COUNT"
  shows "reported rk p old new s (count_change p old new s)" "pstate (proc (count_change p old new s) p) = derived_state (proc (count_change p old new s) p)"
proof -
  let ?f = "\<lambda>x. enter_state new (leave_state old x)"
  have f: "ppid (?f x) = ppid x \<and> pgid (?f x) = pgid x \<and> tids (?f x) = tids x \<and> child_waitq (?f x) = child_waitq x \<and>
      sigactions (?f x) = sigactions x \<and> p_pending (?f x) = p_pending x" for x
    by (cases old; cases new) (simp_all add: enter_state_def leave_state_def)
  define g where "g x = ?f x\<lparr>pstate := derived_state (?f x)\<rparr>" for x
  have d: "derived_state (x\<lparr>pstate := st\<rparr>) = derived_state x" for x st by (simp add: derived_state_def)
  have cc: "count_change p old new s = upd_proc p g s"
    using assms by (auto simp: count_change_def Let_def upd_proc_def proc_def g_def derived_state_def)
  have gc: "counter k (g x) = counter k x + delta old new k" for k x
    using counter_change [of k new old x] by (cases k) (simp_all add: g_def)
  have st: "static s (upd_proc p g s)" using f assms by (simp add: static_def proc_upd g_def)
  have b: "books (upd_proc p g s) (D(p := \<lambda>k. D p k + delta old new k))" if "books s D" for D
    using that assms gc by (simp add: books_def proc_upd)
  have so: "states_ok (upd_proc p g s)" if "states_ok s" using that assms by (simp add: states_ok_def proc_upd g_def d)
  show "reported rk p old new s (count_change p old new s)" unfolding cc reported_def using st b so by (simp add: queues_ok_proc)
  show "pstate (proc (count_change p old new s) p) = derived_state (proc (count_change p old new s) p)"
    unfolding cc using assms by (simp add: proc_upd g_def d)
qed

text \<open>Setting the state of one thread, with its place in the ready queues.\<close>

lemma set_state_books:
  assumes b: "books s D" and t: "t < length (threads s)" and f: "\<And>x. t_pcb (f x) = t_pcb x"
  shows "books (upd_thread t f s) (D(t_pcb (thd s t) := \<lambda>k. D (t_pcb (thd s t)) k - delta (tstate (thd s t)) (tstate (f (thd s t))) k))"
  using b threads_in_upd [OF t f] by (simp add: books_def)

lemma set_state_queues:
  assumes q: "queues_ok s" and f: "tstate (f (thd s t)) \<noteq> THREAD_READY"
  shows "queues_ok (upd_thread t f s)"
  using assms by (auto simp: queues_ok_def counters_ok_def thd_upd)

lemma make_ready_queues:
  assumes q: "queues_ok s" and t: "t < length (threads s)" and f: "tstate (f (thd s t)) = THREAD_READY" "priority (f (thd s t)) < 3"
  shows "queues_ok (add_thread_to_scheduler t (upd_thread t f s))"
proof -
  let ?u = "upd_thread t f s"
  have u: "thd ?u t = f (thd s t)" using t by (simp add: thd_upd)
  have d: "distinct (thread_ready_queues s 0 @ thread_ready_queues s 1 @ thread_ready_queues s 2)"
    and c: "counters_ok s" and r: "\<And>x. x < length (threads s) \<Longrightarrow> tstate (thd s x) = THREAD_READY \<Longrightarrow> \<exists>p < 3. x \<in> set (thread_ready_queues s p)"
    using q by (auto simp: queues_ok_def)
  show ?thesis
  proof (cases "\<exists>p \<in> {0, 1, 2}. t \<in> set (thread_ready_queues s p)")
    case True
    then obtain p where "p \<in> {0, 1, 2}" "t \<in> set (thread_ready_queues s p)" by blast
    moreover from this have "p < 3" by auto
    ultimately have "\<exists>p < 3. t \<in> set (thread_ready_queues s p)" by blast
    then show ?thesis using True r c d u f by (auto simp: queues_ok_def add_thread_to_scheduler_def thd_upd counters_ok_def)
  next
    case False
    let ?p = "priority (f (thd s t))"
    have a: "add_thread_to_scheduler t ?u = ?u\<lparr>thread_ready_queues := (thread_ready_queues s)(?p := t # thread_ready_queues s ?p)\<rparr>" (is "_ = ?v")
      using False u f by (simp add: add_thread_to_scheduler_def Let_def)
    have p: "?p = 0 \<or> ?p = 1 \<or> ?p = 2" using f(2) by auto
    have "distinct (thread_ready_queues ?v 0 @ thread_ready_queues ?v 1 @ thread_ready_queues ?v 2)"
      using p d False by (elim disjE) auto
    moreover have "\<exists>p < 3. x \<in> set (thread_ready_queues ?v p)" if "x < length (threads ?v)" "tstate (thd ?v x) = THREAD_READY" for x
    proof (cases "x = t")
      case True
      then show ?thesis using f(2) by auto
    next
      case False
      then have "tstate (thd s x) = THREAD_READY" "x < length (threads s)" using that by (simp_all add: thd_def upd_thread_def)
      then obtain p where "p < 3" "x \<in> set (thread_ready_queues s p)" using r by blast
      then show ?thesis by (intro exI [of _ p]) auto
    qed
    moreover have "counters_ok ?v" using c by (simp add: counters_ok_def)
    ultimately show ?thesis unfolding a by (simp add: queues_ok_def)
  qed
qed

lemma unblock_quiet:
  assumes rep: "\<And>s'. change (t_pcb (thd s t)) (tstate (thd s t)) THREAD_READY s = Some s' \<Longrightarrow>
      reported rk (t_pcb (thd s t)) (tstate (thd s t)) THREAD_READY s s'"
    and t: "t < length (threads s)" and T: "tables_ok rk s" and u: "unblock_with change t s = Some s'" and r: "rk (t_pcb (thd s t)) < r"
  shows "quiet rk r s s'"
proof (cases "is_blocked (tstate (thd s t))")
  case True
  let ?f = "\<lambda>x. x\<lparr>tstate := THREAD_READY, blocked_until := 0\<rparr>"
  let ?q = "t_pcb (thd s t)"
  obtain s1 where s1: "change ?q (tstate (thd s t)) THREAD_READY s = Some s1" "s' = add_thread_to_scheduler t (upd_thread t ?f s1)"
    using u True by (auto simp: unblock_with_def split: option.splits)
  have R: "static s s1" "\<forall>x < length (threads s). tstate (thd s1 x) \<noteq> tstate (thd s x) \<longrightarrow> rk (t_pcb (thd s x)) < rk ?q"
      "\<forall>D. books s D \<longrightarrow> books s1 (D(?q := \<lambda>k. D ?q k + delta (tstate (thd s t)) THREAD_READY k))"
      "states_ok s \<longrightarrow> states_ok s1" "queues_ok s \<longrightarrow> queues_ok s1" using rep [OF s1(1)] by (simp_all add: reported_def)
  have t1: "t < length (threads s1)" "t_pcb (thd s1 t) = ?q" "tstate (thd s1 t) = tstate (thd s t)" "priority (thd s1 t) < 3"
    using R(1,2) t T by (auto simp: static_def tables_ok_def)
  have "static s s'" using static_trans [OF R(1) static_trans [OF static_upd_thread static_add]] unfolding s1(2) by simp
  moreover have "\<forall>x < length (threads s). tstate (thd s' x) \<noteq> tstate (thd s x) \<longrightarrow> rk (t_pcb (thd s x)) < r"
  proof (intro allI impI)
    fix x assume x: "x < length (threads s)" "tstate (thd s' x) \<noteq> tstate (thd s x)"
    show "rk (t_pcb (thd s x)) < r"
    proof (cases "x = t")
      case False
      then have "tstate (thd s1 x) \<noteq> tstate (thd s x)" using x(2) unfolding s1(2) by (simp add: thd_def add_keeps upd_thread_def)
      then show ?thesis using R(2) x(1) r by auto
    qed (use r in simp)
  qed
  moreover have "books s' D" if "books s D" for D
  proof -
    have "books s1 (D(?q := \<lambda>k. D ?q k + delta (tstate (thd s t)) THREAD_READY k))" using R(3) that by blast
    from set_state_books [OF this t1(1), of ?f] have "books (upd_thread t ?f s1) D" by (simp add: t1)
    then show ?thesis unfolding s1(2) by (simp add: books_def threads_in_def add_keeps proc_def add_thread_to_scheduler_def Let_def)
  qed
  moreover have "states_ok s'" if "states_ok s"
    using that R(4) unfolding s1(2) by (simp add: states_ok_def proc_def add_thread_to_scheduler_def Let_def)
  moreover have "queues_ok s'" if "queues_ok s"
    unfolding s1(2) by (rule make_ready_queues) (use that R(5) t1 in simp_all)
  ultimately show ?thesis by (simp add: quiet_def)
qed (use u in \<open>simp add: unblock_with_def\<close>)

lemma thread_got: "thread_get_by_tid tid s = Some t \<Longrightarrow> tid = int t \<and> t < length (threads s)"
  by (auto simp: thread_get_by_tid_def split: if_splits)

lemma wake_waiter_unblocks:
  assumes "wake_waiter unblock c q s = Some s'"
  shows "s' = s \<or> (\<exists>t. int t \<in> set q \<and> t < length (threads s) \<and> unblock t s = Some s')"
  using assms
  by (induction q) (auto split: option.splits if_splits dest: thread_got)

lemma wake_waiter_total:
  assumes "\<And>t. int t \<in> set q \<Longrightarrow> t < length (threads s) \<Longrightarrow> \<exists>s'. unblock t s = Some s'"
  shows "\<exists>s'. wake_waiter unblock c q s = Some s'"
  using assms
  by (induction q) (auto split: option.splits dest: thread_got)

lemma note_child_quiet: "quiet rk r s (note_child c s)" "threads (note_child c s) = threads s"
    "length (processes (note_child c s)) = length (processes s)" "ppid (proc (note_child c s) q) = ppid (proc s q)"
    "child_waitq (proc (note_child c s) q) = child_waitq (proc s q)"
proof -
  have "quiet rk r s (upd_proc c f s)"
    if "\<And>x. ppid (f x) = ppid x \<and> pgid (f x) = pgid x \<and> tids (f x) = tids x \<and> child_waitq (f x) = child_waitq x \<and>
      sigactions (f x) = sigactions x \<and> p_pending (f x) = p_pending x \<and> pstate (f x) = pstate x" "\<And>k x. counter k (f x) = counter k x" for f
  proof -
    have d: "derived_state (f x) = derived_state x" for x
      using that(2) [of Running x] that(2) [of Blocked x] that(2) [of Stopped x] by (simp add: derived_state_def)
    have "counter k (proc (upd_proc c f s) p) = counter k (proc s p)" for k p by (simp add: proc_upd that(2))
    then show ?thesis using that(1) d by (auto simp: quiet_def static_def proc_upd books_def states_ok_def queues_ok_proc)
  qed
  moreover have "counter k (x\<lparr>wait_stop_pending := True\<rparr>) = counter k x" "counter k (x\<lparr>wait_cont_pending := True\<rparr>) = counter k x" for k x
    by (cases k; simp)+
  ultimately show "quiet rk r s (note_child c s)" by (simp add: note_child_def)
qed (auto simp: note_child_def proc_upd)

lemma sigchld_quiet:
  assumes un: "\<And>t s1 s2. t < length (threads s1) \<Longrightarrow> tables_ok rk s1 \<Longrightarrow> rk (t_pcb (thd s1 t)) < rk p \<Longrightarrow> unblock t s1 = Some s2 \<Longrightarrow> quiet rk (rk p) s1 s2"
    and T: "tables_ok rk s" and p: "p < MAX_PROCESS_COUNT" and run: "sigchld_with unblock (int p) s = Some (r, s')"
  shows "quiet rk (rk p) s s'"
proof (cases "get_pcb_by_pid (int p) s")
  case (Some c)
  then have c: "c = p" by (auto simp: get_pcb_by_pid_def split: if_splits)
  let ?s = "note_child p s"
  note N = note_child_quiet(1) [of rk "rk p" s p]
  have T1: "tables_ok rk ?s" using tables_ok_static [OF _ T] N by (simp add: quiet_def)
  show ?thesis
  proof (cases "get_pcb_by_pid (ppid (proc s p)) ?s")
    case None
    then show ?thesis using run N Some c by (simp add: sigchld_with_def Let_def note_child_quiet)
  next
    case (Some q)
    then have q: "ppid (proc s p) = int q" "q < MAX_PROCESS_COUNT" by (auto simp: get_pcb_by_pid_def split: if_splits)
    have "wake_waiter unblock p (child_waitq (proc s q)) ?s = Some s'"
      using run \<open>get_pcb_by_pid (int p) s = Some c\<close> Some c by (auto simp: sigchld_with_def Let_def note_child_quiet)
    from wake_waiter_unblocks [OF this] show ?thesis
    proof (elim disjE exE conjE)
      fix t assume t: "int t \<in> set (child_waitq (proc s q))" "t < length (threads ?s)" "unblock t ?s = Some s'"
      have "t_pcb (thd ?s t) = q" using tables_okD(4) [OF T q(2) t(1)] t(2) by (simp add: thd_def note_child_quiet(2))
      moreover have "rk q < rk p" by (rule tables_okD(5) [OF T p q(2,1) t(1)])
      ultimately show ?thesis using un [OF t(2) T1 _ t(3)] quiet_steps [OF N] by simp
    qed (use N in simp)
  qed
qed (use run in \<open>simp add: sigchld_with_def\<close>)

lemma sigchld_total:
  assumes un: "\<And>t s1. t < length (threads s1) \<Longrightarrow> tables_ok rk s1 \<Longrightarrow> rk (t_pcb (thd s1 t)) < rk p \<Longrightarrow> \<exists>s2. unblock t s1 = Some s2"
    and T: "tables_ok rk s" and p: "p < MAX_PROCESS_COUNT"
  shows "\<exists>r s'. sigchld_with unblock (int p) s = Some (r, s')"
proof (cases "get_pcb_by_pid (int p) s")
  case (Some c)
  then have c: "c = p" by (auto simp: get_pcb_by_pid_def split: if_splits)
  let ?s = "note_child p s"
  have T1: "tables_ok rk ?s" using tables_ok_static [OF _ T] note_child_quiet(1) [of rk 0 s p] by (simp add: quiet_def)
  show ?thesis
  proof (cases "get_pcb_by_pid (ppid (proc s p)) ?s")
    case None
    then show ?thesis using Some c by (simp add: sigchld_with_def Let_def note_child_quiet)
  next
    case q': (Some q)
    then have q: "ppid (proc s p) = int q" "q < MAX_PROCESS_COUNT" by (auto simp: get_pcb_by_pid_def split: if_splits)
    have "\<exists>s'. wake_waiter unblock p (child_waitq (proc s q)) ?s = Some s'"
    proof (rule wake_waiter_total)
      fix t assume t: "int t \<in> set (child_waitq (proc s q))" "t < length (threads ?s)"
      have "t_pcb (thd ?s t) = q" using tables_okD(4) [OF T q(2) t(1)] t(2) by (simp add: thd_def note_child_quiet(2))
      moreover have "rk q < rk p" by (rule tables_okD(5) [OF T p q(2,1) t(1)])
      ultimately show "\<exists>s'. unblock t ?s = Some s'" using un [OF t(2) T1] by simp
    qed
    then show ?thesis using Some q' c by (auto simp: sigchld_with_def Let_def note_child_quiet)
  qed
qed (simp add: sigchld_with_def)

lemma change_reported:
  assumes "tables_ok rk s" "p < MAX_PROCESS_COUNT"
  shows "pcb_thread_change_state d p old new s = Some s' \<Longrightarrow> reported rk p old new s s'"
    "rk p < d \<Longrightarrow> \<exists>s'. pcb_thread_change_state d p old new s = Some s'"
proof -
  have "(\<forall>s'. pcb_thread_change_state d p old new s = Some s' \<longrightarrow> reported rk p old new s s') \<and>
      (rk p < d \<longrightarrow> (\<exists>s'. pcb_thread_change_state d p old new s = Some s'))"
    using assms
  proof (induction d arbitrary: p old new s)
    case (Suc d)
    let ?s = "count_change p old new s" and ?u = "unblock_with (pcb_thread_change_state d)"
    note C = count_change_reported(1) [OF tables_okD(1) [OF Suc.prems(1)] Suc.prems(2), of rk old new]
    have T: "tables_ok rk ?s" using tables_ok_static [OF _ Suc.prems(1)] C by (simp add: reported_def)
    have un: "quiet rk (rk p) s1 s2" if "t < length (threads s1)" "tables_ok rk s1" "rk (t_pcb (thd s1 t)) < rk p" "?u t s1 = Some s2" for t s1 s2
      using unblock_quiet [OF _ that(1,2,4,3)] Suc.IH [OF that(2) tables_okD(2) [OF that(2,1)]] by blast
    have tot: "\<exists>s2. ?u t s1 = Some s2" if h: "t < length (threads s1)" "tables_ok rk s1" "rk (t_pcb (thd s1 t)) < rk p" "rk p < Suc d" for t s1
    proof -
      have "rk (t_pcb (thd s1 t)) < d" using h(3,4) by simp
      then obtain s2 where "pcb_thread_change_state d (t_pcb (thd s1 t)) (tstate (thd s1 t)) THREAD_READY s1 = Some s2"
        using Suc.IH [OF h(2) tables_okD(2) [OF h(2,1)]] by blast
      then show ?thesis by (simp add: unblock_with_def)
    qed
    show ?case
    proof (intro conjI allI impI)
      fix s' assume run: "pcb_thread_change_state (Suc d) p old new s = Some s'"
      have "quiet rk (rk p) ?s s'"
      proof (cases "pstate (proc ?s p) = PROC_BLOCKED_STATE")
        case False
        then obtain r where S: "sigchld_with ?u (int p) ?s = Some (r, s')" using run by (auto simp: Let_def)
        show ?thesis by (rule sigchld_quiet [where unblock = ?u, OF _ T Suc.prems(2) S]) (rule un, assumption+)
      qed (use run in simp)
      then show "reported rk p old new s s'" by (rule reported_quiet [OF C])
    next
      assume r: "rk p < Suc d"
      have "\<exists>r s'. sigchld_with ?u (int p) ?s = Some (r, s')"
        by (rule sigchld_total [where unblock = ?u, OF _ T Suc.prems(2)]) (rule tot [OF _ _ _ r], assumption+)
      then show "\<exists>s'. pcb_thread_change_state (Suc d) p old new s = Some s'" by (auto simp: Let_def)
    qed
  qed simp
  then show "pcb_thread_change_state d p old new s = Some s' \<Longrightarrow> reported rk p old new s s'"
    "rk p < d \<Longrightarrow> \<exists>s'. pcb_thread_change_state d p old new s = Some s'" by blast+
qed

subsection \<open>The invariant and the scheduler\<close>

definition kinv_ok :: "(nat \<Rightarrow> nat) \<Rightarrow> ks \<Rightarrow> bool" where
  "kinv_ok rk s \<longleftrightarrow>
     tables_ok rk s \<and> books s (\<lambda>_ _. 0) \<and> states_ok s \<and> queues_ok s \<and> (\<forall>p < MAX_PROCESS_COUNT. \<not> bit (p_pending (proc s p)) 31)"

definition keeps :: "(nat \<Rightarrow> nat) \<Rightarrow> ks \<Rightarrow> ks option \<Rightarrow> bool" where
  "keeps rk s r \<longleftrightarrow> (\<exists>s'. r = Some s' \<and> kinv_ok rk s' \<and> length (threads s') = length (threads s))"

lemma keepsI: "kinv_ok rk s' \<Longrightarrow> length (threads s') = length (threads s) \<Longrightarrow> keeps rk s (Some s')" by (simp add: keeps_def)

lemma keeps_bind:
  assumes "keeps rk s r" "\<And>s'. kinv_ok rk s' \<Longrightarrow> length (threads s') = length (threads s) \<Longrightarrow> keeps rk s' (f s')"
  shows "keeps rk s (case r of None \<Rightarrow> None | Some s' \<Rightarrow> f s')"
proof -
  obtain s' where "r = Some s'" "kinv_ok rk s'" "length (threads s') = length (threads s)" using assms(1) by (auto simp: keeps_def)
  then show ?thesis using assms(2) [of s'] by (simp add: keeps_def)
qed

lemma keeps_map:
  assumes "keeps rk s r" "\<And>s'. kinv_ok rk s' \<Longrightarrow> kinv_ok rk (f s') \<and> length (threads (f s')) = length (threads s')"
  shows "keeps rk s (map_option f r)"
  using assms by (auto simp: keeps_def)

text \<open>Changes that touch neither states nor counters.\<close>

lemma kinv_cong:
  assumes "kinv_ok rk s" "threads s' = threads s" "processes s' = processes s" "thread_ready_queues s' = thread_ready_queues s"
    "pri_counters s' = pri_counters s" "curr_pri s' = curr_pri s"
  shows "kinv_ok rk s'"
  using assms unfolding kinv_ok_def tables_ok_def books_def states_ok_def queues_ok_def counters_ok_def threads_in_def thd_def proc_def by simp

lemma kinv_add:
  assumes "queues_ok (add_thread_to_scheduler t s)" "tables_ok rk s" "books s (\<lambda>_ _. 0)" "states_ok s" "\<forall>p < MAX_PROCESS_COUNT. \<not> bit (p_pending (proc s p)) 31"
  shows "kinv_ok rk (add_thread_to_scheduler t s)"
proof -
  have "proc (add_thread_to_scheduler t s) = proc s" by (simp add: proc_def add_thread_to_scheduler_def Let_def fun_eq_iff)
  moreover have "threads_in (add_thread_to_scheduler t s) = threads_in s" by (simp add: threads_in_def add_keeps fun_eq_iff)
  ultimately show ?thesis using assms tables_ok_static [OF static_add assms(2)] by (simp add: kinv_ok_def books_def states_ok_def)
qed

lemma kinv_upd_thread:
  assumes k: "kinv_ok rk s" and f: "\<And>x. t_pcb (f x) = t_pcb x" "\<And>x. priority x < 3 \<Longrightarrow> priority (f x) < 3" "\<And>x. tstate (f x) = tstate x"
  shows "kinv_ok rk (upd_thread t f s)"
proof (cases "t < length (threads s)")
  case True
  have "threads_in (upd_thread t f s) p k = threads_in s p k" for p k using threads_in_upd [OF True f(1)] by (simp add: f(3) delta_def)
  moreover have "tables_ok rk (upd_thread t f s)" using k f(1,2) by (auto simp: kinv_ok_def tables_ok_def thd_upd)
  moreover have "queues_ok (upd_thread t f s)" using k f(3) by (auto simp: kinv_ok_def queues_ok_def counters_ok_def thd_upd)
  ultimately show ?thesis using k by (simp add: kinv_ok_def books_def states_ok_def)
next
  case False
  then have "upd_thread t f s = s" by (simp add: upd_thread_def list_update_beyond)
  then show ?thesis using k by simp
qed

text \<open>The next thread leaves its queue; threads that are ready and not taken stay queued.\<close>

lemma pop_ready_rest:
  "pop_ready s xs = (r, rest) \<Longrightarrow> set rest \<subseteq> set xs \<and> (distinct xs \<longrightarrow> distinct rest) \<and>
    (\<forall>x \<in> set xs. tstate (thd s x) = THREAD_READY \<longrightarrow> r = Some x \<or> x \<in> set rest) \<and> (\<forall>x. r = Some x \<longrightarrow> tstate (thd s x) = THREAD_READY)"
  by (induction xs) (auto split: if_splits)

definition takes :: "nat option \<Rightarrow> ks \<Rightarrow> ks \<Rightarrow> bool" where
  "takes r s s' \<longleftrightarrow>
     threads s' = threads s \<and> processes s' = processes s \<and> counters_ok s' \<and> (\<forall>x. r = Some x \<longrightarrow> tstate (thd s x) = THREAD_READY) \<and>
     (\<forall>p. set (thread_ready_queues s' p) \<subseteq> set (thread_ready_queues s p) \<and> (distinct (thread_ready_queues s p) \<longrightarrow> distinct (thread_ready_queues s' p)) \<and>
        (\<forall>x \<in> set (thread_ready_queues s p). tstate (thd s x) = THREAD_READY \<longrightarrow> r = Some x \<or> x \<in> set (thread_ready_queues s' p)))"

lemma takes_trans:
  assumes a: "takes None s s1" and b: "takes r s1 s2"
  shows "takes r s s2"
proof -
  have t: "thd s1 = thd s" using a by (simp add: takes_def thd_def fun_eq_iff)
  have "set (thread_ready_queues s2 p) \<subseteq> set (thread_ready_queues s p) \<and> (distinct (thread_ready_queues s p) \<longrightarrow> distinct (thread_ready_queues s2 p)) \<and>
      (\<forall>x \<in> set (thread_ready_queues s p). tstate (thd s x) = THREAD_READY \<longrightarrow> r = Some x \<or> x \<in> set (thread_ready_queues s2 p))" for p
  proof -
    have A: "set (thread_ready_queues s1 p) \<subseteq> set (thread_ready_queues s p)" "distinct (thread_ready_queues s p) \<longrightarrow> distinct (thread_ready_queues s1 p)"
        "\<forall>x \<in> set (thread_ready_queues s p). tstate (thd s x) = THREAD_READY \<longrightarrow> x \<in> set (thread_ready_queues s1 p)"
      using a by (auto simp: takes_def)
    have B: "set (thread_ready_queues s2 p) \<subseteq> set (thread_ready_queues s1 p)" "distinct (thread_ready_queues s1 p) \<longrightarrow> distinct (thread_ready_queues s2 p)"
        "\<forall>x \<in> set (thread_ready_queues s1 p). tstate (thd s x) = THREAD_READY \<longrightarrow> r = Some x \<or> x \<in> set (thread_ready_queues s2 p)"
      using b t by (auto simp: takes_def)
    show ?thesis using A B by blast
  qed
  then show ?thesis using a b t by (simp add: takes_def)
qed

lemma next_thread_takes: "counters_ok s \<Longrightarrow> next_thread n s = (r, s') \<Longrightarrow> takes r s s'"
proof (induction n arbitrary: s)
  case (Suc n)
  let ?p = "curr_pri s"
  obtain x rest where p: "pop_ready s (rev (thread_ready_queues s ?p)) = (x, rest)" by (cases "pop_ready s (rev (thread_ready_queues s ?p))")
  note P = pop_ready_rest [OF p]
  show ?case
  proof (cases x)
    case None
    let ?s = "s\<lparr>thread_ready_queues := (thread_ready_queues s)(?p := rev rest), curr_pri := (?p + 1) mod 3\<rparr>"
    have "counters_ok ?s" using Suc.prems(1) by (simp add: counters_ok_def)
    then have "takes r ?s s'" "takes None s ?s" using Suc.IH [of ?s] Suc.prems(2) p None P by (auto simp: Let_def takes_def)
    then show ?thesis by (rule takes_trans [rotated])
  next
    case (Some y)
    have "r = Some y" "threads s' = threads s" "processes s' = processes s" "thread_ready_queues s' = (thread_ready_queues s)(?p := rev rest)"
      using Suc.prems(2) p Some by (auto simp: Let_def split: if_splits)
    moreover have "counters_ok s'" using Suc.prems p Some by (auto simp: counters_ok_def Let_def split: if_splits)
    ultimately show ?thesis using P Some by (auto simp: takes_def)
  qed
qed (simp add: takes_def)

lemma takes_queues:
  assumes k: "kinv_ok rk s" and t: "takes r s s'"
  shows "kinv_ok rk (case r of None \<Rightarrow> s' | Some x \<Rightarrow> upd_thread x (\<lambda>y. y\<lparr>tstate := THREAD_RUNNING\<rparr>) s')" (is "kinv_ok rk ?s")
proof -
  let ?q = "thread_ready_queues s" and ?q' = "thread_ready_queues s'"
  have T: "threads s' = threads s" "processes s' = processes s" "counters_ok s'" "\<And>x. r = Some x \<Longrightarrow> tstate (thd s x) = THREAD_READY"
      "\<And>p. set (?q' p) \<subseteq> set (?q p)" "\<And>p. distinct (?q p) \<Longrightarrow> distinct (?q' p)"
      "\<And>p x. x \<in> set (?q p) \<Longrightarrow> tstate (thd s x) = THREAD_READY \<Longrightarrow> r = Some x \<or> x \<in> set (?q' p)" using t by (auto simp: takes_def)
  have th: "thd s' = thd s" "proc s' = proc s" using T(1,2) by (simp_all add: thd_def proc_def fun_eq_iff)
  have Q: "distinct (?q 0 @ ?q 1 @ ?q 2)" "\<And>x. x < length (threads s) \<Longrightarrow> tstate (thd s x) = THREAD_READY \<Longrightarrow> \<exists>p < 3. x \<in> set (?q p)"
    using k by (auto simp: kinv_ok_def queues_ok_def)
  have d: "distinct (?q' 0 @ ?q' 1 @ ?q' 2)"
    using Q(1) T(6) [of 0] T(6) [of 1] T(6) [of 2] T(5) [of 0] T(5) [of 1] T(5) [of 2] by auto
  have q': "\<exists>p < 3. x \<in> set (?q' p)" if "x < length (threads s)" "tstate (thd s x) = THREAD_READY" "r \<noteq> Some x" for x
    using Q(2) [OF that(1,2)] T(7) [of x] that(2,3) by blast
  have in_: "threads_in s' = threads_in s" using T(1) by (simp add: threads_in_def fun_eq_iff)
  show ?thesis
  proof (cases r)
    case None
    then show ?thesis using k d q' T(1-3) th in_ by (simp add: kinv_ok_def tables_ok_def books_def states_ok_def queues_ok_def)
  next
    case (Some x)
    let ?u = "upd_thread x (\<lambda>y. y\<lparr>tstate := THREAD_RUNNING\<rparr>) s'"
    have "threads_in ?u p k = threads_in s p k" for p k
    proof (cases "x < length (threads s')")
      case True
      then show ?thesis using threads_in_upd [OF True, of "\<lambda>y. y\<lparr>tstate := THREAD_RUNNING\<rparr>"] T(4) [OF Some] th in_ by (simp add: delta_def cls_def)
    next
      case False
      then have "?u = s'" by (simp add: upd_thread_def list_update_beyond)
      then show ?thesis using in_ by simp
    qed
    moreover have "tables_ok rk ?u" using tables_ok_static [of s ?u rk] k T(1,2) th by (auto simp: kinv_ok_def static_def thd_upd tables_ok_def)
    moreover have "queues_ok ?u" using d q' T(1,3) th Some by (auto simp: queues_ok_def counters_ok_def thd_upd)
    ultimately show ?thesis using k Some th by (simp add: kinv_ok_def books_def states_ok_def)
  qed
qed

lemma tick_keeps:
  assumes k: "kinv_ok rk s"
  shows "kinv_ok rk (scheduler_tick c s)" "length (threads (scheduler_tick c s)) = length (threads s)"
proof -
  let ?s1 = "s\<lparr>scheduler_ticks := (scheduler_ticks s)(c := scheduler_ticks s c + 1)\<rparr>"
  let ?u = "\<lambda>t. upd_thread t (\<lambda>x. x\<lparr>tstate := THREAD_READY\<rparr>) ?s1"
  let ?s2 = "case curr_thread ?s1 c of None \<Rightarrow> ?s1 | Some t \<Rightarrow> if tstate (thd ?s1 t) = THREAD_RUNNING then add_thread_to_scheduler t (?u t) else ?s1"
  have k1: "kinv_ok rk ?s1" by (rule kinv_cong [OF k]) simp_all
  have "kinv_ok rk (add_thread_to_scheduler t (?u t))" if r: "tstate (thd ?s1 t) = THREAD_RUNNING" for t
  proof (cases "t < length (threads ?s1)")
    case True
    have q: "queues_ok (add_thread_to_scheduler t (?u t))"
      by (rule make_ready_queues) (use k1 True tables_okD(3) [of rk ?s1 t] in \<open>simp_all add: kinv_ok_def\<close>)
    have "threads_in (?u t) p k = threads_in ?s1 p k" for p k
      using threads_in_upd [OF True, of "\<lambda>x. x\<lparr>tstate := THREAD_READY\<rparr>"] r by (simp add: delta_def cls_def)
    moreover have "static ?s1 (?u t)" by (rule static_upd_thread) simp_all
    ultimately show ?thesis by (intro kinv_add q) (use k1 tables_ok_static [of ?s1 "?u t" rk] in \<open>simp_all add: kinv_ok_def books_def states_ok_def\<close>)
  next
    case False
    then have "?u t = ?s1" by (simp add: upd_thread_def list_update_beyond)
    moreover have "add_thread_to_scheduler t ?s1 = ?s1" using r by (simp add: add_thread_to_scheduler_def)
    ultimately show ?thesis using k1 by simp
  qed
  then have k2: "kinv_ok rk ?s2" "length (threads ?s2) = length (threads s)" using k1 by (auto simp: add_keeps(1) split: option.splits)
  obtain r s3 where g: "get_next_thread ?s2 = (r, s3)" by (cases "get_next_thread ?s2")
  have T: "takes r ?s2 s3" using next_thread_takes g k2(1) by (auto simp: get_next_thread_def kinv_ok_def queues_ok_def)
  have run: "scheduler_tick c s = (case r of None \<Rightarrow> s3\<lparr>curr_thread := (curr_thread s3)(c := None)\<rparr>
      | Some t \<Rightarrow> upd_thread t (\<lambda>x. x\<lparr>tstate := THREAD_RUNNING\<rparr>) (s3\<lparr>curr_thread := (curr_thread s3)(c := Some t)\<rparr>))"
    using g by (simp add: scheduler_tick_def Let_def split: option.split)
  show "kinv_ok rk (scheduler_tick c s)"
    by (rule kinv_cong [OF takes_queues [OF k2(1) T]]) (simp_all add: run upd_thread_def split: option.split)
  show "length (threads (scheduler_tick c s)) = length (threads s)" using T k2(2) by (simp add: run takes_def split: option.split)
qed

subsection \<open>The operations on threads\<close>

lemma quiet_kinv: "kinv_ok rk s \<Longrightarrow> quiet rk r s s' \<Longrightarrow> kinv_ok rk s' \<and> length (threads s') = length (threads s)"
  using tables_ok_static [of s s' rk] by (auto simp: kinv_ok_def quiet_def static_def)

lemma unblock_keeps:
  assumes k: "kinv_ok rk s" and d: "\<forall>p < MAX_PROCESS_COUNT. rk p < d" and t: "t < length (threads s)"
  shows "keeps rk s (unblock_thread d t s)"
proof -
  have T: "tables_ok rk s" using k by (simp add: kinv_ok_def)
  note C = change_reported [OF T tables_okD(2) [OF T t]]
  have "\<exists>s'. unblock_thread d t s = Some s'"
    using C(2) [of d "tstate (thd s t)" THREAD_READY] d tables_okD(2) [OF T t] by (auto simp: unblock_thread_def unblock_with_def)
  then obtain s' where u: "unblock_thread d t s = Some s'" by blast
  have "quiet rk (Suc (rk (t_pcb (thd s t)))) s s'"
    by (rule unblock_quiet [OF C(1) t T u [unfolded unblock_thread_def]]) simp_all
  from quiet_kinv [OF k this] u show ?thesis by (simp add: keeps_def)
qed

text \<open>\<open>enter_thread_state\<close>: the counters move first, then the state of the thread, and the books balance again.\<close>

lemma enter_balances:
  assumes k: "kinv_ok rk s" and d: "\<forall>p < MAX_PROCESS_COUNT. rk p < d" and t: "t < length (threads s)"
  shows "\<exists>s1. enter_thread_state d t new s = Some (upd_thread t (\<lambda>x. x\<lparr>tstate := new\<rparr>) s1) \<and> static s s1 \<and> tstate (thd s1 t) = tstate (thd s t) \<and>
    books (upd_thread t (\<lambda>x. x\<lparr>tstate := new\<rparr>) s1) (\<lambda>_ _. 0) \<and> states_ok s1 \<and> queues_ok s1"
proof -
  let ?q = "t_pcb (thd s t)" and ?f = "\<lambda>x. x\<lparr>tstate := new\<rparr>"
  have T: "tables_ok rk s" and B: "books s (\<lambda>_ _. 0)" "states_ok s" "queues_ok s" using k by (simp_all add: kinv_ok_def)
  note C = change_reported [OF T tables_okD(2) [OF T t]]
  obtain s1 where s1: "pcb_thread_change_state d ?q (tstate (thd s t)) new s = Some s1" using C(2) d tables_okD(2) [OF T t] by blast
  have R: "static s s1" "\<forall>x < length (threads s). tstate (thd s1 x) \<noteq> tstate (thd s x) \<longrightarrow> rk (t_pcb (thd s x)) < rk ?q"
      "\<forall>D. books s D \<longrightarrow> books s1 (D(?q := \<lambda>k. D ?q k + delta (tstate (thd s t)) new k))" "states_ok s1" "queues_ok s1"
    using C(1) [OF s1] B by (simp_all add: reported_def)
  have t1: "t < length (threads s1)" "t_pcb (thd s1 t) = ?q" "tstate (thd s1 t) = tstate (thd s t)" using R(1,2) t by (auto simp: static_def)
  from set_state_books [OF R(3) [rule_format, OF B(1)] t1(1), of ?f] have "books (upd_thread t ?f s1) (\<lambda>_ _. 0)" by (simp add: t1 fun_upd_def cong: if_cong)
  then show ?thesis using s1 R t1(3) by (intro exI [of _ s1]) (simp add: enter_thread_state_def)
qed

lemma enter_keeps:
  assumes k: "kinv_ok rk s" and d: "\<forall>p < MAX_PROCESS_COUNT. rk p < d" and t: "t < length (threads s)" and n: "new \<noteq> THREAD_READY"
  shows "keeps rk s (enter_thread_state d t new s)"
proof -
  let ?f = "\<lambda>x. x\<lparr>tstate := new\<rparr>"
  obtain s1 where e: "enter_thread_state d t new s = Some (upd_thread t ?f s1)" "static s s1" "books (upd_thread t ?f s1) (\<lambda>_ _. 0)" "states_ok s1" "queues_ok s1"
    using enter_balances [OF k d t] by blast
  have "queues_ok (upd_thread t ?f s1)" by (rule set_state_queues [OF e(5)]) (simp add: n)
  moreover have "static s (upd_thread t ?f s1)" by (rule static_trans [OF e(2) static_upd_thread]) simp_all
  ultimately show ?thesis using k e tables_ok_static [of s "upd_thread t ?f s1" rk]
    by (auto simp: keeps_def kinv_ok_def states_ok_def static_def)
qed

lemma enter_ready_keeps:
  assumes k: "kinv_ok rk s" and d: "\<forall>p < MAX_PROCESS_COUNT. rk p < d" and t: "t < length (threads s)"
  shows "keeps rk s (map_option (\<lambda>s. add_thread_to_scheduler t (upd_thread t (\<lambda>x. x\<lparr>stopped_state := THREAD_READY\<rparr>) s)) (enter_thread_state d t THREAD_READY s))"
proof -
  let ?f = "\<lambda>x. x\<lparr>tstate := THREAD_READY\<rparr>" and ?g = "\<lambda>x. x\<lparr>stopped_state := THREAD_READY\<rparr>"
  obtain s1 where e: "enter_thread_state d t THREAD_READY s = Some (upd_thread t ?f s1)" "static s s1" "books (upd_thread t ?f s1) (\<lambda>_ _. 0)" "states_ok s1" "queues_ok s1"
    using enter_balances [OF k d t] by blast
  let ?u = "upd_thread t ?g (upd_thread t ?f s1)"
  have t1: "t < length (threads s1)" using e(2) t by (simp add: static_def)
  have eq: "?u = upd_thread t (\<lambda>x. ?g (?f x)) s1" using t1 by (simp add: upd_thread_def)
  have st: "static s ?u" unfolding eq by (rule static_trans [OF e(2) static_upd_thread]) simp_all
  have T: "tables_ok rk s1" using tables_ok_static [OF e(2)] k by (simp add: kinv_ok_def)
  have q: "queues_ok (add_thread_to_scheduler t ?u)" unfolding eq
    by (rule make_ready_queues [OF e(5) t1]) (use tables_okD(3) [OF T t1] in simp_all)
  have "threads_in ?u p k = threads_in (upd_thread t ?f s1) p k" for p k
    using threads_in_upd [of t "upd_thread t ?f s1" ?g p k] t1 by (simp add: delta_def)
  then have b: "books ?u (\<lambda>_ _. 0)" using e(3) by (simp add: books_def)
  have "kinv_ok rk (add_thread_to_scheduler t ?u)"
    by (rule kinv_add [OF q _ b]) (use k st e(4) tables_ok_static [OF st] in \<open>auto simp: kinv_ok_def states_ok_def static_def\<close>)
  moreover have "length (threads (add_thread_to_scheduler t ?u)) = length (threads s)" using e(2) by (simp add: add_keeps static_def)
  ultimately show ?thesis using e(1) by (simp add: keeps_def)
qed

lemma keeps_trans: "keeps rk s (Some s1) \<Longrightarrow> keeps rk s1 r \<Longrightarrow> keeps rk s r" by (auto simp: keeps_def)

lemma log_tty_keeps: "kinv_ok rk s \<Longrightarrow> kinv_ok rk (log_tty e s)" "length (threads (log_tty e s)) = length (threads s)"
  by (rule kinv_cong) (simp_all add: log_tty_def)

lemma yield_keeps: "kinv_ok rk s \<Longrightarrow> kinv_ok rk (yield_if_current c t s) \<and> length (threads (yield_if_current c t s)) = length (threads s)"
  by (simp add: yield_if_current_def tick_keeps)

lemma stop_keeps:
  assumes k: "kinv_ok rk s" and d: "\<forall>p < MAX_PROCESS_COUNT. rk p < d" and t: "t < length (threads s)"
  shows "keeps rk s (stop_thread d c t s)"
proof -
  let ?s = "upd_thread t (\<lambda>x. x\<lparr>stopped_state := tstate x\<rparr>) (log_tty (Session_stop (t_pcb (thd s t))) s)"
  have k1: "kinv_ok rk ?s" by (rule kinv_upd_thread) (simp_all add: log_tty_keeps k)
  have t1: "t < length (threads ?s)" using t by (simp add: log_tty_keeps)
  have "keeps rk s (Some ?s)" by (rule keepsI [OF k1]) (simp add: log_tty_keeps)
  moreover have "keeps rk ?s (map_option (yield_if_current c t) (enter_thread_state d t THREAD_STOPPED ?s))"
    by (rule keeps_map [OF enter_keeps [OF k1 d t1] yield_keeps]) simp_all
  ultimately show ?thesis using k keeps_trans by (simp add: stop_thread_def Let_def keepsI)
qed

lemma terminate_keeps:
  assumes k: "kinv_ok rk s" and d: "\<forall>p < MAX_PROCESS_COUNT. rk p < d" and t: "t < length (threads s)"
  shows "keeps rk s (terminate_thread d c t s)"
proof -
  let ?s = "log_tty (Session_exit (t_pcb (thd s t))) s"
  have k1: "kinv_ok rk ?s" and t1: "t < length (threads ?s)" using k t by (simp_all add: log_tty_keeps)
  have "keeps rk s (Some ?s)" by (rule keepsI [OF k1]) (simp add: log_tty_keeps)
  moreover have "keeps rk ?s (map_option (yield_if_current c t) (enter_thread_state d t THREAD_ZOMBIE ?s))"
    by (rule keeps_map [OF enter_keeps [OF k1 d t1] yield_keeps]) simp_all
  ultimately show ?thesis using k keeps_trans by (simp add: terminate_thread_def keepsI)
qed

lemma block_keeps:
  assumes k: "kinv_ok rk s" and d: "\<forall>p < MAX_PROCESS_COUNT. rk p < d" and t: "t < length (threads s)"
  shows "keeps rk s (block_thread d c t st s)"
proof (cases "is_blocked st")
  case True
  then have "st \<noteq> THREAD_READY" by (auto simp: is_blocked_def)
  from keeps_map [OF enter_keeps [OF k d t this] yield_keeps] show ?thesis using True by (simp add: block_thread_def)
qed (use k in \<open>simp add: block_thread_def keepsI\<close>)

lemma continue_keeps:
  assumes k: "kinv_ok rk s" and d: "\<forall>p < MAX_PROCESS_COUNT. rk p < d" and t: "t < length (threads s)"
  shows "keeps rk s (continue_thread d t s)"
proof (cases "tstate (thd s t) = THREAD_STOPPED")
  case True
  let ?s = "log_tty (Session_continue (t_pcb (thd s t))) s"
  let ?n1 = "if stopped_state (thd s t) = THREAD_RUNNING then THREAD_READY else stopped_state (thd s t)"
  let ?n = "if is_blocked ?n1 \<and> blocked_until (thd s t) = 0 then THREAD_READY else ?n1"
  have k1: "kinv_ok rk ?s" and t1: "t < length (threads ?s)" using k t by (simp_all add: log_tty_keeps)
  have s: "keeps rk s (Some ?s)" by (rule keepsI [OF k1]) (simp add: log_tty_keeps)
  have run: "continue_thread d t s = map_option (\<lambda>s. let s = upd_thread t (\<lambda>x. x\<lparr>stopped_state := THREAD_READY\<rparr>) s
      in if ?n = THREAD_READY then add_thread_to_scheduler t s else s) (enter_thread_state d t ?n ?s)"
    using True by (simp add: continue_thread_def Let_def)
  have "keeps rk ?s (continue_thread d t s)"
  proof (cases "?n = THREAD_READY")
    case True
    then show ?thesis using enter_ready_keeps [OF k1 d t1] unfolding run by (simp add: Let_def)
  next
    case False
    have "keeps rk ?s (map_option (upd_thread t (\<lambda>x. x\<lparr>stopped_state := THREAD_READY\<rparr>)) (enter_thread_state d t ?n ?s))"
      by (rule keeps_map [OF enter_keeps [OF k1 d t1 False]]) (simp add: kinv_upd_thread)
    then show ?thesis using False unfolding run by (simp add: Let_def)
  qed
  then show ?thesis by (rule keeps_trans [OF s])
qed (use k in \<open>simp add: continue_thread_def keepsI\<close>)

lemma event_keeps:
  assumes k: "kinv_ok rk s" and d: "\<forall>p < MAX_PROCESS_COUNT. rk p < d"
  shows "keeps rk s (map_option snd (send_unblock_event d tid ev s))"
proof (cases "thread_get_by_tid tid s")
  case (Some t)
  then have "keeps rk s (unblock_thread d t s)" using unblock_keeps [OF k d] thread_got by blast
  then show ?thesis using Some k by (auto simp: send_unblock_event_def keepsI option.map_comp comp_def option.map_ident)
qed (use k in \<open>simp add: send_unblock_event_def keepsI\<close>)

subsection \<open>Signals\<close>

lemma clear_pending_keeps: "kinv_ok rk s \<Longrightarrow> kinv_ok rk (clear_pending t n s)" "length (threads (clear_pending t n s)) = length (threads s)"
  by (simp_all add: clear_pending_def kinv_upd_thread)

lemma handle_keeps:
  assumes k: "kinv_ok rk s" and d: "\<forall>p < MAX_PROCESS_COUNT. rk p < d" and t: "t < length (threads s)"
  shows "keeps rk s (handle_interruptable_signal d c t signum s)"
proof -
  let ?s = "clear_pending t signum s"
  have k1: "kinv_ok rk ?s" and t1: "t < length (threads ?s)" using k t by (simp_all add: clear_pending_keeps)
  have s: "keeps rk s (Some ?s)" by (rule keepsI [OF k1]) (simp add: clear_pending_keeps)
  note K = keeps_trans [OF s terminate_keeps [OF k1 d t1]] keeps_trans [OF s stop_keeps [OF k1 d t1]]
    keeps_trans [OF s continue_keeps [OF k1 d t1]] unblock_keeps [OF k d t] keepsI [OF k refl]
  show ?thesis using K unfolding handle_interruptable_signal_def Let_def by auto
qed

lemma shifted_out: "\<not> bit (w :: u32) 31 \<Longrightarrow> signed_drop_bit 31 w = 0"
  by (rule bit_word_eqI) (auto simp: bit_signed_drop_bit_iff not_less_eq_eq)

lemma kinv_pending:
  assumes k: "kinv_ok rk s" and p: "p < MAX_PROCESS_COUNT" and f: "\<not> bit (f (p_pending (proc s p))) 31"
  shows "kinv_ok rk (upd_proc p (\<lambda>x. x\<lparr>p_pending := f (p_pending x)\<rparr>) s)"
proof -
  let ?s = "upd_proc p (\<lambda>x. x\<lparr>p_pending := f (p_pending x)\<rparr>) s"
  have len: "length (processes s) = MAX_PROCESS_COUNT" using k by (simp add: kinv_ok_def tables_ok_def)
  have c: "counter c (proc ?s q) = counter c (proc s q)" for c q by (cases c) (simp_all add: proc_upd)
  have d: "derived_state (proc ?s q) = derived_state (proc s q)" for q by (simp add: proc_upd derived_state_def)
  have e: "ppid (proc ?s q) = ppid (proc s q)" "child_waitq (proc ?s q) = child_waitq (proc s q)" "pstate (proc ?s q) = pstate (proc s q)" for q
    by (simp_all add: proc_upd)
  have b: "\<not> bit (p_pending (proc ?s q)) 31" if "q < MAX_PROCESS_COUNT" for q using k f that len p by (simp add: proc_upd kinv_ok_def)
  show ?thesis using k b by (simp add: kinv_ok_def tables_ok_def books_def states_ok_def queues_ok_proc c d e)
qed

lemma drop_stops_keeps:
  assumes "kinv_ok rk s" "p < MAX_PROCESS_COUNT" "n + k = 32" "1 \<le> n"
  shows "keeps rk s (drop_stops n k p s)"
  using assms
proof (induction n arbitrary: k s)
  case (Suc n)
  let ?w = "p_pending (proc s p)"
  show ?case
  proof (cases "signed_drop_bit k ?w = 0")
    case False
    have "\<not> bit ?w 31" using Suc.prems(1,2) by (simp add: kinv_ok_def)
    then have "k \<noteq> 31" using False shifted_out by auto
    let ?s = "if ?w AND sigbit k \<noteq> 0 \<and> sa_handler (sigactions (proc s p) k) = SIG_STOP
      then upd_proc p (\<lambda>x. x\<lparr>p_pending := p_pending x AND NOT (sigbit k)\<rparr>) s else s"
    have "kinv_ok rk (upd_proc p (\<lambda>x. x\<lparr>p_pending := p_pending x AND NOT (sigbit k)\<rparr>) s)"
      by (rule kinv_pending [OF Suc.prems(1,2), of "\<lambda>w. w AND NOT (sigbit k)"]) (simp add: bit_and_iff \<open>\<not> bit ?w 31\<close>)
    then have k1: "kinv_ok rk ?s" "length (threads ?s) = length (threads s)" using Suc.prems(1) by simp_all
    have "keeps rk ?s (drop_stops n (k + 1) p ?s)" by (rule Suc.IH [OF k1(1)]) (use Suc.prems \<open>k \<noteq> 31\<close> in auto)
    then show ?thesis using False keeps_trans [OF keepsI [OF k1]] by simp
  qed (use Suc.prems(1) in \<open>simp add: keepsI\<close>)
qed simp

lemma pthread_kill_keeps:
  assumes k: "kinv_ok rk s" and d: "\<forall>p < MAX_PROCESS_COUNT. rk p < d"
  shows "keeps rk s (map_option snd (pthread_kill d c tid signal s))"
proof (cases "thread_get_by_tid tid s")
  case (Some t)
  then have t: "t < length (threads s)" using thread_got by blast
  have T: "tables_ok rk s" using k by (simp add: kinv_ok_def)
  have "keeps rk s (if signal = SIGCONT then drop_stops 32 0 (t_pcb (thd s t)) s else Some s)"
    using drop_stops_keeps [OF k tables_okD(2) [OF T t], of 32 0] keepsI [OF k refl] by simp
  then obtain s1 where s1: "(if signal = SIGCONT then drop_stops 32 0 (t_pcb (thd s t)) s else Some s) = Some s1" "kinv_ok rk s1" "length (threads s1) = length (threads s)"
    by (auto simp: keeps_def)
  let ?s = "upd_thread t (\<lambda>x. x\<lparr>t_pending := t_pending x OR sigbit signal\<rparr>) s1"
  have k2: "kinv_ok rk ?s" by (rule kinv_upd_thread [OF s1(2)]) simp_all
  from event_keeps [OF k2 d, of "int t" BLOCK_UNTIL_SIGNAL] obtain u s2 where
      e: "send_unblock_event d (int t) BLOCK_UNTIL_SIGNAL ?s = Some (u, s2)" "kinv_ok rk s2" "length (threads s2) = length (threads s)"
    by (auto simp: keeps_def s1(3))
  have h: "keeps rk s2 (handle_interruptable_signal d c t signal s2)" by (rule handle_keeps [OF e(2) d]) (simp add: e(3) t)
  have K: "keeps rk s (Some ?s)" "keeps rk s (Some s2)" "keeps rk s (handle_interruptable_signal d c t signal s2)"
    using keepsI [OF k2, of s] keepsI [OF e(2,3)] keeps_trans [OF keepsI [OF e(2,3)] h] s1(3) by simp_all
  show ?thesis unfolding pthread_kill_def Some using K s1(1) e(1) by (simp add: Let_def option.map_comp comp_def option.map_ident)
qed (use k in \<open>simp add: pthread_kill_def keepsI\<close>)

lemma kill_each_keeps:
  assumes "kinv_ok rk s" "\<forall>p < MAX_PROCESS_COUNT. rk p < d"
  shows "keeps rk s (map_option snd (kill_each d c signal q sent s))"
  using assms
proof (induction q arbitrary: s sent)
  case (Cons tid q)
  obtain r s1 where p: "pthread_kill d c tid signal s = Some (r, s1)" "kinv_ok rk s1" "length (threads s1) = length (threads s)"
    using pthread_kill_keeps [OF Cons.prems, of c tid signal] by (auto simp: keeps_def)
  then show ?case using keeps_trans [OF keepsI [OF p(2,3)] Cons.IH [OF p(2) Cons.prems(2)]] by simp
qed (simp add: keepsI)

lemma kill_one_keeps:
  assumes "kinv_ok rk s" "\<forall>p < MAX_PROCESS_COUNT. rk p < d" "p < MAX_PROCESS_COUNT" "signal < 31"
  shows "keeps rk s (map_option snd (kill_one d c p signal q s))"
  using assms
proof (induction q)
  case Nil
  have "\<not> bit (sigbit signal) 31" using Nil(4) by (simp add: sigbit_def bit_exp_iff)
  then have "kinv_ok rk (upd_proc p (\<lambda>x. x\<lparr>p_pending := p_pending x OR sigbit signal\<rparr>) s)"
    by (intro kinv_pending [OF Nil(1,3), of "\<lambda>w. w OR sigbit signal"]) (use Nil(1,3) in \<open>simp add: bit_or_iff kinv_ok_def\<close>)
  then show ?case by (simp add: keepsI)
next
  case (Cons tid q)
  show ?case
  proof (cases "thread_get_by_tid tid s")
    case (Some t)
    let ?s = "upd_thread t (\<lambda>x. x\<lparr>t_pending := t_pending x OR sigbit signal\<rparr>) s"
    have k1: "kinv_ok rk ?s" "length (threads ?s) = length (threads s)" using kinv_upd_thread [OF Cons.prems(1)] by simp_all
    have "keeps rk ?s (handle_interruptable_signal d c t signal ?s)" by (rule handle_keeps [OF k1(1) Cons.prems(2)]) (use Some thread_got in auto)
    then show ?thesis using Some Cons keeps_trans [OF keepsI [OF k1]] by (simp add: option.map_comp comp_def option.map_ident)
  qed (use Cons in simp)
qed

lemma s_kill_process_keeps:
  assumes k: "kinv_ok rk s" and d: "\<forall>p < MAX_PROCESS_COUNT. rk p < d" and n: "signal < 31"
  shows "keeps rk s (map_option snd (s_kill_process d c pid signal s))"
proof (cases "get_pcb_by_pid pid s")
  case (Some p)
  then have p: "p < MAX_PROCESS_COUNT" by (auto simp: get_pcb_by_pid_def split: if_splits)
  show ?thesis using Some kill_each_keeps [OF k d, of c signal "tids (proc s p)" False] kill_one_keeps [OF k d p n, of c "tids (proc s p)"] keepsI [OF k refl]
    by (simp add: s_kill_process_def Let_def option.map_comp comp_def case_prod_beta)
qed (use k in \<open>simp add: s_kill_process_def keepsI\<close>)

lemma s_kill_keeps:
  assumes k: "kinv_ok rk s" and d: "\<forall>p < MAX_PROCESS_COUNT. rk p < d" and n: "signal < 31"
  shows "keeps rk s (map_option snd (s_kill d c pid signal s))"
proof (cases "0 \<le> signal")
  case True
  then have n': "nat signal < 31" using n by simp
  have g: "keeps rk s (map_option snd (kill_group d c (nat signal) q sent s))" for q sent
    using k
  proof (induction q arbitrary: s sent)
    case (Cons pid q)
    obtain r s1 where p: "s_kill_process d c pid (nat signal) s = Some (r, s1)" "kinv_ok rk s1" "length (threads s1) = length (threads s)"
      using s_kill_process_keeps [OF Cons.prems d n', of c pid] by (auto simp: keeps_def)
    then show ?case using keeps_trans [OF keepsI [OF p(2,3)] Cons.IH [OF p(2)]] by simp
  qed (simp add: keepsI)
  have "keeps rk s (map_option snd (map_option (\<lambda>(sent, s). (if sent then 0 else SYS_ESRCH, s)) (kill_group d c (nat signal) q False s)))" for q
    using g [of q False] by (simp add: option.map_comp comp_def case_prod_beta)
  then show ?thesis using True n s_kill_process_keeps [OF k d n', of c pid] keepsI [OF k refl]
    by (simp add: s_kill_def split: option.split)
qed (use k in \<open>simp add: s_kill_def keepsI\<close>)

subsection \<open>Any sequence of operations\<close>

datatype thread_op =
    Op_tick nat
  | Op_block nat nat thread_state
  | Op_unblock nat
  | Op_stop nat nat
  | Op_terminate nat nat
  | Op_continue nat
  | Op_event int u32
  | Op_priority int int
  | Op_pthread_kill nat int nat
  | Op_kill nat int int

fun thread_step :: "nat \<Rightarrow> thread_op \<Rightarrow> ks \<Rightarrow> ks option" where
  "thread_step d (Op_tick c) s = Some (scheduler_tick c s)"
| "thread_step d (Op_block c t st) s = block_thread d c t st s"
| "thread_step d (Op_unblock t) s = unblock_thread d t s"
| "thread_step d (Op_stop c t) s = stop_thread d c t s"
| "thread_step d (Op_terminate c t) s = terminate_thread d c t s"
| "thread_step d (Op_continue t) s = continue_thread d t s"
| "thread_step d (Op_event tid ev) s = map_option snd (send_unblock_event d tid ev s)"
| "thread_step d (Op_priority tid n) s = Some (thread_change_priority tid n s)"
| "thread_step d (Op_pthread_kill c tid signal) s = map_option snd (pthread_kill d c tid signal s)"
| "thread_step d (Op_kill c pid signal) s = map_option snd (s_kill d c pid signal s)"

fun thread_run :: "nat \<Rightarrow> thread_op list \<Rightarrow> ks \<Rightarrow> ks option" where
  "thread_run d [] s = Some s"
| "thread_run d (op # ops) s = (case thread_step d op s of None \<Rightarrow> None | Some s \<Rightarrow> thread_run d ops s)"

text \<open>The arguments the kernel passes: threads that exist, and signals other than 31.\<close>

fun valid_op :: "nat \<Rightarrow> thread_op \<Rightarrow> bool" where
  "valid_op n (Op_block c t st) = (t < n)"
| "valid_op n (Op_unblock t) = (t < n)"
| "valid_op n (Op_stop c t) = (t < n)"
| "valid_op n (Op_terminate c t) = (t < n)"
| "valid_op n (Op_continue t) = (t < n)"
| "valid_op n (Op_kill c pid signal) = (signal < 31)"
| "valid_op n op = True"

lemma step_keeps:
  assumes k: "kinv_ok rk s" and d: "\<forall>p < MAX_PROCESS_COUNT. rk p < d" and v: "valid_op (length (threads s)) op"
  shows "keeps rk s (thread_step d op s)"
proof (cases op)
  case (Op_priority tid n)
  have "kinv_ok rk (upd_thread t (\<lambda>x. x\<lparr>priority := nat n\<rparr>) s)" if "n \<le> 2" for t
    by (rule kinv_upd_thread [OF k]) (use that in simp_all)
  then have "kinv_ok rk (thread_change_priority tid n s)" "length (threads (thread_change_priority tid n s)) = length (threads s)"
    using k by (simp_all add: thread_change_priority_def split: option.split)
  then show ?thesis using Op_priority by (simp add: keepsI)
qed (use k d v tick_keeps block_keeps unblock_keeps stop_keeps terminate_keeps continue_keeps event_keeps pthread_kill_keeps s_kill_keeps in
    \<open>simp_all add: keepsI\<close>)


definition idle_pcb :: pcb where
  "idle_pcb = \<lparr>ppid = 0, pgid = 0, pstate = PROC_UNUSED_STATE, exit_code = 0, tids = [], wait_stop_pending = False, wait_cont_pending = False,
     children = [], sigactions = (\<lambda>_. \<lparr>sa_handler = SIG_DFL, sa_mask = 0, sa_flags = 0\<rparr>), p_pending = 0, child_waitq = [],
     num_blocked_threads = 0, num_stopped_threads = 0, num_zombie_threads = 0, num_running_threads = 0\<rparr>"

definition one_process :: ks where
  "one_process = two_threads\<lparr>processes := idle_pcb\<lparr>pstate := PROC_RUNNING_STATE, tids := [0, 1], num_running_threads := 2\<rparr> # replicate 255 idle_pcb\<rparr>"

lemma one_process_ok: "kinv_ok (\<lambda>_. 0) one_process"
proof -
  have p: "proc one_process p = (if p = 0 then idle_pcb\<lparr>pstate := PROC_RUNNING_STATE, tids := [0, 1], num_running_threads := 2\<rparr> else idle_pcb)" if "p < MAX_PROCESS_COUNT" for p
    using that by (cases p) (simp_all add: proc_def one_process_def)
  have th: "threads one_process = [idle_tcb 0, idle_tcb 0]" by (simp add: one_process_def two_threads_def)
  have "tables_ok (\<lambda>_. 0) one_process"
    unfolding tables_ok_def using p by (auto simp: th thd_def idle_tcb_def idle_pcb_def one_process_def two_threads_def less_Suc_eq)
  moreover have "counter k (proc one_process p) = threads_in one_process p k" if "p < MAX_PROCESS_COUNT" for p k
    using p [OF that] by (cases k) (simp_all add: threads_in_def th idle_tcb_def idle_pcb_def cls_def)
  moreover have "states_ok one_process" using p by (simp add: states_ok_def derived_state_def idle_pcb_def)
  moreover have "queues_ok one_process"
    by (auto simp: queues_ok_def counters_ok_def th thd_def one_process_def two_threads_def less_Suc_eq intro!: exI [of _ "1 :: nat"])
  ultimately show ?thesis using p by (simp add: kinv_ok_def books_def idle_pcb_def)
qed


end
