(* ===== verification/Pipe.thy ===== *)
theory Pipe
  imports Ring_Buffer Thread_Inv
begin

section \<open>Pipes\<close>

text \<open>
  \<^verbatim>\<open>src/kernel/pipe/pipe.c\<close>: a ring buffer of 4096 bytes with two queues of sleeping threads. A call of
  \<open>pipe_read\<close> or \<open>pipe_write\<close> is a sequence of atomic steps, one for each critical section and one for each
  \<open>block_thread\<close>, and other threads run between them. \<open>pcall\<close> is the point a call has reached with its local
  variables: the requested count and the bytes delivered so far, or the bytes still to be written and the
  number already written.

  The operations use the ring buffer through the interface \<open>bounded_queue\<close> and the scheduler through the
  operations of theory \<open>Threads\<close>. Fault \<open>stack_overflow\<close> is the \<open>None\<close> of those operations.
\<close>

abbreviation (input) PIPE_CAPACITY :: nat where "PIPE_CAPACITY \<equiv> 4096"
abbreviation (input) O_RDONLY :: u32 where "O_RDONLY \<equiv> 1"
abbreviation (input) O_WRONLY :: u32 where "O_WRONLY \<equiv> 2"
abbreviation (input) EOT :: byte where "EOT \<equiv> 4"

record pipe_st =
  num_readers :: int
  num_writers :: int
  pbuf :: rbuf
  rx_wait_queue :: "int list"
  tx_wait_queue :: "int list"

text \<open>The part of \<open>pipe()\<close> that sets up the structure.\<close>

definition pipe_new :: "byte cell_alloc \<Rightarrow> pipe_st" where
  "pipe_new alloc = \<lparr>num_readers = 1, num_writers = 1, pbuf = create_ring_buffer alloc PIPE_CAPACITY, rx_wait_queue = [], tx_wait_queue = []\<rparr>"

text \<open>The loop of \<open>pipe_wake_up_readers\<close> and \<open>pipe_wake_up_writers\<close>; the queue is given from the back.\<close>

fun wake_all :: "nat \<Rightarrow> int list \<Rightarrow> ks \<Rightarrow> ks option" where
  "wake_all d [] s = Some s"
| "wake_all d (tid # q) s =
     (case (case thread_get_by_tid tid s of None \<Rightarrow> Some s | Some t \<Rightarrow> unblock_thread d t s) of
        None \<Rightarrow> None
      | Some s \<Rightarrow> wake_all d q s)"

definition pipe_wake_up_readers :: "nat \<Rightarrow> pipe_st \<Rightarrow> ks \<Rightarrow> (pipe_st \<times> ks) option" where
  "pipe_wake_up_readers d p s = map_option (\<lambda>s. (p\<lparr>rx_wait_queue := []\<rparr>, s)) (wake_all d (rev (rx_wait_queue p)) s)"

definition pipe_wake_up_writers :: "nat \<Rightarrow> pipe_st \<Rightarrow> ks \<Rightarrow> (pipe_st \<times> ks) option" where
  "pipe_wake_up_writers d p s = map_option (\<lambda>s. (p\<lparr>tx_wait_queue := []\<rparr>, s)) (wake_all d (rev (tx_wait_queue p)) s)"

definition pipe_open :: "u32 \<Rightarrow> pipe_st \<Rightarrow> pipe_st" where
  "pipe_open mode p =
     (let p = (if mode AND O_RDONLY \<noteq> 0 then p\<lparr>num_readers := num_readers p + 1\<rparr> else p)
      in if mode AND O_WRONLY \<noteq> 0 then p\<lparr>num_writers := num_writers p + 1\<rparr> else p)"

definition stack_overflow :: string where
  "stack_overflow = ''stack overflow''"

text \<open>The second component of the result says whether the pipe is freed.\<close>

definition pipe_close :: "nat \<Rightarrow> u32 \<Rightarrow> pipe_st \<Rightarrow> ks \<Rightarrow> (int \<times> bool \<times> pipe_st \<times> ks) kres" where
  "pipe_close d mode p s =
     (let p = (if mode AND O_RDONLY \<noteq> 0 then p\<lparr>num_readers := num_readers p - 1\<rparr> else p);
          p = (if mode AND O_WRONLY \<noteq> 0 then p\<lparr>num_writers := num_writers p - 1\<rparr> else p);
          finish = (\<lambda>p s. Inr (0, num_readers p = 0 \<and> num_writers p = 0, p, s))
      in if mode AND O_WRONLY \<noteq> 0 \<and> num_writers p = 0 then
           (case produce_ring_buffer (pbuf p) EOT of
              Inl e \<Rightarrow> Inl e
            | Inr (wrote, b) \<Rightarrow>
                if \<not> wrote then Inr (SYS_EAGAIN, False, p, s)
                else
                  (case pipe_wake_up_readers d (p\<lparr>pbuf := b\<rparr>) s of
                     None \<Rightarrow> Inl stack_overflow
                   | Some (p, s) \<Rightarrow> finish p s))
         else finish p s)"

datatype pcall =
    Idle
  | Reading nat "byte list"
  | Read_blocks nat "byte list"
  | Read_done "byte list"
  | Writing "byte list" nat
  | Write_blocks "byte list" nat
  | Write_done nat

record psys =
  pp :: pipe_st
  kst :: ks
  calls :: "nat \<Rightarrow> pcall"

definition with_woken :: "(pipe_st \<times> ks) option \<Rightarrow> (pipe_st \<Rightarrow> ks \<Rightarrow> psys) \<Rightarrow> psys kres" where
  "with_woken r f = (case r of None \<Rightarrow> Inl stack_overflow | Some (p, s) \<Rightarrow> Inr (f p s))"

text \<open>One iteration of the loop of \<open>pipe_read\<close> by the thread \<open>t\<close>, up to the end of its critical section.\<close>

definition pipe_read_step :: "nat \<Rightarrow> nat \<Rightarrow> nat \<Rightarrow> byte list \<Rightarrow> psys \<Rightarrow> psys kres" where
  "pipe_read_step d t count got y =
     (let p = pp y; s = kst y in
      if length got < count then
        (case consume_ring_buffer (pbuf p) of
           Inl e \<Rightarrow> Inl e
         | Inr (read_char, ch, b) \<Rightarrow>
             (case ch of
                Some x \<Rightarrow>
                  (let p = p\<lparr>pbuf := b\<rparr> in
                   Inr (y\<lparr>pp := p, calls := (calls y)(t := if x = EOT then Read_done got else Reading count (got @ [x]))\<rparr>))
              | None \<Rightarrow>
                  if num_writers p = 0 then Inr (y\<lparr>calls := (calls y)(t := Read_done got)\<rparr>)
                  else with_woken (pipe_wake_up_writers d p s)
                    (\<lambda>p s. y\<lparr>pp := p\<lparr>rx_wait_queue := rx_wait_queue p @ [int t]\<rparr>, kst := s, calls := (calls y)(t := Read_blocks count got)\<rparr>)))
      else with_woken (pipe_wake_up_writers d p s) (\<lambda>p s. y\<lparr>pp := p, kst := s, calls := (calls y)(t := Read_done got)\<rparr>))"

definition pipe_write_step :: "nat \<Rightarrow> nat \<Rightarrow> byte list \<Rightarrow> nat \<Rightarrow> psys \<Rightarrow> psys kres" where
  "pipe_write_step d t rest n y =
     (let p = pp y; s = kst y in
      case rest of
        x # rest' \<Rightarrow>
          (case produce_ring_buffer (pbuf p) x of
             Inl e \<Rightarrow> Inl e
           | Inr (wrote, b) \<Rightarrow>
               if wrote then Inr (y\<lparr>pp := p\<lparr>pbuf := b\<rparr>, calls := (calls y)(t := Writing rest' (n + 1))\<rparr>)
               else with_woken (pipe_wake_up_readers d p s)
                 (\<lambda>p s. y\<lparr>pp := p\<lparr>tx_wait_queue := tx_wait_queue p @ [int t]\<rparr>, kst := s, calls := (calls y)(t := Write_blocks rest n)\<rparr>))
      | [] \<Rightarrow> with_woken (pipe_wake_up_readers d p s) (\<lambda>p s. y\<lparr>pp := p, kst := s, calls := (calls y)(t := Write_done n)\<rparr>))"

text \<open>A step of the thread \<open>t\<close> on the CPU \<open>c\<close>.\<close>

definition pipe_step :: "nat \<Rightarrow> nat \<Rightarrow> nat \<Rightarrow> psys \<Rightarrow> psys kres" where
  "pipe_step d c t y =
     (case calls y t of
        Reading count got \<Rightarrow> pipe_read_step d t count got y
      | Writing rest n \<Rightarrow> pipe_write_step d t rest n y
      | Read_blocks count got \<Rightarrow>
          (case block_thread d c t THREAD_BLOCKED_INTERRUPTABLE (kst y) of
             None \<Rightarrow> Inl stack_overflow
           | Some s \<Rightarrow> Inr (y\<lparr>kst := s, calls := (calls y)(t := Reading count got)\<rparr>))
      | Write_blocks rest n \<Rightarrow>
          (case block_thread d c t THREAD_BLOCKED_INTERRUPTABLE (kst y) of
             None \<Rightarrow> Inl stack_overflow
           | Some s \<Rightarrow> Inr (y\<lparr>kst := s, calls := (calls y)(t := Writing rest n)\<rparr>))
      | _ \<Rightarrow> Inr y)"

subsection \<open>A reader and a writer\<close>

datatype pipe_op = Run nat nat | Close_write

text \<open>The writing process closes its end when its \<open>write\<close> has returned.\<close>

fun pipe_do :: "nat \<Rightarrow> nat \<Rightarrow> pipe_op \<Rightarrow> psys \<Rightarrow> psys kres" where
  "pipe_do d w (Run c t) y = pipe_step d c t y"
| "pipe_do d w Close_write y =
     (case calls y w of
        Write_done n \<Rightarrow>
          if num_writers (pp y) \<le> 0 then Inr y
          else (case pipe_close d O_WRONLY (pp y) (kst y) of
                  Inl e \<Rightarrow> Inl e
                | Inr (_, _, p, s) \<Rightarrow> Inr (y\<lparr>pp := p, kst := s\<rparr>))
      | _ \<Rightarrow> Inr y)"

fun pipe_run :: "nat \<Rightarrow> nat \<Rightarrow> pipe_op list \<Rightarrow> psys \<Rightarrow> psys kres" where
  "pipe_run d w [] y = Inr y"
| "pipe_run d w (op # ops) y = (case pipe_do d w op y of Inl e \<Rightarrow> Inl e | Inr y \<Rightarrow> pipe_run d w ops y)"

fun delivered :: "pcall \<Rightarrow> byte list" where
  "delivered (Reading n got) = got"
| "delivered (Read_blocks n got) = got"
| "delivered (Read_done got) = got"
| "delivered _ = []"

fun to_write :: "pcall \<Rightarrow> byte list" where
  "to_write (Writing rest n) = rest"
| "to_write (Write_blocks rest n) = rest"
| "to_write _ = []"

fun reader_at :: "nat \<Rightarrow> byte list \<Rightarrow> pcall \<Rightarrow> bool" where
  "reader_at count data (Reading n got) = (n = count \<and> length got \<le> count \<and> EOT \<notin> set got)"
| "reader_at count data (Read_blocks n got) = (n = count \<and> length got < count \<and> EOT \<notin> set got)"
| "reader_at count data (Read_done got) = (got = take count data)"
| "reader_at count data _ = False"

fun writer_at :: "byte list \<Rightarrow> pcall \<Rightarrow> bool" where
  "writer_at data (Writing rest n) = (n + length rest = length data)"
| "writer_at data (Write_blocks rest n) = (n + length rest = length data \<and> rest \<noteq> [])"
| "writer_at data (Write_done n) = (n = length data)"
| "writer_at data _ = False"

definition pipe_inv :: "(nat \<Rightarrow> nat) \<Rightarrow> nat \<Rightarrow> nat \<Rightarrow> nat \<Rightarrow> byte list \<Rightarrow> psys \<Rightarrow> bool" where
  "pipe_inv rk r w count data y \<longleftrightarrow>
     kinv_ok rk (kst y) \<and> rb_inv (pbuf (pp y)) \<and> r < length (threads (kst y)) \<and> w < length (threads (kst y)) \<and>
     reader_at count data (calls y r) \<and> writer_at data (calls y w) \<and>
     (\<exists>e. (e = [] \<or> e = [EOT]) \<and> delivered (calls y r) @ rb_list (pbuf (pp y)) @ to_write (calls y w) = data @ e \<and>
        (num_writers (pp y) = 1 \<and> e = [] \<or> num_writers (pp y) = 0 \<and> to_write (calls y w) = []))"

lemma ends_with_EOT:
  assumes "xs @ z # ys = data @ e" "z \<notin> set data" "e = [] \<or> e = [z]"
  shows "e = [z] \<and> xs = data \<and> ys = []"
proof (cases ys rule: rev_cases)
  case Nil
  then show ?thesis using assms by auto
next
  case (snoc zs u)
  then have "z \<in> set data" using assms by (auto dest: arg_cong [of _ _ set] simp: append_eq_append_conv2 Cons_eq_append_conv)
  then show ?thesis using assms(2) by simp
qed

lemma wake_all_keeps:
  assumes "kinv_ok rk s" "\<forall>p < MAX_PROCESS_COUNT. rk p < d"
  shows "keeps rk s (wake_all d q s)"
  using assms
proof (induction q arbitrary: s)
  case (Cons tid q)
  have "keeps rk s (case thread_get_by_tid tid s of None \<Rightarrow> Some s | Some t \<Rightarrow> unblock_thread d t s)"
    using Cons.prems unblock_keeps [OF Cons.prems] by (auto simp: keepsI dest: thread_got split: option.split)
  then obtain s1 where "(case thread_get_by_tid tid s of None \<Rightarrow> Some s | Some t \<Rightarrow> unblock_thread d t s) = Some s1" "keeps rk s (Some s1)" "kinv_ok rk s1"
    by (auto simp: keeps_def)
  then show ?case using keeps_trans [OF _ Cons.IH [OF _ Cons.prems(2)]] by simp
qed (simp add: keepsI)

lemma wake_up:
  assumes "kinv_ok rk s" "\<forall>p < MAX_PROCESS_COUNT. rk p < d"
  shows "\<exists>s'. pipe_wake_up_readers d p s = Some (p\<lparr>rx_wait_queue := []\<rparr>, s') \<and> kinv_ok rk s' \<and> length (threads s') = length (threads s)"
    "\<exists>s'. pipe_wake_up_writers d p s = Some (p\<lparr>tx_wait_queue := []\<rparr>, s') \<and> kinv_ok rk s' \<and> length (threads s') = length (threads s)"
  using wake_all_keeps [OF assms] by (auto simp: pipe_wake_up_readers_def pipe_wake_up_writers_def keeps_def)

lemma pipe_invE:
  assumes "pipe_inv rk r w count data y"
  obtains e where "kinv_ok rk (kst y)" "rb_inv (pbuf (pp y))" "r < length (threads (kst y))" "w < length (threads (kst y))"
    "reader_at count data (calls y r)" "writer_at data (calls y w)" "e = [] \<or> e = [EOT]"
    "delivered (calls y r) @ rb_list (pbuf (pp y)) @ to_write (calls y w) = data @ e"
    "num_writers (pp y) = 1 \<and> e = [] \<or> num_writers (pp y) = 0 \<and> to_write (calls y w) = []"
  using assms unfolding pipe_inv_def by blast

lemma pipe_invI:
  assumes "kinv_ok rk (kst y)" "rb_inv (pbuf (pp y))" "r < length (threads (kst y))" "w < length (threads (kst y))"
    "reader_at count data (calls y r)" "writer_at data (calls y w)" "e = [] \<or> e = [EOT]"
    "delivered (calls y r) @ rb_list (pbuf (pp y)) @ to_write (calls y w) = data @ e"
    "num_writers (pp y) = 1 \<and> e = [] \<or> num_writers (pp y) = 0 \<and> to_write (calls y w) = []"
  shows "pipe_inv rk r w count data y"
  using assms unfolding pipe_inv_def by blast

lemma read_step_inv:
  assumes I: "pipe_inv rk r w count data y" and d: "\<forall>p < MAX_PROCESS_COUNT. rk p < d" and ne: "r \<noteq> w" and eot: "EOT \<notin> set data"
    and c: "calls y r = Reading count got"
  shows "\<exists>y'. pipe_read_step d r count got y = Inr y' \<and> pipe_inv rk r w count data y'"
proof -
  from I obtain e where k: "kinv_ok rk (kst y)" and b: "rb_inv (pbuf (pp y))" and n: "r < length (threads (kst y))" "w < length (threads (kst y))"
    and at: "length got \<le> count" "writer_at data (calls y w)" "EOT \<notin> set got" and e: "e = [] \<or> e = [EOT]"
    and str: "got @ rb_list (pbuf (pp y)) @ to_write (calls y w) = data @ e"
    and nw: "num_writers (pp y) = 1 \<and> e = [] \<or> num_writers (pp y) = 0 \<and> to_write (calls y w) = []"
    by (rule pipe_invE) (simp add: c)
  obtain s' where wk: "pipe_wake_up_writers d (pp y) (kst y) = Some ((pp y)\<lparr>tx_wait_queue := []\<rparr>, s')" "kinv_ok rk s'" "length (threads s') = length (threads (kst y))"
    using wake_up(2) [OF k d] by blast
  show ?thesis
  proof (cases "length got < count")
    case False
    then have "length got = count" using at(1) by simp
    then have "got = take count (got @ rb_list (pbuf (pp y)) @ to_write (calls y w))" by simp
    then have g: "got = take count (data @ e)" using str by simp
    have "got = take count data"
    proof (cases "length data < count")
      case True
      then have "e = [EOT]" "count = length data + 1" using \<open>length got = count\<close> g e by auto
      then have "got = data @ [EOT]" using g by simp
      then show ?thesis using at(3) by simp
    qed (use g in simp)
    let ?y = "y\<lparr>pp := (pp y)\<lparr>tx_wait_queue := []\<rparr>, kst := s', calls := (calls y)(r := Read_done got)\<rparr>"
    have "pipe_inv rk r w count data ?y"
      by (rule pipe_invI [where e = e]) (use wk b n at e str nw ne \<open>got = take count data\<close> in simp_all)
    then show ?thesis using False wk(1) by (simp add: pipe_read_step_def Let_def with_woken_def)
  next
    case True
    show ?thesis
    proof (cases "rb_list (pbuf (pp y))")
      case Nil
      have run: "consume_ring_buffer (pbuf (pp y)) = Inr (False, None, pbuf (pp y))" by (rule ring.deq_empty [OF b Nil])
      show ?thesis
      proof (cases "num_writers (pp y) = 0")
        case closed: True
        then have "got = data @ e" using nw str Nil by auto
        then have "got = data" "e = []" using e at(3) by auto
        then have "pipe_inv rk r w count data (y\<lparr>calls := (calls y)(r := Read_done got)\<rparr>)"
          by (intro pipe_invI [where e = e]) (use k b n at e str nw ne Nil in simp_all)
        then show ?thesis using True closed run by (simp add: pipe_read_step_def Let_def)
      next
        case False
        let ?y = "y\<lparr>pp := (pp y)\<lparr>tx_wait_queue := [], rx_wait_queue := rx_wait_queue (pp y) @ [int r]\<rparr>, kst := s', calls := (calls y)(r := Read_blocks count got)\<rparr>"
        have "pipe_inv rk r w count data ?y"
          by (rule pipe_invI [where e = e]) (use wk b n at True e str nw ne in simp_all)
        then show ?thesis using True False run wk(1) by (simp add: pipe_read_step_def Let_def with_woken_def)
      qed
    next
      case (Cons x xs)
      obtain b' where run: "consume_ring_buffer (pbuf (pp y)) = Inr (True, Some x, b')" "rb_inv b'" "rb_list b' = xs"
        using ring.deq_some [OF b Cons] by blast
      show ?thesis
      proof (cases "x = EOT")
        case eof: True
        have "e = [EOT] \<and> got = data \<and> xs @ to_write (calls y w) = []"
          by (rule ends_with_EOT [OF _ eot e]) (use str Cons eof in simp)
        then have "pipe_inv rk r w count data (y\<lparr>pp := (pp y)\<lparr>pbuf := b'\<rparr>, calls := (calls y)(r := Read_done got)\<rparr>)"
          by (intro pipe_invI [where e = "[]"]) (use k run n at str nw ne Cons in simp_all)
        then show ?thesis using True eof run by (simp add: pipe_read_step_def Let_def)
      next
        case False
        have "pipe_inv rk r w count data (y\<lparr>pp := (pp y)\<lparr>pbuf := b'\<rparr>, calls := (calls y)(r := Reading count (got @ [x]))\<rparr>)"
          by (rule pipe_invI [where e = e]) (use k run n at True False e str nw ne Cons in simp_all)
        then show ?thesis using True False run by (simp add: pipe_read_step_def Let_def)
      qed
    qed
  qed
qed

lemma write_step_inv:
  assumes I: "pipe_inv rk r w count data y" and d: "\<forall>p < MAX_PROCESS_COUNT. rk p < d" and ne: "r \<noteq> w"
    and c: "calls y w = Writing rest n"
  shows "\<exists>y'. pipe_write_step d w rest n y = Inr y' \<and> pipe_inv rk r w count data y'"
proof -
  from I obtain e where k: "kinv_ok rk (kst y)" and b: "rb_inv (pbuf (pp y))" and nt: "r < length (threads (kst y))" "w < length (threads (kst y))"
    and at: "reader_at count data (calls y r)" "n + length rest = length data" and e: "e = [] \<or> e = [EOT]"
    and str: "delivered (calls y r) @ rb_list (pbuf (pp y)) @ rest = data @ e"
    and nw: "num_writers (pp y) = 1 \<and> e = [] \<or> num_writers (pp y) = 0 \<and> rest = []"
    by (rule pipe_invE) (simp add: c)
  obtain s' where wk: "pipe_wake_up_readers d (pp y) (kst y) = Some ((pp y)\<lparr>rx_wait_queue := []\<rparr>, s')" "kinv_ok rk s'" "length (threads s') = length (threads (kst y))"
    using wake_up(1) [OF k d] by blast
  show ?thesis
  proof (cases rest)
    case Nil
    let ?y = "y\<lparr>pp := (pp y)\<lparr>rx_wait_queue := []\<rparr>, kst := s', calls := (calls y)(w := Write_done n)\<rparr>"
    have "pipe_inv rk r w count data ?y"
      by (rule pipe_invI [where e = e]) (use wk b nt at e str nw ne Nil in simp_all)
    then show ?thesis using Nil wk(1) by (simp add: pipe_write_step_def Let_def with_woken_def)
  next
    case (Cons x rest')
    have nw1: "num_writers (pp y) = 1" "e = []" using nw Cons by auto
    show ?thesis
    proof (cases "length (rb_list (pbuf (pp y))) = rb_capacity (pbuf (pp y))")
      case True
      have run: "produce_ring_buffer (pbuf (pp y)) x = Inr (False, pbuf (pp y))" by (rule ring.enq_full [OF b True])
      let ?y = "y\<lparr>pp := (pp y)\<lparr>rx_wait_queue := [], tx_wait_queue := tx_wait_queue (pp y) @ [int w]\<rparr>, kst := s', calls := (calls y)(w := Write_blocks rest n)\<rparr>"
      have "pipe_inv rk r w count data ?y"
        by (rule pipe_invI [where e = e]) (use wk b nt at e str nw1 ne Cons in simp_all)
      then show ?thesis using Cons run wk(1) by (simp add: pipe_write_step_def Let_def with_woken_def)
    next
      case False
      then have "length (rb_list (pbuf (pp y))) < rb_capacity (pbuf (pp y))" using ring.bound [OF b] by simp
      then obtain b' where run: "produce_ring_buffer (pbuf (pp y)) x = Inr (True, b')" "rb_inv b'" "rb_list b' = rb_list (pbuf (pp y)) @ [x]"
        using ring.enq_room [OF b] by blast
      have "pipe_inv rk r w count data (y\<lparr>pp := (pp y)\<lparr>pbuf := b'\<rparr>, calls := (calls y)(w := Writing rest' (n + 1))\<rparr>)"
        by (rule pipe_invI [where e = e]) (use k run nt at e str nw1 ne Cons in simp_all)
      then show ?thesis using Cons run by (simp add: pipe_write_step_def Let_def)
    qed
  qed
qed

lemma blocks_inv:
  assumes I: "pipe_inv rk r w count data y" and d: "\<forall>p < MAX_PROCESS_COUNT. rk p < d" and ne: "r \<noteq> w"
  shows "calls y r = Read_blocks n got \<Longrightarrow> \<exists>y'. pipe_step d c r y = Inr y' \<and> pipe_inv rk r w count data y'"
    "calls y w = Write_blocks rest m \<Longrightarrow> \<exists>y'. pipe_step d c w y = Inr y' \<and> pipe_inv rk r w count data y'"
proof -
  from I obtain e where k: "kinv_ok rk (kst y)" and b: "rb_inv (pbuf (pp y))" and nt: "r < length (threads (kst y))" "w < length (threads (kst y))"
    and at: "reader_at count data (calls y r)" "writer_at data (calls y w)" and e: "e = [] \<or> e = [EOT]"
    and str: "delivered (calls y r) @ rb_list (pbuf (pp y)) @ to_write (calls y w) = data @ e"
    and nw: "num_writers (pp y) = 1 \<and> e = [] \<or> num_writers (pp y) = 0 \<and> to_write (calls y w) = []"
    by (rule pipe_invE)
  show "\<exists>y'. pipe_step d c r y = Inr y' \<and> pipe_inv rk r w count data y'" if cl: "calls y r = Read_blocks n got"
  proof -
    obtain s' where "block_thread d c r THREAD_BLOCKED_INTERRUPTABLE (kst y) = Some s'" "kinv_ok rk s'" "length (threads s') = length (threads (kst y))"
      using block_keeps [OF k d nt(1)] by (auto simp: keeps_def)
    moreover from this have "pipe_inv rk r w count data (y\<lparr>kst := s', calls := (calls y)(r := Reading n got)\<rparr>)"
      by (intro pipe_invI [where e = e]) (use b nt at e str nw ne cl in simp_all)
    ultimately show ?thesis using cl by (simp add: pipe_step_def)
  qed
  show "\<exists>y'. pipe_step d c w y = Inr y' \<and> pipe_inv rk r w count data y'" if cl: "calls y w = Write_blocks rest m"
  proof -
    obtain s' where "block_thread d c w THREAD_BLOCKED_INTERRUPTABLE (kst y) = Some s'" "kinv_ok rk s'" "length (threads s') = length (threads (kst y))"
      using block_keeps [OF k d nt(2)] by (auto simp: keeps_def)
    moreover from this have "pipe_inv rk r w count data (y\<lparr>kst := s', calls := (calls y)(w := Writing rest m)\<rparr>)"
      by (intro pipe_invI [where e = e]) (use b nt at e str nw ne cl in simp_all)
    ultimately show ?thesis using cl by (simp add: pipe_step_def)
  qed
qed

lemma close_inv:
  assumes I: "pipe_inv rk r w count data y" and d: "\<forall>p < MAX_PROCESS_COUNT. rk p < d"
  shows "\<exists>y'. pipe_do d w Close_write y = Inr y' \<and> pipe_inv rk r w count data y'"
proof (cases "\<exists>n. calls y w = Write_done n \<and> \<not> num_writers (pp y) \<le> 0")
  case True
  then obtain n where c: "calls y w = Write_done n" "\<not> num_writers (pp y) \<le> 0" by blast
  from I obtain e where k: "kinv_ok rk (kst y)" and b: "rb_inv (pbuf (pp y))" and nt: "r < length (threads (kst y))" "w < length (threads (kst y))"
    and at: "reader_at count data (calls y r)" "writer_at data (calls y w)" and e: "e = [] \<or> e = [EOT]"
    and str: "delivered (calls y r) @ rb_list (pbuf (pp y)) @ to_write (calls y w) = data @ e"
    and nw: "num_writers (pp y) = 1 \<and> e = [] \<or> num_writers (pp y) = 0 \<and> to_write (calls y w) = []"
    by (rule pipe_invE)
  have nw1: "num_writers (pp y) = 1" "e = []" using nw c(2) by auto
  let ?p = "(pp y)\<lparr>num_writers := 0\<rparr>"
  show ?thesis
  proof (cases "length (rb_list (pbuf (pp y))) = rb_capacity (pbuf (pp y))")
    case True
    have "produce_ring_buffer (pbuf (pp y)) EOT = Inr (False, pbuf (pp y))" by (rule ring.enq_full [OF b True])
    moreover have "pipe_inv rk r w count data (y\<lparr>pp := ?p, kst := kst y\<rparr>)"
      by (rule pipe_invI [where e = e]) (use k b nt at e str c in simp_all)
    ultimately show ?thesis using c nw1 by (simp add: pipe_close_def Let_def)
  next
    case False
    then have "length (rb_list (pbuf (pp y))) < rb_capacity (pbuf (pp y))" using ring.bound [OF b] by simp
    then obtain b' where run: "produce_ring_buffer (pbuf (pp y)) EOT = Inr (True, b')" "rb_inv b'" "rb_list b' = rb_list (pbuf (pp y)) @ [EOT]"
      using ring.enq_room [OF b] by blast
    obtain s' where wk: "pipe_wake_up_readers d (?p\<lparr>pbuf := b'\<rparr>) (kst y) = Some (?p\<lparr>pbuf := b', rx_wait_queue := []\<rparr>, s')" "kinv_ok rk s'" "length (threads s') = length (threads (kst y))"
      using wake_up(1) [OF k d, of "?p\<lparr>pbuf := b'\<rparr>"] by auto
    have "pipe_inv rk r w count data (y\<lparr>pp := ?p\<lparr>pbuf := b', rx_wait_queue := []\<rparr>, kst := s'\<rparr>)"
      by (rule pipe_invI [where e = "[EOT]"]) (use wk run nt at str c nw1 in simp_all)
    then show ?thesis using c nw1 run wk(1) by (simp add: pipe_close_def Let_def)
  qed
qed (use I in \<open>auto split: pcall.split\<close>)


text \<open>Two threads running on two CPUs: thread 0 reads one byte, thread 1 writes one.\<close>

definition pipe_demo :: psys where
  "pipe_demo = \<lparr>pp = pipe_new (\<lambda>n. Some (replicate n 0)), kst = scheduler_tick 1 (scheduler_tick 0 one_process),
     calls = (\<lambda>t. if t = 0 then Reading 1 [] else if t = 1 then Writing [5] 0 else Idle)\<rparr>"

lemma pipe_demo_ok: "kinv_ok (\<lambda>_. 0) (kst pipe_demo)" "length (threads (kst pipe_demo)) = 2" "rb_inv (pbuf (pp pipe_demo))"
proof -
  note T0 = tick_keeps [OF one_process_ok, of 0] and T1 = tick_keeps [OF tick_keeps(1) [OF one_process_ok, of 0], of 1]
  have "length (threads one_process) = 2" by (simp add: one_process_def two_threads_def)
  then show "kinv_ok (\<lambda>_. 0) (kst pipe_demo)" "length (threads (kst pipe_demo)) = 2"
    unfolding pipe_demo_def using T0(2) T1 by simp_all
  show "rb_inv (pbuf (pp pipe_demo))" unfolding pipe_demo_def pipe_new_def by (simp add: create_ring_buffer_inv)
qed


text \<open>A wake-up can be lost. The reader enters the queue in one critical section and blocks afterwards; when the
  writer wakes the queue in between, the reader is still running, is taken off the queue, and then
  blocks although its byte is in the buffer.\<close>

lemma pipe_lost_wakeup:
  "\<exists>y. pipe_run 1 1 [Run 0 0, Run 1 1, Run 1 1, Run 0 0] pipe_demo = Inr y \<and> tstate (thd (kst y) 0) = THREAD_BLOCKED_INTERRUPTABLE \<and>
     rx_wait_queue (pp y) = [] \<and> rb_list (pbuf (pp y)) = [5] \<and> calls y 1 = Write_done 1"
proof -
  let ?s = "scheduler_tick 1 (scheduler_tick 0 one_process)" and ?b = "create_ring_buffer (\<lambda>n. Some (replicate n (0 :: byte))) 4096"
  have "\<not> is_blocked (tstate (thd ?s 0))" by code_simp
  then have u: "unblock_thread 1 0 ?s = Some ?s" by (simp add: unblock_thread_def unblock_with_def)
  have k: "thread_get_by_tid 0 ?s = Some 0" by code_simp
  have s: "case block_thread 1 0 0 THREAD_BLOCKED_INTERRUPTABLE ?s of None \<Rightarrow> False | Some s \<Rightarrow> tstate (thd s 0) = THREAD_BLOCKED_INTERRUPTABLE"
    by code_simp
  have b: "rb_inv ?b" "rb_list ?b = []" using pipe_demo_ok(3) by (simp_all add: pipe_demo_def pipe_new_def)
  have "rb_capacity ?b = 4096" by (simp add: create_ring_buffer_def)
  then obtain b' where p: "produce_ring_buffer ?b 5 = Inr (True, b')" "rb_list b' = [5]" using ring.enq_room [OF b(1), of 5] b(2) by auto
  have c: "consume_ring_buffer ?b = Inr (False, None, ?b)" by (rule ring.deq_empty [OF b])
  obtain s4 where s4: "block_thread 1 0 0 THREAD_BLOCKED_INTERRUPTABLE ?s = Some s4" "tstate (thd s4 0) = THREAD_BLOCKED_INTERRUPTABLE"
    using s by (auto split: option.splits)
  show ?thesis using k u s4 p c
    by (simp add: pipe_demo_def pipe_new_def pipe_step_def pipe_read_step_def pipe_write_step_def Let_def with_woken_def
        pipe_wake_up_readers_def pipe_wake_up_writers_def)
qed

end
