(* ===== verification/Tty_Line.thy ===== *)
theory Tty_Line
  imports Ring_Buffer Threads
begin

unbundle bit_operations_syntax

section \<open>The line editor of the terminal\<close>

text \<open>
  The canonical mode of \<^verbatim>\<open>src/kernel/devices/tty.c\<close>: the bytes of the keyboard edit a line in a fixed array, with a
  cursor, arrow keys, a history of sixteen commands and the echo on the screen; a carriage return hands
  the line to the readers through the ring buffer \<open>rx\<close>.

  Calls that leave the line editor are recorded in order in the field \<open>calls_out\<close>: the cursor and the text
  of the terminal (\<open>tty_gui_cursor_left\<close>, \<open>tty_gui_cursor_right\<close>, \<open>tty_write\<close>), signals (\<open>s_kill\<close>), the
  wake-up of readers, and requests to create, delete or switch terminals. A stray access to the ring
  buffer is the fault \<open>Inl\<close>.
\<close>

abbreviation (input) TTY_INPUT_BUFFER_SIZE :: nat where "TTY_INPUT_BUFFER_SIZE \<equiv> 4096"
abbreviation (input) TTY_COMMAND_HISTORY_DEPTH :: nat where "TTY_COMMAND_HISTORY_DEPTH \<equiv> 16"
abbreviation (input) TTY_COMMAND_HISTORY_LINE_SIZE :: nat where "TTY_COMMAND_HISTORY_LINE_SIZE \<equiv> 256"

datatype tty_out = Cursor_left | Cursor_right | Write "byte list" | Kill int nat | Wake_readers | Delete_terminal | Switch_terminal int | Request_terminal

datatype tty_mode = TTY_MODE_CANONICAL | TTY_MODE_RAW

record tty =
  tty_rx :: rbuf
  fg_pgid :: int
  tactive :: bool
  tmode :: tty_mode
  input_buffer :: "byte list"
  input_len :: nat
  input_cursor :: nat
  escape_state :: nat
  command_history :: "byte list list"
  command_history_len :: "nat list"
  command_history_count :: nat
  command_history_cursor :: int
  command_history_scratch :: "byte list"
  command_history_scratch_len :: nat
  calls_out :: "tty_out list"

text \<open>The terminal \<open>tty_create\<close> makes: \<open>kmemset\<close> clears the structure.\<close>

definition tty_init :: "byte cell_alloc \<Rightarrow> tty" where
  "tty_init alloc =
     \<lparr>tty_rx = create_ring_buffer alloc 4096, fg_pgid = 0, tactive = True, tmode = TTY_MODE_CANONICAL,
      input_buffer = replicate TTY_INPUT_BUFFER_SIZE 0, input_len = 0, input_cursor = 0, escape_state = 0,
      command_history = replicate TTY_COMMAND_HISTORY_DEPTH (replicate TTY_COMMAND_HISTORY_LINE_SIZE 0),
      command_history_len = replicate TTY_COMMAND_HISTORY_DEPTH 0, command_history_count = 0, command_history_cursor = - 1,
      command_history_scratch = replicate TTY_INPUT_BUFFER_SIZE 0, command_history_scratch_len = 0, calls_out = []\<rparr>"

definition emit :: "tty_out list \<Rightarrow> tty \<Rightarrow> tty" where
  "emit es t = t\<lparr>calls_out := calls_out t @ es\<rparr>"

definition tty_move_cursor_left :: "nat \<Rightarrow> tty \<Rightarrow> tty" where
  "tty_move_cursor_left count = emit (replicate count Cursor_left)"

definition tty_move_cursor_right :: "nat \<Rightarrow> tty \<Rightarrow> tty" where
  "tty_move_cursor_right count = emit (replicate count Cursor_right)"

text \<open>\<open>for (i = 0; i < n; i++) dst[i] = src[i]\<close>.\<close>

primrec copy_prefix :: "nat \<Rightarrow> byte list \<Rightarrow> byte list \<Rightarrow> byte list" where
  "copy_prefix 0 src dst = dst"
| "copy_prefix (Suc n) src dst = (copy_prefix n src dst)[n := src ! n]"

definition tty_lines_equal :: "byte list \<Rightarrow> nat \<Rightarrow> byte list \<Rightarrow> nat \<Rightarrow> bool" where
  "tty_lines_equal lhs lhs_len rhs rhs_len \<longleftrightarrow> lhs_len = rhs_len \<and> (\<forall>i \<in> set [0..<lhs_len]. lhs ! i = rhs ! i)"

definition tty_history_reset_navigation :: "tty \<Rightarrow> tty" where
  "tty_history_reset_navigation t = t\<lparr>command_history_cursor := - 1, command_history_scratch_len := 0\<rparr>"

text \<open>The two nested loops that drop the oldest command move every row up by one.\<close>

primrec shift_rows :: "nat \<Rightarrow> 'a list \<Rightarrow> 'a list" where
  "shift_rows 0 rows = rows"
| "shift_rows (Suc n) rows = (shift_rows n rows)[n := rows ! (n + 1)]"

definition tty_history_push :: "tty \<Rightarrow> tty" where
  "tty_history_push t =
     (if input_len t = 0 then tty_history_reset_navigation t
      else
        (let len = (if input_len t \<ge> TTY_COMMAND_HISTORY_LINE_SIZE then TTY_COMMAND_HISTORY_LINE_SIZE - 1 else input_len t);
             newest = command_history_count t - 1
         in if command_history_count t > 0 \<and>
               tty_lines_equal (command_history t ! newest) (command_history_len t ! newest) (input_buffer t) len
            then tty_history_reset_navigation t
            else
              (let t = (if command_history_count t = TTY_COMMAND_HISTORY_DEPTH
                        then t\<lparr>command_history := shift_rows (TTY_COMMAND_HISTORY_DEPTH - 1) (command_history t),
                               command_history_len := shift_rows (TTY_COMMAND_HISTORY_DEPTH - 1) (command_history_len t),
                               command_history_count := command_history_count t - 1\<rparr>
                        else t);
                   slot = command_history_count t;
                   row = (copy_prefix len (input_buffer t) (command_history t ! slot))[len := 0]
               in tty_history_reset_navigation
                    (t\<lparr>command_history := (command_history t)[slot := row],
                       command_history_len := (command_history_len t)[slot := len],
                       command_history_count := slot + 1\<rparr>))))"

definition tty_redraw_from_cursor :: "nat \<Rightarrow> tty \<Rightarrow> tty" where
  "tty_redraw_from_cursor cursor t = emit (map (\<lambda>i. Write [input_buffer t ! i]) [cursor..<input_len t]) t"

definition tty_replace_input_line :: "byte list \<Rightarrow> nat \<Rightarrow> tty \<Rightarrow> tty" where
  "tty_replace_input_line line len t =
     (let old_len = input_len t;
          len = (if len \<ge> TTY_INPUT_BUFFER_SIZE then TTY_INPUT_BUFFER_SIZE - 1 else len);
          t = tty_move_cursor_left (input_cursor t) t;
          t = t\<lparr>input_buffer := copy_prefix len line (input_buffer t), input_len := len, input_cursor := len\<rparr>;
          t = tty_redraw_from_cursor 0 t
      in if old_len > len
         then tty_move_cursor_left (old_len - len) (emit (replicate (old_len - len) (Write [32])) t)
         else t)"

definition tty_history_recall :: "int \<Rightarrow> tty \<Rightarrow> tty" where
  "tty_history_recall direction t =
     (if command_history_count t = 0 then t
      else
        (let show = (\<lambda>t. let slot = nat (command_history_cursor t) in
               tty_replace_input_line (command_history t ! slot) (command_history_len t ! slot) t) in
         if command_history_cursor t < 0 then
           (if direction > 0 then t
            else show (t\<lparr>command_history_scratch_len := input_len t,
                        command_history_scratch := copy_prefix (input_len t) (input_buffer t) (command_history_scratch t),
                        command_history_cursor := int (command_history_count t) - 1\<rparr>))
         else if direction < 0 \<and> command_history_cursor t > 0 then
           show (t\<lparr>command_history_cursor := command_history_cursor t - 1\<rparr>)
         else if direction > 0 then
           (if command_history_cursor t < int (command_history_count t) - 1
            then show (t\<lparr>command_history_cursor := command_history_cursor t + 1\<rparr>)
            else tty_history_reset_navigation
                   (tty_replace_input_line (command_history_scratch t) (command_history_scratch_len t) t))
         else show t))"

text \<open>\<open>for (i = n; i > cursor; i--) buf[i] = buf[i - 1]\<close>.\<close>

fun shift_up :: "nat \<Rightarrow> nat \<Rightarrow> byte list \<Rightarrow> byte list" where
  "shift_up 0 cursor buf = buf"
| "shift_up (Suc i) cursor buf = (if Suc i > cursor then shift_up i cursor (buf[Suc i := buf ! i]) else buf)"

definition tty_insert_input_char :: "byte \<Rightarrow> tty \<Rightarrow> tty" where
  "tty_insert_input_char ch t =
     (if input_len t + 1 \<ge> TTY_INPUT_BUFFER_SIZE then t
      else
        (let t = tty_history_reset_navigation t;
             t = t\<lparr>input_buffer := (shift_up (input_len t) (input_cursor t) (input_buffer t))[input_cursor t := ch],
                   input_len := input_len t + 1\<rparr>;
             t = tty_redraw_from_cursor (input_cursor t) t;
             t = t\<lparr>input_cursor := input_cursor t + 1\<rparr>
         in tty_move_cursor_left (input_len t - input_cursor t) t))"

text \<open>\<open>for (i = cursor; i + 1 < n; i++) buf[i] = buf[i + 1]\<close>, with the number of rounds left.\<close>

primrec shift_down :: "nat \<Rightarrow> nat \<Rightarrow> byte list \<Rightarrow> byte list" where
  "shift_down 0 i buf = buf"
| "shift_down (Suc k) i buf = shift_down k (i + 1) (buf[i := buf ! (i + 1)])"

definition tty_backspace_input :: "tty \<Rightarrow> tty" where
  "tty_backspace_input t =
     (if input_cursor t = 0 then t
      else
        (let t = tty_history_reset_navigation t;
             t = t\<lparr>input_cursor := input_cursor t - 1\<rparr>;
             t = t\<lparr>input_buffer := shift_down (input_len t - 1 - input_cursor t) (input_cursor t) (input_buffer t),
                   input_len := input_len t - 1\<rparr>;
             t = emit [Cursor_left] t;
             t = tty_redraw_from_cursor (input_cursor t) t;
             t = emit [Write [32]] t
         in tty_move_cursor_left (input_len t - input_cursor t + 1) t))"

text \<open>The loop of \<open>tty_commit_input_line\<close> over the bytes of the line; it stops at the first byte that finds the buffer full.\<close>

primrec produce_all :: "byte list \<Rightarrow> rbuf \<Rightarrow> (bool \<times> rbuf) kres" where
  "produce_all [] buf = Inr (True, buf)"
| "produce_all (x # xs) buf =
     (case produce_ring_buffer buf x of
        Inl e \<Rightarrow> Inl e
      | Inr (ok, buf) \<Rightarrow> if ok then produce_all xs buf else Inr (False, buf))"

definition tty_commit_input_line :: "byte \<Rightarrow> tty \<Rightarrow> tty kres" where
  "tty_commit_input_line terminator t =
     (let t = (if terminator = 10 then tty_history_push t else tty_history_reset_navigation t) in
      case produce_all (map (\<lambda>i. input_buffer t ! i) [0..<input_len t]) (tty_rx t) of
        Inl e \<Rightarrow> Inl e
      | Inr (ok, rx) \<Rightarrow>
          if \<not> ok then Inr (t\<lparr>tty_rx := rx\<rparr>)
          else (case produce_ring_buffer rx terminator of
              Inl e \<Rightarrow> Inl e
            | Inr (ok, rx) \<Rightarrow>
                if \<not> ok then Inr (t\<lparr>tty_rx := rx\<rparr>)
                else Inr (emit [Wake_readers] (t\<lparr>tty_rx := rx, input_len := 0, input_cursor := 0\<rparr>))))"

definition tty_clear_input_line :: "tty \<Rightarrow> tty" where
  "tty_clear_input_line t = tty_history_reset_navigation (t\<lparr>input_len := 0, input_cursor := 0\<rparr>)"

definition tty_handle_arrow :: "byte \<Rightarrow> tty \<Rightarrow> tty" where
  "tty_handle_arrow code t =
     (if code = 65 then tty_history_recall (- 1) t
      else if code = 66 then tty_history_recall 1 t
      else if code = 68 \<and> input_cursor t > 0 then emit [Cursor_left] (t\<lparr>input_cursor := input_cursor t - 1\<rparr>)
      else if code = 67 \<and> input_cursor t < input_len t
           then tty_move_cursor_right 1 (t\<lparr>input_cursor := input_cursor t + 1\<rparr>)
      else t)"

definition tty_reset_escape :: "tty \<Rightarrow> tty" where
  "tty_reset_escape t = t\<lparr>escape_state := 0\<rparr>"

definition tty_handle_escape_char :: "byte \<Rightarrow> tty \<Rightarrow> bool \<times> tty" where
  "tty_handle_escape_char ch t =
     (if escape_state t = 1 then (True, t\<lparr>escape_state := (if ch = 91 \<or> ch = 79 then 2 else 0)\<rparr>)
      else if escape_state t \<noteq> 2 then (False, t)
      else if ch = 65 \<or> ch = 66 \<or> ch = 67 \<or> ch = 68 then (True, tty_reset_escape (tty_handle_arrow ch t))
      else if 48 \<le> ch \<and> ch \<le> 57 then (True, t)
      else if ch = 59 \<or> ch = 58 then (True, t)
      else (True, tty_reset_escape t))"

definition kill_foreground :: "nat \<Rightarrow> tty \<Rightarrow> tty" where
  "kill_foreground signo t = (if fg_pgid t > 0 then emit [Kill (- fg_pgid t) signo] t else t)"

definition tty_send_raw_char :: "byte \<Rightarrow> tty \<Rightarrow> tty kres" where
  "tty_send_raw_char ch t =
     (if ch = 0x03 then Inr (kill_foreground SIGINT t)
      else if ch = 0x1A then Inr (kill_foreground SIGTSTP t)
      else case produce_ring_buffer (tty_rx t) ch of
          Inl e \<Rightarrow> Inl e
        | Inr (ok, rx) \<Rightarrow> Inr (if ok then emit [Wake_readers] (t\<lparr>tty_rx := rx\<rparr>) else t\<lparr>tty_rx := rx\<rparr>))"

text \<open>
  One round of the loop of \<open>tty_send_input\<close> on an active terminal. \<open>deletable\<close> is the test of \<open>tty_delete\<close> on
  the windows: the terminal is visible and not the only one. Creating and switching terminals are
  recorded; the tests on the number of terminals belong to the driver.
\<close>

definition tty_send_char :: "bool \<Rightarrow> byte \<Rightarrow> tty \<Rightarrow> tty kres" where
  "tty_send_char deletable ch t =
     (if tmode t = TTY_MODE_RAW then tty_send_raw_char ch t
      else if ch = 0x14 then Inr (emit [Request_terminal] t)
      else if ch = 0x17 then
        Inr (if deletable then emit [Delete_terminal, Wake_readers] (t\<lparr>tactive := False\<rparr>) else t)
      else if ch = 0x0A then Inr (emit [Switch_terminal (- 1)] t)
      else if ch = 0x0B then Inr (emit [Switch_terminal 1] t)
      else if ch = 0x18 then Inr (tty_history_recall (- 1) t)
      else if ch = 0x19 then Inr (tty_history_recall 1 t)
      else if escape_state t \<noteq> 0 then Inr (snd (tty_handle_escape_char ch t))
      else if ch = 0x1B then Inr (t\<lparr>escape_state := 1\<rparr>)
      else
        (let r =
           (if ch = 0x03 then Inr (tty_clear_input_line (emit [Write [94, 67, 10]] (kill_foreground SIGINT t)))
            else if ch = 0x1A then Inr (tty_clear_input_line (emit [Write [94, 90, 10]] (kill_foreground SIGTSTP t)))
            else if ch = 0x7F then Inr (tty_backspace_input t)
            else if ch = 0x0C then tty_commit_input_line 0x0C t
            else if ch = 0x0D then
              tty_commit_input_line 10 (emit [Write [10]] (tty_move_cursor_right (input_len t - input_cursor t) t))
            else if ch = 0x04 then (if input_len t = 0 then tty_commit_input_line 0x04 t else Inr t)
            else Inr (tty_insert_input_char ch t))
         in case r of
              Inl e \<Rightarrow> Inl e
            | Inr t \<Rightarrow> Inr (if ch = 0x04 \<or> ch = 0x0C then emit [Wake_readers] t else t)))"

fun tty_send_input :: "bool \<Rightarrow> byte list \<Rightarrow> tty \<Rightarrow> tty kres" where
  "tty_send_input deletable [] t = Inr t"
| "tty_send_input deletable (ch # buffer) t =
     (if \<not> tactive t then Inr t
      else case tty_send_char deletable ch t of
          Inl e \<Rightarrow> Inl e
        | Inr t \<Rightarrow> tty_send_input deletable buffer t)"

text \<open>
  The loop of \<open>tty_read\<close>: \<open>wake k\<close> is what the rest of the system does to the terminal while the reader
  sleeps for the \<open>k\<close>-th time. The result is the bytes placed in the caller's buffer.
\<close>

primrec tty_read_loop :: "(nat \<Rightarrow> tty \<Rightarrow> tty) \<Rightarrow> nat \<Rightarrow> nat \<Rightarrow> tty \<Rightarrow> (byte list \<times> tty) kres" where
  "tty_read_loop wake 0 k t = Inr ([], t)"
| "tty_read_loop wake (Suc left) k t =
     (let handle = (\<lambda>ch k t.
            if ch = 0x04 then Inr ([], t)
            else if ch = 10 \<or> ch = 0x0C then Inr ([ch], t)
            else (case tty_read_loop wake left k t of
                Inl e \<Rightarrow> Inl e
              | Inr (cs, t) \<Rightarrow> Inr (ch # cs, t)))
      in case consume_ring_buffer (tty_rx t) of
          Inl e \<Rightarrow> Inl e
        | Inr (_, Some ch, rx) \<Rightarrow> handle ch k (t\<lparr>tty_rx := rx\<rparr>)
        | Inr (_, None, rx) \<Rightarrow>
            (let t = wake k (t\<lparr>tty_rx := rx\<rparr>) in
             case consume_ring_buffer (tty_rx t) of
               Inl e \<Rightarrow> Inl e
             | Inr (_, Some ch, rx) \<Rightarrow> handle ch (k + 1) (t\<lparr>tty_rx := rx\<rparr>)
             | Inr (_, None, rx) \<Rightarrow> Inr ([], t\<lparr>tty_rx := rx\<rparr>)))"

end
