(* ===== verification/Tty_Edit.thy ===== *)
theory Tty_Edit
  imports Tty_Line
begin

section \<open>What the line editor promises\<close>

text \<open>
  The specification of the editor of \<open>Tty_Line\<close>: a line is the text before and after the cursor, the history
  a list of lines, and a key a function on them (\<open>ed_key\<close>). The screen is a row of cells and a cursor,
  changed by the recorded calls (\<open>draw\<close>). The refinement: the arrays, lengths and shifting loops of the code
  implement \<open>ed_key\<close> through the abstraction \<open>ed_of\<close>, and the screen shows the line with the cursor where it
  is after every key.
\<close>

subsection \<open>The abstract editor\<close>

record ed =
  before :: "byte list"
  after :: "byte list"
  hist :: "byte list list"
  nav :: "(nat \<times> byte list) option"
  esc :: nat

definition ed_line :: "ed \<Rightarrow> byte list" where
  "ed_line e = before e @ after e"

definition ed_load :: "byte list \<Rightarrow> ed \<Rightarrow> ed" where
  "ed_load l e = e\<lparr>before := l, after := []\<rparr>"

definition ed_older :: "ed \<Rightarrow> ed" where
  "ed_older e =
     (if hist e = [] then e
      else case nav e of
          None \<Rightarrow> ed_load (last (hist e)) (e\<lparr>nav := Some (length (hist e) - 1, ed_line e)\<rparr>)
        | Some (i, saved) \<Rightarrow> ed_load (hist e ! (i - 1)) (e\<lparr>nav := Some (i - 1, saved)\<rparr>))"

definition ed_newer :: "ed \<Rightarrow> ed" where
  "ed_newer e =
     (case nav e of
        None \<Rightarrow> e
      | Some (i, saved) \<Rightarrow>
          if i + 1 < length (hist e) then ed_load (hist e ! (i + 1)) (e\<lparr>nav := Some (i + 1, saved)\<rparr>)
          else ed_load saved (e\<lparr>nav := None\<rparr>))"

definition ed_left :: "ed \<Rightarrow> ed" where
  "ed_left e = (if before e = [] then e else e\<lparr>before := butlast (before e), after := last (before e) # after e\<rparr>)"

definition ed_right :: "ed \<Rightarrow> ed" where
  "ed_right e = (case after e of [] \<Rightarrow> e | x # xs \<Rightarrow> e\<lparr>before := before e @ [x], after := xs\<rparr>)"

definition ed_insert :: "byte \<Rightarrow> ed \<Rightarrow> ed" where
  "ed_insert ch e = (if length (ed_line e) + 1 \<ge> 4096 then e else e\<lparr>before := before e @ [ch], nav := None\<rparr>)"

definition ed_erase :: "ed \<Rightarrow> ed" where
  "ed_erase e = (if before e = [] then e else e\<lparr>before := butlast (before e), nav := None\<rparr>)"

definition ed_escape :: "byte \<Rightarrow> ed \<Rightarrow> ed" where
  "ed_escape ch e =
     (if esc e = 1 then e\<lparr>esc := (if ch = 91 \<or> ch = 79 then 2 else 0)\<rparr>
      else if ch = 65 then (ed_older e)\<lparr>esc := 0\<rparr>
      else if ch = 66 then (ed_newer e)\<lparr>esc := 0\<rparr>
      else if ch = 67 then (ed_right e)\<lparr>esc := 0\<rparr>
      else if ch = 68 then (ed_left e)\<lparr>esc := 0\<rparr>
      else if 48 \<le> ch \<and> ch \<le> 59 then e
      else e\<lparr>esc := 0\<rparr>)"

definition ed_key :: "byte \<Rightarrow> ed \<Rightarrow> ed" where
  "ed_key ch e =
     (if ch \<in> {0x14, 0x0A, 0x0B} then e
      else if ch = 0x18 then ed_older e
      else if ch = 0x19 then ed_newer e
      else if esc e \<noteq> 0 then ed_escape ch e
      else if ch = 0x1B then e\<lparr>esc := 1\<rparr>
      else if ch = 0x7F then ed_erase e
      else ed_insert ch e)"

definition ed_remember :: "ed \<Rightarrow> ed" where
  "ed_remember e =
     (let l = take 255 (ed_line e) in
      if l = [] \<or> (hist e \<noteq> [] \<and> last (hist e) = l) then e\<lparr>nav := None\<rparr>
      else e\<lparr>hist := drop (length (hist e) - 15) (hist e) @ [l], nav := None\<rparr>)"

subsection \<open>The abstraction and the invariant\<close>

definition line_of :: "tty \<Rightarrow> byte list" where
  "line_of t = take (input_len t) (input_buffer t)"

definition hist_of :: "tty \<Rightarrow> byte list list" where
  "hist_of t = map (\<lambda>i. take (command_history_len t ! i) (command_history t ! i)) [0..<command_history_count t]"

definition nav_of :: "tty \<Rightarrow> (nat \<times> byte list) option" where
  "nav_of t =
     (if command_history_cursor t < 0 then None
      else Some (nat (command_history_cursor t), take (command_history_scratch_len t) (command_history_scratch t)))"

definition ed_of :: "tty \<Rightarrow> ed" where
  "ed_of t = \<lparr>before = take (input_cursor t) (line_of t), after = drop (input_cursor t) (line_of t),
              hist = hist_of t, nav = nav_of t, esc = escape_state t\<rparr>"

definition line_ok :: "tty \<Rightarrow> bool" where
  "line_ok t \<longleftrightarrow> length (input_buffer t) = TTY_INPUT_BUFFER_SIZE \<and> input_cursor t \<le> input_len t \<and> input_len t < TTY_INPUT_BUFFER_SIZE"

definition hist_ok :: "tty \<Rightarrow> bool" where
  "hist_ok t \<longleftrightarrow>
     length (command_history t) = TTY_COMMAND_HISTORY_DEPTH \<and>
     length (command_history_len t) = TTY_COMMAND_HISTORY_DEPTH \<and>
     list_all (\<lambda>row. length row = TTY_COMMAND_HISTORY_LINE_SIZE) (command_history t) \<and>
     list_all (\<lambda>n. n < TTY_COMMAND_HISTORY_LINE_SIZE) (command_history_len t) \<and>
     command_history_count t \<le> TTY_COMMAND_HISTORY_DEPTH \<and>
     command_history_cursor t < int (command_history_count t) \<and>
     length (command_history_scratch t) = TTY_INPUT_BUFFER_SIZE \<and>
     command_history_scratch_len t < TTY_INPUT_BUFFER_SIZE"

definition tty_ok :: "tty \<Rightarrow> bool" where
  "tty_ok t \<longleftrightarrow> rb_inv (tty_rx t) \<and> line_ok t \<and> hist_ok t \<and> escape_state t \<le> 2"

subsection \<open>The screen\<close>

type_synonym screen = "(nat \<Rightarrow> byte) \<times> nat"

definition put_cell :: "byte \<Rightarrow> screen \<Rightarrow> screen" where
  "put_cell b s = (if b = 10 then (\<lambda>_. 32, 0) else ((fst s)(snd s := b), snd s + 1))"

fun draw :: "tty_out \<Rightarrow> screen \<Rightarrow> screen" where
  "draw Cursor_left s = (fst s, snd s - 1)"
| "draw Cursor_right s = (fst s, snd s + 1)"
| "draw (Write bs) s = fold put_cell bs s"
| "draw (Kill _ _) s = s"
| "draw Wake_readers s = s"
| "draw Delete_terminal s = s"
| "draw (Switch_terminal _) s = s"
| "draw Request_terminal s = s"

definition printable :: "byte \<Rightarrow> bool" where
  "printable b \<longleftrightarrow> 32 \<le> b \<and> b \<noteq> 0x7F"

definition row :: "byte list \<Rightarrow> nat \<Rightarrow> byte" where
  "row l = (\<lambda>i. if i < length l then l ! i else 32)"

definition displays :: "byte list \<Rightarrow> nat \<Rightarrow> screen \<Rightarrow> bool" where
  "displays l c s \<longleftrightarrow> s = (row l, c)"

definition screen_of :: "screen \<Rightarrow> tty \<Rightarrow> screen" where
  "screen_of s t = fold draw (calls_out t) s"

text \<open>The terminal shows the line being edited, with the cursor at its place.\<close>

definition mirrors :: "screen \<Rightarrow> tty \<Rightarrow> bool" where
  "mirrors s t \<longleftrightarrow> displays (line_of t) (input_cursor t) (screen_of s t)"

definition clean :: "ed \<Rightarrow> bool" where
  "clean e \<longleftrightarrow> list_all printable (ed_line e) \<and> list_all (list_all printable) (hist e) \<and>
     (case nav e of None \<Rightarrow> True | Some (_, saved) \<Rightarrow> list_all printable saved)"

lemma draw_lefts [simp]: "(draw Cursor_left ^^ n) s = (fst s, snd s - n)"
  by (induction n) auto

lemma draw_rights [simp]: "(draw Cursor_right ^^ n) s = (fst s, snd s + n)"
  by (induction n) auto

lemma draw_text:
  "list_all (\<lambda>b. b \<noteq> 10) bs \<Longrightarrow>
   fold draw (map (\<lambda>b. Write [b]) bs) s =
     (\<lambda>i. if snd s \<le> i \<and> i < snd s + length bs then bs ! (i - snd s) else fst s i, snd s + length bs)"
proof (induction bs arbitrary: s)
  case Nil
  have "(\<lambda>i. if snd s \<le> i \<and> i < snd s then [] ! (i - snd s) else fst s i) = fst s" by (rule ext) (simp add: not_le [symmetric])
  then show ?case by (simp add: prod_eq_iff)
next
  case (Cons b bs)
  have "fold draw (map (\<lambda>b. Write [b]) (b # bs)) s = fold draw (map (\<lambda>b. Write [b]) bs) ((fst s)(snd s := b), snd s + 1)"
    using Cons.prems by (simp add: put_cell_def)
  also have "\<dots> = (\<lambda>i. if snd s \<le> i \<and> i < snd s + length (b # bs) then (b # bs) ! (i - snd s) else fst s i, snd s + length (b # bs))"
    using Cons by (auto simp: fun_eq_iff nth_Cons' Suc_diff_le)
  finally show ?case .
qed

subsection \<open>The loops on arrays\<close>

lemma copy_prefix_eq: "n \<le> length src \<Longrightarrow> n \<le> length dst \<Longrightarrow> copy_prefix n src dst = take n src @ drop n dst"
proof (induction n)
  case (Suc n)
  then have "drop n dst = dst ! n # drop (Suc n) dst" by (simp add: Cons_nth_drop_Suc)
  then show ?case using Suc by (simp add: list_update_append take_Suc_conv_app_nth)
qed simp

lemma shift_up_eq:
  "c \<le> n \<Longrightarrow> n < length buf \<Longrightarrow> shift_up n c buf = take (c + 1) buf @ drop c (take n buf) @ drop (n + 1) buf"
proof (induction n arbitrary: buf)
  case 0
  then show ?case by (cases buf) auto
next
  case (Suc n)
  show ?case
  proof (cases "c = Suc n")
    case True
    then show ?thesis using Suc.prems by (simp add: min_def)
  next
    case False
    have "shift_up (Suc n) c buf = shift_up n c (buf[Suc n := buf ! n])" using False Suc.prems by simp
    also have "\<dots> = take (c + 1) (buf[Suc n := buf ! n]) @ drop c (take n (buf[Suc n := buf ! n])) @ drop (n + 1) (buf[Suc n := buf ! n])"
      by (rule Suc.IH) (use False Suc.prems in auto)
    also have "drop (n + 1) (buf[Suc n := buf ! n]) = buf ! n # drop (Suc n + 1) buf"
      using Suc.prems by (simp add: drop_update_swap Cons_nth_drop_Suc [symmetric])
    also have "take (c + 1) (buf[Suc n := buf ! n]) = take (c + 1) buf" using False Suc.prems by simp
    also have "drop c (take n (buf[Suc n := buf ! n])) = drop c (take n buf)" by simp
    finally show ?thesis using False Suc.prems by (simp add: take_Suc_conv_app_nth)
  qed
qed

lemma shift_down_eq:
  "i + k < length buf \<Longrightarrow> shift_down k i buf = take i buf @ take k (drop (i + 1) buf) @ drop (i + k) buf"
proof (induction k arbitrary: i buf)
  case (Suc k)
  have "shift_down (Suc k) i buf = shift_down k (i + 1) (buf[i := buf ! (i + 1)])" by simp
  also have "\<dots> = take (i + 1) (buf[i := buf ! (i + 1)]) @ take k (drop (i + 2) buf) @ drop (i + 1 + k) buf"
    using Suc by simp
  also have "take (i + 1) (buf[i := buf ! (i + 1)]) = take i buf @ [buf ! (i + 1)]"
    using Suc.prems by (simp add: take_Suc_conv_app_nth)
  finally show ?case using Suc.prems by (simp add: Cons_nth_drop_Suc [symmetric])
qed simp

lemma shift_rows_eq: "n < length rows \<Longrightarrow> shift_rows n rows = take n (drop 1 rows) @ drop n rows"
proof (induction n)
  case (Suc n)
  then have "drop n rows = rows ! n # drop (Suc n) rows" by (simp add: Cons_nth_drop_Suc)
  then show ?case using Suc by (simp add: list_update_append take_Suc_conv_app_nth)
qed simp

subsection \<open>Each operation on the line\<close>

lemma emit_fields [simp]:
  "line_of (emit es t) = line_of t" "ed_of (emit es t) = ed_of t" "line_ok (emit es t) = line_ok t"
  "hist_ok (emit es t) = hist_ok t" "tty_ok (emit es t) = tty_ok t" "screen_of s (emit es t) = fold draw es (screen_of s t)"
  "input_len (emit es t) = input_len t" "input_cursor (emit es t) = input_cursor t" "input_buffer (emit es t) = input_buffer t"
  "tty_rx (emit es t) = tty_rx t" "tmode (emit es t) = tmode t" "tactive (emit es t) = tactive t"
  "escape_state (emit es t) = escape_state t" "hist_of (emit es t) = hist_of t" "nav_of (emit es t) = nav_of t"
  "command_history_cursor (emit es t) = command_history_cursor t" "command_history_count (emit es t) = command_history_count t"
  by (simp_all add: emit_def line_of_def ed_of_def hist_of_def nav_of_def line_ok_def hist_ok_def tty_ok_def screen_of_def)

lemma history_reset_fields [simp]:
  "line_of (tty_history_reset_navigation t) = line_of t" "line_ok (tty_history_reset_navigation t) = line_ok t"
  "nav_of (tty_history_reset_navigation t) = None" "hist_of (tty_history_reset_navigation t) = hist_of t"
  "screen_of s (tty_history_reset_navigation t) = screen_of s t" "tty_rx (tty_history_reset_navigation t) = tty_rx t"
  "input_len (tty_history_reset_navigation t) = input_len t" "input_cursor (tty_history_reset_navigation t) = input_cursor t"
  "input_buffer (tty_history_reset_navigation t) = input_buffer t" "escape_state (tty_history_reset_navigation t) = escape_state t"
  "tmode (tty_history_reset_navigation t) = tmode t" "tactive (tty_history_reset_navigation t) = tactive t"
  "hist_ok t \<Longrightarrow> hist_ok (tty_history_reset_navigation t)"
  by (simp_all add: tty_history_reset_navigation_def line_of_def nav_of_def hist_of_def line_ok_def hist_ok_def screen_of_def)

lemma length_line_of [simp]: "line_ok t \<Longrightarrow> length (line_of t) = input_len t"
  by (simp add: line_of_def line_ok_def)

lemma redraw_text: "line_ok t \<Longrightarrow> tty_redraw_from_cursor c t = emit (map (\<lambda>b. Write [b]) (drop c (line_of t))) t"
  by (auto simp: tty_redraw_from_cursor_def line_of_def line_ok_def list_eq_iff_nth_eq intro!: arg_cong [of _ _ "\<lambda>es. emit es t"])

lemma printable_line: "list_all printable l \<Longrightarrow> list_all (\<lambda>b. b \<noteq> 10) l"
  by (auto simp: list_all_iff printable_def)

text \<open>Writing the tail of a line that already stands on the screen up to the cursor completes it.\<close>

lemma draw_tail:
  assumes "list_all printable l" "c \<le> length l" "\<And>i. i < c \<Longrightarrow> f i = l ! i"
  shows "fold draw (map (\<lambda>b. Write [b]) (drop c l)) (f, c) = (\<lambda>i. if i < length l then l ! i else f i, length l)"
proof -
  have "list_all (\<lambda>b. b \<noteq> 10) (drop c l)" using printable_line [OF assms(1)] by (auto simp: list_all_iff dest: in_set_dropD)
  from draw_text [OF this, of "(f, c)"] show ?thesis using assms(2,3) by (auto simp: fun_eq_iff)
qed

lemmas tty_io = Let_def tty_move_cursor_left_def tty_move_cursor_right_def tty_redraw_from_cursor_def emit_def tty_history_reset_navigation_def

lemma insert_line:
  assumes ok: "line_ok t" and room: "input_len t + 1 < TTY_INPUT_BUFFER_SIZE"
  shows "line_of (tty_insert_input_char ch t) = take (input_cursor t) (line_of t) @ ch # drop (input_cursor t) (line_of t)"
    and "input_cursor (tty_insert_input_char ch t) = input_cursor t + 1" "line_ok (tty_insert_input_char ch t)"
proof -
  let ?c = "input_cursor t" and ?n = "input_len t" and ?b = "input_buffer t"
  have c: "?c \<le> ?n" "?n < length ?b" "?n + 1 < length ?b" using ok room by (auto simp: line_ok_def)
  have "(shift_up ?n ?c ?b)[?c := ch] = take ?c ?b @ ch # drop ?c (take ?n ?b) @ drop (?n + 1) ?b"
    using c by (simp add: shift_up_eq take_Suc_conv_app_nth list_update_append)
  then show "line_of (tty_insert_input_char ch t) = take ?c (line_of t) @ ch # drop ?c (line_of t)"
    using c room by (simp add: tty_insert_input_char_def tty_io line_of_def min_def Suc_diff_le)
  show "input_cursor (tty_insert_input_char ch t) = ?c + 1" "line_ok (tty_insert_input_char ch t)"
    using c room ok by (simp_all add: tty_insert_input_char_def tty_io line_ok_def shift_up_eq)
qed

lemma insert_screen:
  assumes ok: "line_ok t" and room: "input_len t + 1 < TTY_INPUT_BUFFER_SIZE"
    and m: "mirrors s t" and pr: "list_all printable (line_of t)" "printable ch"
  shows "mirrors s (tty_insert_input_char ch t)"
proof -
  let ?c = "input_cursor t" and ?l = "line_of (tty_insert_input_char ch t)"
  define u where "u = t\<lparr>input_buffer := (shift_up (input_len t) ?c (input_buffer t))[?c := ch], input_len := input_len t + 1\<rparr>"
  have c: "?c \<le> input_len t" using ok by (simp add: line_ok_def)
  note ins = insert_line [OF ok room, of ch]
  have u: "line_of u = ?l" "line_ok u" "screen_of s u = screen_of s t" "input_cursor u = ?c"
    using ok room by (simp_all add: u_def tty_insert_input_char_def tty_io line_of_def line_ok_def shift_up_eq screen_of_def)
  have len: "length ?l = input_len t + 1" using ins(1) ok c by simp
  have s0: "screen_of s t = (row (line_of t), ?c)" using m by (simp add: mirrors_def displays_def)
  have "list_all printable ?l" using pr ins(1) by (auto simp: list_all_iff dest: in_set_takeD in_set_dropD)
  then have "fold draw (map (\<lambda>b. Write [b]) (drop ?c ?l)) (screen_of s t) = (\<lambda>i. if i < length ?l then ?l ! i else row (line_of t) i, length ?l)"
    unfolding s0 by (rule draw_tail) (use c ok ins(1) in \<open>auto simp: row_def nth_append\<close>)
  moreover have "(\<lambda>i. if i < length ?l then ?l ! i else row (line_of t) i) = row ?l" using len ok by (auto simp: row_def fun_eq_iff)
  moreover have "screen_of s (tty_insert_input_char ch t) = fold draw (replicate (input_len t - ?c) Cursor_left) (screen_of s (tty_redraw_from_cursor ?c u))"
    using room by (simp add: u_def tty_insert_input_char_def tty_io screen_of_def)
  ultimately show ?thesis using u c len ins(2) by (simp add: mirrors_def displays_def redraw_text)
qed

lemma backspace_line:
  assumes ok: "line_ok t" and pos: "0 < input_cursor t"
  shows "line_of (tty_backspace_input t) = take (input_cursor t - 1) (line_of t) @ drop (input_cursor t) (line_of t)"
    and "input_cursor (tty_backspace_input t) = input_cursor t - 1" "line_ok (tty_backspace_input t)"
proof -
  let ?c = "input_cursor t - 1" and ?n = "input_len t" and ?b = "input_buffer t"
  have c: "?c < ?n" "?n < length ?b" using ok pos by (auto simp: line_ok_def)
  then have m: "min (?n - 1) ?c = ?c" "?n - 1 - ?c = ?n - input_cursor t" using pos by simp_all
  from c have b: "shift_down (?n - 1 - ?c) ?c ?b = take ?c ?b @ take (?n - 1 - ?c) (drop (?c + 1) ?b) @ drop (?n - 1) ?b"
    by (simp add: shift_down_eq)
  have "line_of (tty_backspace_input t) = take (?n - 1) (shift_down (?n - 1 - ?c) ?c ?b)"
    using pos by (simp add: tty_backspace_input_def tty_io line_of_def)
  also have "\<dots> = take ?c ?b @ drop (input_cursor t) (take ?n ?b)"
    using c pos unfolding b by (simp add: take_drop min.absorb2)
  also have "take ?c ?b = take ?c (line_of t)" using c by (simp add: line_of_def min.absorb1)
  finally show "line_of (tty_backspace_input t) = take ?c (line_of t) @ drop (input_cursor t) (line_of t)"
    by (simp add: line_of_def)
  show "input_cursor (tty_backspace_input t) = ?c" "line_ok (tty_backspace_input t)"
    using c pos ok b by (auto simp: tty_backspace_input_def tty_io line_ok_def)
qed

lemma backspace_screen:
  assumes ok: "line_ok t" and pos: "0 < input_cursor t" and m: "mirrors s t" and pr: "list_all printable (line_of t)"
  shows "mirrors s (tty_backspace_input t)"
proof -
  let ?c = "input_cursor t - 1" and ?l = "line_of (tty_backspace_input t)"
  define u where "u = t\<lparr>input_cursor := ?c, input_buffer := shift_down (input_len t - 1 - ?c) ?c (input_buffer t), input_len := input_len t - 1\<rparr>"
  have c: "?c < input_len t" using ok pos by (auto simp: line_ok_def)
  note bs = backspace_line [OF ok pos]
  have u: "line_of u = ?l" "screen_of s u = screen_of s t"
    using ok pos by (simp_all add: u_def tty_backspace_input_def tty_io line_of_def screen_of_def)
  have lu: "line_ok u" using bs(3) pos by (simp add: u_def tty_backspace_input_def tty_io line_ok_def)
  have len: "length ?l = input_len t - 1" using bs(1) ok c pos by simp
  define v where "v = (row (line_of t), ?c)"
  have s0: "fold draw [Cursor_left] (screen_of s t) = v" using m by (simp add: mirrors_def displays_def v_def)
  have "list_all printable ?l" using pr bs(1) by (auto simp: list_all_iff dest: in_set_takeD in_set_dropD)
  then have d: "fold draw (map (\<lambda>b. Write [b]) (drop ?c ?l)) v = (\<lambda>i. if i < length ?l then ?l ! i else row (line_of t) i, length ?l)"
    unfolding v_def by (rule draw_tail) (use c ok bs(1) in \<open>auto simp: row_def nth_append\<close>)
  have r: "(\<lambda>i. if i < length ?l then ?l ! i else row (line_of t) i)(length ?l := 32) = row ?l" using len ok c by (auto simp: row_def fun_eq_iff)
  have "screen_of s (tty_backspace_input t) =
      fold draw (replicate (input_len t - 1 - ?c + 1) Cursor_left) (fold draw [Write [32]] (screen_of s (tty_redraw_from_cursor ?c (emit [Cursor_left] u))))"
    using pos by (simp add: u_def tty_backspace_input_def tty_io screen_of_def)
  also have "\<dots> = (row ?l, ?c)" using u lu s0 d c len r by (simp add: redraw_text put_cell_def)
  finally show ?thesis using bs(2) by (simp add: mirrors_def displays_def)
qed

lemma draw_blanks [simp]:
  "(draw (Write [32]) ^^ n) s = (\<lambda>i. if snd s \<le> i \<and> i < snd s + n then 32 else fst s i, snd s + n)"
proof (induction n)
  case 0
  have "(\<lambda>i. if snd s \<le> i \<and> i < snd s then 32 else fst s i) = fst s" by (rule ext) (simp add: not_le [symmetric])
  then show ?case by (simp add: prod_eq_iff)
next
  case (Suc n)
  then show ?case by (auto simp: put_cell_def fun_eq_iff)
qed

lemma replace_line:
  assumes ok: "line_ok t" and len: "len \<le> length line" "len < TTY_INPUT_BUFFER_SIZE"
  shows "line_of (tty_replace_input_line line len t) = take len line"
    and "input_cursor (tty_replace_input_line line len t) = len" "line_ok (tty_replace_input_line line len t)"
  using assms by (simp_all add: tty_replace_input_line_def tty_io line_of_def line_ok_def copy_prefix_eq)

lemma replace_screen:
  assumes ok: "line_ok t" and len: "len \<le> length line" "len < TTY_INPUT_BUFFER_SIZE"
    and m: "mirrors s t" and pr: "list_all printable (take len line)"
  shows "mirrors s (tty_replace_input_line line len t)"
proof -
  let ?u = "tty_replace_input_line line len t" and ?l = "take len line"
  define v where "v = (tty_move_cursor_left (input_cursor t) t)\<lparr>input_buffer := copy_prefix len line (input_buffer t), input_len := len, input_cursor := len\<rparr>"
  have v: "line_of v = ?l" "line_ok v" "screen_of s v = (row (line_of t), 0)"
    using ok len m by (simp_all add: v_def line_of_def line_ok_def copy_prefix_eq screen_of_def tty_io mirrors_def displays_def)
  have d: "fold draw (map (\<lambda>b. Write [b]) (drop 0 ?l)) (row (line_of t), 0) = (\<lambda>i. if i < length ?l then ?l ! i else row (line_of t) i, length ?l)"
    by (rule draw_tail) (use pr in auto)
  have "?u = (let w = tty_redraw_from_cursor 0 v in if input_len t > len then
      tty_move_cursor_left (input_len t - len) (emit (replicate (input_len t - len) (Write [32])) w) else w)"
    using len by (simp add: tty_replace_input_line_def v_def Let_def tty_move_cursor_left_def)
  then have "screen_of s ?u = (let w = fold draw (map (\<lambda>b. Write [b]) (drop 0 ?l)) (row (line_of t), 0) in
      if input_len t > len then fold draw (replicate (input_len t - len) Cursor_left) (fold draw (replicate (input_len t - len) (Write [32])) w) else w)"
    using v by (simp add: redraw_text tty_move_cursor_left_def Let_def)
  also have "\<dots> = (row ?l, len)" unfolding d Let_def using ok len by (auto simp: row_def fun_eq_iff min_def)
  finally show ?thesis using replace_line [OF ok len] by (simp add: mirrors_def displays_def)
qed

lemma replace_fields [simp]:
  "hist_of (tty_replace_input_line line len t) = hist_of t" "nav_of (tty_replace_input_line line len t) = nav_of t"
  "escape_state (tty_replace_input_line line len t) = escape_state t" "tty_rx (tty_replace_input_line line len t) = tty_rx t"
  "tmode (tty_replace_input_line line len t) = tmode t" "tactive (tty_replace_input_line line len t) = tactive t"
  "hist_ok (tty_replace_input_line line len t) = hist_ok t"
  by (simp_all add: tty_replace_input_line_def tty_io hist_of_def nav_of_def hist_ok_def)

subsection \<open>Each key\<close>

text \<open>
  \<open>edits s t u e\<close>: the step from \<open>t\<close> to \<open>u\<close> keeps the invariant, leaves \<open>e\<close> as the abstract editor and the screen
  in step with it, and touches neither the queue to the readers nor the mode.
\<close>

definition edits :: "screen \<Rightarrow> tty \<Rightarrow> tty \<Rightarrow> ed \<Rightarrow> bool" where
  "edits s t u e \<longleftrightarrow> tty_ok u \<and> ed_of u = e \<and> mirrors s u \<and> tty_rx u = tty_rx t \<and> tmode u = tmode t \<and> tactive u = tactive t"

definition shown :: "screen \<Rightarrow> tty \<Rightarrow> bool" where
  "shown s t \<longleftrightarrow> tty_ok t \<and> clean (ed_of t) \<and> mirrors s t"

lemma ed_line_of: "ed_line (ed_of t) = line_of t"
  by (simp add: ed_line_def ed_of_def)

lemma shown_line: "shown s t \<Longrightarrow> list_all printable (line_of t)"
  by (simp add: shown_def clean_def ed_line_of)

lemma edits_insert:
  assumes "shown s t" "printable ch"
  shows "edits s t (tty_insert_input_char ch t) (ed_insert ch (ed_of t))"
proof (cases "input_len t + 1 < TTY_INPUT_BUFFER_SIZE")
  case True
  have ok: "line_ok t" "tty_ok t" "mirrors s t" and c: "input_cursor t \<le> input_len t"
    using assms by (auto simp: shown_def tty_ok_def line_ok_def)
  note ins = insert_line [OF ok(1) True, of ch]
  have fields: "hist_of (tty_insert_input_char ch t) = hist_of t" "nav_of (tty_insert_input_char ch t) = None"
    "escape_state (tty_insert_input_char ch t) = escape_state t" "tty_rx (tty_insert_input_char ch t) = tty_rx t"
    "tmode (tty_insert_input_char ch t) = tmode t" "tactive (tty_insert_input_char ch t) = tactive t"
    "hist_ok t \<Longrightarrow> hist_ok (tty_insert_input_char ch t)"
    by (simp_all only: tty_insert_input_char_def tty_io hist_of_def nav_of_def hist_ok_def) (use True in simp_all)
  have "mirrors s (tty_insert_input_char ch t)" by (rule insert_screen [OF ok(1) True ok(3) shown_line [OF assms(1)] assms(2)])
  then show ?thesis using ok ins fields c True
    by (simp add: edits_def tty_ok_def ed_of_def ed_insert_def ed_line_def)
next
  case False
  then have "tty_insert_input_char ch t = t" "ed_insert ch (ed_of t) = ed_of t"
    using assms by (auto simp: tty_insert_input_char_def ed_insert_def ed_line_of shown_def tty_ok_def)
  then show ?thesis using assms by (simp add: edits_def shown_def)
qed

lemma edits_backspace:
  assumes "shown s t"
  shows "edits s t (tty_backspace_input t) (ed_erase (ed_of t))"
proof (cases "input_cursor t = 0")
  case True
  then have "tty_backspace_input t = t" "ed_erase (ed_of t) = ed_of t" by (auto simp: tty_backspace_input_def ed_erase_def ed_of_def)
  then show ?thesis using assms by (simp add: edits_def shown_def)
next
  case False
  have ok: "line_ok t" "tty_ok t" "mirrors s t" and c: "0 < input_cursor t" "input_cursor t \<le> input_len t"
    using assms False by (auto simp: shown_def tty_ok_def line_ok_def)
  note bs = backspace_line [OF ok(1) c(1)]
  have fields: "hist_of (tty_backspace_input t) = hist_of t" "nav_of (tty_backspace_input t) = None"
    "escape_state (tty_backspace_input t) = escape_state t" "tty_rx (tty_backspace_input t) = tty_rx t"
    "tmode (tty_backspace_input t) = tmode t" "tactive (tty_backspace_input t) = tactive t"
    "hist_ok t \<Longrightarrow> hist_ok (tty_backspace_input t)"
    by (simp_all only: tty_backspace_input_def tty_io hist_of_def nav_of_def hist_ok_def) (use False in simp_all)
  have "mirrors s (tty_backspace_input t)" by (rule backspace_screen [OF ok(1) c(1) ok(3) shown_line [OF assms]])
  moreover have "line_of t \<noteq> []" using c length_line_of [OF ok(1)] by (metis le_zero_eq list.size(3) less_irrefl)
  then have "before (ed_of t) \<noteq> []" "butlast (before (ed_of t)) = take (input_cursor t - 1) (line_of t)"
    using ok c by (auto simp: ed_of_def butlast_take)
  ultimately show ?thesis using ok bs fields c
    by (simp add: edits_def tty_ok_def ed_of_def ed_erase_def)
qed

lemma edits_load:
  assumes t: "tty_ok t" "mirrors s t" and u: "tty_ok u" "mirrors s u" "tty_rx u = tty_rx t" "tmode u = tmode t" "tactive u = tactive t"
    and len: "len \<le> length line" "len < TTY_INPUT_BUFFER_SIZE" and pr: "list_all printable (take len line)"
  shows "edits s t (tty_replace_input_line line len u) (ed_load (take len line) (ed_of u))"
proof -
  have ok: "line_ok u" using u by (simp add: tty_ok_def)
  show ?thesis using u replace_line [OF ok len] replace_screen [OF ok len u(2) pr]
    by (simp add: edits_def tty_ok_def ed_of_def ed_load_def)
qed

lemma hist_slot:
  assumes "hist_ok t" "i < command_history_count t"
  shows "hist_of t ! i = take (command_history_len t ! i) (command_history t ! i)"
    "command_history_len t ! i \<le> length (command_history t ! i)" "command_history_len t ! i < TTY_INPUT_BUFFER_SIZE"
  using assms by (auto simp: hist_of_def hist_ok_def list_all_length less_imp_le intro: less_trans [of _ 256])

lemma length_hist_of [simp]: "length (hist_of t) = command_history_count t"
  by (simp add: hist_of_def)

text \<open>Moving the history cursor and showing the command there.\<close>

lemma edits_show_slot:
  assumes sh: "shown s t" and i: "i < command_history_count t"
    and u: "u = t\<lparr>command_history_scratch_len := n, command_history_scratch := sc, command_history_cursor := int i\<rparr>"
    and sc: "length sc = TTY_INPUT_BUFFER_SIZE" "n < TTY_INPUT_BUFFER_SIZE"
  shows "edits s t (tty_replace_input_line (command_history t ! i) (command_history_len t ! i) u)
           (ed_load (hist_of t ! i) ((ed_of t)\<lparr>nav := Some (i, take n sc)\<rparr>))"
proof -
  have t: "tty_ok t" "mirrors s t" "hist_ok t" using sh by (auto simp: shown_def tty_ok_def)
  have ou: "tty_ok u" "mirrors s u" "tty_rx u = tty_rx t" "tmode u = tmode t" "tactive u = tactive t"
    using t i sc by (auto simp: u tty_ok_def line_ok_def hist_ok_def mirrors_def line_of_def screen_of_def)
  have e: "ed_of u = (ed_of t)\<lparr>nav := Some (i, take n sc)\<rparr>" by (simp add: u ed_of_def line_of_def hist_of_def nav_of_def)
  note h = hist_slot [OF t(3) i]
  have "list_all printable (hist_of t ! i)" using sh i by (auto simp: shown_def clean_def ed_of_def list_all_length)
  then have pr: "list_all printable (take (command_history_len t ! i) (command_history t ! i))" by (simp add: h(1))
  show ?thesis using edits_load [OF t(1,2) ou h(2,3) pr] by (simp add: e h(1))
qed

lemma edits_older:
  assumes sh: "shown s t"
  shows "edits s t (tty_history_recall (- 1) t) (ed_older (ed_of t))"
proof (cases "command_history_count t = 0")
  case True
  then have "tty_history_recall (- 1) t = t" "ed_older (ed_of t) = ed_of t"
    by (auto simp: tty_history_recall_def ed_older_def ed_of_def hist_of_def)
  then show ?thesis using sh by (simp add: edits_def shown_def)
next
  case False
  have t: "line_ok t" "hist_ok t" using sh by (auto simp: shown_def tty_ok_def)
  have ne: "hist_of t \<noteq> []" using False by (simp add: hist_of_def)
  show ?thesis
  proof (cases "command_history_cursor t < 0")
    case neg: True
    let ?sc = "copy_prefix (input_len t) (input_buffer t) (command_history_scratch t)" and ?i = "command_history_count t - 1"
    have sc: "?sc = line_of t @ drop (input_len t) (command_history_scratch t)"
      using t by (simp add: copy_prefix_eq line_ok_def hist_ok_def line_of_def)
    have "length ?sc = TTY_INPUT_BUFFER_SIZE" "input_len t < TTY_INPUT_BUFFER_SIZE" "take (input_len t) ?sc = line_of t"
      using t by (auto simp: sc hist_ok_def) (auto simp: line_ok_def)
    note e = edits_show_slot [OF sh _ refl this(1,2), of ?i, unfolded this(3)]
    have r: "tty_history_recall (- 1) t = tty_replace_input_line (command_history t ! ?i) (command_history_len t ! ?i)
        (t\<lparr>command_history_scratch_len := input_len t, command_history_scratch := ?sc, command_history_cursor := int ?i\<rparr>)"
      using False neg by (simp add: tty_history_recall_def Let_def int_ops nat_diff_distrib')
    have "ed_older (ed_of t) = ed_load (hist_of t ! ?i) ((ed_of t)\<lparr>nav := Some (?i, line_of t)\<rparr>)"
      using neg ne by (simp add: ed_older_def ed_line_def ed_of_def nav_of_def last_conv_nth)
    then show ?thesis using e False unfolding r by simp
  next
    case pos: False
    let ?i = "nat (command_history_cursor t) - 1"
    have same: "command_history_cursor t = 0 \<Longrightarrow> t\<lparr>command_history_cursor := 0\<rparr> = t" by (cases t) simp
    have sc: "length (command_history_scratch t) = TTY_INPUT_BUFFER_SIZE" "command_history_scratch_len t < TTY_INPUT_BUFFER_SIZE" and i: "?i < command_history_count t"
      using t pos by (auto simp: hist_ok_def)
    have r: "tty_history_recall (- 1) t = tty_replace_input_line (command_history t ! ?i) (command_history_len t ! ?i)
        (t\<lparr>command_history_scratch_len := command_history_scratch_len t, command_history_scratch := command_history_scratch t, command_history_cursor := int ?i\<rparr>)"
      using False pos by (cases "command_history_cursor t > 0") (simp_all add: tty_history_recall_def Let_def nat_diff_distrib same)
    have "ed_older (ed_of t) = ed_load (hist_of t ! ?i) ((ed_of t)\<lparr>nav := Some (?i, take (command_history_scratch_len t) (command_history_scratch t))\<rparr>)"
      using pos ne by (simp add: ed_older_def ed_of_def nav_of_def)
    then show ?thesis using edits_show_slot [OF sh i refl sc] unfolding r by simp
  qed
qed

lemma edits_newer:
  assumes sh: "shown s t"
  shows "edits s t (tty_history_recall 1 t) (ed_newer (ed_of t))"
proof (cases "command_history_cursor t < 0")
  case True
  then have "tty_history_recall 1 t = t" "ed_newer (ed_of t) = ed_of t"
    by (auto simp: tty_history_recall_def ed_newer_def ed_of_def nav_of_def Let_def)
  then show ?thesis using sh by (simp add: edits_def shown_def)
next
  case False
  have t: "line_ok t" "hist_ok t" "tty_ok t" "mirrors s t" using sh by (auto simp: shown_def tty_ok_def)
  let ?i = "nat (command_history_cursor t)" and ?sc = "command_history_scratch t" and ?n = "command_history_scratch_len t"
  have sc: "length ?sc = TTY_INPUT_BUFFER_SIZE" "?n < TTY_INPUT_BUFFER_SIZE" and i: "?i < command_history_count t"
    using t False by (auto simp: hist_ok_def)
  have nav: "nav (ed_of t) = Some (?i, take ?n ?sc)" and hist: "hist (ed_of t) = hist_of t" using False by (simp_all add: ed_of_def nav_of_def)
  show ?thesis
  proof (cases "?i + 1 < command_history_count t")
    case True
    have "tty_history_recall 1 t = tty_replace_input_line (command_history t ! (?i + 1)) (command_history_len t ! (?i + 1))
        (t\<lparr>command_history_scratch_len := ?n, command_history_scratch := ?sc, command_history_cursor := int (?i + 1)\<rparr>)"
      using True False by (simp add: tty_history_recall_def Let_def nat_add_distrib add.commute)
    moreover have "ed_newer (ed_of t) = ed_load (hist_of t ! (?i + 1)) ((ed_of t)\<lparr>nav := Some (?i + 1, take ?n ?sc)\<rparr>)"
      using True by (simp add: ed_newer_def nav hist)
    ultimately show ?thesis using edits_show_slot [OF sh True refl sc] by simp
  next
    case last: False
    let ?u = "tty_replace_input_line ?sc ?n t"
    have pr: "list_all printable (take ?n ?sc)" using sh by (simp add: shown_def clean_def nav)
    have u: "edits s t ?u (ed_load (take ?n ?sc) (ed_of t))"
      by (rule edits_load [OF t(3,4) t(3,4) refl refl refl _ sc(2) pr]) (use sc in simp)
    have "tty_history_recall 1 t = tty_history_reset_navigation ?u"
      using False last i by (simp add: tty_history_recall_def Let_def)
    moreover have "ed_newer (ed_of t) = (ed_load (take ?n ?sc) (ed_of t))\<lparr>nav := None\<rparr>"
      using last by (simp add: ed_newer_def nav hist ed_load_def)
    moreover have "ed_of (tty_history_reset_navigation ?u) = (ed_of ?u)\<lparr>nav := None\<rparr>" by (simp add: ed_of_def)
    ultimately show ?thesis using u by (auto simp: edits_def tty_ok_def mirrors_def)
  qed
qed

lemma edits_left:
  assumes sh: "shown s t"
  shows "edits s t (tty_handle_arrow 68 t) (ed_left (ed_of t))"
proof (cases "input_cursor t = 0")
  case True
  then show ?thesis using sh by (simp add: edits_def shown_def tty_handle_arrow_def ed_left_def) (simp add: ed_of_def)
next
  case False
  let ?c = "input_cursor t - 1"
  have t: "line_ok t" "tty_ok t" "mirrors s t" using sh by (auto simp: shown_def tty_ok_def)
  have c: "?c < length (line_of t)" using t False by (auto simp: line_ok_def line_of_def)
  have "take (input_cursor t) (line_of t) = take ?c (line_of t) @ [line_of t ! ?c]" "drop ?c (line_of t) = line_of t ! ?c # drop (input_cursor t) (line_of t)"
    using c False take_Suc_conv_app_nth [OF c] Cons_nth_drop_Suc [OF c] by simp_all
  moreover have "tty_handle_arrow 68 t = emit [Cursor_left] (t\<lparr>input_cursor := ?c\<rparr>)" using False by (simp add: tty_handle_arrow_def)
  ultimately show ?thesis using t
    by (auto simp: edits_def ed_left_def ed_of_def tty_ok_def line_ok_def hist_ok_def mirrors_def displays_def screen_of_def line_of_def hist_of_def nav_of_def emit_def)
qed

lemma edits_right:
  assumes sh: "shown s t"
  shows "edits s t (tty_handle_arrow 67 t) (ed_right (ed_of t))"
proof (cases "input_cursor t < input_len t")
  case False
  then have "drop (input_cursor t) (line_of t) = []" by (simp add: line_of_def)
  then have "ed_right (ed_of t) = ed_of t" by (simp add: ed_right_def ed_of_def)
  then show ?thesis using sh False by (simp add: edits_def shown_def tty_handle_arrow_def)
next
  case True
  let ?c = "input_cursor t"
  have t: "line_ok t" "tty_ok t" "mirrors s t" using sh by (auto simp: shown_def tty_ok_def)
  have c: "?c < length (line_of t)" using t True by simp
  have "take (?c + 1) (line_of t) = take ?c (line_of t) @ [line_of t ! ?c]" "drop ?c (line_of t) = line_of t ! ?c # drop (?c + 1) (line_of t)"
    using take_Suc_conv_app_nth [OF c] Cons_nth_drop_Suc [OF c] by simp_all
  moreover have "tty_handle_arrow 67 t = emit [Cursor_right] (t\<lparr>input_cursor := ?c + 1\<rparr>)" using True by (simp add: tty_handle_arrow_def tty_move_cursor_right_def)
  ultimately show ?thesis using t True
    by (auto simp: edits_def ed_right_def ed_of_def tty_ok_def line_ok_def hist_ok_def mirrors_def displays_def screen_of_def line_of_def hist_of_def nav_of_def emit_def)
qed

lemma edits_escape_state: "edits s t u e \<Longrightarrow> n \<le> 2 \<Longrightarrow> edits s t (u\<lparr>escape_state := n\<rparr>) (e\<lparr>esc := n\<rparr>)"
  by (auto simp: edits_def ed_of_def tty_ok_def line_ok_def hist_ok_def mirrors_def displays_def screen_of_def line_of_def hist_of_def nav_of_def)

lemma edits_same: "shown s t \<Longrightarrow> edits s t t (ed_of t)"
  by (simp add: edits_def shown_def)

lemma digits_and_separators: "48 \<le> (ch :: byte) \<and> ch \<le> 59 \<longleftrightarrow> (48 \<le> ch \<and> ch \<le> 57) \<or> ch = 59 \<or> ch = 58"
  by (auto simp: word_le_nat_alt word_unat_eq_iff)

lemma edits_escape:
  assumes sh: "shown s t" and e: "escape_state t \<noteq> 0"
  shows "edits s t (snd (tty_handle_escape_char ch t)) (ed_escape ch (ed_of t))"
proof -
  have "escape_state t = 1 \<or> escape_state t = 2" using sh e by (auto simp: shown_def tty_ok_def)
  then show ?thesis
  proof
    assume "escape_state t = 1"
    then show ?thesis using edits_escape_state [OF edits_same [OF sh], of "if ch = 91 \<or> ch = 79 then 2 else 0"]
      by (simp add: tty_handle_escape_char_def ed_escape_def ed_of_def)
  next
    assume two: "escape_state t = 2"
    have esc: "esc (ed_of t) = 2" using two by (simp add: ed_of_def)
    have arrows: "tty_handle_arrow 65 t = tty_history_recall (- 1) t" "tty_handle_arrow 66 t = tty_history_recall 1 t"
      by (simp_all add: tty_handle_arrow_def)
    note zero = edits_escape_state [where n = 0, simplified]
    consider "ch = 65" | "ch = 66" | "ch = 67" | "ch = 68" | "48 \<le> ch \<and> ch \<le> 59" | "ch \<notin> {65, 66, 67, 68}" "\<not> (48 \<le> ch \<and> ch \<le> 59)" by blast
    then show ?thesis
    proof cases
      case 1 then show ?thesis using zero [OF edits_older [OF sh]] by (simp add: tty_handle_escape_char_def ed_escape_def two esc arrows tty_reset_escape_def)
    next
      case 2 then show ?thesis using zero [OF edits_newer [OF sh]] by (simp add: tty_handle_escape_char_def ed_escape_def two esc arrows tty_reset_escape_def)
    next
      case 3 then show ?thesis using zero [OF edits_right [OF sh]] by (simp add: tty_handle_escape_char_def ed_escape_def two esc tty_reset_escape_def)
    next
      case 4 then show ?thesis using zero [OF edits_left [OF sh]] by (simp add: tty_handle_escape_char_def ed_escape_def two esc tty_reset_escape_def)
    next
      case 5
      then have "ch \<noteq> 65" "ch \<noteq> 66" "ch \<noteq> 67" "ch \<noteq> 68" by auto
      moreover have "(48 \<le> ch \<and> ch \<le> 57) \<or> ch = 59 \<or> ch = 58" using 5 digits_and_separators by blast
      ultimately show ?thesis using 5 edits_same [OF sh] by (auto simp: tty_handle_escape_char_def ed_escape_def two esc)
    next
      case 6
      then have "\<not> (48 \<le> ch \<and> ch \<le> 57)" "ch \<noteq> 59" "ch \<noteq> 58" using digits_and_separators by blast+
      then show ?thesis using 6 zero [OF edits_same [OF sh]]
        by (simp add: tty_handle_escape_char_def ed_escape_def two esc tty_reset_escape_def del: de_Morgan_conj)
    qed
  qed
qed

definition editing_key :: "byte \<Rightarrow> bool" where
  "editing_key ch \<longleftrightarrow> printable ch \<or> ch \<in> {0x0A, 0x0B, 0x14, 0x18, 0x19, 0x1B, 0x7F}"

lemma edits_emit: "shown s t \<Longrightarrow> (\<And>x. draw k x = x) \<Longrightarrow> edits s t (emit [k] t) (ed_of t)"
  by (simp add: edits_def shown_def mirrors_def)

lemma edits_key:
  assumes sh: "shown s t" and can: "tmode t = TTY_MODE_CANONICAL" and k: "editing_key ch"
  shows "\<exists>u. tty_send_char d ch t = Inr u \<and> edits s t u (ed_key ch (ed_of t))"
proof -
  have esc: "esc (ed_of t) = escape_state t" by (simp add: ed_of_def)
  have small: "\<not> printable 3" "\<not> printable 4" "\<not> printable 0x0A" "\<not> printable 0x0B" "\<not> printable 0x0C" "\<not> printable 0x0D" "\<not> printable 0x14"
    "\<not> printable 0x17" "\<not> printable 0x18" "\<not> printable 0x19" "\<not> printable 0x1A" "\<not> printable 0x1B" "\<not> printable 0x7F"
    by (simp_all add: printable_def)
  consider "ch = 0x14" | "ch = 0x0A" | "ch = 0x0B" | "ch = 0x18" | "ch = 0x19" | "ch \<notin> {0x14, 0x0A, 0x0B, 0x18, 0x19}" "escape_state t \<noteq> 0"
    | "ch = 0x1B" "escape_state t = 0" | "ch = 0x7F" "escape_state t = 0" | "printable ch" "escape_state t = 0"
    using k by (auto simp: editing_key_def)
  then show ?thesis
  proof cases
    case 4 then show ?thesis using edits_older [OF sh] by (simp add: tty_send_char_def ed_key_def can)
  next
    case 5 then show ?thesis using edits_newer [OF sh] by (simp add: tty_send_char_def ed_key_def can)
  next
    case 6
    then have "ch \<noteq> 0x17" using k small by (auto simp: editing_key_def)
    then show ?thesis using 6 edits_escape [OF sh 6(2)] by (simp add: tty_send_char_def ed_key_def can esc)
  next
    case 7 then show ?thesis using edits_escape_state [OF edits_same [OF sh], of 1] by (simp add: tty_send_char_def ed_key_def can esc)
  next
    case 8 then show ?thesis using edits_backspace [OF sh] by (simp add: tty_send_char_def ed_key_def can esc)
  next
    case 9
    then have "ch \<notin> {3, 4, 0x0A, 0x0B, 0x0C, 0x0D, 0x14, 0x17, 0x18, 0x19, 0x1A, 0x1B, 0x7F}" using small by auto
    then show ?thesis using 9(2) edits_insert [OF sh 9(1)] by (simp add: tty_send_char_def ed_key_def can esc)
  qed (simp_all add: tty_send_char_def ed_key_def can edits_emit [OF sh])
qed

lemma clean_load: "clean e \<Longrightarrow> list_all printable l \<Longrightarrow> clean (ed_load l e)"
  by (simp add: clean_def ed_load_def ed_line_def)

lemma clean_nav: "clean e \<Longrightarrow> list_all printable sv \<Longrightarrow> clean (e\<lparr>nav := Some (i, sv)\<rparr>)" "clean e \<Longrightarrow> clean (e\<lparr>nav := None\<rparr>)"
  by (simp_all add: clean_def ed_line_def)

lemma clean_hist: "clean e \<Longrightarrow> i < length (hist e) \<Longrightarrow> list_all printable (hist e ! i)"
  by (simp add: clean_def list_all_length)

lemma clean_older:
  assumes "clean e" "\<And>i sv. nav e = Some (i, sv) \<Longrightarrow> i < length (hist e)"
  shows "clean (ed_older e)"
proof (cases "nav e")
  case None
  have "hist e \<noteq> [] \<Longrightarrow> list_all printable (last (hist e))" using clean_hist [OF assms(1)] by (simp add: last_conv_nth)
  then show ?thesis using assms(1) None by (auto simp: ed_older_def intro!: clean_load clean_nav) (simp add: clean_def)
next
  case (Some p)
  obtain i sv where p: "p = (i, sv)" by (cases p)
  have "list_all printable sv" "list_all printable (hist e ! (i - 1))" using assms Some p clean_hist [OF assms(1), of "i - 1"] by (auto simp: clean_def less_imp_diff_less)
  then show ?thesis using assms(1) Some p by (auto simp: ed_older_def intro!: clean_load clean_nav)
qed

lemma clean_newer:
  assumes "clean e"
  shows "clean (ed_newer e)"
proof (cases "nav e")
  case (Some p)
  obtain i sv where p: "p = (i, sv)" by (cases p)
  have "list_all printable sv" using assms Some p by (simp add: clean_def)
  then show ?thesis using assms Some p clean_hist [OF assms, of "i + 1"] by (auto simp: ed_newer_def intro!: clean_load clean_nav)
qed (use assms in \<open>simp add: ed_newer_def\<close>)

lemma clean_esc [simp]: "clean (e\<lparr>esc := n\<rparr>) = clean e"
  by (simp add: clean_def ed_line_def)

lemma clean_moves: "clean e \<Longrightarrow> clean (ed_left e)" "clean e \<Longrightarrow> clean (ed_right e)" "clean e \<Longrightarrow> clean (ed_erase e)"
  "clean e \<Longrightarrow> printable ch \<Longrightarrow> clean (ed_insert ch e)"
  by (auto simp: clean_def ed_left_def ed_right_def ed_erase_def ed_insert_def ed_line_def list_all_iff dest: in_set_butlastD split: list.splits)

lemma clean_key:
  assumes e: "clean e" "\<And>i sv. nav e = Some (i, sv) \<Longrightarrow> i < length (hist e)" and k: "editing_key ch"
  shows "clean (ed_key ch e)"
proof -
  have "clean (ed_escape ch e)" using e clean_older [OF e] clean_newer [OF e(1)] clean_moves [OF e(1)] by (simp add: ed_escape_def)
  then show ?thesis using e k clean_older [OF e] clean_newer [OF e(1)] clean_moves [OF e(1)] by (auto simp: ed_key_def editing_key_def)
qed

lemma nav_in_range: "tty_ok t \<Longrightarrow> nav (ed_of t) = Some (i, sv) \<Longrightarrow> i < length (hist (ed_of t))"
  by (auto simp: ed_of_def nav_of_def tty_ok_def hist_ok_def split: if_splits)

lemma tty_send_editing:
  "shown s t \<Longrightarrow> tactive t \<Longrightarrow> tmode t = TTY_MODE_CANONICAL \<Longrightarrow> list_all editing_key ks \<Longrightarrow>
   \<exists>u. tty_send_input d ks t = Inr u \<and> shown s u \<and> edits s t u (fold ed_key ks (ed_of t))"
proof (induction ks arbitrary: t)
  case Nil
  then show ?case by (simp add: edits_same)
next
  case (Cons ch ks)
  obtain v where v: "tty_send_char d ch t = Inr v" "edits s t v (ed_key ch (ed_of t))"
    using edits_key [OF Cons.prems(1,3), of ch d] Cons.prems(4) by auto
  have "clean (ed_key ch (ed_of t))"
    by (rule clean_key) (use Cons.prems nav_in_range in \<open>auto simp: shown_def\<close>)
  then have sv: "shown s v" using v(2) by (simp add: shown_def edits_def)
  obtain u where "tty_send_input d ks v = Inr u" "shown s u" "edits s v u (fold ed_key ks (ed_of v))"
    using Cons.IH [OF sv] Cons.prems v(2) by (auto simp: edits_def)
  then show ?case using v Cons.prems(2) by (auto simp: edits_def)
qed

end
