(* ===== verification/Tty_Read.thy ===== *)
theory Tty_Read
  imports Tty_Edit
begin

section \<open>From the keyboard to the reader\<close>

text \<open>
  The hand-over of a line: \<open>tty_history_push\<close> implements \<open>ed_remember\<close>, \<open>tty_commit_input_line\<close> appends the line to
  the queue of the readers, \<open>tty_read\<close> takes one line from it. The two properties of the terminal follow:
  the array editor refines the abstract one with the screen in step, and a reader gets the line as edited.
\<close>

subsection \<open>The history\<close>

definition rows_of :: "nat list \<Rightarrow> byte list list \<Rightarrow> byte list list" where
  "rows_of lens rows = map (\<lambda>(n, r). take n r) (zip lens rows)"

lemma hist_of_rows:
  "hist_ok t \<Longrightarrow> hist_of t = rows_of (take (command_history_count t) (command_history_len t)) (take (command_history_count t) (command_history t))"
  by (auto simp: hist_of_def rows_of_def hist_ok_def list_eq_iff_nth_eq)

lemma rows_of_append: "length a = length b \<Longrightarrow> rows_of (a @ [n]) (b @ [r]) = rows_of a b @ [take n r]"
  by (simp add: rows_of_def)

lemma rows_of_drop: "rows_of (drop n a) (drop n b) = drop n (rows_of a b)"
  by (simp add: rows_of_def drop_map drop_zip)

lemma lines_equal:
  "n \<le> length a \<Longrightarrow> m \<le> length b \<Longrightarrow> tty_lines_equal a n b m \<longleftrightarrow> take n a = take m b"
proof (cases "n = m")
  case True
  then show "n \<le> length a \<Longrightarrow> m \<le> length b \<Longrightarrow> ?thesis" by (simp add: tty_lines_equal_def list_eq_iff_nth_eq min.absorb2 Ball_def)
next
  case False
  moreover have "n \<le> length a \<Longrightarrow> m \<le> length b \<Longrightarrow> take n a = take m b \<Longrightarrow> n = m" by (drule arg_cong [of _ _ length]) simp
  ultimately show "n \<le> length a \<Longrightarrow> m \<le> length b \<Longrightarrow> ?thesis" by (auto simp: tty_lines_equal_def)
qed

definition room_for_line :: "tty \<Rightarrow> tty" where
  "room_for_line t =
     (if command_history_count t = TTY_COMMAND_HISTORY_DEPTH
      then t\<lparr>command_history := shift_rows (TTY_COMMAND_HISTORY_DEPTH - 1) (command_history t),
             command_history_len := shift_rows (TTY_COMMAND_HISTORY_DEPTH - 1) (command_history_len t),
             command_history_count := command_history_count t - 1\<rparr>
      else t)"

definition store_line :: "nat \<Rightarrow> tty \<Rightarrow> tty" where
  "store_line len t =
     (let slot = command_history_count t
      in tty_history_reset_navigation
           (t\<lparr>command_history := (command_history t)[slot := (copy_prefix len (input_buffer t) (command_history t ! slot))[len := 0]],
              command_history_len := (command_history_len t)[slot := len],
              command_history_count := slot + 1\<rparr>))"

lemma room_for_line_hist:
  assumes ok: "hist_ok t"
  shows "hist_of (room_for_line t) = drop (length (hist_of t) - 15) (hist_of t)"
    and "command_history_count (room_for_line t) < TTY_COMMAND_HISTORY_DEPTH"
    and "hist_ok ((room_for_line t)\<lparr>command_history_cursor := - 1\<rparr>)"
proof -
  have len: "length (command_history t) = 16" "length (command_history_len t) = 16" "command_history_count t \<le> 16" using ok by (auto simp: hist_ok_def)
  show "hist_ok ((room_for_line t)\<lparr>command_history_cursor := - 1\<rparr>)"
    using ok by (auto simp: room_for_line_def hist_ok_def shift_rows_eq list_all_iff dest: in_set_takeD in_set_dropD)
  then have h: "hist_ok (room_for_line t\<lparr>command_history_cursor := - 1\<rparr>)" .
  show "command_history_count (room_for_line t) < TTY_COMMAND_HISTORY_DEPTH" using len by (auto simp: room_for_line_def)
  show "hist_of (room_for_line t) = drop (length (hist_of t) - 15) (hist_of t)"
  proof (cases "command_history_count t = 16")
    case True
    have "hist_of (room_for_line t) = hist_of ((room_for_line t)\<lparr>command_history_cursor := - 1\<rparr>)" by (simp add: hist_of_def)
    also have "\<dots> = rows_of (drop 1 (command_history_len t)) (drop 1 (command_history t))"
      using True len by (simp add: hist_of_rows [OF h]) (simp add: room_for_line_def shift_rows_eq)
    also have "\<dots> = drop 1 (hist_of t)" using True len by (simp only: rows_of_drop hist_of_rows [OF ok]) simp
    finally show ?thesis using True by simp
  qed (use len in \<open>simp add: room_for_line_def\<close>)
qed

lemma store_line_hist:
  assumes ok: "hist_ok (t\<lparr>command_history_cursor := - 1\<rparr>)" and slot: "command_history_count t < TTY_COMMAND_HISTORY_DEPTH"
    and len: "len < TTY_COMMAND_HISTORY_LINE_SIZE" "len \<le> length (input_buffer t)"
  shows "hist_of (store_line len t) = hist_of t @ [take len (input_buffer t)]" and "hist_ok (store_line len t)"
proof -
  let ?n = "command_history_count t" and ?row = "(copy_prefix len (input_buffer t) (command_history t ! command_history_count t))[len := 0]"
  have l: "length (command_history t) = 16" "length (command_history_len t) = 16" "length (command_history t ! ?n) = 256"
    using ok slot by (auto simp: hist_ok_def list_all_length)
  have row: "take len ?row = take len (input_buffer t)" "length ?row = 256" using l len by (simp_all add: copy_prefix_eq)
  show h: "hist_ok (store_line len t)"
    using ok slot len row l unfolding store_line_def Let_def tty_history_reset_navigation_def hist_ok_def
    by (auto simp: list_all_iff dest!: subsetD [OF set_update_subset_insert])
  have "hist_of (store_line len t) = rows_of (take ?n (command_history_len t) @ [len]) (take ?n (command_history t) @ [?row])"
    using slot l by (simp add: hist_of_rows [OF h]) (simp add: store_line_def tty_io take_Suc_conv_app_nth)
  also have "\<dots> = rows_of (take ?n (command_history_len t)) (take ?n (command_history t)) @ [take len (input_buffer t)]"
    using slot l row by (simp add: rows_of_append)
  also have "rows_of (take ?n (command_history_len t)) (take ?n (command_history t)) = hist_of (t\<lparr>command_history_cursor := - 1\<rparr>)"
    by (simp add: hist_of_rows [OF ok])
  finally show "hist_of (store_line len t) = hist_of t @ [take len (input_buffer t)]" by (simp add: hist_of_def)
qed

lemma store_room_fields:
  "input_buffer (room_for_line t) = input_buffer t" "input_len (room_for_line t) = input_len t" "input_cursor (room_for_line t) = input_cursor t"
  "escape_state (room_for_line t) = escape_state t" "tty_rx (room_for_line t) = tty_rx t" "calls_out (room_for_line t) = calls_out t"
  "tmode (room_for_line t) = tmode t" "tactive (room_for_line t) = tactive t"
  "input_buffer (store_line n t) = input_buffer t" "input_len (store_line n t) = input_len t" "input_cursor (store_line n t) = input_cursor t"
  "escape_state (store_line n t) = escape_state t" "tty_rx (store_line n t) = tty_rx t" "calls_out (store_line n t) = calls_out t"
  "nav_of (store_line n t) = None" "tmode (store_line n t) = tmode t" "tactive (store_line n t) = tactive t"
  by (simp_all add: room_for_line_def store_line_def tty_io nav_of_def)

lemma push_eq:
  assumes ok: "line_ok t" "hist_ok t"
  shows "tty_history_push t =
     (let l = take 255 (line_of t) in
      if l = [] \<or> (hist_of t \<noteq> [] \<and> last (hist_of t) = l) then tty_history_reset_navigation t
      else store_line (length l) (room_for_line t))"
proof -
  let ?len = "if input_len t \<ge> TTY_COMMAND_HISTORY_LINE_SIZE then TTY_COMMAND_HISTORY_LINE_SIZE - 1 else input_len t"
  let ?new = "command_history_count t - 1"
  have b: "length (input_buffer t) = 4096" "input_len t < 4096" using ok by (auto simp: line_ok_def)
  have len: "?len = length (take 255 (line_of t))" using ok(1) by (simp add: min_def)
  have buf: "take ?len (input_buffer t) = take 255 (line_of t)"
  proof -
    have "?len = min 255 (input_len t)" by simp
    then show ?thesis by (simp only: line_of_def take_take)
  qed
  have empty: "take 255 (line_of t) = [] \<longleftrightarrow> input_len t = 0" using b by (auto simp: line_of_def)
  have "command_history_count t > 0 \<Longrightarrow>
      tty_lines_equal (command_history t ! ?new) (command_history_len t ! ?new) (input_buffer t) ?len \<longleftrightarrow> last (hist_of t) = take 255 (line_of t)"
    using b hist_slot [OF ok(2), of ?new] buf by (subst lines_equal) (auto simp: last_conv_nth hist_of_def)
  moreover have "hist_of t \<noteq> [] \<longleftrightarrow> command_history_count t > 0" by (simp add: hist_of_def)
  ultimately show ?thesis
    unfolding tty_history_push_def Let_def empty len [symmetric] room_for_line_def [symmetric] store_line_def by auto
qed

lemma push_refines:
  assumes ok: "tty_ok t"
  shows "tty_ok (tty_history_push t)" "ed_of (tty_history_push t) = ed_remember (ed_of t)"
    "line_of (tty_history_push t) = line_of t" "input_len (tty_history_push t) = input_len t" "input_buffer (tty_history_push t) = input_buffer t"
    "input_cursor (tty_history_push t) = input_cursor t" "tty_rx (tty_history_push t) = tty_rx t" "calls_out (tty_history_push t) = calls_out t"
    "tmode (tty_history_push t) = tmode t" "tactive (tty_history_push t) = tactive t"
proof -
  have l: "line_ok t" "hist_ok t" using ok by (auto simp: tty_ok_def)
  let ?l = "take 255 (line_of t)" and ?u = "store_line (length (take 255 (line_of t))) (room_for_line t)"
  have len: "length ?l < TTY_COMMAND_HISTORY_LINE_SIZE" "length ?l \<le> length (input_buffer (room_for_line t))"
    and buf: "take (length ?l) (input_buffer (room_for_line t)) = ?l"
    using l(1) by (auto simp: store_room_fields line_ok_def line_of_def)
  note r = room_for_line_hist [OF l(2)]
  note st = store_line_hist [OF r(3,2) len, unfolded buf r(1)]
  note p = push_eq [OF l, unfolded Let_def]
  show "line_of (tty_history_push t) = line_of t" "input_len (tty_history_push t) = input_len t" "input_buffer (tty_history_push t) = input_buffer t"
    "input_cursor (tty_history_push t) = input_cursor t" "tty_rx (tty_history_push t) = tty_rx t" "calls_out (tty_history_push t) = calls_out t"
    "tmode (tty_history_push t) = tmode t" "tactive (tty_history_push t) = tactive t"
    unfolding p by (simp_all add: store_room_fields line_of_def) (simp_all add: tty_history_reset_navigation_def)
  show "tty_ok (tty_history_push t)"
    unfolding p using ok st(2) by (simp add: tty_ok_def store_room_fields line_ok_def)
  have lu: "line_of ?u = line_of t" by (simp add: line_of_def store_room_fields)
  have e: "ed_line (ed_of t) = line_of t" "hist (ed_of t) = hist_of t" by (simp_all add: ed_line_of) (simp add: ed_of_def)
  show "ed_of (tty_history_push t) = ed_remember (ed_of t)"
    unfolding p ed_remember_def Let_def e using st(1) lu by (simp add: ed_of_def store_room_fields)
qed

subsection \<open>Handing over a line\<close>

lemma produce_all_room:
  "rb_inv b \<Longrightarrow> length (rb_list b) + length xs \<le> rb_capacity b \<Longrightarrow>
   \<exists>b'. produce_all xs b = Inr (True, b') \<and> rb_inv b' \<and> rb_list b' = rb_list b @ xs \<and> rb_capacity b' = rb_capacity b"
proof (induction xs arbitrary: b)
  case (Cons x xs)
  obtain c where c: "produce_ring_buffer b x = Inr (True, c)" "rb_inv c" "rb_list c = rb_list b @ [x]" "rb_capacity c = rb_capacity b"
    using ring.enq_room [OF Cons.prems(1)] Cons.prems(2) by fastforce
  then show ?case using Cons.IH [OF c(2)] Cons.prems(2) by auto
qed simp

lemma produce_all_full:
  "rb_inv b \<Longrightarrow> rb_capacity b < length (rb_list b) + length xs \<Longrightarrow>
   \<exists>b'. produce_all xs b = Inr (False, b') \<and> rb_list b' = rb_list b @ take (rb_capacity b - length (rb_list b)) xs"
proof (induction xs arbitrary: b)
  case Nil
  then show ?case using ring.bound [OF Nil(1)] by simp
next
  case (Cons x xs)
  show ?case
  proof (cases "length (rb_list b) = rb_capacity b")
    case True
    then show ?thesis using ring.enq_full [OF Cons.prems(1) True] by simp
  next
    case False
    then have room: "length (rb_list b) < rb_capacity b" using ring.bound [OF Cons.prems(1)] by simp
    obtain c where c: "produce_ring_buffer b x = Inr (True, c)" "rb_inv c" "rb_list c = rb_list b @ [x]" "rb_capacity c = rb_capacity b"
      using ring.enq_room [OF Cons.prems(1) room] by fastforce
    obtain b' where "produce_all xs c = Inr (False, b')" "rb_list b' = rb_list c @ take (rb_capacity c - length (rb_list c)) xs"
      using Cons.IH [OF c(2)] Cons.prems(2) c by auto
    moreover have "rb_capacity b - length (rb_list b) = Suc (rb_capacity c - length (rb_list c))" using room c(3,4) by simp
    ultimately show ?thesis using c by simp
  qed
qed

lemma line_by_index: "line_ok t \<Longrightarrow> map (\<lambda>i. input_buffer t ! i) [0..<input_len t] = line_of t"
  by (simp add: line_of_def line_ok_def list_eq_iff_nth_eq)

lemma commit_line:
  assumes ok: "tty_ok t" and room: "length (rb_list (tty_rx t)) + input_len t + 1 \<le> rb_capacity (tty_rx t)"
  shows "\<exists>u. tty_commit_input_line 10 t = Inr u \<and> tty_ok u \<and> ed_of u = ed_load [] (ed_remember (ed_of t)) \<and>
           rb_list (tty_rx u) = rb_list (tty_rx t) @ line_of t @ [10] \<and> calls_out u = calls_out t @ [Wake_readers]"
proof -
  let ?p = "tty_history_push t"
  note push = push_refines [OF ok]
  have inv: "rb_inv (tty_rx t)" "line_ok t" "line_ok ?p" using ok push(1) by (auto simp: tty_ok_def)
  have line: "map (\<lambda>i. input_buffer ?p ! i) [0..<input_len ?p] = line_of t" using line_by_index [OF inv(3)] push(3) by simp
  obtain b where b: "produce_all (line_of t) (tty_rx t) = Inr (True, b)" "rb_inv b" "rb_list b = rb_list (tty_rx t) @ line_of t" "rb_capacity b = rb_capacity (tty_rx t)"
    using produce_all_room [OF inv(1), of "line_of t"] room inv(2) by auto
  obtain c where c: "produce_ring_buffer b 10 = Inr (True, c)" "rb_inv c" "rb_list c = rb_list b @ [10]"
    using ring.enq_room [OF b(2)] b(3,4) room inv(1,2) by fastforce
  let ?u = "emit [Wake_readers] (?p\<lparr>tty_rx := c, input_len := 0, input_cursor := 0\<rparr>)"
  have "tty_commit_input_line 10 t = Inr ?u"
    unfolding tty_commit_input_line_def Let_def using line b(1) c(1) by (simp add: push)
  moreover have "tty_ok ?u" using push(1) c(2) by (simp add: tty_ok_def line_ok_def hist_ok_def emit_def)
  moreover have "ed_of ?u = ed_load [] (ed_of ?p)" by (simp add: ed_of_def ed_load_def line_of_def hist_of_def nav_of_def emit_def)
  moreover have "calls_out ?u = calls_out t @ [Wake_readers]" using push(8) by (simp add: emit_def)
  ultimately show ?thesis using c(3) b(3) push(2) by (intro exI [of _ ?u]) simp
qed

text \<open>Without room the beginning of the line is queued and the line stays: the next carriage return queues it again.\<close>

lemma commit_without_room:
  assumes ok: "tty_ok t" and full: "rb_capacity (tty_rx t) < length (rb_list (tty_rx t)) + input_len t"
  shows "\<exists>u. tty_commit_input_line 10 t = Inr u \<and> line_of u = line_of t \<and>
           rb_list (tty_rx u) = rb_list (tty_rx t) @ take (rb_capacity (tty_rx t) - length (rb_list (tty_rx t))) (line_of t)"
proof -
  let ?p = "tty_history_push t"
  note push = push_refines [OF ok]
  have inv: "rb_inv (tty_rx t)" "line_ok t" "line_ok ?p" using ok push(1) by (auto simp: tty_ok_def)
  have line: "map (\<lambda>i. input_buffer ?p ! i) [0..<input_len ?p] = line_of t" using line_by_index [OF inv(3)] push(3) by simp
  obtain b where b: "produce_all (line_of t) (tty_rx t) = Inr (False, b)"
    "rb_list b = rb_list (tty_rx t) @ take (rb_capacity (tty_rx t) - length (rb_list (tty_rx t))) (line_of t)"
    using produce_all_full [OF inv(1), of "line_of t"] full inv(2) by auto
  have "tty_commit_input_line 10 t = Inr (?p\<lparr>tty_rx := b\<rparr>)"
    unfolding tty_commit_input_line_def Let_def using line b(1) by (simp add: push)
  then show ?thesis using b(2) push(4,5) by (simp add: line_of_def)
qed

lemma read_line:
  "rb_inv (tty_rx t) \<Longrightarrow> rb_list (tty_rx t) = l @ 10 # rest \<Longrightarrow> list_all printable l \<Longrightarrow> length l < n \<Longrightarrow>
   \<exists>u. tty_read_loop wake n k t = Inr (l @ [10], u) \<and> rb_list (tty_rx u) = rest"
proof (induction l arbitrary: n t)
  case Nil
  obtain b where "consume_ring_buffer (tty_rx t) = Inr (True, Some 10, b)" "rb_list b = rest"
    using ring.deq_some [OF Nil.prems(1)] Nil.prems(2) by fastforce
  then show ?case using Nil.prems(4) by (cases n) auto
next
  case (Cons x l)
  obtain b where b: "consume_ring_buffer (tty_rx t) = Inr (True, Some x, b)" "rb_inv b" "rb_list b = l @ 10 # rest"
    using ring.deq_some [OF Cons.prems(1)] Cons.prems(2) by fastforce
  obtain m where n: "n = Suc m" "length l < m" using Cons.prems(4) by (cases n) auto
  have "x \<noteq> 4" "x \<noteq> 10" "x \<noteq> 12" using Cons.prems(3) by (auto simp: printable_def)
  then show ?case using Cons.IH [of "t\<lparr>tty_rx := b\<rparr>" m] b n Cons.prems(3) by auto
qed

lemma tty_send_inactive: "\<not> tactive t \<Longrightarrow> tty_send_input d ks t = Inr t"
  by (cases ks) auto

lemma tty_send_append: "tty_send_input d ks t = Inr u \<Longrightarrow> tty_send_input d (ks @ ks') t = tty_send_input d ks' u"
proof (induction ks arbitrary: t)
  case (Cons k ks)
  then show ?case by (cases "tactive t") (auto simp: tty_send_inactive split: sum.splits)
qed simp

lemma shown_init:
  assumes "alloc (8 * 4096) = Some d" "length d = 8 * 4096"
  shows "shown (\<lambda>_. 32, 0) (tty_init alloc)"
proof -
  have "rb_inv (create_ring_buffer alloc 4096)" using create_ring_buffer_inv [where alloc = alloc and c = 4096 and d = d] assms by simp
  moreover have "hist_ok (tty_init alloc)" by (simp add: hist_ok_def tty_init_def list_all_iff)
  moreover have "ed_of (tty_init alloc) = \<lparr>before = [], after = [], hist = [], nav = None, esc = 0\<rparr>"
    by (simp add: ed_of_def tty_init_def line_of_def hist_of_def nav_of_def)
  ultimately show ?thesis
    by (simp add: shown_def tty_ok_def line_ok_def clean_def ed_line_def mirrors_def displays_def row_def line_of_def screen_of_def)
      (simp add: tty_init_def)
qed

lemma enter_key:
  assumes sh: "shown s t" and can: "tmode t = TTY_MODE_CANONICAL" and esc: "escape_state t = 0"
    and room: "length (rb_list (tty_rx t)) + input_len t + 1 \<le> rb_capacity (tty_rx t)"
  shows "\<exists>u. tty_send_char d 0x0D t = Inr u \<and> tty_ok u \<and> ed_of u = ed_load [] (ed_remember (ed_of t)) \<and>
           rb_list (tty_rx u) = rb_list (tty_rx t) @ line_of t @ [10] \<and> mirrors s u"
proof -
  let ?v = "emit [Write [10]] (tty_move_cursor_right (input_len t - input_cursor t) t)"
  have ok: "tty_ok t" using sh by (simp add: shown_def)
  have v: "tty_ok ?v" "ed_of ?v = ed_of t" "line_of ?v = line_of t" "tty_rx ?v = tty_rx t" "input_len ?v = input_len t"
    using ok by (simp_all add: tty_move_cursor_right_def)
  obtain u where u: "tty_commit_input_line 10 ?v = Inr u" "tty_ok u" "ed_of u = ed_load [] (ed_remember (ed_of t))"
    "rb_list (tty_rx u) = rb_list (tty_rx t) @ line_of t @ [10]" "calls_out u = calls_out ?v @ [Wake_readers]"
    using commit_line [OF v(1)] room v by auto
  have "screen_of s u = screen_of s ?v" using u(5) by (simp add: screen_of_def)
  then have scr: "screen_of s u = (\<lambda>_. 32, 0)" by (simp add: put_cell_def)
  have "line_of u = []" using u(3) by (metis ed_line_of ed_line_def ed_load_def append_Nil2 ed.select_convs(1,2) ed.surjective ed.update_convs(1,2))
  moreover have "input_cursor u = 0"
  proof -
    have "input_cursor u \<le> length (line_of u)" using u(2) by (simp add: tty_ok_def line_ok_def line_of_def)
    then show ?thesis using calculation by simp
  qed
  ultimately have "mirrors s u" using scr by (simp add: mirrors_def displays_def row_def)
  then show ?thesis using u can esc by (simp add: tty_send_char_def)
qed

subsection \<open>The properties of the terminal\<close>



text \<open>C17. From the keyboard to the reader: when the queue is empty, the keys of a line followed by a carriage
  return give the next call of \<open>tty_read\<close> exactly the line as it was edited, closed by a newline, without
  sleeping; the editor is left with an empty line on an empty row and the line in its history.\<close>

theorem typed_line_is_read:
  assumes "shown s t" and "tactive t" and "tmode t = TTY_MODE_CANONICAL" and "list_all editing_key ks"
    and e: "e = fold ed_key ks (ed_of t)" "esc e = 0"
    and rx: "rb_list (tty_rx t) = []" "rb_capacity (tty_rx t) = TTY_INPUT_BUFFER_SIZE" and n: "length (ed_line e) < n"
  shows "\<exists>u v. tty_send_input d (ks @ [0x0D]) t = Inr u \<and> tty_ok u \<and> ed_of u = ed_load [] (ed_remember e) \<and>
           displays [] 0 (screen_of s u) \<and>
           tty_read_loop wake n k u = Inr (ed_line e @ [10], v) \<and> rb_list (tty_rx v) = []"
proof -
  obtain w where w: "tty_send_input d ks t = Inr w" "shown s w" "edits s t w e"
    using tty_send_editing [OF assms(1-4)] e(1) by blast
  have ew: "ed_of w = e" "tty_rx w = tty_rx t" "tmode w = TTY_MODE_CANONICAL" "tactive w" "line_ok w" using w(3) assms(2,3) by (auto simp: edits_def tty_ok_def)
  have len: "input_len w < TTY_INPUT_BUFFER_SIZE" using ew(5) by (simp add: line_ok_def)
  have esc: "escape_state w = 0" using e(2) ew(1) by (auto simp: ed_of_def)
  have line: "line_of w = ed_line e" using ew(1) ed_line_of by metis
  obtain u where u: "tty_send_char d 0x0D w = Inr u" "tty_ok u" "ed_of u = ed_load [] (ed_remember e)" "rb_list (tty_rx u) = ed_line e @ [10]" "mirrors s u"
    using enter_key [OF w(2) ew(3) esc, of d] len rx ew line by auto
  have "line_of u = []" using u(3) ed_line_of [of u] by (simp add: ed_line_def ed_load_def)
  then have "input_cursor u = 0" using u(2) by (auto simp: tty_ok_def line_ok_def line_of_def)
  then have scr: "displays [] 0 (screen_of s u)" using u(5) \<open>line_of u = []\<close> by (simp add: mirrors_def)
  have "list_all printable (ed_line e)" using shown_line [OF w(2)] line by simp
  then obtain v where v: "tty_read_loop wake n k u = Inr (ed_line e @ [10], v)" "rb_list (tty_rx v) = []"
    using read_line [of u "ed_line e" "[]" n wake k] u(2,4) n by (auto simp: tty_ok_def)
  have "tty_send_input d (ks @ [0x0D]) t = Inr u" using tty_send_append [OF w(1)] ew(4) u(1) by simp
  then show ?thesis using u(2,3) scr v by blast
qed

theorem typed_line_is_read_witness:
  "\<exists>u v. tty_send_input False ([104, 105, 0x1B, 91, 68, 0x7F, 97] @ [0x0D]) (tty_init (\<lambda>n. Some (replicate n 0))) = Inr u \<and>
     hist (ed_of u) = [[97, 105]] \<and> tty_read_loop (\<lambda>_ t. t) 100 0 u = Inr ([97, 105, 10], v)"
proof -
  let ?t = "tty_init (\<lambda>n. Some (replicate n 0))" and ?ks = "[104, 105, 0x1B, 91, 68, 0x7F, 97] :: byte list"
  let ?e = "\<lparr>before = [97], after = [105], hist = [], nav = None, esc = 0\<rparr> :: ed"
  have sh: "shown (\<lambda>_. 32, 0) ?t" by (rule shown_init) (rule refl, simp)
  have t: "tactive ?t" "tmode ?t = TTY_MODE_CANONICAL" by (simp_all add: tty_init_def)
  have ks: "list_all editing_key ?ks" by (simp add: editing_key_def printable_def)
  have "ed_of ?t = \<lparr>before = [], after = [], hist = [], nav = None, esc = 0\<rparr>"
    by (simp add: ed_of_def tty_init_def line_of_def hist_of_def nav_of_def)
  then have e: "?e = fold ed_key ?ks (ed_of ?t)"
    by (simp add: ed_key_def ed_insert_def ed_erase_def ed_escape_def ed_left_def ed_line_def)
  have rx: "rb_list (tty_rx ?t) = []" "rb_capacity (tty_rx ?t) = TTY_INPUT_BUFFER_SIZE" by (simp_all add: tty_init_def) (simp add: create_ring_buffer_def)
  have n: "length (ed_line ?e) < 100" "esc ?e = 0" by (simp_all add: ed_line_def)
  show ?thesis using typed_line_is_read [OF sh t ks e n(2) rx n(1), of False "\<lambda>_ t. t" 0]
    by (auto simp: ed_line_def ed_load_def ed_remember_def)
qed

end
